(* ===== verification/Prelude.thy ===== *)
theory Prelude
  imports Main "HOL-Library.Word" "HOL-Library.AList" "HOL-Library.Multiset"
begin

text \<open>
  Shared vocabulary of the development.

  \<^item> Bytes, Go strings of bytes and fixed-size arrays: \<open>[32]byte\<close> and friends are byte lists; the
    sizes are part of the well-formedness predicates of the components.
  \<^item> Errors. A Go function that returns \<open>error\<close> becomes a function into \<open>error + 'a\<close>; a function
    that also mutates its receiver becomes a function into \<open>(error + 'a) \<times> 's\<close>, so that what was
    mutated before the error is kept, as in Go. \<open>stackerr.Wrap\<close> only decorates the text of an
    error (\<open>errors.Is\<close> and \<open>errors.As\<close> look through it) and is the identity here. A panic is an
    error value of its own, \<open>ErrPanic\<close>.
  \<^item> \<open>ebind\<close> is the sequence \<open>x, err := f(); if err != nil { return err }; \<dots>\<close>.
  \<^item> Go maps that the code iterates over are association lists with distinct keys
    (\<open>AList.update\<close>, \<open>AList.delete\<close>); maps that are only looked up are HOL maps.
\<close>

section \<open>Bytes and errors\<close>

type_synonym byte = "8 word"
type_synonym bytes = "byte list"
type_synonym hash32 = "byte list"
type_synonym u16 = "16 word"
type_synonym u32 = "32 word"
type_synonym u64 = "64 word"

datatype error =
    ErrNoRows              \<comment> \<open>sql.ErrNoRows\<close>
  | ErrConstraint          \<comment> \<open>SQLite: UNIQUE constraint failed\<close>
  | ErrNotFound            \<comment> \<open>walletmanager.errNotFound\<close>
  | ErrReorg int           \<comment> \<open>walletmanager.reorgError\<close>
  | ErrEOF                 \<comment> \<open>io.EOF\<close>
  | Err string             \<comment> \<open>fmt.Errorf\<close>
  | ErrPanic string        \<comment> \<open>panic\<close>

type_synonym 'a result = "error + 'a"
type_synonym ('a, 's) outcome = "(error + 'a) \<times> 's"

named_theorems codec_simps "simplification rules for encoders and readers"
named_theorems frame "fields an operation leaves unchanged"
named_theorems inv_intros "introduction rules for the invariants of the components"

section \<open>Sequencing fallible, state-passing calls\<close>

definition ebind :: "('a, 's) outcome \<Rightarrow> ('a \<Rightarrow> 's \<Rightarrow> ('b, 's) outcome) \<Rightarrow> ('b, 's) outcome" where
  "ebind r f = (case r of (Inl e, s) \<Rightarrow> (Inl e, s) | (Inr a, s) \<Rightarrow> f a s)"

definition rbind :: "'a result \<Rightarrow> ('a \<Rightarrow> 'b result) \<Rightarrow> 'b result" where
  "rbind r f = (case r of Inl e \<Rightarrow> Inl e | Inr a \<Rightarrow> f a)"

text \<open>A call that only reads the state: its error is the caller's error, the state is kept.\<close>

definition ereads :: "'a result \<Rightarrow> 's \<Rightarrow> ('a, 's) outcome" where
  "ereads r s = (r, s)"

lemma ebind_simps [simp]:
  "ebind (Inl e, s) f = (Inl e, s)"
  "ebind (Inr a, s) f = f a s"
  by (simp_all add: ebind_def)

lemma rbind_simps [simp]:
  "rbind (Inl e) f = Inl e"
  "rbind (Inr a) f = f a"
  by (simp_all add: rbind_def)

lemma ebind_ereads [simp]:
  "ebind (ereads (Inl e) s) f = (Inl e, s)"
  "ebind (ereads (Inr a) s) f = f a s"
  by (simp_all add: ereads_def)

lemma ebind_ok_iff:
  "ebind r f = (Inr b, t) \<longleftrightarrow> (\<exists>a s. r = (Inr a, s) \<and> f a s = (Inr b, t))"
  by (cases r; cases "fst r") (auto simp: ebind_def)

lemma ebind_okE:
  assumes "ebind r f = (Inr b, t)"
  obtains a s where "r = (Inr a, s)" "f a s = (Inr b, t)"
  using assms by (auto simp: ebind_ok_iff)

lemma rbind_ok_iff: "rbind r f = Inr b \<longleftrightarrow> (\<exists>a. r = Inr a \<and> f a = Inr b)"
  by (cases r) auto

lemma ereads_ok_iff [simp]: "ereads r s = (Inr a, t) \<longleftrightarrow> r = Inr a \<and> t = s"
  by (auto simp: ereads_def)

lemma snd_ereads [simp]: "snd (ereads r s) = s"
  by (simp add: ereads_def)

lemma ebind_split:
  "P (ebind r f) \<longleftrightarrow>
     (\<forall>e s. r = (Inl e, s) \<longrightarrow> P (Inl e, s)) \<and> (\<forall>a s. r = (Inr a, s) \<longrightarrow> P (f a s))"
  by (cases r; cases "fst r") auto

text \<open>The calls after a successful one are made with its result only, as termination proofs need.\<close>

lemma ebind_cong [fundef_cong]:
  "r = r' \<Longrightarrow> (\<And>a s. r' = (Inr a, s) \<Longrightarrow> f a s = g a s) \<Longrightarrow> ebind r f = ebind r' g"
  by (auto split: ebind_split)

lemma rbind_cong [fundef_cong]:
  "r = r' \<Longrightarrow> (\<And>a. r' = Inr a \<Longrightarrow> f a = g a) \<Longrightarrow> rbind r f = rbind r' g"
  by (cases r') auto

text \<open>
  The invariant rule: a property of the state that holds after the first call, and that the rest
  keeps whenever the first call succeeded, holds after the sequence, whether it fails or not.
\<close>

lemma ebind_inv [inv_intros]:
  assumes "I (snd r)" "\<And>a s. r = (Inr a, s) \<Longrightarrow> I s \<Longrightarrow> I (snd (f a s))"
  shows "I (snd (ebind r f))"
  using assms by (auto split: ebind_split)

section \<open>Slices\<close>

text \<open>An index expression of Go: out of range it panics.\<close>

definition go_index :: "'a list \<Rightarrow> int \<Rightarrow> 'a result" where
  "go_index xs i = (if 0 \<le> i \<and> i < int (length xs) then Inr (xs ! nat i)
                    else Inl (ErrPanic ''index out of range''))"

lemma go_index_ok [simp]: "n < length xs \<Longrightarrow> go_index xs (int n) = Inr (xs ! n)"
  by (simp add: go_index_def)

lemma go_index_ok_iff: "go_index xs i = Inr x \<longleftrightarrow> 0 \<le> i \<and> nat i < length xs \<and> xs ! nat i = x"
  by (auto simp: go_index_def nat_less_iff)

section \<open>Association lists and tables\<close>

lemma map_of_eq_None_notin: "k \<notin> fst ` set xs \<Longrightarrow> map_of xs k = None"
  by (auto simp: map_of_eq_None_iff)

lemma find_Some_in: "find P xs = Some x \<Longrightarrow> x \<in> set xs \<and> P x"
  by (induction xs) (auto split: if_splits)

lemma find_None_all: "find P xs = None \<longleftrightarrow> (\<forall>x\<in>set xs. \<not> P x)"
  by (induction xs) auto

lemma find_distinct_key:
  assumes "distinct (map k xs)" "x \<in> set xs"
  shows "find (\<lambda>y. k y = k x) xs = Some x"
  using assms by (induction xs) (auto simp: image_iff)

lemma distinct_map_filter_key: "distinct (map k xs) \<Longrightarrow> distinct (map k (filter P xs))"
  by (induction xs) auto

lemma distinct_key_inj:
  "distinct (map k xs) \<Longrightarrow> x \<in> set xs \<Longrightarrow> y \<in> set xs \<Longrightarrow> k x = k y \<Longrightarrow> x = y"
  by (auto simp: distinct_map inj_on_def)

lemma map_of_rows:
  "distinct (map k xs) \<Longrightarrow> x \<in> set xs \<Longrightarrow> map_of (map (\<lambda>r. (k r, v r)) xs) (k x) = Some (v x)"
  by (induction xs) (auto simp: image_iff)

lemma map_of_rows_None:
  "map_of (map (\<lambda>r. (k r, v r)) xs) a = None \<longleftrightarrow> a \<notin> k ` set xs"
  by (induction xs) auto

lemma map_of_rows_filter:
  "map_of (map (\<lambda>r. (k r, v r)) (filter (\<lambda>r. k r \<noteq> a) xs)) =
   (map_of (map (\<lambda>r. (k r, v r)) xs))(a := None)"
  by (induction xs) (auto simp: fun_eq_iff)

lemma map_of_rows_snoc:
  "a \<notin> k ` set xs \<Longrightarrow> k x = a \<Longrightarrow>
   map_of (map (\<lambda>r. (k r, v r)) (xs @ [x])) = (map_of (map (\<lambda>r. (k r, v r)) xs))(a \<mapsto> v x)"
  by (auto simp: fun_eq_iff map_add_def split: option.splits)
    (metis map_of_rows_None option.distinct(1))

lemma sum_list_map_of_eq:
  fixes g :: "'k \<Rightarrow> 'v \<Rightarrow> 'm :: comm_monoid_add"
  assumes "distinct (map fst xs)" "distinct (map fst ys)" "map_of xs = map_of ys"
  shows "sum_list (map (\<lambda>(k, v). g k v) xs) = sum_list (map (\<lambda>(k, v). g k v) ys)"
proof -
  have "set xs = set ys"
    using assms by (metis map_of_inject_set)
  moreover have "distinct xs" "distinct ys"
    using assms(1,2) by (simp_all add: distinct_map)
  ultimately have "mset xs = mset ys"
    by (simp add: set_eq_iff_mset_eq_distinct)
  then show ?thesis
    by (metis mset_map sum_mset_sum_list)
qed

section \<open>Words\<close>

lemma unat_ucast_small:
  fixes s :: "'a::len word"
  assumes "unat s < 2 ^ LENGTH('b)"
  shows "unat (ucast s :: 'b::len word) = unat s"
  using assms by (simp add: unsigned_ucast_eq unsigned_take_bit_eq take_bit_nat_eq_self)

lemma ucast_ucast_small:
  fixes s :: "'a::len word"
  assumes "unat s < 2 ^ LENGTH('b)"
  shows "ucast (ucast s :: 'b::len word) = s"
proof -
  have "unat (ucast s :: 'b word) < 2 ^ LENGTH('a)"
    using assms unsigned_less [of s] by (simp add: unat_ucast_small)
  then have "unat (ucast (ucast s :: 'b word) :: 'a word) = unat s"
    using assms by (simp add: unat_ucast_small)
  then show ?thesis by (simp add: word_unat_eq_iff)
qed

lemma unat_of_nat_small: "n < 2 ^ LENGTH('a) \<Longrightarrow> unat (of_nat n :: 'a::len word) = n"
  by (simp add: unat_of_nat take_bit_nat_eq_self)

end
