(* ===== verification/Sha256.thy ===== *)
theory Sha256
  imports Prelude
begin

text \<open>
  The Go standard library's \<open>crypto/sha256.Sum256\<close>, the hash that the block headers, the
  transaction identifiers, the Merkle trees, the script hashes, the wallet identifiers and the
  Electrum status are made of. It is the SHA-256 of FIPS 180-4: padding to 64-byte blocks, a
  message schedule of 64 words, 64 rounds on eight 32-bit words, all additions wrapping.
  \<open>Sum256\<close> is executable, and no theorem of the development unfolds it: they use
  \<open>length_Sum256\<close> only, so they do not rest on the cryptographic strength of the hash.
\<close>

unbundle bit_operations_syntax

section \<open>Words and functions of the standard\<close>

definition rotr32 :: "nat \<Rightarrow> u32 \<Rightarrow> u32" where
  "rotr32 n x = (drop_bit n x) OR (push_bit (32 - n) x)"

text \<open>The 64 round constants are the first 32 bits of the fractional parts of the cube roots of the
  first 64 primes; a root is computed bit by bit, from the highest bit down.\<close>

fun root_bits :: "nat \<Rightarrow> int \<Rightarrow> nat \<Rightarrow> int \<Rightarrow> int" where
  "root_bits k n 0 r = r"
| "root_bits k n (Suc b) r = root_bits k n b (if (r + 2 ^ b) ^ k \<le> n then r + 2 ^ b else r)"

definition small_primes :: "int list" where
  "small_primes = filter (\<lambda>p. list_all (\<lambda>d. p mod d \<noteq> 0) [2..p - 1]) [2..311]"

definition sha_K :: "u32 list" where
  "sha_K = map (\<lambda>p. of_int (root_bits 3 (p * 2 ^ 96) 36 0)) small_primes"

definition sha_H0 :: "u32 list" where
  "sha_H0 = [0x6a09e667, 0xbb67ae85, 0x3c6ef372, 0xa54ff53a,
             0x510e527f, 0x9b05688c, 0x1f83d9ab, 0x5be0cd19]"

definition big_sigma0 :: "u32 \<Rightarrow> u32" where
  "big_sigma0 x = rotr32 2 x XOR rotr32 13 x XOR rotr32 22 x"

definition big_sigma1 :: "u32 \<Rightarrow> u32" where
  "big_sigma1 x = rotr32 6 x XOR rotr32 11 x XOR rotr32 25 x"

definition small_sigma0 :: "u32 \<Rightarrow> u32" where
  "small_sigma0 x = rotr32 7 x XOR rotr32 18 x XOR drop_bit 3 x"

definition small_sigma1 :: "u32 \<Rightarrow> u32" where
  "small_sigma1 x = rotr32 17 x XOR rotr32 19 x XOR drop_bit 10 x"

section \<open>Padding, schedule, compression\<close>

fun words_of_bytes :: "bytes \<Rightarrow> u32 list" where
  "words_of_bytes (a # b # c # d # r) =
     (push_bit 24 (ucast a) OR push_bit 16 (ucast b) OR push_bit 8 (ucast c) OR ucast d)
     # words_of_bytes r"
| "words_of_bytes _ = []"

definition bytes_of_word :: "u32 \<Rightarrow> bytes" where
  "bytes_of_word w = [ucast (drop_bit 24 w), ucast (drop_bit 16 w), ucast (drop_bit 8 w), ucast w]"

definition bytes_of_len :: "u64 \<Rightarrow> bytes" where
  "bytes_of_len w = map (\<lambda>i. ucast (drop_bit (8 * i) w)) [7, 6, 5, 4, 3, 2, 1, 0]"

definition sha_pad :: "bytes \<Rightarrow> bytes" where
  "sha_pad m = m @ [0x80] @ replicate ((119 - length m mod 64) mod 64) 0
                 @ bytes_of_len (of_nat (8 * length m))"

text \<open>The schedule grows at the front: the word at index \<open>t - k\<close> of the standard is at \<open>k - 1\<close>.\<close>

fun sha_schedule :: "nat \<Rightarrow> u32 list \<Rightarrow> u32 list" where
  "sha_schedule 0 w = rev w"
| "sha_schedule (Suc n) w =
     sha_schedule n ((small_sigma1 (w ! 1) + w ! 6 + small_sigma0 (w ! 14) + w ! 15) # w)"

fun sha_round :: "u32 list \<Rightarrow> u32 \<times> u32 \<Rightarrow> u32 list" where
  "sha_round [a, b, c, d, e, f, g, h] (k, w) =
     (let t1 = h + big_sigma1 e + ((e AND f) XOR (NOT e AND g)) + k + w;
          t2 = big_sigma0 a + ((a AND b) XOR (a AND c) XOR (b AND c))
      in [t1 + t2, a, b, c, d + t1, e, f, g])"
| "sha_round s _ = s"

definition sha_compress :: "u32 list \<Rightarrow> bytes \<Rightarrow> u32 list" where
  "sha_compress h blk =
     map2 (+) h (foldl sha_round h (zip sha_K (sha_schedule 48 (rev (words_of_bytes blk)))))"

fun sha_blocks :: "nat \<Rightarrow> bytes \<Rightarrow> bytes list" where
  "sha_blocks 0 _ = []"
| "sha_blocks (Suc n) xs = take 64 xs # sha_blocks n (drop 64 xs)"

definition Sum256 :: "bytes \<Rightarrow> hash32" where
  "Sum256 m = (let p = sha_pad m in
     concat (map bytes_of_word (foldl sha_compress sha_H0 (sha_blocks (length p div 64) p))))"

section \<open>Sizes\<close>

lemma length_sha_pad: "64 dvd length (sha_pad m)"
proof -
  define q x where "q = length m div 64" and "x = length m mod 64"
  have m: "length m = 64 * q + x" and x: "x < 64"
    by (simp_all add: q_def x_def)
  have "(119 - x) mod 64 = (if x \<le> 55 then 55 - x else 119 - x)"
    using x by (cases "x \<le> 55") (simp_all add: mod_if)
  with x have "length (sha_pad m) = 64 * (if x \<le> 55 then q + 1 else q + 2)"
    by (simp add: sha_pad_def bytes_of_len_def m)
  then show ?thesis by simp
qed

lemma length_sha_round [simp]: "length (sha_round s p) = length s"
  by (induction s p rule: sha_round.induct) (simp_all add: Let_def)

lemma length_foldl_sha_round [simp]: "length (foldl sha_round s ps) = length s"
  by (induction ps arbitrary: s) simp_all

lemma length_sha_compress [simp]: "length (sha_compress h b) = length h"
  by (simp add: sha_compress_def)

lemma length_foldl_sha_compress: "length (foldl sha_compress h bs) = length h"
  by (induction bs arbitrary: h) simp_all

lemma length_concat_bytes_of_word: "length (concat (map bytes_of_word ws)) = 4 * length ws"
  by (induction ws) (simp_all add: bytes_of_word_def)

lemma length_Sum256 [simp]: "length (Sum256 m) = 32"
  by (simp add: Sum256_def Let_def length_concat_bytes_of_word length_foldl_sha_compress sha_H0_def)

section \<open>Collisions\<close>

text \<open>The chain hashes twice. A statement that a digest binds the string it is computed from names the
  two strings that would collide: that some pair of strings collides is true of any function to
  32 bytes and says nothing.\<close>

definition doubleSum256 :: "bytes \<Rightarrow> hash32" where
  "doubleSum256 x = Sum256 (Sum256 x)"

definition collides :: "(bytes \<Rightarrow> hash32) \<Rightarrow> bytes \<Rightarrow> bytes \<Rightarrow> bool" where
  "collides f x y \<longleftrightarrow> x \<noteq> y \<and> f x = f y"

lemma eq_or_collides: "f x = f y \<longleftrightarrow> x = y \<or> collides f x y"
  by (auto simp: collides_def)

end
