(* ===== verification/Codec.thy ===== *)
theory Codec
  imports Sha256
begin

text \<open>
  The byte-level primitives of \<open>vendor/ncody.com/ncgo.git/bitcoin/types.go\<close>: fixed-width integers
  in little and big endian order, Bitcoin's compact sizes, and reading from a \<open>bytes.Reader\<close>.
  A reader is the list of the bytes that are left; a \<open>Deserialize\<close> method is a function from the
  bytes that are left to the value (or the error) and the bytes that remain.

  The locale \<open>wire_codec\<close> is the contract between a \<open>Serialize\<close> and a \<open>Deserialize\<close>: what was
  written is read back and the reader stands right behind it. From this law alone follow that
  encodings are injective, that none is a proper prefix of another, and that a counted
  sequence of values is read back by the loop \<open>for range count\<close>.
\<close>

unbundle bit_operations_syntax

section \<open>Fixed-width integers\<close>

definition uint16SerializeLE :: "u16 \<Rightarrow> bytes" where
  "uint16SerializeLE v = [ucast v, ucast (drop_bit 8 v)]"

definition uint16DeserializeLE :: "bytes \<Rightarrow> u16" where
  "uint16DeserializeLE v = (push_bit 8 (ucast (v ! 1))) OR ucast (v ! 0)"

definition uint16SerializeBE :: "u16 \<Rightarrow> bytes" where
  "uint16SerializeBE v = [ucast (drop_bit 8 v), ucast v]"

definition uint16DeserializeBE :: "bytes \<Rightarrow> u16" where
  "uint16DeserializeBE v = (push_bit 8 (ucast (v ! 0))) OR ucast (v ! 1)"

definition uint32SerializeLE :: "u32 \<Rightarrow> bytes" where
  "uint32SerializeLE v =
     [ucast v, ucast (drop_bit 8 v), ucast (drop_bit 16 v), ucast (drop_bit 24 v)]"

definition uint32DeserializeLE :: "bytes \<Rightarrow> u32" where
  "uint32DeserializeLE v =
     (push_bit 8 (push_bit 8 (push_bit 8 (ucast (v ! 3)) OR ucast (v ! 2)) OR ucast (v ! 1)))
     OR ucast (v ! 0)"

definition uint32SerializeBE :: "u32 \<Rightarrow> bytes" where
  "uint32SerializeBE v =
     [ucast (drop_bit 24 v), ucast (drop_bit 16 v), ucast (drop_bit 8 v), ucast v]"

definition uint32DeserializeBE :: "bytes \<Rightarrow> u32" where
  "uint32DeserializeBE v =
     (push_bit 8 (push_bit 8 (push_bit 8 (ucast (v ! 0)) OR ucast (v ! 1)) OR ucast (v ! 2)))
     OR ucast (v ! 3)"

definition uint64SerializeLE :: "u64 \<Rightarrow> bytes" where
  "uint64SerializeLE v =
     [ucast v, ucast (drop_bit 8 v), ucast (drop_bit 16 v), ucast (drop_bit 24 v),
      ucast (drop_bit 32 v), ucast (drop_bit 40 v), ucast (drop_bit 48 v), ucast (drop_bit 56 v)]"

definition uint64DeserializeLE :: "bytes \<Rightarrow> u64" where
  "uint64DeserializeLE v =
     (push_bit 8 (push_bit 8 (push_bit 8 (push_bit 8 (push_bit 8 (push_bit 8 (push_bit 8
       (ucast (v ! 7)) OR ucast (v ! 6)) OR ucast (v ! 5)) OR ucast (v ! 4)) OR ucast (v ! 3))
       OR ucast (v ! 2)) OR ucast (v ! 1))) OR ucast (v ! 0)"

definition uint64SerializeBE :: "u64 \<Rightarrow> bytes" where
  "uint64SerializeBE v =
     [ucast (drop_bit 56 v), ucast (drop_bit 48 v), ucast (drop_bit 40 v), ucast (drop_bit 32 v),
      ucast (drop_bit 24 v), ucast (drop_bit 16 v), ucast (drop_bit 8 v), ucast v]"

definition uint64DeserializeBE :: "bytes \<Rightarrow> u64" where
  "uint64DeserializeBE v =
     (push_bit 8 (push_bit 8 (push_bit 8 (push_bit 8 (push_bit 8 (push_bit 8 (push_bit 8
       (ucast (v ! 0)) OR ucast (v ! 1)) OR ucast (v ! 2)) OR ucast (v ! 3)) OR ucast (v ! 4))
       OR ucast (v ! 5)) OR ucast (v ! 6))) OR ucast (v ! 7)"

lemma length_uintSerialize [simp]:
  "length (uint16SerializeLE v16) = 2" "length (uint16SerializeBE v16) = 2"
  "length (uint32SerializeLE v32) = 4" "length (uint32SerializeBE v32) = 4"
  "length (uint64SerializeLE v64) = 8" "length (uint64SerializeBE v64) = 8"
  by (simp_all add: uint16SerializeLE_def uint16SerializeBE_def uint32SerializeLE_def
      uint32SerializeBE_def uint64SerializeLE_def uint64SerializeBE_def)

text \<open>One step of the shift-and-or loops: the byte at bit \<open>n\<close> joins the bytes above it.\<close>

lemma join_byte:
  fixes v :: "'a::len word"
  assumes "m = n + 8"
  shows "push_bit 8 (drop_bit m v) OR ucast (ucast (drop_bit n v) :: byte) = drop_bit n v"
  by (rule bit_word_eqI) (auto simp: assms bit_simps not_less algebra_simps dest: le_Suc_ex)

lemma join_byte_0:
  fixes v :: "'a::len word"
  shows "push_bit 8 (drop_bit 8 v) OR ucast (ucast v :: byte) = v"
  using join_byte [of 8 0 v] by simp

lemma top_byte:
  "ucast (ucast (drop_bit 8 v16) :: byte) = drop_bit 8 (v16 :: u16)"
  "ucast (ucast (drop_bit 24 v32) :: byte) = drop_bit 24 (v32 :: u32)"
  "ucast (ucast (drop_bit 56 v64) :: byte) = drop_bit 56 (v64 :: u64)"
  by (rule bit_word_eqI; auto simp: bit_simps dest: bit_imp_le_length)+

lemma uint16_roundtrip [codec_simps]:
  "uint16DeserializeLE (uint16SerializeLE v) = v"
  "uint16DeserializeBE (uint16SerializeBE v) = v"
  by (simp_all add: uint16DeserializeLE_def uint16SerializeLE_def uint16DeserializeBE_def
      uint16SerializeBE_def top_byte join_byte_0)

lemma uint32_roundtrip [codec_simps]:
  "uint32DeserializeLE (uint32SerializeLE v) = v"
  "uint32DeserializeBE (uint32SerializeBE v) = v"
  by (simp_all add: uint32DeserializeLE_def uint32SerializeLE_def uint32DeserializeBE_def
      uint32SerializeBE_def top_byte join_byte join_byte_0)

lemma uint64_roundtrip [codec_simps]:
  "uint64DeserializeLE (uint64SerializeLE v) = v"
  "uint64DeserializeBE (uint64SerializeBE v) = v"
  by (simp_all add: uint64DeserializeLE_def uint64SerializeLE_def uint64DeserializeBE_def
      uint64SerializeBE_def top_byte join_byte join_byte_0)

section \<open>Reading\<close>

text \<open>\<open>bytes.Reader.Read\<close> on a buffer of \<open>n\<close> bytes: end of file on an exhausted reader (also
  for an empty buffer), otherwise as many bytes as there are, at most \<open>n\<close>.\<close>

definition reader_Read :: "nat \<Rightarrow> bytes \<Rightarrow> (bytes, bytes) outcome" where
  "reader_Read n r = (if r = [] then (Inl ErrEOF, r) else (Inr (take n r), drop n r))"

text \<open>The loop of \<open>readAll\<close>: \<open>dest[:count]\<close> is what has been read so far.\<close>

function readAll_loop :: "nat \<Rightarrow> bytes \<Rightarrow> bytes \<Rightarrow> (bytes, bytes) outcome" where
  "readAll_loop target dest r =
     (if length dest < target
      then ebind (reader_Read (target - length dest) r) (\<lambda>d r'. readAll_loop target (dest @ d) r')
      else (Inr dest, r))"
  by pat_completeness auto
termination
proof (relation "measure (\<lambda>(target, dest, r). target - length dest)")
  fix target :: nat and dest d r r' :: bytes
  assume *: "length dest < target" "reader_Read (target - length dest) r = (Inr d, r')"
  then have "d \<noteq> []"
    by (auto simp: reader_Read_def split: if_splits)
  with *(1) show "((target, dest @ d, r'), target, dest, r)
      \<in> measure (\<lambda>(target, dest, r). target - length dest)"
    by (cases d) auto
qed simp

declare readAll_loop.simps [simp del]

definition readAll :: "nat \<Rightarrow> bytes \<Rightarrow> (bytes, bytes) outcome" where
  "readAll n r = readAll_loop n [] r"

lemma readAll_loop_done [simp]: "target \<le> length dest \<Longrightarrow> readAll_loop target dest r = (Inr dest, r)"
  by (simp add: readAll_loop.simps)

lemma readAll_loop_eq:
  assumes "length dest < target"
  shows "readAll_loop target dest r =
    (if target - length dest \<le> length r
     then (Inr (dest @ take (target - length dest) r), drop (target - length dest) r)
     else (Inl ErrEOF, []))"
proof (cases "r = []")
  case True
  with assms show ?thesis by (simp add: readAll_loop.simps reader_Read_def)
next
  case False
  with assms show ?thesis
    by (auto simp: readAll_loop.simps [of target dest r] readAll_loop.simps [of target "dest @ r"]
        reader_Read_def)
qed

text \<open>What the loop computes: \<open>n\<close> bytes, or end of file when fewer are left.\<close>

lemma readAll_eq:
  "readAll n r = (if n \<le> length r then (Inr (take n r), drop n r) else (Inl ErrEOF, []))"
  by (cases n) (simp_all add: readAll_def readAll_loop_eq)

lemma readAll_append [codec_simps]: "length x = n \<Longrightarrow> readAll n (x @ r) = (Inr x, r)"
  by (simp add: readAll_eq)

definition uint16ReadBE :: "bytes \<Rightarrow> (u16, bytes) outcome" where
  "uint16ReadBE r = ebind (readAll 2 r) (\<lambda>buf r. (Inr (uint16DeserializeBE buf), r))"

definition uint32ReadLE :: "bytes \<Rightarrow> (u32, bytes) outcome" where
  "uint32ReadLE r = ebind (readAll 4 r) (\<lambda>buf r. (Inr (uint32DeserializeLE buf), r))"

definition uint64ReadLE :: "bytes \<Rightarrow> (u64, bytes) outcome" where
  "uint64ReadLE r = ebind (readAll 8 r) (\<lambda>buf r. (Inr (uint64DeserializeLE buf), r))"

section \<open>Compact sizes\<close>

definition compactSizeSerialize :: "u64 \<Rightarrow> bytes" where
  "compactSizeSerialize s =
     (if s \<le> 0xFC then [ucast s]
      else if s \<le> 0xFFFF then 0xFD # uint16SerializeLE (ucast s)
      else if s \<le> 0xFFFFFFFF then 0xFE # uint32SerializeLE (ucast s)
      else 0xFF # uint64SerializeLE s)"

definition compactSizeDeserialize :: "bytes \<Rightarrow> u64" where
  "compactSizeDeserialize s =
     (if length s < 1 then 0
      else if s ! 0 = 0xFD then
        (if length s < 3 then 0 else ucast (uint16DeserializeLE (take 2 (drop 1 s))))
      else if s ! 0 = 0xFE then
        (if length s < 5 then 0 else ucast (uint32DeserializeLE (take 4 (drop 1 s))))
      else if s ! 0 = 0xFF then
        (if length s < 9 then 0 else uint64DeserializeLE (take 8 (drop 1 s)))
      else ucast (s ! 0))"

text \<open>
  \<open>compactSizeRead\<close> issues one \<open>Read\<close> for the tag and one for the payload, each of which has to
  return all its bytes; the payload lands in a zeroed nine-byte buffer behind the tag.
\<close>

definition compactSizeRead :: "bytes \<Rightarrow> (u64, bytes) outcome" where
  "compactSizeRead r =
     ebind (reader_Read 1 r) (\<lambda>b r.
       if length b \<noteq> 1 then (Inl (Err ''bad read size''), r)
       else
         let tag = b ! 0;
             target = (if tag = 0xFD then 2 else if tag = 0xFE then 4 else if tag = 0xFF then 8 else 0)
         in if target = 0 then (Inr (ucast tag), r)
            else ebind (reader_Read target r) (\<lambda>d r.
              if length d \<noteq> target then (Inl (Err ''bad read size''), r)
              else (Inr (compactSizeDeserialize (tag # d @ replicate (8 - target) 0)), r)))"

section \<open>Allocation\<close>

text \<open>
  \<open>make([]T, n)\<close> and \<open>make([]T, 0, n)\<close> for a count \<open>n\<close> that was read, with elements of \<open>sz\<close> bytes: the Go runtime panics when
  the slice would be larger than its address space (\<open>maxAlloc\<close>, \<open>2\<^sup>4\<^sup>8\<close> bytes on 64-bit machines). A slice below that for which
  there is no memory is not modelled.
\<close>

definition makeSlice :: "nat \<Rightarrow> u64 \<Rightarrow> bytes \<Rightarrow> (unit, bytes) outcome" where
  "makeSlice sz n r = (if 2 ^ 48 < int sz * uint n then (Inl (ErrPanic ''makeslice: len out of range''), r) else (Inr (), r))"

section \<open>The contract of a serializer and a deserializer\<close>

text \<open>The loop \<open>for range count { \<dots> Deserialize(r) \<dots> append }\<close>.\<close>

fun readN :: "nat \<Rightarrow> (bytes \<Rightarrow> ('a, bytes) outcome) \<Rightarrow> bytes \<Rightarrow> ('a list, bytes) outcome" where
  "readN 0 dec r = (Inr [], r)"
| "readN (Suc n) dec r =
     ebind (dec r) (\<lambda>x r. ebind (readN n dec r) (\<lambda>xs r. (Inr (x # xs), r)))"

lemma readN_length: "readN n dec r = (Inr xs, r') \<Longrightarrow> length xs = n"
  by (induction n arbitrary: r xs r') (auto simp: ebind_ok_iff)

locale wire_codec =
  fixes enc :: "'a \<Rightarrow> bytes" and dec :: "bytes \<Rightarrow> ('a, bytes) outcome" and wf :: "'a \<Rightarrow> bool"
  assumes dec_enc: "wf x \<Longrightarrow> dec (enc x @ r) = (Inr x, r)"
begin

lemma dec_enc_Nil: "wf x \<Longrightarrow> dec (enc x) = (Inr x, [])"
  using dec_enc [of x "[]"] by simp

lemma prefix_free:
  assumes "wf x" "wf y" "enc x @ r = enc y @ r'"
  shows "x = y \<and> r = r'"
proof -
  have "(Inr x, r) = dec (enc y @ r')"
    using dec_enc [OF assms(1), of r] unfolding assms(3) by (rule sym)
  then show ?thesis using dec_enc [OF assms(2), of r'] by simp
qed

lemma enc_inj: "wf x \<Longrightarrow> wf y \<Longrightarrow> enc x = enc y \<Longrightarrow> x = y"
  using prefix_free [of x y "[]" "[]"] by simp

lemma readN_enc:
  "list_all wf xs \<Longrightarrow> n = length xs \<Longrightarrow> readN n dec (concat (map enc xs) @ r) = (Inr xs, r)"
  by (induction xs arbitrary: n) (auto simp: dec_enc)

lemma concat_enc_inj:
  assumes "list_all wf xs" "list_all wf ys" "length xs = length ys"
    "concat (map enc xs) = concat (map enc ys)"
  shows "xs = ys"
  using readN_enc [OF assms(1), of "length xs" "[]"] readN_enc [OF assms(2), of "length ys" "[]"] assms
  by simp

end

section \<open>The primitives keep the contract\<close>

interpretation u16be: wire_codec uint16SerializeBE uint16ReadBE "\<lambda>_. True"
  by unfold_locales (simp add: uint16ReadBE_def codec_simps)

interpretation u32le: wire_codec uint32SerializeLE uint32ReadLE "\<lambda>_. True"
  by unfold_locales (simp add: uint32ReadLE_def codec_simps)

interpretation u64le: wire_codec uint64SerializeLE uint64ReadLE "\<lambda>_. True"
  by unfold_locales (simp add: uint64ReadLE_def codec_simps)

lemma compactSizeRead_small:
  assumes "s \<le> 0xFC"
  shows "compactSizeRead (ucast s # r) = (Inr s, r)"
proof -
  have "unat s \<le> 252" using assms by (simp add: word_le_nat_alt)
  then have "unat (ucast s :: byte) = unat s" "ucast (ucast s :: byte) = s"
    by (simp_all add: unat_ucast_small ucast_ucast_small)
  with \<open>unat s \<le> 252\<close> have "(ucast s :: byte) \<noteq> 0xFD" "(ucast s :: byte) \<noteq> 0xFE" "(ucast s :: byte) \<noteq> 0xFF"
    by (auto simp: word_unat_eq_iff)
  with \<open>ucast (ucast s :: byte) = s\<close> show ?thesis
    by (simp add: compactSizeRead_def reader_Read_def)
qed

lemma compactSizeRead_tagged:
  assumes "tag = 0xFD \<and> length d = 2 \<or> tag = 0xFE \<and> length d = 4 \<or> tag = 0xFF \<and> length d = 8"
  shows "compactSizeRead (tag # d @ r) =
    (Inr (compactSizeDeserialize (tag # d @ replicate (8 - length d) 0)), r)"
proof -
  have "d \<noteq> []" using assms by auto
  with assms show ?thesis
    by (elim disjE conjE) (simp_all add: compactSizeRead_def reader_Read_def)
qed

lemma compactSize_dec_enc: "compactSizeRead (compactSizeSerialize s @ r) = (Inr s, r)"
proof -
  consider "s \<le> 0xFC" | "\<not> s \<le> 0xFC" "s \<le> 0xFFFF"
    | "\<not> s \<le> 0xFFFF" "s \<le> 0xFFFFFFFF" | "\<not> s \<le> 0xFFFFFFFF" by blast
  then show ?thesis
  proof cases
    case 1
    then show ?thesis by (simp add: compactSizeSerialize_def compactSizeRead_small)
  next
    case 2
    then have "unat s < 2 ^ 16" by (simp add: word_le_nat_alt)
    with 2 show ?thesis
      by (simp add: compactSizeSerialize_def compactSizeRead_tagged compactSizeDeserialize_def
          codec_simps ucast_ucast_small)
  next
    case 3
    then have "unat s < 2 ^ 32" "\<not> s \<le> 0xFC" by (simp_all add: word_le_nat_alt)
    with 3 show ?thesis
      by (simp add: compactSizeSerialize_def compactSizeRead_tagged compactSizeDeserialize_def
          codec_simps ucast_ucast_small)
  next
    case 4
    then have "\<not> s \<le> 0xFC" "\<not> s \<le> 0xFFFF" by (simp_all add: word_le_nat_alt)
    with 4 show ?thesis
      by (simp add: compactSizeSerialize_def compactSizeRead_tagged compactSizeDeserialize_def
          codec_simps)
  qed
qed

interpretation csize: wire_codec compactSizeSerialize compactSizeRead "\<lambda>_. True"
  by unfold_locales (rule compactSize_dec_enc)

section \<open>Properties\<close>

text \<open>A compact size that is written is read back, and the reader stands right behind it: for every
  64-bit value, in the one, three, five and nine byte forms (\<open>compactSizeSerialize\<close>,
  \<open>compactSizeRead\<close>). No encoding is a proper prefix of another.\<close>

theorem compactSize_roundtrip:
  "compactSizeRead (compactSizeSerialize s @ r) = (Inr s, r)
   \<and> (compactSizeSerialize s @ r = compactSizeSerialize s' @ r' \<longleftrightarrow> s = s' \<and> r = r')"
  using csize.dec_enc [of s r] csize.prefix_free by blast

end
