(* ===== verification/BitcoinTypes.thy ===== *)
theory BitcoinTypes
  imports Codec
begin

text \<open>
  The consensus data types of \<open>vendor/ncody.com/ncgo.git/bitcoin/types.go\<close>: block headers,
  transactions (legacy and segregated witness) and blocks, with their \<open>Serialize\<close>,
  \<open>Deserialize\<close>, \<open>Hash\<close> and \<open>Txid\<close> methods. \<open>Serialize\<close> is modelled by the bytes it appends to
  its buffer. A \<open>wf_\<close> predicate says which values are in the image of \<open>Deserialize\<close>: arrays of
  their fixed size, count and size fields equal to the lengths they count.

  Every pair keeps the \<open>wire_codec\<close> contract, so reading back what was written gives the value and
  leaves the reader right behind it. A count for which no slice can be allocated is a panic
  (\<open>makeSlice\<close>); the sizes of the elements are those of the structs on 64-bit machines.
\<close>

section \<open>Transactions\<close>

record Input =
  i_Txid :: hash32
  i_Vout :: u32
  i_ScriptSigSize :: u64
  i_ScriptSig :: bytes
  i_Sequence :: u32

record Output =
  o_Amount :: u64
  o_ScriptPubKeySize :: u64
  o_ScriptPubkey :: bytes

record stackItem =
  si_Size :: u64
  si_Item :: bytes

record Witness =
  w_StackItemCount :: u64
  w_StackItems :: "stackItem list"

record Transaction =
  t_Version :: u32
  t_Marker :: byte
  t_Flag :: byte
  t_InputCount :: u64
  t_Inputs :: "Input list"
  t_OutputCount :: u64
  t_Outputs :: "Output list"
  t_Witness :: "Witness list"
  t_Locktime :: u32

definition Input_Deserialize :: "bytes \<Rightarrow> (Input, bytes) outcome" where
  "Input_Deserialize r =
     ebind (readAll 32 r) (\<lambda>txid r.
     ebind (uint32ReadLE r) (\<lambda>vout r.
     ebind (compactSizeRead r) (\<lambda>size r.
     ebind (makeSlice 1 size r) (\<lambda>_ r.
     ebind (readAll (unat size) r) (\<lambda>sig r.
     ebind (uint32ReadLE r) (\<lambda>seq r.
     (Inr \<lparr>i_Txid = txid, i_Vout = vout, i_ScriptSigSize = size, i_ScriptSig = sig,
           i_Sequence = seq\<rparr>, r)))))))"

definition Input_Serialize :: "Input \<Rightarrow> bytes" where
  "Input_Serialize i =
     i_Txid i @ uint32SerializeLE (i_Vout i)
     @ compactSizeSerialize (of_nat (length (i_ScriptSig i))) @ i_ScriptSig i
     @ uint32SerializeLE (i_Sequence i)"

definition Output_Deserialize :: "bytes \<Rightarrow> (Output, bytes) outcome" where
  "Output_Deserialize r =
     ebind (uint64ReadLE r) (\<lambda>amount r.
     ebind (compactSizeRead r) (\<lambda>size r.
     ebind (makeSlice 1 size r) (\<lambda>_ r.
     ebind (readAll (unat size) r) (\<lambda>spk r.
     (Inr \<lparr>o_Amount = amount, o_ScriptPubKeySize = size, o_ScriptPubkey = spk\<rparr>, r)))))"

definition Output_Serialize :: "Output \<Rightarrow> bytes" where
  "Output_Serialize o' =
     uint64SerializeLE (o_Amount o')
     @ compactSizeSerialize (of_nat (length (o_ScriptPubkey o'))) @ o_ScriptPubkey o'"

definition stackItem_Deserialize :: "bytes \<Rightarrow> (stackItem, bytes) outcome" where
  "stackItem_Deserialize r =
     ebind (compactSizeRead r) (\<lambda>size r.
     ebind (makeSlice 1 size r) (\<lambda>_ r.
     ebind (readAll (unat size) r) (\<lambda>item r.
     (Inr \<lparr>si_Size = size, si_Item = item\<rparr>, r))))"

definition stackItem_Serialize :: "stackItem \<Rightarrow> bytes" where
  "stackItem_Serialize s = compactSizeSerialize (of_nat (length (si_Item s))) @ si_Item s"

definition Witness_Deserialize :: "bytes \<Rightarrow> (Witness, bytes) outcome" where
  "Witness_Deserialize r =
     ebind (compactSizeRead r) (\<lambda>count r.
     ebind (makeSlice 32 count r) (\<lambda>_ r.
     ebind (readN (unat count) stackItem_Deserialize r) (\<lambda>items r.
     (Inr \<lparr>w_StackItemCount = count, w_StackItems = items\<rparr>, r))))"

definition Witness_Serialize :: "Witness \<Rightarrow> bytes" where
  "Witness_Serialize w =
     compactSizeSerialize (of_nat (length (w_StackItems w)))
     @ concat (map stackItem_Serialize (w_StackItems w))"

text \<open>The part of \<open>Transaction.Deserialize\<close> behind the marker: \<open>segwit\<close> and \<open>flag\<close> are what the
  marker decided, \<open>icount\<close> the number of inputs.\<close>

definition Transaction_Deserialize_body ::
  "u32 \<Rightarrow> bool \<Rightarrow> byte \<Rightarrow> u64 \<Rightarrow> bytes \<Rightarrow> (Transaction, bytes) outcome" where
  "Transaction_Deserialize_body ver segwit flag icount r =
     ebind (makeSlice 80 icount r) (\<lambda>_ r.
     ebind (readN (unat icount) Input_Deserialize r) (\<lambda>ins r.
     ebind (compactSizeRead r) (\<lambda>ocount r.
     ebind (makeSlice 40 ocount r) (\<lambda>_ r.
     ebind (readN (unat ocount) Output_Deserialize r) (\<lambda>outs r.
     ebind (if segwit then ebind (makeSlice 32 icount r) (\<lambda>_ r. readN (unat icount) Witness_Deserialize r) else (Inr [], r)) (\<lambda>wits r.
     ebind (uint32ReadLE r) (\<lambda>lock r.
     (Inr \<lparr>t_Version = ver, t_Marker = 0, t_Flag = flag, t_InputCount = icount, t_Inputs = ins,
           t_OutputCount = ocount, t_Outputs = outs, t_Witness = wits, t_Locktime = lock\<rparr>, r))))))))"

definition Transaction_Deserialize :: "bytes \<Rightarrow> (Transaction, bytes) outcome" where
  "Transaction_Deserialize r =
     ebind (uint32ReadLE r) (\<lambda>ver r.
     ebind (compactSizeRead r) (\<lambda>markerOrVinCount r.
     if markerOrVinCount = 0 then
       ebind (reader_Read 1 r) (\<lambda>b r.
       if length b \<noteq> 1 then (Inl (Err ''bad length''), r)
       else if b ! 0 \<noteq> 1 then (Inl (Err ''bad flag''), r)
       else ebind (compactSizeRead r) (\<lambda>icount r.
         Transaction_Deserialize_body ver True (b ! 0) icount r))
     else Transaction_Deserialize_body ver False 0 markerOrVinCount r))"

definition Transaction_Serialize :: "Transaction \<Rightarrow> bytes" where
  "Transaction_Serialize t =
     (let isSegwit = (t_Flag t = 1) in
      uint32SerializeLE (t_Version t)
      @ (if isSegwit then [t_Marker t, t_Flag t] else [])
      @ compactSizeSerialize (of_nat (length (t_Inputs t))) @ concat (map Input_Serialize (t_Inputs t))
      @ compactSizeSerialize (of_nat (length (t_Outputs t))) @ concat (map Output_Serialize (t_Outputs t))
      @ (if isSegwit then concat (map Witness_Serialize (t_Witness t)) else [])
      @ uint32SerializeLE (t_Locktime t))"

definition serializeForTxid :: "Transaction \<Rightarrow> bytes" where
  "serializeForTxid t =
     uint32SerializeLE (t_Version t)
     @ compactSizeSerialize (of_nat (length (t_Inputs t))) @ concat (map Input_Serialize (t_Inputs t))
     @ compactSizeSerialize (of_nat (length (t_Outputs t))) @ concat (map Output_Serialize (t_Outputs t))
     @ uint32SerializeLE (t_Locktime t)"

definition Txid :: "Transaction \<Rightarrow> hash32" where
  "Txid t = Sum256 (Sum256 (serializeForTxid t))"

section \<open>Headers and blocks\<close>

record Header =
  h_BlockVersion :: u32
  h_PreviousBlock :: hash32
  h_MerkleRoot :: hash32
  h_Timestamp :: u32
  h_NBits :: u32
  h_Nonce :: u32

text \<open>A header of a \<open>headers\<close> message is followed by a transaction count of one byte, which
  \<open>Deserialize\<close> skips and \<open>Serialize\<close> writes as zero.\<close>

definition Header_Deserialize :: "bytes \<Rightarrow> (Header, bytes) outcome" where
  "Header_Deserialize r =
     ebind (uint32ReadLE r) (\<lambda>ver r.
     ebind (readAll 32 r) (\<lambda>prev r.
     ebind (readAll 32 r) (\<lambda>root r.
     ebind (uint32ReadLE r) (\<lambda>ts r.
     ebind (uint32ReadLE r) (\<lambda>nbits r.
     ebind (uint32ReadLE r) (\<lambda>nonce r.
     ebind (readAll 1 r) (\<lambda>_ r.
     (Inr \<lparr>h_BlockVersion = ver, h_PreviousBlock = prev, h_MerkleRoot = root, h_Timestamp = ts,
           h_NBits = nbits, h_Nonce = nonce\<rparr>, r))))))))"

text \<open>The 80 bytes that are hashed.\<close>

definition Header_bytes80 :: "Header \<Rightarrow> bytes" where
  "Header_bytes80 h =
     uint32SerializeLE (h_BlockVersion h) @ h_PreviousBlock h @ h_MerkleRoot h
     @ uint32SerializeLE (h_Timestamp h) @ uint32SerializeLE (h_NBits h)
     @ uint32SerializeLE (h_Nonce h)"

definition Header_Serialize :: "Header \<Rightarrow> bytes" where
  "Header_Serialize h = Header_bytes80 h @ [0]"

definition Header_Hash :: "Header \<Rightarrow> hash32" where
  "Header_Hash h = Sum256 (Sum256 (Header_bytes80 h))"

record Block =
  b_Version :: u32
  b_PreviousBlock :: hash32
  b_MerkleRoot :: hash32
  b_Time :: u32
  b_Bits :: u32
  b_Nonce :: u32
  b_TransactionCount :: u64
  b_Transactions :: "Transaction list"

definition Block_Deserialize :: "bytes \<Rightarrow> (Block, bytes) outcome" where
  "Block_Deserialize r =
     ebind (uint32ReadLE r) (\<lambda>ver r.
     ebind (readAll 32 r) (\<lambda>prev r.
     ebind (readAll 32 r) (\<lambda>root r.
     ebind (uint32ReadLE r) (\<lambda>time r.
     ebind (uint32ReadLE r) (\<lambda>bits r.
     ebind (uint32ReadLE r) (\<lambda>nonce r.
     ebind (compactSizeRead r) (\<lambda>count r.
     ebind (makeSlice 104 count r) (\<lambda>_ r.
     ebind (readN (unat count) Transaction_Deserialize r) (\<lambda>txs r.
     (Inr \<lparr>b_Version = ver, b_PreviousBlock = prev, b_MerkleRoot = root, b_Time = time,
           b_Bits = bits, b_Nonce = nonce, b_TransactionCount = count, b_Transactions = txs\<rparr>, r))))))))))"

definition Block_bytes80 :: "Block \<Rightarrow> bytes" where
  "Block_bytes80 b =
     uint32SerializeLE (b_Version b) @ b_PreviousBlock b @ b_MerkleRoot b
     @ uint32SerializeLE (b_Time b) @ uint32SerializeLE (b_Bits b) @ uint32SerializeLE (b_Nonce b)"

definition Block_Serialize :: "Block \<Rightarrow> bytes" where
  "Block_Serialize b =
     Block_bytes80 b @ compactSizeSerialize (of_nat (length (b_Transactions b)))
     @ concat (map Transaction_Serialize (b_Transactions b))"

definition Block_Hash :: "Block \<Rightarrow> hash32" where
  "Block_Hash b = Sum256 (Sum256 (Block_bytes80 b))"

definition TXIDs :: "Block \<Rightarrow> hash32 list" where
  "TXIDs b = map Txid (b_Transactions b)"

section \<open>Well-formed values\<close>

text \<open>A count field and its list, whose elements take \<open>sz\<close> bytes each and can be allocated.\<close>

definition counts :: "nat \<Rightarrow> u64 \<Rightarrow> 'a list \<Rightarrow> bool" where
  "counts sz n xs \<longleftrightarrow> unat n = length xs \<and> int sz * int (length xs) \<le> 2 ^ 48"

definition wf_Input :: "Input \<Rightarrow> bool" where
  "wf_Input i \<longleftrightarrow> length (i_Txid i) = 32 \<and> counts 1 (i_ScriptSigSize i) (i_ScriptSig i)"

definition wf_Output :: "Output \<Rightarrow> bool" where
  "wf_Output o' \<longleftrightarrow> counts 1 (o_ScriptPubKeySize o') (o_ScriptPubkey o')"

definition wf_stackItem :: "stackItem \<Rightarrow> bool" where
  "wf_stackItem s \<longleftrightarrow> counts 1 (si_Size s) (si_Item s)"

definition wf_Witness :: "Witness \<Rightarrow> bool" where
  "wf_Witness w \<longleftrightarrow> counts 32 (w_StackItemCount w) (w_StackItems w) \<and> list_all wf_stackItem (w_StackItems w)"

text \<open>A transaction has a zero marker. With the flag set it has one witness per input; without,
  it has no witness and at least one input (a count of zero inputs reads as the marker).\<close>

definition wf_Transaction :: "Transaction \<Rightarrow> bool" where
  "wf_Transaction t \<longleftrightarrow>
     t_Marker t = 0 \<and> counts 80 (t_InputCount t) (t_Inputs t) \<and> list_all wf_Input (t_Inputs t)
     \<and> counts 40 (t_OutputCount t) (t_Outputs t) \<and> list_all wf_Output (t_Outputs t)
     \<and> list_all wf_Witness (t_Witness t)
     \<and> (if t_Flag t = 1 then length (t_Witness t) = length (t_Inputs t)
        else t_Flag t = 0 \<and> t_Witness t = [] \<and> t_Inputs t \<noteq> [])"

definition wf_Header :: "Header \<Rightarrow> bool" where
  "wf_Header h \<longleftrightarrow> length (h_PreviousBlock h) = 32 \<and> length (h_MerkleRoot h) = 32"

definition wf_Block :: "Block \<Rightarrow> bool" where
  "wf_Block b \<longleftrightarrow> length (b_PreviousBlock b) = 32 \<and> length (b_MerkleRoot b) = 32
     \<and> counts 104 (b_TransactionCount b) (b_Transactions b) \<and> list_all wf_Transaction (b_Transactions b)"

section \<open>The contract holds\<close>

lemma counts_iff: "counts sz n xs \<longleftrightarrow> of_nat (length xs) = n \<and> unat n = length xs \<and> int sz * uint n \<le> 2 ^ 48"
proof -
  have "uint n = int (unat n)" "of_nat (unat n) = n" by simp_all
  then show ?thesis unfolding counts_def by metis
qed

lemma makeSlice_ok: "int sz * uint n \<le> 2 ^ 48 \<Longrightarrow> makeSlice sz n r = (Inr (), r)"
  by (simp add: makeSlice_def)

lemma makeSlice_smaller: "int sz * uint n \<le> 2 ^ 48 \<Longrightarrow> sz' \<le> sz \<Longrightarrow> makeSlice sz' n r = (Inr (), r)"
  using mult_right_mono [of "int sz'" "int sz" "uint n"] by (intro makeSlice_ok) simp

lemmas prim_dec_enc = csize.dec_enc u32le.dec_enc u64le.dec_enc u16be.dec_enc

interpretation input_codec: wire_codec Input_Serialize Input_Deserialize wf_Input
  by unfold_locales
    (simp add: Input_Serialize_def Input_Deserialize_def wf_Input_def counts_iff prim_dec_enc codec_simps makeSlice_ok)

interpretation output_codec: wire_codec Output_Serialize Output_Deserialize wf_Output
  by unfold_locales
    (simp add: Output_Serialize_def Output_Deserialize_def wf_Output_def counts_iff prim_dec_enc codec_simps makeSlice_ok)

interpretation item_codec: wire_codec stackItem_Serialize stackItem_Deserialize wf_stackItem
  by unfold_locales
    (simp add: stackItem_Serialize_def stackItem_Deserialize_def wf_stackItem_def counts_iff
      prim_dec_enc codec_simps makeSlice_ok)

interpretation witness_codec: wire_codec Witness_Serialize Witness_Deserialize wf_Witness
  by unfold_locales
    (simp add: Witness_Serialize_def Witness_Deserialize_def wf_Witness_def counts_iff
      prim_dec_enc item_codec.readN_enc makeSlice_ok)

lemma Transaction_body_dec_enc:
  assumes "wf_Transaction t" "segwit = (t_Flag t = 1)"
  shows "Transaction_Deserialize_body (t_Version t) segwit (t_Flag t) (t_InputCount t)
     (concat (map Input_Serialize (t_Inputs t))
      @ compactSizeSerialize (of_nat (length (t_Outputs t))) @ concat (map Output_Serialize (t_Outputs t))
      @ (if segwit then concat (map Witness_Serialize (t_Witness t)) else [])
      @ uint32SerializeLE (t_Locktime t) @ r) = (Inr t, r)"
  using assms
  by (auto simp: Transaction_Deserialize_body_def wf_Transaction_def counts_iff prim_dec_enc
      input_codec.readN_enc output_codec.readN_enc witness_codec.readN_enc makeSlice_ok makeSlice_smaller [where sz' = 32 and sz = 80])

lemma compactSizeRead_0 [simp]: "compactSizeRead (0 # r) = (Inr 0, r)"
  using compactSizeRead_small [of 0 r] by simp

lemma Transaction_dec_enc:
  assumes "wf_Transaction t"
  shows "Transaction_Deserialize (Transaction_Serialize t @ r) = (Inr t, r)"
proof (cases "t_Flag t = 1")
  case True
  then show ?thesis
    using Transaction_body_dec_enc [OF assms, of True r] assms
    by (simp add: Transaction_Deserialize_def Transaction_Serialize_def reader_Read_def
        wf_Transaction_def counts_iff prim_dec_enc)
next
  case False
  then have "t_InputCount t \<noteq> 0" "t_Flag t = 0"
    using assms by (auto simp: wf_Transaction_def counts_def)
  then show ?thesis
    using Transaction_body_dec_enc [OF assms, of False r] assms
    by (simp add: Transaction_Deserialize_def Transaction_Serialize_def wf_Transaction_def
        counts_iff prim_dec_enc)
qed

interpretation tx_codec: wire_codec Transaction_Serialize Transaction_Deserialize wf_Transaction
  by unfold_locales (rule Transaction_dec_enc)

interpretation header_codec: wire_codec Header_Serialize Header_Deserialize wf_Header
  by unfold_locales
    (simp add: Header_Serialize_def Header_bytes80_def Header_Deserialize_def wf_Header_def
      prim_dec_enc codec_simps readAll_eq)

interpretation block_codec: wire_codec Block_Serialize Block_Deserialize wf_Block
  by unfold_locales
    (simp add: Block_Serialize_def Block_bytes80_def Block_Deserialize_def wf_Block_def counts_iff
      prim_dec_enc codec_simps tx_codec.readN_enc makeSlice_ok)

lemma length_Txid [simp]: "length (Txid t) = 32"
  by (simp add: Txid_def)

lemma length_Header_Hash [simp]: "length (Header_Hash h) = 32"
  by (simp add: Header_Hash_def)

lemma length_Block_Hash [simp]: "length (Block_Hash b) = 32"
  by (simp add: Block_Hash_def)

lemma length_Header_bytes80: "wf_Header h \<Longrightarrow> length (Header_bytes80 h) = 80"
  by (simp add: wf_Header_def Header_bytes80_def)

section \<open>What a transaction identifier binds\<close>

definition strip_witness :: "Transaction \<Rightarrow> Transaction" where
  "strip_witness t = t\<lparr>t_Flag := 0, t_Witness := []\<rparr>"

lemma serializeForTxid_strip: "serializeForTxid t = Transaction_Serialize (strip_witness t)"
  by (simp add: serializeForTxid_def Transaction_Serialize_def strip_witness_def)

lemma wf_strip_witness: "wf_Transaction t \<Longrightarrow> t_Inputs t \<noteq> [] \<Longrightarrow> wf_Transaction (strip_witness t)"
  by (simp add: wf_Transaction_def strip_witness_def)

lemma serializeForTxid_inj:
  assumes "wf_Transaction t" "t_Inputs t \<noteq> []" "wf_Transaction t'" "t_Inputs t' \<noteq> []"
    and "serializeForTxid t = serializeForTxid t'"
  shows "strip_witness t = strip_witness t'"
  using tx_codec.enc_inj [OF wf_strip_witness wf_strip_witness] assms by (simp add: serializeForTxid_strip)

definition sample_tx :: Transaction where
  "sample_tx = \<lparr>t_Version = 2, t_Marker = 0, t_Flag = 1, t_InputCount = 1,
     t_Inputs = [\<lparr>i_Txid = replicate 32 7, i_Vout = 1, i_ScriptSigSize = 0, i_ScriptSig = [], i_Sequence = 0\<rparr>],
     t_OutputCount = 1, t_Outputs = [\<lparr>o_Amount = 5000, o_ScriptPubKeySize = 2, o_ScriptPubkey = [0x51, 0x20]\<rparr>],
     t_Witness = [\<lparr>w_StackItemCount = 1, w_StackItems = [\<lparr>si_Size = 1, si_Item = [9]\<rparr>]\<rparr>], t_Locktime = 0\<rparr>"

definition sample_block :: Block where
  "sample_block = \<lparr>b_Version = 1, b_PreviousBlock = replicate 32 1, b_MerkleRoot = replicate 32 2, b_Time = 3,
     b_Bits = 4, b_Nonce = 5, b_TransactionCount = 1, b_Transactions = [sample_tx]\<rparr>"

lemma wf_sample_tx: "wf_Transaction sample_tx"
  by (simp add: sample_tx_def wf_Transaction_def counts_def wf_Input_def wf_Output_def wf_Witness_def wf_stackItem_def)

lemma wf_sample_block: "wf_Block sample_block"
  by (simp add: sample_block_def wf_Block_def counts_def wf_sample_tx)

section \<open>Properties\<close>

text \<open>C35. A transaction that is written is read back and the reader stands right behind it, for both the
  legacy and the segregated witness form (\<open>Transaction.Serialize\<close>, \<open>Transaction.Deserialize\<close>).\<close>

theorem Transaction_roundtrip:
  assumes "wf_Transaction t"
  shows "Transaction_Deserialize (Transaction_Serialize t @ r) = (Inr t, r)"
  by (rule tx_codec.dec_enc [OF assms])

theorem Transaction_roundtrip_witness:
  "Transaction_Deserialize (Transaction_Serialize sample_tx @ [1, 2]) = (Inr sample_tx, [1, 2])"
  by (rule Transaction_roundtrip [OF wf_sample_tx])

text \<open>A block that is written is read back, with all its transactions (\<open>Block.Serialize\<close>,
  \<open>Block.Deserialize\<close>), so two different well-formed blocks have different encodings.\<close>

theorem Block_roundtrip:
  assumes "wf_Block b"
  shows "Block_Deserialize (Block_Serialize b @ r) = (Inr b, r)
    \<and> (wf_Block b' \<and> Block_Serialize b' = Block_Serialize b \<longrightarrow> b' = b)"
  using block_codec.dec_enc [OF assms] block_codec.enc_inj [OF _ assms, of b'] by blast

theorem Block_roundtrip_witness:
  "Block_Deserialize (Block_Serialize sample_block @ [7]) = (Inr sample_block, [7])"
  using Block_roundtrip [OF wf_sample_block] by blast

text \<open>C36. A transaction identifier binds everything but the witness: for transactions with inputs, two
  identifiers are equal exactly when the transactions agree on version, inputs, outputs and lock
  time, or when their two serialisations without witness, named here, are a collision of double
  SHA-256 (\<open>Transaction.Txid\<close>, \<open>serializeForTxid\<close>). A serialisation that left a field out, or one that
  depended on the flag or the witness, would break the equivalence.\<close>

theorem Txid_binds:
  assumes "wf_Transaction t" "t_Inputs t \<noteq> []" "wf_Transaction t'" "t_Inputs t' \<noteq> []"
  shows "Txid t = Txid t' \<longleftrightarrow>
    strip_witness t = strip_witness t' \<or> collides doubleSum256 (serializeForTxid t) (serializeForTxid t')"
  using serializeForTxid_inj [OF assms] eq_or_collides [of doubleSum256 "serializeForTxid t" "serializeForTxid t'"]
  by (auto simp: Txid_def doubleSum256_def serializeForTxid_strip)

text \<open>The sample transaction and the one that pays a unit more: equal identifiers would be a collision
  of the two serialisations. With another witness the identifier is the same.\<close>

definition sample_paid :: "u64 \<Rightarrow> Transaction" where
  "sample_paid n = sample_tx\<lparr>t_Outputs := [\<lparr>o_Amount = n, o_ScriptPubKeySize = 2, o_ScriptPubkey = [0x51, 0x20]\<rparr>]\<rparr>"

theorem Txid_binds_witness:
  "(Txid (sample_paid 5000) = Txid (sample_paid 5001) \<longleftrightarrow>
      collides doubleSum256 (serializeForTxid (sample_paid 5000)) (serializeForTxid (sample_paid 5001)))
   \<and> Txid sample_tx = Txid (sample_tx\<lparr>t_Flag := 0, t_Witness := []\<rparr>)"
proof -
  have wf: "wf_Transaction (sample_paid n)" "t_Inputs (sample_paid n) \<noteq> []" for n
    by (simp_all add: sample_paid_def sample_tx_def wf_Transaction_def counts_def wf_Input_def wf_Output_def
        wf_Witness_def wf_stackItem_def)
  have ne: "strip_witness (sample_paid 5000) \<noteq> strip_witness (sample_paid 5001)"
    by (simp add: strip_witness_def sample_paid_def sample_tx_def)
  have in0: "t_Inputs sample_tx \<noteq> []" "t_Inputs (sample_tx\<lparr>t_Flag := 0, t_Witness := []\<rparr>) \<noteq> []"
    by (simp_all add: sample_tx_def)
  have wf0: "wf_Transaction (sample_tx\<lparr>t_Flag := 0, t_Witness := []\<rparr>)"
    using wf_sample_tx by (simp add: wf_Transaction_def sample_tx_def)
  show ?thesis
    using Txid_binds [OF wf wf, of 5000 5001] ne Txid_binds [OF wf_sample_tx in0(1) wf0 in0(2)]
    by (simp add: strip_witness_def)
qed

end
