(* ===== verification/Merkle.thy ===== *)
theory Merkle
  imports BitcoinTypes
begin

text \<open>
  The Merkle trees of \<open>walletmanager/walletmanager.go\<close>: \<open>catDoubleSha256\<close>, \<open>merkleRoot\<close>,
  \<open>findPos\<close>, \<open>MerkleProof\<close>, \<open>hashPairs\<close> and \<open>checkMerkleProof\<close>.

  \<open>hashPairs\<close> overwrites its argument in place while it reads it; \<open>hashPairs_eq\<close> shows that
  the reads are never disturbed and that it computes the level above (\<open>pairUp\<close>), padded to an
  even length. Proofs made by \<open>MerkleProof\<close> verify against \<open>merkleRoot\<close> (completeness), have the
  length of the tree's height, and cannot be forged without a collision of double SHA-256
  (soundness). Indexing is Go's, so a read out of range would be a panic; none happens.
\<close>

section \<open>The functions of the source\<close>

definition catDoubleSha256 :: "hash32 \<Rightarrow> hash32 \<Rightarrow> hash32" where
  "catDoubleSha256 left right = Sum256 (Sum256 (left @ right))"

definition hashPairs_step :: "nat \<Rightarrow> hash32 list \<Rightarrow> nat \<Rightarrow> hash32 list" where
  "hashPairs_step hlen hashes i =
     (let pos = i * 2 in
      if pos + 1 > hlen - 1 then hashes[i := catDoubleSha256 (hashes ! pos) (hashes ! pos)]
      else hashes[i := catDoubleSha256 (hashes ! pos) (hashes ! (pos + 1))])"

definition hashPairs :: "hash32 list \<Rightarrow> hash32 list" where
  "hashPairs hashes =
     (let hlen = length hashes;
          rlen = hlen div 2 + hlen mod 2;
          hs = take rlen (foldl (hashPairs_step hlen) hashes [0..<rlen])
      in if rlen mod 2 \<noteq> 0 \<and> rlen \<noteq> 1 then hs @ [hs ! (length hs - 1)] else hs)"

text \<open>The loop of \<open>merkleRoot\<close> has no bound: for an empty argument it runs forever.\<close>

partial_function (option) merkleRoot_loop :: "hash32 list \<Rightarrow> hash32 option" where
  "merkleRoot_loop lvl = (if length lvl = 1 then Some (lvl ! 0) else merkleRoot_loop (hashPairs lvl))"

definition merkleRoot :: "hash32 list \<Rightarrow> hash32 option" where
  "merkleRoot hashes = merkleRoot_loop hashes"

fun findPos_from :: "int \<Rightarrow> hash32 list \<Rightarrow> hash32 \<Rightarrow> int" where
  "findPos_from i [] txid = -1"
| "findPos_from i (v # vs) txid = (if txid = v then i else findPos_from (i + 1) vs txid)"

definition findPos :: "hash32 list \<Rightarrow> hash32 \<Rightarrow> int" where
  "findPos txids txid = findPos_from 0 txids txid"

section \<open>The level above\<close>

fun pairUp :: "hash32 list \<Rightarrow> hash32 list" where
  "pairUp [] = []"
| "pairUp [a] = [catDoubleSha256 a a]"
| "pairUp (a # b # r) = catDoubleSha256 a b # pairUp r"

definition padEven :: "hash32 list \<Rightarrow> hash32 list" where
  "padEven l = (if length l mod 2 \<noteq> 0 \<and> length l \<noteq> 1 then l @ [last l] else l)"

definition pairAt :: "hash32 list \<Rightarrow> nat \<Rightarrow> hash32" where
  "pairAt l j = catDoubleSha256 (l ! (2 * j)) (if 2 * j + 1 < length l then l ! (2 * j + 1) else l ! (2 * j))"

lemma length_pairUp [simp]: "length (pairUp l) = (length l + 1) div 2"
  by (induction l rule: pairUp.induct) auto

lemma nth_pairUp: "j < length (pairUp l) \<Longrightarrow> pairUp l ! j = pairAt l j"
proof (induction l arbitrary: j rule: pairUp.induct)
  case (3 a b r)
  then show ?case
    by (cases j) (auto simp: pairAt_def)
qed (auto simp: pairAt_def)

text \<open>After \<open>k\<close> rounds of the in-place loop the first \<open>k\<close> cells hold the level above and the rest
  is untouched, so every later read still sees the level below.\<close>

lemma length_hashPairs_step [simp]: "length (hashPairs_step n l i) = length l"
  by (simp add: hashPairs_step_def Let_def)

lemma length_foldl_hashPairs_step [simp]: "length (foldl (hashPairs_step n) l is) = length l"
  by (induction "is" arbitrary: l) simp_all

lemma foldl_hashPairs_step:
  assumes "k \<le> (length l + 1) div 2" "j < length l"
  shows "foldl (hashPairs_step (length l)) l [0..<k] ! j = (if j < k then pairAt l j else l ! j)"
  using assms
proof (induction k arbitrary: j)
  case (Suc k)
  define m where "m = foldl (hashPairs_step (length l)) l [0..<k]"
  have k: "k \<le> (length l + 1) div 2" "2 * k < length l"
    using Suc.prems by auto
  have m: "m ! i = (if i < k then pairAt l i else l ! i)" if "i < length l" for i
    unfolding m_def using that by (rule Suc.IH [OF k(1)])
  have step: "hashPairs_step (length l) m k = m[k := pairAt l k]"
    using k(2) by (auto simp: hashPairs_step_def pairAt_def Let_def m mult.commute)
  have "foldl (hashPairs_step (length l)) l [0..<Suc k] = m[k := pairAt l k]"
    by (simp add: m_def [symmetric] step)
  then show ?case
    using Suc.prems k m [of j] by (auto simp: nth_list_update m_def)
qed simp

lemma hashPairs_eq: "hashPairs l = padEven (pairUp l)"
proof -
  have r: "length l div 2 + length l mod 2 = (length l + 1) div 2" by presburger
  have "take ((length l + 1) div 2) (foldl (hashPairs_step (length l)) l [0..<(length l + 1) div 2]) = pairUp l"
  proof (rule nth_equalityI)
    fix i assume "i < length (take ((length l + 1) div 2)
        (foldl (hashPairs_step (length l)) l [0..<(length l + 1) div 2]))"
    then have "i < (length l + 1) div 2" "i < length l" by auto
    then show "take ((length l + 1) div 2)
        (foldl (hashPairs_step (length l)) l [0..<(length l + 1) div 2]) ! i = pairUp l ! i"
      by (simp add: foldl_hashPairs_step nth_pairUp)
  qed simp
  then show ?thesis
    by (auto simp: hashPairs_def padEven_def Let_def r last_conv_nth simp del: One_nat_def)
      (metis last_conv_nth length_0_conv length_pairUp mod_0)+
qed

lemma length_hashPairs:
  "length (hashPairs l) =
     (let r = (length l + 1) div 2 in if r mod 2 \<noteq> 0 \<and> r \<noteq> 1 then r + 1 else r)"
  by (simp add: hashPairs_eq padEven_def Let_def)

lemma length_hashPairs_less: "length l > 1 \<Longrightarrow> length (hashPairs l) < length l"
  by (auto simp: length_hashPairs Let_def) presburger+

lemma hashPairs_Nil [simp]: "hashPairs [] = []"
  by (simp add: hashPairs_eq padEven_def)

text \<open>The levels on the way up: a single node, or an even number of them.\<close>

definition proper_level :: "hash32 list \<Rightarrow> bool" where
  "proper_level l \<longleftrightarrow> length l = 1 \<or> (l \<noteq> [] \<and> even (length l))"

lemma proper_hashPairs: "l \<noteq> [] \<Longrightarrow> proper_level (hashPairs l)"
proof -
  assume "l \<noteq> []"
  then have "length l \<ge> 1" by (cases l) auto
  then have "length (hashPairs l) = 1 \<or> length (hashPairs l) \<noteq> 0 \<and> even (length (hashPairs l))"
    by (auto simp: length_hashPairs Let_def)
  then show ?thesis by (auto simp: proper_level_def)
qed

lemma hashPairs_neq_Nil: "l \<noteq> [] \<Longrightarrow> hashPairs l \<noteq> []"
  using proper_hashPairs [of l] by (auto simp: proper_level_def)

lemma nth_hashPairs:
  assumes "j < (length l + 1) div 2"
  shows "hashPairs l ! j = pairAt l j"
  using assms by (auto simp: hashPairs_eq padEven_def nth_append nth_pairUp)

text \<open>Padding a level by its last node does not change the level above.\<close>

lemma pairUp_pad: "odd (length l) \<Longrightarrow> pairUp (l @ [last l]) = pairUp l"
proof (induction l rule: pairUp.induct)
  case (3 a b r)
  then have "r \<noteq> []" "odd (length r)" by auto
  with 3 show ?case by simp
qed auto

lemma hashPairs_pad: "odd (length l) \<Longrightarrow> hashPairs (l @ [last l]) = hashPairs l"
  by (simp add: hashPairs_eq pairUp_pad)

section \<open>The root\<close>

lemma merkleRoot_loop_single [simp]: "merkleRoot_loop [x] = Some x"
  by (simp add: merkleRoot_loop.simps)

lemma merkleRoot_loop_up: "length l \<noteq> 1 \<Longrightarrow> merkleRoot_loop l = merkleRoot_loop (hashPairs l)"
  by (subst merkleRoot_loop.simps) simp

lemma merkleRoot_loop_returns: "l \<noteq> [] \<Longrightarrow> \<exists>r. merkleRoot_loop l = Some r"
proof (induction "length l" arbitrary: l rule: less_induct)
  case less
  show ?case
  proof (cases "length l = 1")
    case False
    then have "length l > 1" using less.prems by (cases l) auto
    then show ?thesis
      using less.hyps [OF length_hashPairs_less] less.prems hashPairs_neq_Nil
      by (simp add: merkleRoot_loop_up)
  qed (auto simp: length_Suc_conv)
qed

lemma merkleRoot_loop_nonempty:
  assumes ret: "merkleRoot_loop l = Some r"
  shows "l \<noteq> []"
proof (rule merkleRoot_loop.raw_induct [where P = "\<lambda>l r. l \<noteq> []", OF _ ret])
  fix f lvl y
  assume IH: "\<And>l r. f l = Some r \<Longrightarrow> l \<noteq> []"
    and eq: "(if length lvl = 1 then Some (lvl ! 0) else f (hashPairs lvl)) = Some y"
  show "lvl \<noteq> []"
  proof
    assume "lvl = []"
    with eq have "f [] = Some y" by simp
    from IH [OF this] show False by simp
  qed
qed

section \<open>Proofs of inclusion\<close>

function MerkleProof_loop :: "hash32 list \<Rightarrow> int \<Rightarrow> hash32 list \<Rightarrow> (hash32 list) result" where
  "MerkleProof_loop level pos branch =
     (if length level > 1 then
        rbind (if pos mod 2 = 0 then go_index level (pos + 1) else go_index level (pos - 1)) (\<lambda>sibling.
        MerkleProof_loop (hashPairs level) (pos div 2) (branch @ [sibling]))
      else Inr branch)"
  by pat_completeness auto
termination
  by (relation "measure (\<lambda>(level, pos, branch). length level)") (auto simp: length_hashPairs_less)

declare MerkleProof_loop.simps [simp del]

definition MerkleProof :: "hash32 list \<Rightarrow> hash32 \<Rightarrow> (int \<times> hash32 list) result" where
  "MerkleProof txids txid =
     (let level = txids; txpos = findPos txids txid in
      if txpos < 0 then Inr (-1, [])
      else if length level = 1 then Inr (txpos, [])
      else
        let level = (if length level mod 2 \<noteq> 0 then level @ [level ! (length level - 1)] else level)
        in rbind (MerkleProof_loop level txpos []) (\<lambda>branch. Inr (txpos, branch)))"

fun climb :: "hash32 \<Rightarrow> int \<Rightarrow> hash32 list \<Rightarrow> hash32" where
  "climb current pos [] = current"
| "climb current pos (v # vs) =
     climb (if pos mod 2 = 0 then catDoubleSha256 current v else catDoubleSha256 v current) (pos div 2) vs"

definition checkMerkleProof :: "hash32 \<Rightarrow> int \<Rightarrow> hash32 \<Rightarrow> hash32 list \<Rightarrow> bool" where
  "checkMerkleProof txid pos root branch \<longleftrightarrow> root = climb txid pos branch"

lemma findPos_from_found:
  "txid \<in> set l \<Longrightarrow> \<exists>n < length l. findPos_from i l txid = i + int n \<and> l ! n = txid"
proof (induction i l txid rule: findPos_from.induct)
  case (2 i v vs txid)
  show ?case
  proof (cases "txid = v")
    case False
    with 2 obtain n where "n < length vs" "findPos_from (i + 1) vs txid = i + 1 + int n" "vs ! n = txid"
      by auto
    with False show ?thesis by (intro exI [of _ "Suc n"]) auto
  qed auto
qed auto

lemma findPos_found: "txid \<in> set l \<Longrightarrow> \<exists>n < length l. findPos l txid = int n \<and> l ! n = txid"
  using findPos_from_found [of txid l 0] by (simp add: findPos_def)

lemma findPos_from_absent: "txid \<notin> set l \<Longrightarrow> findPos_from i l txid = -1"
  by (induction i l txid rule: findPos_from.induct) auto

lemma findPos_absent: "txid \<notin> set l \<Longrightarrow> findPos l txid = -1"
  by (simp add: findPos_def findPos_from_absent)

text \<open>One level of the proof: the node above position \<open>n\<close> combines the node with its sibling.\<close>

definition sibling :: "nat \<Rightarrow> nat" where
  "sibling n = (if even n then n + 1 else n - 1)"

lemma sibling_less: "even (length l) \<Longrightarrow> n < length l \<Longrightarrow> sibling n < length l"
  by (auto simp: sibling_def) presburger+

lemma pairAt_div2:
  assumes "even (length l)" "n < length l"
  shows "pairAt l (n div 2) =
    (if even n then catDoubleSha256 (l ! n) (l ! sibling n) else catDoubleSha256 (l ! sibling n) (l ! n))"
proof (cases "even n")
  case True
  then have "2 * (n div 2) = n" "n + 1 < length l"
    using sibling_less [OF assms] by (auto simp: sibling_def)
  with True show ?thesis by (simp add: pairAt_def sibling_def)
next
  case False
  then have "2 * (n div 2) = n - 1" "n - 1 + 1 = n" by presburger+
  with False assms show ?thesis by (simp add: pairAt_def sibling_def)
qed

lemma int_mod_2: "int n mod 2 = 0 \<longleftrightarrow> even n"
  by presburger

lemma go_index_sibling:
  assumes "even (length l)" "n < length l"
  shows "(if int n mod 2 = 0 then go_index l (int n + 1) else go_index l (int n - 1)) = Inr (l ! sibling n)"
proof (cases "even n")
  case True
  then have "int n + 1 = int (sibling n)" by (simp add: sibling_def)
  with True show ?thesis using sibling_less [OF assms] by (simp add: int_mod_2)
next
  case False
  then have "int n - 1 = int (sibling n)" by (cases n) (auto simp: sibling_def)
  with False show ?thesis using sibling_less [OF assms] by (simp add: int_mod_2)
qed

lemma MerkleProof_loop_step:
  assumes "even (length l)" "n < length l" "length l > 1"
  shows "MerkleProof_loop l (int n) br = MerkleProof_loop (hashPairs l) (int (n div 2)) (br @ [l ! sibling n])"
  using assms(3) by (subst MerkleProof_loop.simps) (simp add: zdiv_int go_index_sibling [OF assms(1,2)])

lemma climb_sibling:
  assumes "even (length l)" "n < length l"
  shows "climb (l ! n) (int n) (l ! sibling n # suf) = climb (pairAt l (n div 2)) (int (n div 2)) suf"
  by (simp add: pairAt_div2 [OF assms] int_mod_2 zdiv_int)

lemma MerkleProof_loop_correct:
  assumes "proper_level l" "n < length l"
  shows "\<exists>suf. MerkleProof_loop l (int n) br = Inr (br @ suf)
           \<and> merkleRoot_loop l = Some (climb (l ! n) (int n) suf)"
  using assms
proof (induction "length l" arbitrary: l n br rule: less_induct)
  case less
  show ?case
  proof (cases "length l = 1")
    case True
    then have "MerkleProof_loop l (int n) br = Inr br" by (subst MerkleProof_loop.simps) simp
    with True less.prems show ?thesis by (intro exI [of _ "[]"]) (auto simp: length_Suc_conv)
  next
    case False
    with less.prems have l: "even (length l)" "length l > 1" "l \<noteq> []"
      by (auto simp: proper_level_def)
    then have up: "n div 2 < (length l + 1) div 2" "n div 2 < length (hashPairs l)"
      using less.prems(2) by (auto simp: length_hashPairs Let_def)
    obtain suf where suf: "MerkleProof_loop (hashPairs l) (int (n div 2)) (br @ [l ! sibling n])
          = Inr ((br @ [l ! sibling n]) @ suf)"
        "merkleRoot_loop (hashPairs l) = Some (climb (hashPairs l ! (n div 2)) (int (n div 2)) suf)"
      using less.hyps [OF length_hashPairs_less [OF l(2)] proper_hashPairs [OF l(3)] up(2)] by blast
    show ?thesis
      using suf l less.prems(2) up
      by (intro exI [of _ "l ! sibling n # suf"])
        (simp add: MerkleProof_loop_step merkleRoot_loop_up nth_hashPairs climb_sibling del: climb.simps)
  qed
qed

text \<open>The level the loop of \<open>MerkleProof\<close> starts with.\<close>

lemma padded_level:
  assumes "n < length l" "length l \<noteq> 1"
  defines "p \<equiv> (if length l mod 2 \<noteq> 0 then l @ [l ! (length l - 1)] else l)"
  shows "proper_level p" "n < length p" "p ! n = l ! n" "hashPairs p = hashPairs l"
    "length p = length l + length l mod 2" "length p \<noteq> 1"
proof -
  have "l \<noteq> []" using assms(1) by auto
  then have "l ! (length l - 1) = last l" by (simp add: last_conv_nth)
  then show "hashPairs p = hashPairs l"
    by (auto simp: p_def hashPairs_pad odd_iff_mod_2_eq_one)
  show "proper_level p" "n < length p" "p ! n = l ! n" "length p = length l + length l mod 2"
      "length p \<noteq> 1"
    using assms(1,2) \<open>l \<noteq> []\<close> by (auto simp: p_def proper_level_def nth_append)
qed

lemma MerkleProof_complete:
  assumes "txid \<in> set txids"
  shows "\<exists>n branch root. MerkleProof txids txid = Inr (int n, branch) \<and> merkleRoot txids = Some root
           \<and> n < length txids \<and> txids ! n = txid \<and> checkMerkleProof txid (int n) root branch"
proof -
  obtain n where n: "n < length txids" "findPos txids txid = int n" "txids ! n = txid"
    using findPos_found [OF assms] by blast
  show ?thesis
  proof (cases "length txids = 1")
    case True
    with n show ?thesis
      by (auto simp: MerkleProof_def merkleRoot_def checkMerkleProof_def length_Suc_conv)
  next
    case False
    note p = padded_level [OF n(1) False]
    obtain suf where "MerkleProof_loop (if length txids mod 2 \<noteq> 0 then txids @ [txids ! (length txids - 1)]
          else txids) (int n) [] = Inr suf"
        "merkleRoot_loop txids = Some (climb txid (int n) suf)"
      using MerkleProof_loop_correct [OF p(1,2), of "[]"] merkleRoot_loop_up [OF p(6)]
        merkleRoot_loop_up [OF False] p(3,4) n(3) by auto
    with False n show ?thesis
      by (auto simp: MerkleProof_def merkleRoot_def checkMerkleProof_def)
  qed
qed

section \<open>Soundness\<close>

text \<open>The strings a proof hashes, from the leaf up: each is the concatenation of a node and its
  sibling, in the order the position asks for.\<close>

fun proof_inputs :: "hash32 \<Rightarrow> int \<Rightarrow> hash32 list \<Rightarrow> bytes list" where
  "proof_inputs current pos [] = []"
| "proof_inputs current pos (v # vs) =
     (let x = (if pos mod 2 = 0 then current @ v else v @ current) in x # proof_inputs (doubleSum256 x) (pos div 2) vs)"

lemma length_proof_inputs [simp]: "length (proof_inputs a pos br) = length br"
  by (induction br arbitrary: a pos) (simp_all add: Let_def)

lemma length_catDoubleSha256 [simp]: "length (catDoubleSha256 a b) = 32"
  by (simp add: catDoubleSha256_def)

lemma length_doubleSum256 [simp]: "length (doubleSum256 x) = 32"
  by (simp add: doubleSum256_def)

lemma climb_Cons:
  "climb a pos (v # vs) = climb (doubleSum256 (if pos mod 2 = 0 then a @ v else v @ a)) (pos div 2) vs"
  by (simp add: catDoubleSha256_def doubleSum256_def)

text \<open>Two proofs that agree on what they hash from some level up have the same siblings there, and so
  climb to one root.\<close>

lemma proof_inputs_inj:
  assumes "proof_inputs a pos br = proof_inputs b pos br'"
    "length a = 32" "length b = 32" "list_all (\<lambda>h. length h = 32) br" "list_all (\<lambda>h. length h = 32) br'"
  shows "br = br' \<and> (br = [] \<or> a = b)"
  using assms
proof (induction br arbitrary: a b pos br')
  case Nil
  then show ?case by (cases br') (simp_all add: Let_def)
next
  case (Cons v vs)
  then obtain v' vs' where "br' = v' # vs'" by (cases br') (auto simp: Let_def)
  with Cons.prems Cons.IH [of "doubleSum256 (if pos mod 2 = 0 then a @ v else v @ a)" "pos div 2"
      "doubleSum256 (if pos mod 2 = 0 then a @ v else v @ a)" vs']
  show ?case by (auto simp: Let_def split: if_splits)
qed

text \<open>The exact condition for two proofs to reach one root: they are the same proof, or at some level
  the two strings hashed are a collision, and from there on the two proofs hash the same strings.\<close>

definition collision_at :: "bytes list \<Rightarrow> bytes list \<Rightarrow> nat \<Rightarrow> bool" where
  "collision_at xs ys i \<longleftrightarrow>
     i < length xs \<and> collides doubleSum256 (xs ! i) (ys ! i) \<and> drop (Suc i) xs = drop (Suc i) ys"

lemma collision_at_Cons:
  "(\<exists>i. collision_at (x # xs) (y # ys) i) \<longleftrightarrow>
     collides doubleSum256 x y \<and> xs = ys \<or> (\<exists>i. collision_at xs ys i)"
  (is "?l \<longleftrightarrow> ?r")
proof
  assume ?l
  then obtain i where "collision_at (x # xs) (y # ys) i" by blast
  then show ?r by (cases i) (auto simp: collision_at_def)
next
  assume ?r
  then show ?l
  proof
    assume "collides doubleSum256 x y \<and> xs = ys"
    then have "collision_at (x # xs) (y # ys) 0" by (simp add: collision_at_def)
    then show ?l by blast
  next
    assume "\<exists>i. collision_at xs ys i"
    then obtain i where "collision_at xs ys i" by blast
    then have "collision_at (x # xs) (y # ys) (Suc i)" by (simp add: collision_at_def)
    then show ?l by blast
  qed
qed

lemma climb_eq_iff:
  assumes "length br = length br'"
    "length a = 32" "length b = 32" "list_all (\<lambda>h. length h = 32) br" "list_all (\<lambda>h. length h = 32) br'"
  shows "climb a pos br = climb b pos br' \<longleftrightarrow>
    a = b \<and> br = br' \<or> (\<exists>i. collision_at (proof_inputs a pos br) (proof_inputs b pos br') i)"
  using assms
proof (induction br arbitrary: a b pos br')
  case Nil
  then show ?case by (simp add: collision_at_def)
next
  case (Cons v vs)
  then obtain v' vs' where br': "br' = v' # vs'" by (cases br') auto
  define x y where "x = (if pos mod 2 = 0 then a @ v else v @ a)"
    and "y = (if pos mod 2 = 0 then b @ v' else v' @ b)"
  have xy: "x = y \<longleftrightarrow> a = b \<and> v = v'"
    using Cons.prems br' by (auto simp: x_def y_def)
  let ?P = "proof_inputs (doubleSum256 x) (pos div 2) vs" and ?Q = "proof_inputs (doubleSum256 y) (pos div 2) vs'"
  have up: "climb a pos (v # vs) = climb b pos br' \<longleftrightarrow>
      doubleSum256 x = doubleSum256 y \<and> vs = vs' \<or> (\<exists>i. collision_at ?P ?Q i)"
    unfolding br' climb_Cons x_def [symmetric] y_def [symmetric]
    using Cons.prems br' by (intro Cons.IH) simp_all
  have same: "?P = ?Q \<longleftrightarrow> vs = vs'" if "doubleSum256 x = doubleSum256 y"
  proof
    assume "?P = ?Q"
    from proof_inputs_inj [OF this] show "vs = vs'" using Cons.prems br' by simp
  qed (simp add: that)
  have "doubleSum256 x = doubleSum256 y \<and> vs = vs' \<longleftrightarrow> x = y \<and> vs = vs' \<or> collides doubleSum256 x y \<and> ?P = ?Q"
    using same by (auto simp: collides_def)
  moreover have "x = y \<and> vs = vs' \<longleftrightarrow> a = b \<and> v # vs = br'"
    using xy br' by auto
  moreover have "(\<exists>i. collision_at (proof_inputs a pos (v # vs)) (proof_inputs b pos br') i) \<longleftrightarrow>
      collides doubleSum256 x y \<and> ?P = ?Q \<or> (\<exists>i. collision_at ?P ?Q i)"
    unfolding br' proof_inputs.simps Let_def x_def [symmetric] y_def [symmetric] by (rule collision_at_Cons)
  ultimately show ?case using up by blast
qed

section \<open>Length of a proof\<close>

text \<open>\<open>tree_height m k\<close>: \<open>k\<close> is the height of a tree with \<open>m\<close> leaves.\<close>

definition tree_height :: "nat \<Rightarrow> nat \<Rightarrow> bool" where
  "tree_height m k \<longleftrightarrow> m \<le> 2 ^ k \<and> 2 ^ k < 2 * m"

lemma tree_height_up:
  assumes "even p" "p > 1" "tree_height (let r = p div 2 in if odd r \<and> r \<noteq> 1 then r + 1 else r) k"
  shows "tree_height p (Suc k)"
proof -
  obtain q where q: "p = 2 * q" using assms(1) by (elim evenE)
  with assms(2) have "q \<ge> 1" by simp
  consider "even q \<or> q = 1" | "odd q" "q \<noteq> 1" by blast
  then show ?thesis
  proof cases
    case 1
    with assms(3) q show ?thesis by (auto simp: tree_height_def Let_def)
  next
    case 2
    with assms(3) q have b: "q + 1 \<le> 2 ^ k" "(2::nat) ^ k < 2 * (q + 1)"
      by (auto simp: tree_height_def Let_def)
    have "q \<ge> 3" using 2 \<open>q \<ge> 1\<close> by presburger
    with b(1) have "k \<noteq> 0" "k \<noteq> 1" by (cases "k = 0 \<or> k = 1"; auto)+
    then obtain j where j: "k = Suc j" "j \<noteq> 0" by (cases k) auto
    then have "even ((2::nat) ^ j)" by simp
    with 2 have "(2::nat) ^ j \<noteq> q" by blast
    with b j show ?thesis by (auto simp: tree_height_def q)
  qed
qed

lemma MerkleProof_loop_height:
  assumes "proper_level l" "n < length l"
  shows "\<exists>suf. MerkleProof_loop l (int n) br = Inr (br @ suf) \<and> tree_height (length l) (length suf)"
  using assms
proof (induction "length l" arbitrary: l n br rule: less_induct)
  case less
  show ?case
  proof (cases "length l = 1")
    case True
    then have "MerkleProof_loop l (int n) br = Inr br" by (subst MerkleProof_loop.simps) simp
    with True show ?thesis by (intro exI [of _ "[]"]) (auto simp: tree_height_def)
  next
    case False
    with less.prems have l: "even (length l)" "length l > 1" "l \<noteq> []"
      by (auto simp: proper_level_def)
    then have len: "length (hashPairs l) = (let r = length l div 2 in if odd r \<and> r \<noteq> 1 then r + 1 else r)"
      by (auto simp: length_hashPairs Let_def odd_iff_mod_2_eq_one)
    have "n div 2 < length (hashPairs l)"
      using less.prems(2) l by (auto simp: length_hashPairs Let_def)
    from less.hyps [OF length_hashPairs_less [OF l(2)] proper_hashPairs [OF l(3)] this]
    obtain suf where "MerkleProof_loop (hashPairs l) (int (n div 2)) (br @ [l ! sibling n])
          = Inr ((br @ [l ! sibling n]) @ suf)" "tree_height (length (hashPairs l)) (length suf)"
      by blast
    then show ?thesis
      using l less.prems(2) tree_height_up [OF l(1,2), of "length suf"] len
      by (intro exI [of _ "l ! sibling n # suf"]) (simp add: MerkleProof_loop_step)
  qed
qed

text \<open>An odd leaf count and the count padded to even have trees of one height.\<close>

lemma tree_height_unpad: "odd m \<Longrightarrow> m \<noteq> 1 \<Longrightarrow> tree_height (m + 1) k \<Longrightarrow> tree_height m k"
proof -
  assume *: "odd m" "m \<noteq> 1" "tree_height (m + 1) k"
  then have "m \<ge> 3" by presburger
  with * have "k \<noteq> 0" "k \<noteq> 1" by (cases "k = 0 \<or> k = 1"; auto simp: tree_height_def)+
  then obtain j where j: "k = Suc j" "j \<noteq> 0" by (cases k) auto
  then have "even ((2::nat) ^ j)" by simp
  with *(1) have "(2::nat) ^ j \<noteq> m" by blast
  with * j show ?thesis by (auto simp: tree_height_def)
qed

lemma MerkleProof_height:
  assumes "txid \<in> set txids"
  shows "\<exists>pos branch. MerkleProof txids txid = Inr (pos, branch) \<and> tree_height (length txids) (length branch)"
proof -
  obtain n where n: "n < length txids" "findPos txids txid = int n" "txids ! n = txid"
    using findPos_found [OF assms] by blast
  show ?thesis
  proof (cases "length txids = 1")
    case True
    with n show ?thesis by (auto simp: MerkleProof_def tree_height_def)
  next
    case False
    note p = padded_level [OF n(1) False]
    from MerkleProof_loop_height [OF p(1,2), of "[]"] obtain suf where
      "MerkleProof_loop (if length txids mod 2 \<noteq> 0 then txids @ [txids ! (length txids - 1)]
          else txids) (int n) [] = Inr suf" "tree_height (length txids + length txids mod 2) (length suf)"
      unfolding p(5) by auto
    moreover from this(2) have "tree_height (length txids) (length suf)"
      using tree_height_unpad [of "length txids" "length suf"] False
      by (cases "even (length txids)") (auto simp: odd_iff_mod_2_eq_one)
    ultimately show ?thesis using False n by (auto simp: MerkleProof_def)
  qed
qed

section \<open>Properties\<close>

text \<open>C28. Every transaction of a block gets a Merkle proof that verifies: \<open>MerkleProof\<close> returns the position
  of the transaction and a branch, without an index out of range, and \<open>checkMerkleProof\<close> accepts them
  for the root that \<open>merkleRoot\<close> computes.\<close>

theorem MerkleProof_verifies:
  assumes "txid \<in> set txids"
  shows "\<exists>n branch root. MerkleProof txids txid = Inr (int n, branch) \<and> merkleRoot txids = Some root
    \<and> n < length txids \<and> txids ! n = txid \<and> checkMerkleProof txid (int n) root branch"
  by (rule MerkleProof_complete [OF assms])

theorem MerkleProof_verifies_witness:
  "\<exists>n branch root. MerkleProof [[1], [2], [3]] [3] = Inr (int n, branch) \<and> merkleRoot [[1], [2], [3]] = Some root
    \<and> n < length [[1 :: byte], [2], [3]] \<and> [[1], [2], [3]] ! n = [3 :: byte] \<and> checkMerkleProof [3] (int n) root branch"
  by (rule MerkleProof_verifies) simp

text \<open>C29. Merkle proofs bind: if \<open>checkMerkleProof\<close> accepts a transaction identifier at a position for a
  root, then it accepts another identifier or another branch of that length at that position exactly
  when, at some level, the two strings the proofs hash are a collision of double SHA-256 and the
  proofs hash the same strings above it. The strings are those the check itself computes; without
  such a collision the identifier and every node of the branch are determined.\<close>

theorem checkMerkleProof_binding:
  assumes "checkMerkleProof a pos root br" "length br = length br'"
    and "length a = 32" "length b = 32" "\<forall>h\<in>set br. length h = 32" "\<forall>h\<in>set br'. length h = 32"
  shows "checkMerkleProof b pos root br' \<longleftrightarrow>
    a = b \<and> br = br' \<or> (\<exists>i. collision_at (proof_inputs a pos br) (proof_inputs b pos br') i)"
  using climb_eq_iff [of br br' a b pos] assms by (simp add: checkMerkleProof_def list_all_iff)

text \<open>Two leaves of a tree of four at position 1: the second is accepted under the root of the first
  exactly on a collision at one of the two levels.\<close>

theorem checkMerkleProof_binding_witness:
  "\<exists>root. checkMerkleProof (replicate 32 5) 1 root [replicate 32 1, replicate 32 2] \<and>
     (checkMerkleProof (replicate 32 6) 1 root [replicate 32 1, replicate 32 2] \<longleftrightarrow>
      (\<exists>i. collision_at (proof_inputs (replicate 32 5) 1 [replicate 32 1, replicate 32 2])
                        (proof_inputs (replicate 32 6) 1 [replicate 32 1, replicate 32 2]) i))"
proof -
  let ?br = "[replicate 32 1, replicate 32 2] :: hash32 list"
  have "checkMerkleProof (replicate 32 5) 1 (climb (replicate 32 5) 1 ?br) ?br"
    by (simp add: checkMerkleProof_def)
  moreover have "replicate 32 (5 :: byte) \<noteq> replicate 32 6" by simp
  ultimately show ?thesis
    using checkMerkleProof_binding [of "replicate 32 5" 1 "climb (replicate 32 5) 1 ?br" ?br ?br "replicate 32 6"]
    by (intro exI [of _ "climb (replicate 32 5) 1 ?br"] conjI) simp_all
qed

text \<open>The branch \<open>MerkleProof\<close> returns has as many nodes as the tree has levels: for \<open>m\<close>
  transactions its length \<open>k\<close> satisfies \<open>m \<le> 2 ^ k < 2 * m\<close>.\<close>

theorem MerkleProof_branch_length:
  assumes "txid \<in> set txids"
  shows "\<exists>pos branch. MerkleProof txids txid = Inr (pos, branch)
    \<and> length txids \<le> 2 ^ length branch \<and> 2 ^ length branch < 2 * length txids"
  using MerkleProof_height [OF assms] by (simp add: tree_height_def)

theorem MerkleProof_branch_length_witness:
  "\<exists>pos branch. MerkleProof [[1], [2], [3]] [2] = Inr (pos, branch)
    \<and> length [[1 :: byte], [2], [3]] \<le> 2 ^ length branch \<and> 2 ^ length branch < 2 * length [[1 :: byte], [2], [3]]"
  by (rule MerkleProof_branch_length) simp

text \<open>\<open>merkleRoot\<close> returns for every non-empty list of hashes; for an empty one its loop never ends.\<close>

theorem merkleRoot_returns_iff: "(\<exists>r. merkleRoot hashes = Some r) \<longleftrightarrow> hashes \<noteq> []"
  unfolding merkleRoot_def using merkleRoot_loop_returns merkleRoot_loop_nonempty by blast

text \<open>\<open>hashPairs\<close> overwrites the slice it reads from, yet computes the level above: node \<open>j\<close> is the hash of
  the nodes \<open>2 j\<close> and \<open>2 j + 1\<close> of the level below (the last one paired with itself when the
  level is odd), and a result of odd length above one is padded with its last node.\<close>

theorem hashPairs_in_place: "hashPairs hashes = padEven (pairUp hashes)"
  by (rule hashPairs_eq)

end
