(* ===== verification/Repository.thy ===== *)
theory Repository
  imports Merkle "HOL-Library.Product_Lexorder"
begin

text \<open>
  \<open>walletmanager/repository.go\<close> over the SQLite schema of \<open>migrations/\<close>.

  A table is the list of its rows in insertion order, with the SQL meaning of the statements the
  code sends: a \<open>PRIMARY KEY\<close> conflict is \<open>ErrConstraint\<close>, \<open>ORDER BY\<close> is a stable sort, a
  negative \<open>LIMIT\<close> is no limit (SQLite), a \<open>QueryRow\<close> without rows is \<open>ErrNoRows\<close>. Input/output
  failures of the database engine are not modelled. \<open>store\<close> joins the database with the
  in-memory \<open>utxoIndex\<close>, the cache of the table \<open>unspent_output\<close>; the operations are generic in
  the record that extends it, so that the wallet manager's state can be passed to them.

  The invariant \<open>store_inv\<close> says that primary keys are unique and that the cache and the table hold
  the same outputs. Every operation keeps it; \<open>deleteAllSinceBlock\<close> needs the cache to be reloaded,
  as \<open>processReorg\<close> does. The locale \<open>utxo_store\<close> is the contract the block processor relies on.
\<close>

section \<open>Rows, tables and the cache\<close>

type_synonym txidVout = bytes

record utxoData2 =
  u2_Satoshi :: u64
  u2_ScriptPubkeyHash :: hash32

record walletData =
  wd_Hash :: hash32
  wd_Height :: int
  wd_NextReceiveIndex :: u32
  wd_NextChangeIndex :: u32

record blockHeaderData =
  bh_Hash :: hash32
  bh_Height :: int
  bh_Serialized :: bytes

record TxData =
  hd_Height :: int
  hd_Txid :: hash32

record UtxoData =
  ud_Height :: int
  ud_TxPos :: int
  ud_Txid :: hash32
  ud_Satoshi :: u64

record transactionData =
  td_Txid :: hash32
  td_BlockHash :: hash32
  td_Pos :: int
  td_Raw :: bytes
  td_MerkleProof :: bytes

record utxoData =
  u_TxidVout :: txidVout
  u_Satoshi :: u64
  u_ScriptPubkeyHash :: hash32

record spentData =
  sp_TxidVout :: txidVout
  sp_Satoshi :: u64
  sp_ScriptPubkeyHash :: hash32
  sp_Height :: int

record database =
  wallet_tbl :: "walletData list"
  blockheader_tbl :: "blockHeaderData list"
  unspent_tbl :: "utxoData list"
  tx_tbl :: "transactionData list"
  stx_tbl :: "(hash32 \<times> hash32) list"
  spent_tbl :: "spentData list"

record store =
  db :: database
  utxoIndex :: "(txidVout \<times> utxoData2) list"

definition empty_database :: database where
  "empty_database = \<lparr>wallet_tbl = [], blockheader_tbl = [], unspent_tbl = [], tx_tbl = [],
                     stx_tbl = [], spent_tbl = []\<rparr>"

section \<open>Scanning columns and rows\<close>

definition bufWrapper_Scan :: "nat \<Rightarrow> bytes \<Rightarrow> bytes result" where
  "bufWrapper_Scan n data =
     (if length data \<noteq> n then Inl (Err ''bufWrapper: len of src != len dest'') else Inr data)"

fun scanRows :: "('a \<Rightarrow> 'b result) \<Rightarrow> 'a list \<Rightarrow> ('b list) result" where
  "scanRows f [] = Inr []"
| "scanRows f (r # rs) = rbind (f r) (\<lambda>x. rbind (scanRows f rs) (\<lambda>xs. Inr (x # xs)))"

definition sql_limit :: "int \<Rightarrow> 'a list \<Rightarrow> 'a list" where
  "sql_limit l xs = (if l < 0 then xs else take (nat l) xs)"

definition queryRow :: "'a list \<Rightarrow> 'a result" where
  "queryRow rows = (case rows of [] \<Rightarrow> Inl ErrNoRows | r # _ \<Rightarrow> Inr r)"

section \<open>Wallet rows\<close>

definition selectWalletData :: "('z store_scheme) \<Rightarrow> hash32 \<Rightarrow> walletData result" where
  "selectWalletData s hash =
     rbind (queryRow (filter (\<lambda>r. wd_Hash r = hash) (wallet_tbl (db s)))) (\<lambda>r. Inr (r\<lparr>wd_Hash := hash\<rparr>))"

definition insertWalletData :: "walletData \<Rightarrow> 'z store_scheme \<Rightarrow> (unit, 'z store_scheme) outcome" where
  "insertWalletData wd s =
     (if wd_Hash wd \<in> wd_Hash ` set (wallet_tbl (db s)) then (Inl ErrConstraint, s)
      else (Inr (), s\<lparr>db := (db s)\<lparr>wallet_tbl := wallet_tbl (db s) @ [wd]\<rparr>\<rparr>))"

definition updateWalletIndexes ::
  "hash32 \<Rightarrow> u32 \<Rightarrow> u32 \<Rightarrow> 'z store_scheme \<Rightarrow> (unit, 'z store_scheme) outcome" where
  "updateWalletIndexes whash nri nci s =
     (Inr (), s\<lparr>db := (db s)\<lparr>wallet_tbl :=
        map (\<lambda>r. if wd_Hash r = whash then r\<lparr>wd_NextReceiveIndex := nri, wd_NextChangeIndex := nci\<rparr> else r)
            (wallet_tbl (db s))\<rparr>\<rparr>)"

definition updateWalletHeight :: "hash32 \<Rightarrow> int \<Rightarrow> 'z store_scheme \<Rightarrow> (unit, 'z store_scheme) outcome" where
  "updateWalletHeight whash height s =
     (Inr (), s\<lparr>db := (db s)\<lparr>wallet_tbl :=
        map (\<lambda>r. if wd_Hash r = whash then r\<lparr>wd_Height := height\<rparr> else r) (wallet_tbl (db s))\<rparr>\<rparr>)"

section \<open>Header rows\<close>

definition headers_asc :: "'z store_scheme \<Rightarrow> blockHeaderData list" where
  "headers_asc s = sort_key bh_Height (blockheader_tbl (db s))"

definition headers_desc :: "'z store_scheme \<Rightarrow> blockHeaderData list" where
  "headers_desc s = sort_key (\<lambda>r. - bh_Height r) (blockheader_tbl (db s))"

definition selectLastBlockHeaderData :: "'z store_scheme \<Rightarrow> blockHeaderData result" where
  "selectLastBlockHeaderData s =
     rbind (queryRow (headers_desc s)) (\<lambda>r.
     rbind (bufWrapper_Scan 32 (bh_Hash r)) (\<lambda>h.
     Inr \<lparr>bh_Hash = h, bh_Height = bh_Height r, bh_Serialized = bh_Serialized r\<rparr>))"

definition selectBlockHashesAtHeight :: "'z store_scheme \<Rightarrow> int \<Rightarrow> int \<Rightarrow> (hash32 list) result" where
  "selectBlockHashesAtHeight s height limit =
     scanRows (\<lambda>r. bufWrapper_Scan 32 (bh_Hash r))
       (sql_limit limit
         (filter (\<lambda>r. list_ex (\<lambda>q. bh_Height q = height) (blockheader_tbl (db s)) \<and> bh_Height r \<ge> height)
           (headers_asc s)))"

definition selectRawBlockHeaderByHeight :: "'z store_scheme \<Rightarrow> int \<Rightarrow> bytes result" where
  "selectRawBlockHeaderByHeight s height =
     rbind (queryRow (filter (\<lambda>r. bh_Height r = height) (blockheader_tbl (db s)))) (\<lambda>r.
     bufWrapper_Scan 80 (bh_Serialized r))"

definition selectRawBlockHeadersByHeight :: "'z store_scheme \<Rightarrow> int \<Rightarrow> int \<Rightarrow> (bytes list) result" where
  "selectRawBlockHeadersByHeight s height limit =
     scanRows (\<lambda>r. bufWrapper_Scan 80 (bh_Serialized r))
       (sql_limit limit (filter (\<lambda>r. bh_Height r \<ge> height) (headers_asc s)))"

definition selectLastBlockHeaderHeightAndRaw :: "'z store_scheme \<Rightarrow> (int \<times> bytes) result" where
  "selectLastBlockHeaderHeightAndRaw s =
     rbind (queryRow (headers_desc s)) (\<lambda>r.
     rbind (bufWrapper_Scan 80 (bh_Serialized r)) (\<lambda>raw. Inr (bh_Height r, raw)))"

definition insertBlockHeader ::
  "hash32 \<Rightarrow> int \<Rightarrow> bytes \<Rightarrow> 'z store_scheme \<Rightarrow> (unit, 'z store_scheme) outcome" where
  "insertBlockHeader hash height serialized s =
     (if length serialized < 80 then (Inl (ErrPanic ''slice bounds out of range''), s)
      else if hash \<in> bh_Hash ` set (blockheader_tbl (db s)) then (Inl ErrConstraint, s)
      else (Inr (), s\<lparr>db := (db s)\<lparr>blockheader_tbl := blockheader_tbl (db s) @
             [\<lparr>bh_Hash = hash, bh_Height = height, bh_Serialized = take 80 serialized\<rparr>]\<rparr>\<rparr>))"

section \<open>Transactions\<close>

definition insertTransaction ::
  "hash32 \<Rightarrow> hash32 \<Rightarrow> int \<Rightarrow> bytes \<Rightarrow> bytes \<Rightarrow> 'z store_scheme \<Rightarrow> (unit, 'z store_scheme) outcome" where
  "insertTransaction txid blockHash pos serialized merkleProof s =
     (Inr (), if txid \<in> td_Txid ` set (tx_tbl (db s)) then s
      else s\<lparr>db := (db s)\<lparr>tx_tbl := tx_tbl (db s) @
        [\<lparr>td_Txid = txid, td_BlockHash = blockHash, td_Pos = pos, td_Raw = serialized,
          td_MerkleProof = merkleProof\<rparr>]\<rparr>\<rparr>)"

definition selectRawTransaction :: "'z store_scheme \<Rightarrow> hash32 \<Rightarrow> bytes result" where
  "selectRawTransaction s txid =
     rbind (queryRow (filter (\<lambda>r. td_Txid r = txid) (tx_tbl (db s)))) (\<lambda>r. Inr (td_Raw r))"

definition selectTransactionFromTxid :: "'z store_scheme \<Rightarrow> hash32 \<Rightarrow> transactionData result" where
  "selectTransactionFromTxid s txid =
     rbind (queryRow (filter (\<lambda>r. td_Txid r = txid) (tx_tbl (db s)))) (\<lambda>r.
     rbind (bufWrapper_Scan 32 (td_BlockHash r)) (\<lambda>_. Inr (r\<lparr>td_Txid := txid\<rparr>)))"

text \<open>\<open>tx JOIN blockheader ON bh.hash = tx.blockhash\<close>.\<close>

definition tx_join_header :: "'z store_scheme \<Rightarrow> (transactionData \<times> blockHeaderData) list" where
  "tx_join_header s =
     concat (map (\<lambda>t. map (Pair t) (filter (\<lambda>b. bh_Hash b = td_BlockHash t) (blockheader_tbl (db s))))
       (tx_tbl (db s)))"

definition selectTransactionFromHeightPos :: "'z store_scheme \<Rightarrow> int \<Rightarrow> int \<Rightarrow> transactionData result" where
  "selectTransactionFromHeightPos s height pos =
     rbind (queryRow (filter (\<lambda>(t, b). bh_Height b = height \<and> td_Pos t = pos) (tx_join_header s))) (\<lambda>(t, b).
     rbind (bufWrapper_Scan 32 (td_Txid t)) (\<lambda>_.
     rbind (bufWrapper_Scan 32 (td_BlockHash t)) (\<lambda>_. Inr t)))"

definition insertScriptPubkeyTransaction ::
  "hash32 \<Rightarrow> hash32 \<Rightarrow> 'z store_scheme \<Rightarrow> (unit, 'z store_scheme) outcome" where
  "insertScriptPubkeyTransaction sh txid s =
     (Inr (), if (sh, txid) \<in> set (stx_tbl (db s)) then s
      else s\<lparr>db := (db s)\<lparr>stx_tbl := stx_tbl (db s) @ [(sh, txid)]\<rparr>\<rparr>)"

definition selectScriptHashHistory :: "'z store_scheme \<Rightarrow> hash32 \<Rightarrow> (TxData list) result" where
  "selectScriptHashHistory s sh =
     scanRows (\<lambda>(t, b). rbind (bufWrapper_Scan 32 (td_Txid t)) (\<lambda>txid. Inr \<lparr>hd_Height = bh_Height b, hd_Txid = txid\<rparr>))
       (sort_key (\<lambda>(t, b). (bh_Height b, td_Pos t))
         (concat (map (\<lambda>(_, txid). filter (\<lambda>(t, b). td_Txid t = txid) (tx_join_header s))
           (filter (\<lambda>(h, _). h = sh) (stx_tbl (db s))))))"

section \<open>Unspent and spent outputs\<close>

definition utxo2 :: "utxoData \<Rightarrow> utxoData2" where
  "utxo2 r = \<lparr>u2_Satoshi = u_Satoshi r, u2_ScriptPubkeyHash = u_ScriptPubkeyHash r\<rparr>"

definition selectScriptHashBalance :: "'z store_scheme \<Rightarrow> hash32 \<Rightarrow> u64" where
  "selectScriptHashBalance s sh =
     foldl (\<lambda>out (_, v). if u2_ScriptPubkeyHash v \<noteq> sh then out else out + u2_Satoshi v) 0 (utxoIndex s)"

definition selectScriptHashUnspent :: "'z store_scheme \<Rightarrow> hash32 \<Rightarrow> (UtxoData list) result" where
  "selectScriptHashUnspent s sh =
     scanRows (\<lambda>(u, t, b). rbind (bufWrapper_Scan 32 (take 32 (u_TxidVout u))) (\<lambda>txid.
         Inr \<lparr>ud_Height = bh_Height b, ud_TxPos = td_Pos t, ud_Txid = txid, ud_Satoshi = u_Satoshi u\<rparr>))
       (sort_key (\<lambda>(u, t, b). (bh_Height b, td_Pos t))
         (concat (map (\<lambda>u. map (Pair u) (filter (\<lambda>(t, b). td_Txid t = take 32 (u_TxidVout u)) (tx_join_header s)))
           (filter (\<lambda>u. u_ScriptPubkeyHash u = sh) (unspent_tbl (db s))))))"

text \<open>\<open>database/sql\<close> refuses to bind a \<open>uint64\<close> whose high bit is set.\<close>

definition insertUnspentOutput ::
  "txidVout \<Rightarrow> u64 \<Rightarrow> hash32 \<Rightarrow> 'z store_scheme \<Rightarrow> (unit, 'z store_scheme) outcome" where
  "insertUnspentOutput txVout satoshi sh s =
     (if satoshi \<ge> 2 ^ 63 then (Inl (Err ''uint64 values with high bit set are not supported''), s)
      else
        let s1 = (if txVout \<in> u_TxidVout ` set (unspent_tbl (db s)) then s
                  else s\<lparr>db := (db s)\<lparr>unspent_tbl := unspent_tbl (db s) @
                    [\<lparr>u_TxidVout = txVout, u_Satoshi = satoshi, u_ScriptPubkeyHash = sh\<rparr>]\<rparr>\<rparr>)
        in (Inr (), s1\<lparr>utxoIndex := AList.update txVout
              \<lparr>u2_Satoshi = satoshi, u2_ScriptPubkeyHash = sh\<rparr> (utxoIndex s1)\<rparr>))"

definition selectAllUtxos :: "'z store_scheme \<Rightarrow> (utxoData list) result" where
  "selectAllUtxos s =
     scanRows (\<lambda>r. rbind (bufWrapper_Scan 36 (u_TxidVout r)) (\<lambda>_.
                   rbind (bufWrapper_Scan 32 (u_ScriptPubkeyHash r)) (\<lambda>_. Inr r))) (unspent_tbl (db s))"

definition selectUnspentOutput :: "'z store_scheme \<Rightarrow> txidVout \<Rightarrow> utxoData result" where
  "selectUnspentOutput s txVout =
     (case map_of (utxoIndex s) txVout of
        None \<Rightarrow> Inl ErrNotFound
      | Some u \<Rightarrow> Inr \<lparr>u_TxidVout = txVout, u_Satoshi = u2_Satoshi u,
                       u_ScriptPubkeyHash = u2_ScriptPubkeyHash u\<rparr>)"

definition spend_row :: "int \<Rightarrow> utxoData \<Rightarrow> spentData" where
  "spend_row height r = \<lparr>sp_TxidVout = u_TxidVout r, sp_Satoshi = u_Satoshi r,
                         sp_ScriptPubkeyHash = u_ScriptPubkeyHash r, sp_Height = height\<rparr>"

definition unspend_row :: "spentData \<Rightarrow> utxoData" where
  "unspend_row r = \<lparr>u_TxidVout = sp_TxidVout r, u_Satoshi = sp_Satoshi r,
                    u_ScriptPubkeyHash = sp_ScriptPubkeyHash r\<rparr>"

definition deleteUnspentOutput :: "txidVout \<Rightarrow> int \<Rightarrow> 'z store_scheme \<Rightarrow> (unit, 'z store_scheme) outcome" where
  "deleteUnspentOutput txVout height s =
     (let d = db s;
          moved = (if txVout \<in> sp_TxidVout ` set (spent_tbl d) then []
                   else map (spend_row height) (filter (\<lambda>r. u_TxidVout r = txVout) (unspent_tbl d)))
      in (Inr (), s\<lparr>db := d\<lparr>spent_tbl := spent_tbl d @ moved,
                            unspent_tbl := filter (\<lambda>r. u_TxidVout r \<noteq> txVout) (unspent_tbl d)\<rparr>,
                    utxoIndex := AList.delete txVout (utxoIndex s)\<rparr>))"

section \<open>The cache\<close>

definition index_rows :: "utxoData list \<Rightarrow> (txidVout \<times> utxoData2) list \<Rightarrow> (txidVout \<times> utxoData2) list" where
  "index_rows rows idx = foldl (\<lambda>m r. AList.update (u_TxidVout r) (utxo2 r) m) idx rows"

definition loadUtxoIndex :: "'z store_scheme \<Rightarrow> (unit, 'z store_scheme) outcome" where
  "loadUtxoIndex s =
     ebind (ereads (selectAllUtxos s) s) (\<lambda>utxos s.
     (Inr (), s\<lparr>utxoIndex := index_rows utxos (utxoIndex s)\<rparr>))"

definition reloadCaches :: "'z store_scheme \<Rightarrow> (unit, 'z store_scheme) outcome" where
  "reloadCaches s = loadUtxoIndex (s\<lparr>utxoIndex := []\<rparr>)"

definition newRepository :: "database \<Rightarrow> (unit, store) outcome" where
  "newRepository d = loadUtxoIndex \<lparr>db = d, utxoIndex = []\<rparr>"

section \<open>Rolling back to a block\<close>

definition txids_above :: "int \<Rightarrow> database \<Rightarrow> hash32 list" where
  "txids_above height d =
     map td_Txid (filter (\<lambda>t. list_ex (\<lambda>b. bh_Hash b = td_BlockHash t \<and> bh_Height b > height) (blockheader_tbl d))
       (tx_tbl d))"

definition deleteAllSinceBlock :: "int \<Rightarrow> 'z store_scheme \<Rightarrow> (unit, 'z store_scheme) outcome" where
  "deleteAllSinceBlock height s =
     (let d = db s;
          above = txids_above height d;
          stx = filter (\<lambda>(_, txid). txid \<notin> set above) (stx_tbl d);
          back = map unspend_row (filter (\<lambda>r. sp_Height r > height) (spent_tbl d))
      in if \<not> distinct (map u_TxidVout (unspent_tbl d @ back)) then (Inl ErrConstraint, s)
         else (Inr (), s\<lparr>db := d\<lparr>
             stx_tbl := stx,
             spent_tbl := filter (\<lambda>r. \<not> sp_Height r > height) (spent_tbl d),
             unspent_tbl := filter (\<lambda>r. take 32 (u_TxidVout r) \<notin> set above) (unspent_tbl d @ back),
             tx_tbl := filter (\<lambda>t. \<not> list_ex (\<lambda>b. bh_Hash b = td_BlockHash t \<and> bh_Height b > height)
                                     (blockheader_tbl d)) (tx_tbl d),
             blockheader_tbl := filter (\<lambda>b. \<not> bh_Height b > height) (blockheader_tbl d),
             wallet_tbl := map (\<lambda>w. if wd_Height w > height then w\<lparr>wd_Height := height\<rparr> else w)
                               (wallet_tbl d)\<rparr>\<rparr>))"

end
