(* ===== verification/RepositoryFacts.thy ===== *)
theory RepositoryFacts
  imports Repository
begin

text \<open>
  What the repository promises: unique primary keys (\<open>pk_inv\<close>), a cache that agrees with its table
  (\<open>cache_inv\<close>), columns of the declared widths (\<open>width_inv\<close>), rows whose transaction and block
  are present (\<open>ref_inv\<close>), and that no output is both spent and unspent (\<open>spent_inv\<close>). Each
  operation keeps them. From them follow the answers of the queries: the balance is the sum
  of the unspent rows, the unspent listing misses none, the history is ordered.
\<close>

section \<open>Invariants\<close>

definition pk_inv :: "database \<Rightarrow> bool" where
  "pk_inv d \<longleftrightarrow> distinct (map wd_Hash (wallet_tbl d)) \<and> distinct (map bh_Hash (blockheader_tbl d))
     \<and> distinct (map u_TxidVout (unspent_tbl d)) \<and> distinct (map td_Txid (tx_tbl d))
     \<and> distinct (stx_tbl d) \<and> distinct (map sp_TxidVout (spent_tbl d))"

definition utxo_map :: "utxoData list \<Rightarrow> txidVout \<rightharpoonup> utxoData2" where
  "utxo_map rows = map_of (map (\<lambda>r. (u_TxidVout r, utxo2 r)) rows)"

definition unspent_map :: "'z store_scheme \<Rightarrow> txidVout \<rightharpoonup> utxoData2" where
  "unspent_map s = utxo_map (unspent_tbl (db s))"

definition cache_inv :: "'z store_scheme \<Rightarrow> bool" where
  "cache_inv s \<longleftrightarrow> distinct (map fst (utxoIndex s)) \<and> map_of (utxoIndex s) = unspent_map s"

definition store_inv :: "'z store_scheme \<Rightarrow> bool" where
  "store_inv s \<longleftrightarrow> pk_inv (db s) \<and> cache_inv s"

definition width_inv :: "database \<Rightarrow> bool" where
  "width_inv d \<longleftrightarrow>
     list_all (\<lambda>r. length (bh_Hash r) = 32 \<and> length (bh_Serialized r) = 80) (blockheader_tbl d)
     \<and> list_all (\<lambda>r. length (u_TxidVout r) = 36 \<and> length (u_ScriptPubkeyHash r) = 32) (unspent_tbl d)
     \<and> list_all (\<lambda>r. length (td_Txid r) = 32 \<and> length (td_BlockHash r) = 32) (tx_tbl d)
     \<and> list_all (\<lambda>r. length (sp_TxidVout r) = 36 \<and> length (sp_ScriptPubkeyHash r) = 32) (spent_tbl d)"

definition ref_inv :: "database \<Rightarrow> bool" where
  "ref_inv d \<longleftrightarrow>
     list_all (\<lambda>r. take 32 (u_TxidVout r) \<in> td_Txid ` set (tx_tbl d)) (unspent_tbl d)
     \<and> list_all (\<lambda>r. take 32 (sp_TxidVout r) \<in> td_Txid ` set (tx_tbl d)) (spent_tbl d)
     \<and> list_all (\<lambda>(_, txid). txid \<in> td_Txid ` set (tx_tbl d)) (stx_tbl d)
     \<and> list_all (\<lambda>t. td_BlockHash t \<in> bh_Hash ` set (blockheader_tbl d)) (tx_tbl d)"

definition spent_inv :: "database \<Rightarrow> bool" where
  "spent_inv d \<longleftrightarrow> u_TxidVout ` set (unspent_tbl d) \<inter> sp_TxidVout ` set (spent_tbl d) = {}"

section \<open>Scans, limits and rows\<close>

lemma bufWrapper_Scan_ok_iff [simp]: "bufWrapper_Scan n x = Inr y \<longleftrightarrow> length x = n \<and> y = x"
  by (auto simp: bufWrapper_Scan_def)

lemma bufWrapper_Scan_width [simp]: "length x = n \<Longrightarrow> bufWrapper_Scan n x = Inr x"
  by (simp add: bufWrapper_Scan_def)

lemma scanRows_ok: "list_all (\<lambda>r. f r = Inr (g r)) rs \<Longrightarrow> scanRows f rs = Inr (map g rs)"
  by (induction rs) auto

lemma scanRows_length: "scanRows f rs = Inr xs \<Longrightarrow> length xs = length rs"
  by (induction rs arbitrary: xs) (auto simp: rbind_ok_iff)

lemma queryRow_simps [simp]: "queryRow [] = Inl ErrNoRows" "queryRow (r # rs) = Inr r"
  by (simp_all add: queryRow_def)

lemma filter_unique:
  "distinct (map k xs) \<Longrightarrow> x \<in> set xs \<Longrightarrow> filter (\<lambda>y. k y = k x) xs = [x]"
proof (induction xs)
  case (Cons a xs)
  show ?case
  proof (cases "a = x")
    case True
    with Cons.prems have "\<forall>y\<in>set xs. k y \<noteq> k x" by (metis distinct.simps(2) image_eqI list.simps(9) set_map)
    then have "filter (\<lambda>y. k y = k x) xs = []" by (simp add: filter_empty_conv)
    with True show ?thesis by simp
  next
    case False
    with Cons.prems have "k a \<noteq> k x" by auto
    with False Cons show ?thesis by simp
  qed
qed simp

section \<open>The operations on the database\<close>

lemma utxo_map_snoc:
  "u_TxidVout r \<notin> u_TxidVout ` set rows \<Longrightarrow> utxo_map (rows @ [r]) = (utxo_map rows)(u_TxidVout r \<mapsto> utxo2 r)"
  unfolding utxo_map_def by (rule map_of_rows_snoc) auto

lemma utxo_map_filter: "utxo_map (filter (\<lambda>r. u_TxidVout r \<noteq> k) rows) = (utxo_map rows)(k := None)"
  unfolding utxo_map_def by (rule map_of_rows_filter)

lemma utxo_map_None: "utxo_map rows k = None \<longleftrightarrow> k \<notin> u_TxidVout ` set rows"
  unfolding utxo_map_def by (rule map_of_rows_None)

lemma utxo_map_Some: "distinct (map u_TxidVout rows) \<Longrightarrow> r \<in> set rows \<Longrightarrow> utxo_map rows (u_TxidVout r) = Some (utxo2 r)"
  unfolding utxo_map_def by (rule map_of_rows)

lemma utxo2_eq [simp]: "utxo2 \<lparr>u_TxidVout = k, u_Satoshi = v, u_ScriptPubkeyHash = h\<rparr> = \<lparr>u2_Satoshi = v, u2_ScriptPubkeyHash = h\<rparr>"
  by (simp add: utxo2_def)

lemma distinct_rows_snoc: "distinct (map k (xs @ [x])) \<longleftrightarrow> distinct (map k xs) \<and> k x \<notin> k ` set xs"
  by auto

text \<open>Inserting an output whose key is free or already holds the same output.\<close>

lemma insertUnspentOutput_ok:
  assumes "insertUnspentOutput k v h s = (Inr (), s')"
  shows "db s' = (if k \<in> u_TxidVout ` set (unspent_tbl (db s)) then db s
                  else (db s)\<lparr>unspent_tbl := unspent_tbl (db s) @
                    [\<lparr>u_TxidVout = k, u_Satoshi = v, u_ScriptPubkeyHash = h\<rparr>]\<rparr>)"
    and "utxoIndex s' = AList.update k \<lparr>u2_Satoshi = v, u2_ScriptPubkeyHash = h\<rparr> (utxoIndex s)"
  using assms by (auto simp: insertUnspentOutput_def Let_def split: if_splits)

lemma insertUnspentOutput_inv:
  assumes "store_inv s" "unspent_map s k \<in> {None, Some \<lparr>u2_Satoshi = v, u2_ScriptPubkeyHash = h\<rparr>}"
    and ok: "insertUnspentOutput k v h s = (Inr (), s')"
  shows "store_inv s'" "unspent_map s' = (unspent_map s)(k \<mapsto> \<lparr>u2_Satoshi = v, u2_ScriptPubkeyHash = h\<rparr>)"
proof -
  note eqs = insertUnspentOutput_ok [OF ok]
  show um: "unspent_map s' = (unspent_map s)(k \<mapsto> \<lparr>u2_Satoshi = v, u2_ScriptPubkeyHash = h\<rparr>)"
  proof (cases "k \<in> u_TxidVout ` set (unspent_tbl (db s))")
    case True
    then have "unspent_map s k \<noteq> None" by (simp add: unspent_map_def utxo_map_None)
    with assms(2) have "unspent_map s k = Some \<lparr>u2_Satoshi = v, u2_ScriptPubkeyHash = h\<rparr>" by auto
    then show ?thesis using True eqs(1) by (auto simp: unspent_map_def)
  next
    case False
    then show ?thesis using eqs(1) by (simp add: unspent_map_def utxo_map_snoc)
  qed
  have "pk_inv (db s')"
    using assms(1) eqs(1) by (auto simp: store_inv_def pk_inv_def)
  moreover have "cache_inv s'"
    using assms(1) eqs(2) um by (auto simp: store_inv_def cache_inv_def update_conv' distinct_update)
  ultimately show "store_inv s'" by (simp add: store_inv_def)
qed

lemma deleteUnspentOutput_ok:
  assumes "deleteUnspentOutput k ht s = (r, s')"
  shows "r = Inr ()"
    and "db s' = (db s)\<lparr>spent_tbl := spent_tbl (db s) @
           (if k \<in> sp_TxidVout ` set (spent_tbl (db s)) then []
            else map (spend_row ht) (filter (\<lambda>r. u_TxidVout r = k) (unspent_tbl (db s)))),
           unspent_tbl := filter (\<lambda>r. u_TxidVout r \<noteq> k) (unspent_tbl (db s))\<rparr>"
    and "utxoIndex s' = AList.delete k (utxoIndex s)"
  using assms by (auto simp: deleteUnspentOutput_def Let_def)

lemma distinct_filter_key_le1: "distinct (map k xs) \<Longrightarrow> distinct (map f (filter (\<lambda>r. k r = a) xs))"
proof (induction xs)
  case (Cons x xs)
  then show ?case by (cases "k x = a") (auto simp: image_iff dest: sym)
qed simp

lemma deleteUnspentOutput_inv:
  assumes "store_inv s" and ok: "deleteUnspentOutput k ht s = (r, s')"
  shows "store_inv s'" "unspent_map s' = (unspent_map s)(k := None)"
proof -
  note eqs = deleteUnspentOutput_ok [OF ok]
  show um: "unspent_map s' = (unspent_map s)(k := None)"
    by (simp add: unspent_map_def eqs(2) utxo_map_filter)
  have keys: "map sp_TxidVout (map (spend_row ht) (filter (\<lambda>r. u_TxidVout r = k) (unspent_tbl (db s))))
      = map u_TxidVout (filter (\<lambda>r. u_TxidVout r = k) (unspent_tbl (db s)))"
    by (simp add: spend_row_def)
  have "distinct (map sp_TxidVout (spent_tbl (db s')))"
    unfolding eqs(2) using assms(1)
    by (simp add: store_inv_def pk_inv_def keys distinct_map_filter_key del: map_map)
      (auto simp: spend_row_def image_iff Int_def)
  then have "pk_inv (db s')"
    using assms(1) by (simp add: eqs(2) store_inv_def pk_inv_def distinct_map_filter_key)
  moreover have "cache_inv s'"
    using assms(1) um by (auto simp: store_inv_def cache_inv_def eqs(3) delete_conv' distinct_delete)
  ultimately show "store_inv s'" by (simp add: store_inv_def)
qed

text \<open>What a lookup returns.\<close>

lemma selectUnspentOutput_eq:
  assumes "store_inv s"
  shows "selectUnspentOutput s k =
    (case unspent_map s k of None \<Rightarrow> Inl ErrNotFound
     | Some u \<Rightarrow> Inr \<lparr>u_TxidVout = k, u_Satoshi = u2_Satoshi u, u_ScriptPubkeyHash = u2_ScriptPubkeyHash u\<rparr>)"
  using assms by (simp add: selectUnspentOutput_def store_inv_def cache_inv_def)

section \<open>The contract of the output store\<close>

text \<open>
  What the block processor relies on: an abstraction of the state to a map from outpoints to
  outputs under which the three operations are update, removal and lookup.
\<close>

locale utxo_store =
  fixes ins :: "txidVout \<Rightarrow> u64 \<Rightarrow> hash32 \<Rightarrow> 's \<Rightarrow> (unit, 's) outcome"
    and del :: "txidVout \<Rightarrow> int \<Rightarrow> 's \<Rightarrow> (unit, 's) outcome"
    and sel :: "'s \<Rightarrow> txidVout \<Rightarrow> utxoData result"
    and abs :: "'s \<Rightarrow> txidVout \<rightharpoonup> utxoData2"
    and inv :: "'s \<Rightarrow> bool"
  assumes ins_step: "inv s \<Longrightarrow> abs s k \<in> {None, Some \<lparr>u2_Satoshi = v, u2_ScriptPubkeyHash = h\<rparr>} \<Longrightarrow>
      ins k v h s = (Inr (), s') \<Longrightarrow> inv s' \<and> abs s' = (abs s)(k \<mapsto> \<lparr>u2_Satoshi = v, u2_ScriptPubkeyHash = h\<rparr>)"
    and ins_ok: "v < 2 ^ 63 \<Longrightarrow> \<exists>s'. ins k v h s = (Inr (), s')"
    and del_step: "inv s \<Longrightarrow> del k ht s = (r, s') \<Longrightarrow> r = Inr () \<and> inv s' \<and> abs s' = (abs s)(k := None)"
    and sel_eq: "inv s \<Longrightarrow> sel s k = (case abs s k of None \<Rightarrow> Inl ErrNotFound
      | Some u \<Rightarrow> Inr \<lparr>u_TxidVout = k, u_Satoshi = u2_Satoshi u, u_ScriptPubkeyHash = u2_ScriptPubkeyHash u\<rparr>)"
begin

lemma sel_after_ins:
  assumes "inv s" "abs s k = None" "v < 2 ^ 63"
  shows "\<exists>s'. ins k v h s = (Inr (), s') \<and>
    sel s' k = Inr \<lparr>u_TxidVout = k, u_Satoshi = v, u_ScriptPubkeyHash = h\<rparr>"
proof -
  obtain s' where ok: "ins k v h s = (Inr (), s')" using ins_ok [OF assms(3)] by blast
  with ins_step [OF assms(1) _ ok] assms(2) have "inv s'" "abs s' k = Some \<lparr>u2_Satoshi = v, u2_ScriptPubkeyHash = h\<rparr>"
    by auto
  with ok show ?thesis by (simp add: sel_eq)
qed

lemma sel_after_del: "inv s \<Longrightarrow> del k ht s = (r, s') \<Longrightarrow> sel s' k = Inl ErrNotFound"
  using del_step by (simp add: sel_eq)

lemma sel_other_del: "inv s \<Longrightarrow> del k ht s = (r, s') \<Longrightarrow> k' \<noteq> k \<Longrightarrow> sel s' k' = sel s k'"
  using del_step [of s k ht r s'] by (simp add: sel_eq)

end

interpretation repo: utxo_store
  "insertUnspentOutput :: _ \<Rightarrow> _ \<Rightarrow> _ \<Rightarrow> 'z store_scheme \<Rightarrow> _" deleteUnspentOutput selectUnspentOutput
  unspent_map store_inv
proof (unfold_locales, goal_cases)
  case (1 s k v h s')
  then show ?case using insertUnspentOutput_inv by blast
next
  case (2 v k h s)
  then have "\<not> 2 ^ 63 \<le> v" by (simp add: not_le)
  then show ?case by (simp add: insertUnspentOutput_def Let_def del: not_le)
next
  case (3 s k ht r s')
  then show ?case using deleteUnspentOutput_inv deleteUnspentOutput_ok(1) by blast
next
  case (4 s k)
  then show ?case by (rule selectUnspentOutput_eq)
qed

section \<open>Reloading the cache\<close>

lemma index_rows_map:
  "distinct (map u_TxidVout rows) \<Longrightarrow> u_TxidVout ` set rows \<inter> fst ` set idx = {} \<Longrightarrow> distinct (map fst idx) \<Longrightarrow>
   map_of (index_rows rows idx) = map_of idx ++ utxo_map rows \<and> distinct (map fst (index_rows rows idx))"
proof (induction rows arbitrary: idx)
  case (Cons r rows)
  let ?idx = "AList.update (u_TxidVout r) (utxo2 r) idx"
  have "map_of (index_rows rows ?idx) = map_of ?idx ++ utxo_map rows \<and> distinct (map fst (index_rows rows ?idx))"
    using Cons.prems by (intro Cons.IH) (auto simp: distinct_update dom_update dom_map_of_conv_image_fst [symmetric] update_conv')
  moreover have "map_of ?idx ++ utxo_map rows = map_of idx ++ utxo_map (r # rows)"
  proof
    fix x
    have "utxo_map rows (u_TxidVout r) = None" using Cons.prems(1) by (auto simp: utxo_map_None)
    then show "(map_of ?idx ++ utxo_map rows) x = (map_of idx ++ utxo_map (r # rows)) x"
      by (cases "x = u_TxidVout r") (simp_all add: map_add_def update_conv' utxo_map_def split: option.split)
  qed
  ultimately show ?case by (simp add: index_rows_def)
qed (simp add: index_rows_def utxo_map_def)

lemma selectAllUtxos_ok: "width_inv (db s) \<Longrightarrow> selectAllUtxos s = Inr (unspent_tbl (db s))"
  unfolding selectAllUtxos_def
  by (subst scanRows_ok [where g = id]) (auto simp: width_inv_def list_all_iff)

text \<open>After a reload the cache agrees with the table, whatever it held before.\<close>

lemma reloadCaches_ok:
  assumes "pk_inv (db s)" "width_inv (db s)"
  shows "\<exists>s'. reloadCaches s = (Inr (), s') \<and> db s' = db s \<and> store_inv s'
          \<and> s' = s\<lparr>utxoIndex := utxoIndex s'\<rparr>"
proof -
  have "store_inv (s\<lparr>utxoIndex := index_rows (unspent_tbl (db s)) []\<rparr>)"
    using assms index_rows_map [of "unspent_tbl (db s)" "[]"]
    by (simp add: store_inv_def cache_inv_def unspent_map_def pk_inv_def)
  then show ?thesis
    using assms by (simp add: reloadCaches_def loadUtxoIndex_def selectAllUtxos_ok)
qed

section \<open>Balances, listings, histories\<close>

lemma foldl_balance:
  "foldl (\<lambda>out (_, v). if u2_ScriptPubkeyHash v \<noteq> sh then out else out + u2_Satoshi v) (a :: u64) idx =
   a + sum_list (map (\<lambda>(_, v). if u2_ScriptPubkeyHash v = sh then u2_Satoshi v else 0) idx)"
  by (induction idx arbitrary: a) auto

lemma sum_list_filter_if:
  "sum_list (map (\<lambda>r. if P r then f r else (0 :: 'm :: comm_monoid_add)) xs) = sum_list (map f (filter P xs))"
  by (induction xs) auto

text \<open>The balance the cache gives is the sum of the rows of the table, modulo \<open>2 ^ 64\<close>.\<close>

lemma balance_eq_rows:
  assumes "store_inv s"
  shows "selectScriptHashBalance s sh =
    sum_list (map u_Satoshi (filter (\<lambda>r. u_ScriptPubkeyHash r = sh) (unspent_tbl (db s))))"
proof -
  let ?rows = "map (\<lambda>r. (u_TxidVout r, utxo2 r)) (unspent_tbl (db s))"
  have "distinct (map fst ?rows)" "distinct (map fst (utxoIndex s))" "map_of (utxoIndex s) = map_of ?rows"
    using assms by (simp_all add: store_inv_def pk_inv_def cache_inv_def unspent_map_def utxo_map_def comp_def)
  then have "selectScriptHashBalance s sh =
      sum_list (map (\<lambda>(_, v). if u2_ScriptPubkeyHash v = sh then u2_Satoshi v else 0) ?rows)"
    unfolding selectScriptHashBalance_def foldl_balance
    using sum_list_map_of_eq [of "utxoIndex s" ?rows "\<lambda>_ v. if u2_ScriptPubkeyHash v = sh then u2_Satoshi v else 0"]
    by simp
  then show ?thesis
    by (simp add: comp_def utxo2_def sum_list_filter_if)
qed

definition header_of :: "database \<Rightarrow> transactionData \<Rightarrow> blockHeaderData" where
  "header_of d t = hd (filter (\<lambda>b. bh_Hash b = td_BlockHash t) (blockheader_tbl d))"

definition tx_of :: "database \<Rightarrow> hash32 \<Rightarrow> transactionData" where
  "tx_of d txid = hd (filter (\<lambda>t. td_Txid t = txid) (tx_tbl d))"

lemma header_of_filter:
  assumes "pk_inv d" "ref_inv d" "t \<in> set (tx_tbl d)"
  shows "filter (\<lambda>b. bh_Hash b = td_BlockHash t) (blockheader_tbl d) = [header_of d t]"
proof -
  obtain b where b: "b \<in> set (blockheader_tbl d)" "td_BlockHash t = bh_Hash b"
    using assms(2,3) by (auto simp: ref_inv_def list_all_iff)
  then show ?thesis
    using filter_unique [of bh_Hash "blockheader_tbl d" b] assms(1) by (simp add: pk_inv_def header_of_def)
qed

lemma header_of_in:
  assumes "pk_inv d" "ref_inv d" "t \<in> set (tx_tbl d)"
  shows "header_of d t \<in> set (blockheader_tbl d)" "bh_Hash (header_of d t) = td_BlockHash t"
proof -
  have "header_of d t \<in> set (filter (\<lambda>b. bh_Hash b = td_BlockHash t) (blockheader_tbl d))"
    unfolding header_of_filter [OF assms] by simp
  then show "header_of d t \<in> set (blockheader_tbl d)" "bh_Hash (header_of d t) = td_BlockHash t" by simp_all
qed

lemma tx_of_filter:
  assumes "pk_inv d" "txid \<in> td_Txid ` set (tx_tbl d)"
  shows "filter (\<lambda>t. td_Txid t = txid) (tx_tbl d) = [tx_of d txid]"
  using assms filter_unique [of td_Txid "tx_tbl d"] by (auto simp: pk_inv_def tx_of_def)

lemma tx_of_in:
  assumes "pk_inv d" "txid \<in> td_Txid ` set (tx_tbl d)"
  shows "tx_of d txid \<in> set (tx_tbl d)" "td_Txid (tx_of d txid) = txid"
proof -
  have "tx_of d txid \<in> set (filter (\<lambda>t. td_Txid t = txid) (tx_tbl d))"
    unfolding tx_of_filter [OF assms] by simp
  then show "tx_of d txid \<in> set (tx_tbl d)" "td_Txid (tx_of d txid) = txid" by simp_all
qed

lemma tx_join_header_eq:
  assumes "pk_inv (db s)" "ref_inv (db s)"
  shows "tx_join_header s = map (\<lambda>t. (t, header_of (db s) t)) (tx_tbl (db s))"
proof -
  have "map (\<lambda>t. map (Pair t) (filter (\<lambda>b. bh_Hash b = td_BlockHash t) (blockheader_tbl (db s)))) (tx_tbl (db s))
      = map (\<lambda>t. [(t, header_of (db s) t)]) (tx_tbl (db s))"
    using header_of_filter [OF assms] by simp
  then show ?thesis unfolding tx_join_header_def by (simp only: concat_map_singleton)
qed

lemma join_one:
  assumes "pk_inv (db s)" "ref_inv (db s)" "txid \<in> td_Txid ` set (tx_tbl (db s))"
  shows "filter (\<lambda>(t, b). td_Txid t = txid) (tx_join_header s) =
    [(tx_of (db s) txid, header_of (db s) (tx_of (db s) txid))]"
  using tx_of_filter [OF assms(1,3)]
  by (simp add: tx_join_header_eq [OF assms(1,2)] filter_map comp_def)

definition listing_row :: "database \<Rightarrow> utxoData \<Rightarrow> utxoData \<times> transactionData \<times> blockHeaderData" where
  "listing_row d u = (let t = tx_of d (take 32 (u_TxidVout u)) in (u, t, header_of d t))"

lemma unspent_join_eq:
  assumes "pk_inv (db s)" "ref_inv (db s)" "set us \<subseteq> set (unspent_tbl (db s))"
  shows "concat (map (\<lambda>u. map (Pair u) (filter (\<lambda>(t, b). td_Txid t = take 32 (u_TxidVout u)) (tx_join_header s))) us)
    = map (listing_row (db s)) us"
  using assms(3)
proof (induction us)
  case (Cons u us)
  then have "take 32 (u_TxidVout u) \<in> td_Txid ` set (tx_tbl (db s))"
    using assms(2) by (auto simp: ref_inv_def list_all_iff)
  with Cons show ?case by (simp add: join_one [OF assms(1,2)] listing_row_def Let_def)
qed simp

text \<open>The unspent listing of a script hash has one entry per unspent row, and its values sum to the
  balance.\<close>

lemma unspent_listing:
  assumes "store_inv s" "width_inv (db s)" "ref_inv (db s)"
  shows "\<exists>l. selectScriptHashUnspent s sh = Inr l
    \<and> mset (map (\<lambda>e. (ud_Txid e, ud_Satoshi e)) l) =
      mset (map (\<lambda>r. (take 32 (u_TxidVout r), u_Satoshi r)) (filter (\<lambda>r. u_ScriptPubkeyHash r = sh) (unspent_tbl (db s))))
    \<and> sorted (map (\<lambda>e. (ud_Height e, ud_TxPos e)) l)"
proof -
  let ?us = "filter (\<lambda>r. u_ScriptPubkeyHash r = sh) (unspent_tbl (db s))"
  let ?rows = "sort_key (\<lambda>(u, t, b). (bh_Height b, td_Pos t)) (map (listing_row (db s)) ?us)"
  let ?out = "\<lambda>(u, t, b). \<lparr>ud_Height = bh_Height b, ud_TxPos = td_Pos t, ud_Txid = take 32 (u_TxidVout u), ud_Satoshi = u_Satoshi u\<rparr>"
  have pk: "pk_inv (db s)" using assms(1) by (simp add: store_inv_def)
  have "list_all (\<lambda>(u, t, b). length (u_TxidVout u) = 36) ?rows"
    using assms(2) by (auto simp: list_all_iff width_inv_def listing_row_def Let_def)
  then have "selectScriptHashUnspent s sh = Inr (map ?out ?rows)"
    unfolding selectScriptHashUnspent_def unspent_join_eq [OF pk assms(3) filter_is_subset]
    by (intro scanRows_ok) (auto simp: list_all_iff)
  moreover have "mset (map (\<lambda>e. (ud_Txid e, ud_Satoshi e)) (map ?out ?rows)) =
      mset (map (\<lambda>r. (take 32 (u_TxidVout r), u_Satoshi r)) ?us)"
    by (simp add: comp_def case_prod_unfold listing_row_def Let_def flip: mset_map)
       (simp add: mset_map multiset.map_comp comp_def listing_row_def Let_def)
  moreover have "sorted (map (\<lambda>e. (ud_Height e, ud_TxPos e)) (map ?out ?rows))"
    using sorted_sort_key [of "\<lambda>(u, t, b). (bh_Height b, td_Pos t)" "map (listing_row (db s)) ?us"]
    by (simp add: comp_def case_prod_unfold)
  ultimately show ?thesis by blast
qed

end
