(* ===== verification/Bip32.thy ===== *)
theory Bip32
  imports Codec
begin

text \<open>
  Hierarchical deterministic keys, \<open>vendor/ncody.com/ncgo.git/bitcoin/bip32/bip32.go\<close>.

  The cryptographic packages the file calls (\<open>ripemd160\<close>, \<open>hmacsha512\<close>, \<open>secp256k1\<close>) are
  parameters: the record \<open>crypto\<close> has one field per function that is called, and \<open>crypto_ok\<close> and
  \<open>curve_ok\<close> state what their documentation says of them: the sizes of the results, and that the
  map from scalars to points turns addition into addition. Fixed-size arrays are byte lists;
  \<open>wf_ExtendedKey\<close> gives the sizes of the fields. A \<open>[65]byte\<close> that holds a public key and a chain code is
  their concatenation, as the code fills it.

  Shown: a derivation along a path is the composition of its steps, deriving publicly and deriving
  privately give the same public keys (so a watch-only wallet sees the addresses of the
  spending wallet), hardened steps are refused for public keys, and what the code stores as the
  fingerprint of the parent.
\<close>

section \<open>The cryptographic packages\<close>

record crypto =
  Sum160 :: "bytes \<Rightarrow> bytes"                        \<comment> \<open>ripemd160.Sum160\<close>
  Sum512 :: "bytes \<Rightarrow> bytes \<Rightarrow> bytes"               \<comment> \<open>hmacsha512.Sum512 key data\<close>
  BasePointMul :: "bytes \<Rightarrow> bytes option"           \<comment> \<open>compressed point, none at infinity\<close>
  PointAdd :: "bytes \<Rightarrow> bytes \<Rightarrow> bytes"             \<comment> \<open>on points that deserialize\<close>
  PointDeserialize :: "bytes \<Rightarrow> bool"               \<comment> \<open>whether the bytes are a point\<close>
  ModNScalarAdd :: "bytes \<Rightarrow> bytes \<Rightarrow> bytes"        \<comment> \<open>addition modulo the group order\<close>

definition crypto_ok :: "crypto \<Rightarrow> bool" where
  "crypto_ok C \<longleftrightarrow>
     (\<forall>x. length (Sum160 C x) = 20) \<and> (\<forall>k x. length (Sum512 C k x) = 64)
     \<and> (\<forall>s p. BasePointMul C s = Some p \<longrightarrow> length p = 33)
     \<and> (\<forall>p q. length (PointAdd C p q) = 33) \<and> (\<forall>a b. length (ModNScalarAdd C a b) = 32)"

definition curve_ok :: "crypto \<Rightarrow> bool" where
  "curve_ok C \<longleftrightarrow>
     (\<forall>s p. BasePointMul C s = Some p \<longrightarrow> PointDeserialize C p)
     \<and> (\<forall>a b p q r. BasePointMul C a = Some p \<longrightarrow> BasePointMul C b = Some q \<longrightarrow>
          BasePointMul C (ModNScalarAdd C b a) = Some r \<longrightarrow> PointAdd C p q = r)"

section \<open>Extended keys\<close>

record ExtendedKey =
  ek_Version :: bytes
  ek_Depth :: byte
  ek_Fingerprint :: bytes
  ek_ChildNum :: bytes
  ek_Chaincode :: bytes
  ek_Key :: bytes

definition wf_ExtendedKey :: "ExtendedKey \<Rightarrow> bool" where
  "wf_ExtendedKey k \<longleftrightarrow> length (ek_Version k) = 4 \<and> length (ek_Fingerprint k) = 4
     \<and> length (ek_ChildNum k) = 4 \<and> length (ek_Chaincode k) = 32 \<and> length (ek_Key k) = 33"

definition KEY_HARDENED :: u32 where
  "KEY_HARDENED = push_bit 31 1"

definition VersionMainnetPublic :: bytes where
  "VersionMainnetPublic = [0x04, 0x88, 0xb2, 0x1e]"

definition VersionMainnetPrivate :: bytes where
  "VersionMainnetPrivate = [0x04, 0x88, 0xad, 0xe4]"

definition VersionTestnetPublic :: bytes where
  "VersionTestnetPublic = [0x04, 0x35, 0x87, 0xcf]"

definition VersionTestnetPrivate :: bytes where
  "VersionTestnetPrivate = [0x04, 0x35, 0x83, 0x94]"

definition hash160 :: "crypto \<Rightarrow> bytes \<Rightarrow> bytes" where
  "hash160 C data = Sum160 C (Sum256 data)"

definition serializeUint32 :: "u32 \<Rightarrow> bytes" where
  "serializeUint32 v =
     [ucast (drop_bit (8 * 3) v), ucast (drop_bit (8 * 2) v), ucast (drop_bit (8 * 1) v), ucast (drop_bit (8 * 0) v)]"

definition deserializeUint32 :: "bytes \<Rightarrow> u32" where
  "deserializeUint32 v =
     (let r = ucast (v ! 0); r = push_bit 8 r OR ucast (v ! 1);
          r = push_bit 8 r OR ucast (v ! 2) in push_bit 8 r OR ucast (v ! 3))"

section \<open>One step of a derivation\<close>

definition compressedFromBasePointMul :: "crypto \<Rightarrow> bytes \<Rightarrow> bytes result" where
  "compressedFromBasePointMul C scalar =
     (case BasePointMul C scalar of None \<Rightarrow> Inl (Err ''point at infinity'') | Some p \<Rightarrow> Inr p)"

definition compressedFromPointAdd :: "crypto \<Rightarrow> bytes \<Rightarrow> bytes \<Rightarrow> bytes result" where
  "compressedFromPointAdd C pointA pointB =
     (if \<not> PointDeserialize C pointA then Inl (Err ''PointDeserialize'')
      else if \<not> PointDeserialize C pointB then Inl (Err ''PointDeserialize'')
      else Inr (PointAdd C pointA pointB))"

definition pubFromPriv :: "crypto \<Rightarrow> bytes \<Rightarrow> bytes result" where
  "pubFromPriv C keyChaincode =
     rbind (compressedFromBasePointMul C (take 32 keyChaincode)) (\<lambda>pub. Inr (pub @ drop 32 keyChaincode))"

definition finalizeDerivePriv :: "crypto \<Rightarrow> bytes \<Rightarrow> bytes \<Rightarrow> bytes \<Rightarrow> bytes result" where
  "finalizeDerivePriv C keyChaincode IL IR = Inr (ModNScalarAdd C IL (take 32 keyChaincode) @ IR)"

definition deriveUnhardenedPrivFromPriv :: "crypto \<Rightarrow> bytes \<Rightarrow> u32 \<Rightarrow> bytes result" where
  "deriveUnhardenedPrivFromPriv C keyChaincode index =
     rbind (compressedFromBasePointMul C (take 32 keyChaincode)) (\<lambda>pointCompressed.
     let I = Sum512 C (drop 32 keyChaincode) (pointCompressed @ serializeUint32 index)
     in finalizeDerivePriv C keyChaincode (take 32 I) (drop 32 I))"

definition deriveHardenedPrivFromPriv :: "crypto \<Rightarrow> bytes \<Rightarrow> u32 \<Rightarrow> bytes result" where
  "deriveHardenedPrivFromPriv C keyChaincode index =
     (let I = Sum512 C (drop 32 keyChaincode) ([0] @ take 32 keyChaincode @ serializeUint32 index)
      in finalizeDerivePriv C keyChaincode (take 32 I) (drop 32 I))"

definition deriveUnhardenedPubFromPub :: "crypto \<Rightarrow> bytes \<Rightarrow> u32 \<Rightarrow> bytes result" where
  "deriveUnhardenedPubFromPub C keyChaincode index =
     (let I = Sum512 C (drop 33 keyChaincode) (take 33 keyChaincode @ serializeUint32 index) in
      rbind (compressedFromBasePointMul C (take 32 I)) (\<lambda>p.
      rbind (compressedFromPointAdd C (take 33 keyChaincode) p) (\<lambda>key.
      Inr (key @ drop 32 I))))"

section \<open>Derivation along a path\<close>

text \<open>The loop of \<open>DeriveXprv\<close>; its state is the parent and the current key with its chain code.\<close>

fun DeriveXprv_loop :: "crypto \<Rightarrow> bytes \<Rightarrow> bytes \<Rightarrow> u32 list \<Rightarrow> (bytes \<times> bytes) result" where
  "DeriveXprv_loop C parent kc [] = Inr (parent, kc)"
| "DeriveXprv_loop C parent kc (derivation # path) =
     rbind (if derivation AND KEY_HARDENED \<noteq> 0 then deriveHardenedPrivFromPriv C kc derivation
            else deriveUnhardenedPrivFromPriv C kc derivation) (\<lambda>kc'.
     DeriveXprv_loop C kc kc' path)"

definition DeriveXprv :: "crypto \<Rightarrow> ExtendedKey \<Rightarrow> u32 list \<Rightarrow> ExtendedKey result" where
  "DeriveXprv C xpriv path =
     (if path = [] then Inr xpriv
      else
        rbind (DeriveXprv_loop C (replicate 64 0) (drop 1 (ek_Key xpriv) @ ek_Chaincode xpriv) path) (\<lambda>(parent, kc).
        rbind (pubFromPriv C parent) (\<lambda>parentXpub.
        Inr \<lparr>ek_Version = VersionMainnetPrivate,
             ek_Depth = of_nat (length path) + ek_Depth xpriv,
             ek_Fingerprint = take 4 (hash160 C (take 33 parentXpub)),
             ek_ChildNum = serializeUint32 (last path),
             ek_Chaincode = drop 32 kc,
             ek_Key = 0 # take 32 kc\<rparr>)))"

text \<open>The loop of \<open>DeriveXpub\<close>; its state is \<open>parentXpub\<close>, \<open>childXpub\<close> and \<open>pubkeyChaincode\<close>.\<close>

fun DeriveXpub_loop :: "crypto \<Rightarrow> bytes \<Rightarrow> bytes \<Rightarrow> bytes \<Rightarrow> u32 list \<Rightarrow> (bytes \<times> bytes) result" where
  "DeriveXpub_loop C parentXpub childXpub kc [] = Inr (parentXpub, childXpub)"
| "DeriveXpub_loop C parentXpub childXpub kc (derivation # path) =
     (if derivation AND KEY_HARDENED \<noteq> 0 then Inl (Err ''hardened derivation from pubkey'')
      else rbind (deriveUnhardenedPubFromPub C kc derivation) (\<lambda>child.
           DeriveXpub_loop C childXpub child child path))"

definition DeriveXpub :: "crypto \<Rightarrow> ExtendedKey \<Rightarrow> u32 list \<Rightarrow> ExtendedKey result" where
  "DeriveXpub C xpub path =
     rbind (DeriveXpub_loop C (replicate 65 0) (replicate 65 0) (ek_Key xpub @ ek_Chaincode xpub) path)
       (\<lambda>(parentXpub, childXpub).
     Inr \<lparr>ek_Version = VersionMainnetPublic,
          ek_Depth = of_nat (length path) + ek_Depth xpub,
          ek_Fingerprint = (if path = [] then replicate 4 0 else take 4 (hash160 C (take 33 parentXpub))),
          ek_ChildNum = (if path = [] then replicate 4 0 else serializeUint32 (last path)),
          ek_Chaincode = drop 33 childXpub,
          ek_Key = take 33 childXpub\<rparr>)"

definition XpubFromXprv :: "crypto \<Rightarrow> ExtendedKey \<Rightarrow> ExtendedKey result" where
  "XpubFromXprv C xprv =
     rbind (pubFromPriv C (drop 1 (ek_Key xprv) @ ek_Chaincode xprv)) (\<lambda>pkc.
     rbind (if ek_Version xprv = VersionMainnetPrivate then Inr VersionMainnetPublic
            else if ek_Version xprv = VersionTestnetPrivate then Inr VersionTestnetPublic
            else Inl (Err ''errBadKeyVersion'')) (\<lambda>version.
     Inr (xprv\<lparr>ek_Version := version, ek_Key := take 33 pkc, ek_Chaincode := drop 33 pkc\<rparr>)))"

section \<open>Sizes\<close>

lemma length_serializeUint32 [simp]: "length (serializeUint32 v) = 4"
  by (simp add: serializeUint32_def)

lemma serializeUint32_roundtrip: "deserializeUint32 (serializeUint32 v) = v"
  using uint32_roundtrip(2) [of v]
  by (simp add: serializeUint32_def deserializeUint32_def Let_def uint32SerializeBE_def uint32DeserializeBE_def)

lemma length_hash160: "crypto_ok C \<Longrightarrow> length (hash160 C x) = 20"
  by (simp add: hash160_def crypto_ok_def)

lemma compressedFromBasePointMul_ok_iff [simp]:
  "compressedFromBasePointMul C s = Inr p \<longleftrightarrow> BasePointMul C s = Some p"
  by (simp add: compressedFromBasePointMul_def split: option.split)

lemma compressedFromPointAdd_ok_iff [simp]:
  "compressedFromPointAdd C a b = Inr p \<longleftrightarrow> PointDeserialize C a \<and> PointDeserialize C b \<and> p = PointAdd C a b"
  by (auto simp: compressedFromPointAdd_def)

lemma derivePub_ok_iff:
  "deriveUnhardenedPubFromPub C kc i = Inr r \<longleftrightarrow>
     (let I = Sum512 C (drop 33 kc) (take 33 kc @ serializeUint32 i) in
      \<exists>p. BasePointMul C (take 32 I) = Some p \<and> PointDeserialize C (take 33 kc) \<and> PointDeserialize C p
        \<and> r = PointAdd C (take 33 kc) p @ drop 32 I)"
  by (auto simp: deriveUnhardenedPubFromPub_def Let_def rbind_ok_iff)

lemma length_derivePub:
  "crypto_ok C \<Longrightarrow> deriveUnhardenedPubFromPub C kc i = Inr r \<Longrightarrow> length r = 65"
  by (auto simp: derivePub_ok_iff Let_def crypto_ok_def)

lemma length_derivePriv:
  assumes "crypto_ok C"
  shows "deriveUnhardenedPrivFromPriv C kc i = Inr r \<Longrightarrow> length r = 64"
    and "deriveHardenedPrivFromPriv C kc i = Inr r \<Longrightarrow> length r = 64"
  using assms
  by (auto simp: deriveUnhardenedPrivFromPriv_def deriveHardenedPrivFromPriv_def finalizeDerivePriv_def
      rbind_ok_iff Let_def crypto_ok_def)

section \<open>Paths compose\<close>

fun pub_steps :: "crypto \<Rightarrow> bytes \<Rightarrow> u32 list \<Rightarrow> bytes result" where
  "pub_steps C kc [] = Inr kc"
| "pub_steps C kc (i # path) =
     (if i AND KEY_HARDENED \<noteq> 0 then Inl (Err ''hardened derivation from pubkey'')
      else rbind (deriveUnhardenedPubFromPub C kc i) (\<lambda>kc'. pub_steps C kc' path))"

lemma DeriveXpub_loop_steps:
  "path \<noteq> [] \<Longrightarrow> rbind (DeriveXpub_loop C p c kc path) (\<lambda>(p, c). Inr c) = pub_steps C kc path"
proof (induction path arbitrary: p c kc)
  case (Cons i path)
  show ?case
  proof (cases path)
    case Nil
    then show ?thesis
      by (cases "deriveUnhardenedPubFromPub C kc i") simp_all
  next
    case (Cons j js)
    with Cons.IH show ?thesis
      by (cases "deriveUnhardenedPubFromPub C kc i") simp_all
  qed
qed simp

lemma DeriveXpub_key:
  assumes "DeriveXpub C k path = Inr x" "path \<noteq> []"
  shows "pub_steps C (ek_Key k @ ek_Chaincode k) path = Inr (ek_Key x @ ek_Chaincode x)"
proof -
  obtain p c where l: "DeriveXpub_loop C (replicate 65 0) (replicate 65 0) (ek_Key k @ ek_Chaincode k) path = Inr (p, c)"
      and x: "ek_Key x = take 33 c" "ek_Chaincode x = drop 33 c"
    using assms(1) by (auto simp: DeriveXpub_def rbind_ok_iff)
  from DeriveXpub_loop_steps [OF assms(2), of C "replicate 65 0" "replicate 65 0" "ek_Key k @ ek_Chaincode k"] l
  show ?thesis by (simp add: x)
qed

lemma pub_steps_append:
  "pub_steps C kc (p @ q) = rbind (pub_steps C kc p) (\<lambda>kc'. pub_steps C kc' q)"
proof (induction p arbitrary: kc)
  case (Cons i p)
  then show ?case by (cases "deriveUnhardenedPubFromPub C kc i") simp_all
qed simp

section \<open>Public and private derivation agree\<close>

definition unhardened :: "u32 \<Rightarrow> bool" where
  "unhardened i \<longleftrightarrow> i AND KEY_HARDENED = 0"

text \<open>One step: the public key of the child is the child of the public key.\<close>

lemma step_agree:
  assumes "crypto_ok C" "curve_ok C" and kc: "length kc = 64"
    and priv: "deriveUnhardenedPrivFromPriv C kc i = Inr kc'"
    and pub: "pubFromPriv C kc = Inr pk" "pubFromPriv C kc' = Inr pk'"
    and il: "BasePointMul C (take 32 (Sum512 C (drop 33 pk) (take 33 pk @ serializeUint32 i))) \<noteq> None"
  shows "deriveUnhardenedPubFromPub C pk i = Inr pk'"
proof -
  obtain P where P: "BasePointMul C (take 32 kc) = Some P" "pk = P @ drop 32 kc"
    using pub(1) by (auto simp: pubFromPriv_def rbind_ok_iff)
  have lP: "length P = 33" using assms(1) P(1) by (auto simp: crypto_ok_def)
  define I where "I = Sum512 C (drop 32 kc) (P @ serializeUint32 i)"
  have kc': "kc' = ModNScalarAdd C (take 32 I) (take 32 kc) @ drop 32 I"
    using priv P(1) by (auto simp: deriveUnhardenedPrivFromPriv_def finalizeDerivePriv_def rbind_ok_iff I_def Let_def)
  have "length (ModNScalarAdd C (take 32 I) (take 32 kc)) = 32" using assms(1) by (auto simp: crypto_ok_def)
  then have pk': "BasePointMul C (ModNScalarAdd C (take 32 I) (take 32 kc)) = Some (take 33 pk')"
      "pk' = take 33 pk' @ drop 32 I"
    using pub(2) assms(1) by (auto simp: pubFromPriv_def rbind_ok_iff kc' crypto_ok_def)
  obtain Q where Q: "BasePointMul C (take 32 I) = Some Q"
    using il by (auto simp: P(2) lP I_def)
  have "PointAdd C P Q = take 33 pk'"
    using assms(2) P(1) Q pk'(1) unfolding curve_ok_def by blast
  moreover have "PointDeserialize C P" "PointDeserialize C Q"
    using assms(2) P(1) Q unfolding curve_ok_def by blast+
  ultimately show ?thesis
    using Q pk'(2) by (simp add: derivePub_ok_iff P(2) lP I_def [symmetric] Let_def)
qed

lemma derivePriv_pubFromPriv:
  "deriveUnhardenedPrivFromPriv C kc i = Inr kc' \<Longrightarrow> \<exists>pk. pubFromPriv C kc = Inr pk"
  by (auto simp: deriveUnhardenedPrivFromPriv_def pubFromPriv_def rbind_ok_iff)

text \<open>A whole path. The loop of \<open>DeriveXpub\<close> ends with the public key of the private child; its
  \<open>parentXpub\<close> is the child of the step before, which exists from the second step on.\<close>

lemma paths_agree:
  assumes "crypto_ok C" "curve_ok C"
  shows "path \<noteq> [] \<Longrightarrow> length kc = 64 \<Longrightarrow> list_all unhardened path \<Longrightarrow>
    DeriveXprv_loop C par kc path = Inr (par', kc') \<Longrightarrow> pubFromPriv C kc = Inr pk \<Longrightarrow> pubFromPriv C kc' = Inr pk' \<Longrightarrow>
    DeriveXpub_loop C p c pk path = Inr (pp, cc) \<Longrightarrow>
    cc = pk' \<and> pubFromPriv C par' = Inr (if length path = 1 then pk else pp) \<and> (length path = 1 \<longrightarrow> pp = c)"
proof (induction path arbitrary: par kc pk p c)
  case (Cons i path)
  then have i: "i AND KEY_HARDENED = 0" by (simp add: unhardened_def)
  from Cons.prems(4) i obtain k1 where k1: "deriveUnhardenedPrivFromPriv C kc i = Inr k1"
      "DeriveXprv_loop C kc k1 path = Inr (par', kc')"
    by (auto simp: rbind_ok_iff)
  from Cons.prems(7) i obtain x1 where x1: "deriveUnhardenedPubFromPub C pk i = Inr x1"
      "DeriveXpub_loop C c x1 x1 path = Inr (pp, cc)"
    by (auto simp: rbind_ok_iff)
  have il: "BasePointMul C (take 32 (Sum512 C (drop 33 pk) (take 33 pk @ serializeUint32 i))) \<noteq> None"
    using x1(1) by (auto simp: derivePub_ok_iff Let_def)
  show ?case
  proof (cases path)
    case Nil
    with k1 x1 Cons.prems(5,6) step_agree [OF assms Cons.prems(2) k1(1) Cons.prems(5) _ il, of pk']
    show ?thesis by auto
  next
    case (Cons j js)
    then have "j AND KEY_HARDENED = 0" using Cons.prems(3) by (simp add: unhardened_def)
    with k1(2) Cons obtain k2 where "deriveUnhardenedPrivFromPriv C k1 j = Inr k2"
      by (auto simp: rbind_ok_iff)
    then obtain pk1 where pk1: "pubFromPriv C k1 = Inr pk1"
      using derivePriv_pubFromPriv by blast
    have "x1 = pk1"
      using step_agree [OF assms Cons.prems(2) k1(1) Cons.prems(5) pk1 il] x1(1) by simp
    with Cons.IH [of k1 kc pk1 c x1] Cons.prems Cons k1 x1 pk1 length_derivePriv(1) [OF assms(1) k1(1)]
    have "cc = pk' \<and> pubFromPriv C par' = Inr (if length path = 1 then pk1 else pp) \<and> (length path = 1 \<longrightarrow> pp = x1)"
      by simp
    with \<open>x1 = pk1\<close> Cons show ?thesis by (auto split: if_splits)
  qed
qed simp

lemma length_pubFromPriv:
  "crypto_ok C \<Longrightarrow> length kc = 64 \<Longrightarrow> pubFromPriv C kc = Inr pk \<Longrightarrow> length pk = 65"
  by (auto simp: pubFromPriv_def rbind_ok_iff crypto_ok_def)

lemma XpubFromXprv_kc:
  assumes "XpubFromXprv C k = Inr x"
  shows "pubFromPriv C (drop 1 (ek_Key k) @ ek_Chaincode k) = Inr (ek_Key x @ ek_Chaincode x)"
    and "ek_Depth x = ek_Depth k" "ek_Fingerprint x = ek_Fingerprint k" "ek_ChildNum x = ek_ChildNum k"
    and "ek_Version k = VersionMainnetPrivate \<Longrightarrow> ek_Version x = VersionMainnetPublic"
  using assms by (auto simp: XpubFromXprv_def rbind_ok_iff)

lemma length_DeriveXprv_loop:
  "crypto_ok C \<Longrightarrow> length kc = 64 \<Longrightarrow> DeriveXprv_loop C par kc path = Inr (par', kc') \<Longrightarrow> length kc' = 64"
proof (induction path arbitrary: par kc)
  case (Cons i path)
  then obtain k1 where k1: "(if i AND KEY_HARDENED \<noteq> 0 then deriveHardenedPrivFromPriv C kc i
            else deriveUnhardenedPrivFromPriv C kc i) = Inr k1" "DeriveXprv_loop C kc k1 path = Inr (par', kc')"
    by (auto simp: rbind_ok_iff simp del: if_split)
  then have "length k1 = 64" using length_derivePriv [OF Cons.prems(1)] by (auto split: if_splits)
  with Cons k1(2) show ?case by blast
qed simp

lemma fingerprint_first_step:
  assumes "DeriveXpub C k [i] = Inr x"
  shows "ek_Fingerprint x = take 4 (hash160 C (replicate 33 0))"
  using assms by (auto simp: DeriveXpub_def rbind_ok_iff split: if_splits)

lemma DeriveXpub_hardened:
  assumes "\<not> list_all unhardened path"
  shows "\<exists>e. DeriveXpub C k path = Inl e"
proof -
  have *: "\<not> list_all unhardened path \<Longrightarrow> \<exists>e. DeriveXpub_loop C p c kc path = Inl e" for p c kc
  proof (induction path arbitrary: p c kc)
    case (Cons i path)
    then show ?case by (cases "deriveUnhardenedPubFromPub C kc i") (auto simp: unhardened_def)
  qed simp
  obtain e where "DeriveXpub_loop C (replicate 65 0) (replicate 65 0) (ek_Key k @ ek_Chaincode k) path = Inl e"
    using * [OF assms] by blast
  then show ?thesis by (simp add: DeriveXpub_def)
qed

section \<open>An instance of the assumptions\<close>

text \<open>A small group that satisfies \<open>crypto_ok\<close> and \<open>curve_ok\<close>: scalars of 32 bytes under
  exclusive or. It serves to show that the assumptions can be met.\<close>

definition pad32 :: "bytes \<Rightarrow> bytes" where
  "pad32 a = take 32 (a @ replicate 32 0)"

definition xor_crypto :: crypto where
  "xor_crypto = \<lparr>Sum160 = (\<lambda>_. replicate 20 7), Sum512 = (\<lambda>k d. pad32 k @ pad32 (rev d)),
     BasePointMul = (\<lambda>s. Some (2 # pad32 s)),
     PointAdd = (\<lambda>p q. 2 # map2 (XOR) (pad32 (tl p)) (pad32 (tl q))),
     PointDeserialize = (\<lambda>p. length p = 33),
     ModNScalarAdd = (\<lambda>a b. map2 (XOR) (pad32 b) (pad32 a))\<rparr>"

lemma length_pad32 [simp]: "length (pad32 a) = 32"
  by (simp add: pad32_def)

lemma pad32_id: "length a = 32 \<Longrightarrow> pad32 a = a"
  by (simp add: pad32_def)

lemma xor_crypto_ok: "crypto_ok xor_crypto"
  by (simp add: crypto_ok_def xor_crypto_def)

lemma xor_curve_ok: "curve_ok xor_crypto"
  by (auto simp: curve_ok_def xor_crypto_def pad32_id)

text \<open>Extended keys: what a public and a private derivation along one path return.\<close>

lemma derive_agree:
  assumes "crypto_ok C" "curve_ok C" "wf_ExtendedKey k" "path \<noteq> []" "list_all unhardened path"
    and "DeriveXprv C k path = Inr c" "XpubFromXprv C k = Inr X" "XpubFromXprv C c = Inr Y"
    and "DeriveXpub C X path = Inr Z"
  shows "ek_Key Z = ek_Key Y \<and> ek_Chaincode Z = ek_Chaincode Y \<and> ek_Depth Z = ek_Depth Y
    \<and> ek_ChildNum Z = ek_ChildNum Y \<and> ek_Version Z = ek_Version Y
    \<and> (length path > 1 \<longrightarrow> Z = Y)"
proof -
  let ?kc = "drop 1 (ek_Key k) @ ek_Chaincode k"
  have kc: "length ?kc = 64" using assms(3) by (simp add: wf_ExtendedKey_def)
  obtain par kc' pp where l: "DeriveXprv_loop C (replicate 64 0) ?kc path = Inr (par, kc')"
      "pubFromPriv C par = Inr pp"
      and c: "c = \<lparr>ek_Version = VersionMainnetPrivate, ek_Depth = of_nat (length path) + ek_Depth k,
        ek_Fingerprint = take 4 (hash160 C (take 33 pp)), ek_ChildNum = serializeUint32 (last path),
        ek_Chaincode = drop 32 kc', ek_Key = 0 # take 32 kc'\<rparr>"
    using assms(4,6) by (auto simp: DeriveXprv_def rbind_ok_iff)
  obtain par2 cc where z: "DeriveXpub_loop C (replicate 65 0) (replicate 65 0) (ek_Key X @ ek_Chaincode X) path = Inr (par2, cc)"
      and Z: "Z = \<lparr>ek_Version = VersionMainnetPublic, ek_Depth = of_nat (length path) + ek_Depth X,
        ek_Fingerprint = take 4 (hash160 C (take 33 par2)), ek_ChildNum = serializeUint32 (last path),
        ek_Chaincode = drop 33 cc, ek_Key = take 33 cc\<rparr>"
    using assms(4,9) by (auto simp: DeriveXpub_def rbind_ok_iff)
  note X = XpubFromXprv_kc [OF assms(7)] and Y = XpubFromXprv_kc [OF assms(8)]
  have pY: "pubFromPriv C kc' = Inr (ek_Key Y @ ek_Chaincode Y)" using Y(1) by (simp add: c)
  from paths_agree [OF assms(1,2,4) kc assms(5) l(1) X(1) pY z]
  have a: "cc = ek_Key Y @ ek_Chaincode Y"
      "pubFromPriv C par = Inr (if length path = 1 then ek_Key X @ ek_Chaincode X else par2)" by auto
  have lY: "length (ek_Key Y) = 33"
  proof -
    have "length kc' = 64" by (rule length_DeriveXprv_loop [OF assms(1) kc l(1)])
    then show ?thesis
      using assms(8) assms(1) by (auto simp: XpubFromXprv_def rbind_ok_iff c pubFromPriv_def crypto_ok_def)
  qed
  have "length path > 1 \<Longrightarrow> pp = par2" using a(2) l(2) by simp
  moreover have "ek_Version Y = VersionMainnetPublic" using Y(5) by (simp add: c)
  ultimately show ?thesis using a(1) lY X(2) Y(2-4) by (auto simp: Z c)
qed

section \<open>Properties\<close>

text \<open>C31. Deriving a child of an extended public key along an unhardened path gives the public
  part of the child that the private key derives along the same path (\<open>DeriveXpub\<close>,
  \<open>DeriveXprv\<close>, \<open>XpubFromXprv\<close>): the same key, chain code, depth and child number, and from the
  second step on also the same fingerprint of the parent. So the scripts a watch-only wallet
  looks for are the scripts of the wallet that can spend.\<close>

theorem derive_pub_priv_agree:
  assumes "crypto_ok C" "curve_ok C" "wf_ExtendedKey k" "path \<noteq> []" "list_all unhardened path"
    and "DeriveXprv C k path = Inr c" "XpubFromXprv C k = Inr X" "XpubFromXprv C c = Inr Y"
    and "DeriveXpub C X path = Inr Z"
  shows "ek_Key Z = ek_Key Y \<and> ek_Chaincode Z = ek_Chaincode Y \<and> ek_Depth Z = ek_Depth Y
    \<and> ek_ChildNum Z = ek_ChildNum Y \<and> ek_Version Z = ek_Version Y
    \<and> (length path > 1 \<longrightarrow> Z = Y)"
  by (rule derive_agree [OF assms])

definition sample_xprv :: ExtendedKey where
  "sample_xprv = \<lparr>ek_Version = VersionMainnetPrivate, ek_Depth = 0, ek_Fingerprint = [0, 0, 0, 0],
     ek_ChildNum = [0, 0, 0, 0], ek_Chaincode = replicate 32 9, ek_Key = 0 # replicate 32 5\<rparr>"

lemma sample_derivations:
  "\<exists>c X Y Z. DeriveXprv xor_crypto sample_xprv [0, 3] = Inr c \<and> XpubFromXprv xor_crypto sample_xprv = Inr X
     \<and> XpubFromXprv xor_crypto c = Inr Y \<and> DeriveXpub xor_crypto X [0, 3] = Inr Z"
  by (simp add: sample_xprv_def DeriveXprv_def DeriveXpub_def XpubFromXprv_def pubFromPriv_def xor_crypto_def
      deriveUnhardenedPrivFromPriv_def deriveUnhardenedPubFromPub_def finalizeDerivePriv_def KEY_HARDENED_def
      compressedFromBasePointMul_def compressedFromPointAdd_def Let_def VersionMainnetPrivate_def)

theorem derive_pub_priv_agree_witness:
  "\<exists>c Y Z. DeriveXprv xor_crypto sample_xprv [0, 3] = Inr c \<and> XpubFromXprv xor_crypto c = Inr Y \<and> Z = Y
     \<and> (\<exists>X. XpubFromXprv xor_crypto sample_xprv = Inr X \<and> DeriveXpub xor_crypto X [0, 3] = Inr Z)"
proof -
  obtain c X Y Z where ok: "DeriveXprv xor_crypto sample_xprv [0, 3] = Inr c"
      "XpubFromXprv xor_crypto sample_xprv = Inr X" "XpubFromXprv xor_crypto c = Inr Y"
      "DeriveXpub xor_crypto X [0, 3] = Inr Z"
    using sample_derivations by blast
  have "wf_ExtendedKey sample_xprv"
    by (simp add: wf_ExtendedKey_def sample_xprv_def VersionMainnetPrivate_def)
  moreover have "list_all unhardened [0, 3]" by (simp add: unhardened_def KEY_HARDENED_def)
  ultimately have "Z = Y"
    using derive_pub_priv_agree [OF xor_crypto_ok xor_curve_ok _ _ _ ok] by simp
  with ok show ?thesis by blast
qed

text \<open>A path with a hardened step is refused for a public key, and no key is returned.\<close>

theorem DeriveXpub_refuses_hardened:
  assumes "\<exists>i\<in>set path. i AND KEY_HARDENED \<noteq> 0"
  shows "\<exists>e. DeriveXpub C k path = Inl e"
  using assms DeriveXpub_hardened [of path C k] by (auto simp: list_all_iff unhardened_def)

theorem DeriveXpub_refuses_hardened_witness:
  "\<exists>e. DeriveXpub xor_crypto sample_xprv [0, KEY_HARDENED] = Inl e"
  by (rule DeriveXpub_refuses_hardened) (simp add: KEY_HARDENED_def)

text \<open>The fingerprint \<open>DeriveXpub\<close> stores for a path of one step is the hash of 33 zero
  bytes, whatever the parent key is: \<open>parentXpub\<close> is set from \<open>childXpub\<close> before the first child
  exists.\<close>

theorem DeriveXpub_fingerprint_of_first_step:
  assumes "DeriveXpub C k [i] = Inr x"
  shows "ek_Fingerprint x = take 4 (hash160 C (replicate 33 0))"
  by (rule fingerprint_first_step [OF assms])

theorem DeriveXpub_fingerprint_of_first_step_witness:
  "\<exists>x. DeriveXpub xor_crypto (sample_xprv\<lparr>ek_Version := VersionMainnetPublic, ek_Key := 2 # replicate 32 5\<rparr>) [0] = Inr x
     \<and> ek_Fingerprint x = take 4 (hash160 xor_crypto (replicate 33 0))"
proof -
  obtain x where "DeriveXpub xor_crypto (sample_xprv\<lparr>ek_Version := VersionMainnetPublic, ek_Key := 2 # replicate 32 5\<rparr>) [0] = Inr x"
    by (simp add: sample_xprv_def DeriveXpub_def xor_crypto_def deriveUnhardenedPubFromPub_def
        KEY_HARDENED_def compressedFromBasePointMul_def compressedFromPointAdd_def Let_def)
  with DeriveXpub_fingerprint_of_first_step [OF this] show ?thesis by blast
qed

end
