(* ===== verification/ScriptPubkey.thy ===== *)
theory ScriptPubkey
  imports Bip32 "HOL-Library.List_Lexorder"
begin

text \<open>
  Output scripts, \<open>vendor/ncody.com/ncgo.git/bitcoin/scriptpubkey/scriptpubkey.go\<close> with the
  opcodes of \<open>bitcoin/script/script.go\<close>. \<open>Make\<close> builds the script of a kind from public keys and
  \<open>MakeMulti\<close> the scripts of a range of child keys. Byte arithmetic wraps as in Go; an index
  expression on an empty slice of keys is a panic.

  Shown: exactly when each builder succeeds, the shape and the size of what it builds, that the
  multi-signature scripts do not depend on the order in which the keys are listed, and that
  \<open>MakeMulti\<close> returns \<open>count\<close> scripts, the one at position \<open>i\<close> being the script of the children with
  number \<open>offset + i\<close>.
\<close>

section \<open>Kinds and opcodes\<close>

datatype Kind = sK_NONE | SK_P2PK | SK_P2PKH | SK_P2MS | SK_P2SH_MULTISIG | SK_P2SH_WPKH | SK_P2WPKH
  | SK_P2WSH_MULTISIG

primrec kind_byte :: "Kind \<Rightarrow> byte" where
  "kind_byte sK_NONE = 0"
| "kind_byte SK_P2PK = 1"
| "kind_byte SK_P2PKH = 2"
| "kind_byte SK_P2MS = 3"
| "kind_byte SK_P2SH_MULTISIG = 4"
| "kind_byte SK_P2SH_WPKH = 5"
| "kind_byte SK_P2WPKH = 6"
| "kind_byte SK_P2WSH_MULTISIG = 7"

definition OP_0 :: byte where "OP_0 = 0x00"
definition OP_PUSHBYTES_1 :: byte where "OP_PUSHBYTES_1 = 0x01"
definition OP_PUSHBYTES_20 :: byte where "OP_PUSHBYTES_20 = 0x14"
definition OP_PUSHBYTES_32 :: byte where "OP_PUSHBYTES_32 = 0x20"
definition OP_1 :: byte where "OP_1 = 0x51"
definition OP_DUP :: byte where "OP_DUP = 0x76"
definition OP_EQUAL :: byte where "OP_EQUAL = 0x87"
definition OP_EQUALVERIFY :: byte where "OP_EQUALVERIFY = 0x88"
definition OP_HASH160 :: byte where "OP_HASH160 = 0xA9"
definition OP_CHECKSIG :: byte where "OP_CHECKSIG = 0xAC"
definition OP_CHECKMULTISIG :: byte where "OP_CHECKMULTISIG = 0xAE"

text \<open>\<open>strings.ToLower\<close> on UTF-8, as far as a comparison with an ASCII name can tell: the capital letters,
  and the two code points outside ASCII whose lower case is in it, U+0130 (an \<open>i\<close>) and U+212A (a \<open>k\<close>).
  Every other code point, and an invalid byte, gives something outside ASCII.\<close>

function ascii_lower :: "string \<Rightarrow> string" where
  "ascii_lower s =
     (if s = [] then []
      else if take 2 s = [char_of (0xC4 :: nat), char_of (0xB0 :: nat)] then CHR ''i'' # ascii_lower (drop 2 s)
      else if take 3 s = [char_of (0xE2 :: nat), char_of (0x84 :: nat), char_of (0xAA :: nat)] then CHR ''k'' # ascii_lower (drop 3 s)
      else (if of_char (hd s) \<ge> (65 :: nat) \<and> of_char (hd s) \<le> (90 :: nat)
            then char_of (of_char (hd s) + 32 :: nat) else hd s) # ascii_lower (tl s))"
  by pat_completeness auto
termination by (relation "measure length") auto

declare ascii_lower.simps [simp del]

lemma ascii_lower_ascii:
  "ascii_lower [] = []"
  "of_char c < (0x80 :: nat) \<Longrightarrow> ascii_lower (c # s) =
     (if of_char c \<ge> (65 :: nat) \<and> of_char c \<le> (90 :: nat) then char_of (of_char c + 32 :: nat) else c) # ascii_lower s"
proof -
  show "ascii_lower [] = []" by (simp add: ascii_lower.simps)
  assume a: "of_char c < (0x80 :: nat)"
  have "c \<noteq> char_of (0xC4 :: nat)" "c \<noteq> char_of (0xE2 :: nat)"
    using a by auto
  then show "ascii_lower (c # s) =
      (if of_char c \<ge> (65 :: nat) \<and> of_char c \<le> (90 :: nat) then char_of (of_char c + 32 :: nat) else c) # ascii_lower s"
    by (subst ascii_lower.simps) (simp add: take_Cons')
qed

definition KindFromString :: "string \<Rightarrow> Kind \<times> bool" where
  "KindFromString data =
     (let d = ascii_lower data in
      if d = ''p2pk'' then (SK_P2PK, True)
      else if d = ''p2pkh'' then (SK_P2PKH, True)
      else if d = ''p2ms'' then (SK_P2MS, True)
      else if d = ''p2sh'' then (SK_P2SH_MULTISIG, True)
      else if d = ''p2sh_wpkh'' then (SK_P2SH_WPKH, True)
      else if d = ''p2wpkh'' then (SK_P2WPKH, True)
      else if d = ''p2wsh'' then (SK_P2WSH_MULTISIG, True)
      else (sK_NONE, False))"

section \<open>Single key scripts\<close>

definition pubkey_len_ok :: "nat \<Rightarrow> bool" where
  "pubkey_len_ok n \<longleftrightarrow> n = 33 \<or> n = 65"

definition p2pk :: "bytes \<Rightarrow> bytes result" where
  "p2pk pubkey =
     (if \<not> pubkey_len_ok (length pubkey) then Inl (Err ''bad pubkey length'')
      else Inr ([OP_PUSHBYTES_1 - 1 + of_nat (length pubkey)] @ pubkey @ [OP_CHECKSIG]))"

definition p2pkh :: "crypto \<Rightarrow> bytes \<Rightarrow> bytes result" where
  "p2pkh C pubkey =
     (if \<not> pubkey_len_ok (length pubkey) then Inl (Err ''bad pubkey length'')
      else Inr ([OP_DUP, OP_HASH160, OP_PUSHBYTES_20] @ hash160 C pubkey @ [OP_EQUALVERIFY, OP_CHECKSIG]))"

definition p2wpkh :: "crypto \<Rightarrow> bytes \<Rightarrow> bytes result" where
  "p2wpkh C pubkey =
     (if \<not> pubkey_len_ok (length pubkey) then Inl (Err ''bad pubkey length'')
      else Inr ([OP_0, OP_PUSHBYTES_20] @ hash160 C pubkey))"

definition p2shWpkh :: "crypto \<Rightarrow> bytes \<Rightarrow> bytes result" where
  "p2shWpkh C pubkey =
     (if \<not> pubkey_len_ok (length pubkey) then Inl (Err ''bad pubkey length'')
      else let scriptData = [OP_0, OP_PUSHBYTES_20] @ hash160 C pubkey
           in Inr ([OP_HASH160, OP_PUSHBYTES_20] @ hash160 C scriptData @ [OP_EQUAL]))"

section \<open>Multi-signature scripts\<close>

text \<open>The checks \<open>p2ms\<close>, \<open>p2shMultisig\<close> and \<open>p2wshMulti\<close> begin with; \<open>klen\<close> is the length of the
  first key, 0 when there is none.\<close>

definition multisig_klen :: "bytes list \<Rightarrow> nat" where
  "multisig_klen pubkeys = (case pubkeys of [] \<Rightarrow> 0 | k # _ \<Rightarrow> length k)"

definition multisig_checks :: "byte \<Rightarrow> bytes list \<Rightarrow> unit result" where
  "multisig_checks reqsigs pubkeys =
     (let klen = multisig_klen pubkeys; nkeys = length pubkeys in
      if \<not> list_all (\<lambda>k. length k = klen) pubkeys then Inl (Err ''all pubkeys must have the same length'')
      else if \<not> pubkey_len_ok klen then Inl (Err ''bad pubkey length'')
      else if nkeys > 16 then Inl (Err ''max n multisig keys is 16'')
      else if unat reqsigs > nkeys then Inl (Err ''required signatures > n pubkeys'')
      else if unat reqsigs < 1 then Inl (Err ''required signatures < 1'')
      else Inr ())"

definition p2ms :: "byte \<Rightarrow> bytes list \<Rightarrow> bytes result" where
  "p2ms reqsigs pubkeys =
     rbind (multisig_checks reqsigs pubkeys) (\<lambda>_.
     Inr ([OP_1 - 1 + reqsigs]
          @ concat (map (\<lambda>k. [OP_PUSHBYTES_1 - 1 + of_nat (multisig_klen pubkeys)] @ k) pubkeys)
          @ [OP_1 - 1 + of_nat (length pubkeys), OP_CHECKMULTISIG]))"

definition p2shMultisig :: "crypto \<Rightarrow> byte \<Rightarrow> bytes list \<Rightarrow> bytes result" where
  "p2shMultisig C reqsigs pubkeys =
     rbind (multisig_checks reqsigs pubkeys) (\<lambda>_.
     let scriptData = [OP_1 - 1 + reqsigs]
          @ concat (map (\<lambda>k. [OP_PUSHBYTES_1 - 1 + of_nat (multisig_klen pubkeys)] @ k) pubkeys)
          @ [OP_1 - 1 + of_nat (length pubkeys), OP_CHECKMULTISIG]
     in Inr ([OP_HASH160, OP_PUSHBYTES_20] @ hash160 C scriptData @ [OP_EQUAL]))"

definition p2wshMulti :: "byte \<Rightarrow> bytes list \<Rightarrow> bytes result" where
  "p2wshMulti reqsigs pubkeys =
     rbind (multisig_checks reqsigs pubkeys) (\<lambda>_.
     let spk = [OP_1 - 1 + reqsigs]
          @ concat (map (\<lambda>k. [of_nat (multisig_klen pubkeys)] @ k) pubkeys)
          @ [OP_1 - 1 + of_nat (length pubkeys), OP_CHECKMULTISIG]
     in Inr ([OP_0, OP_PUSHBYTES_32] @ Sum256 spk))"

text \<open>\<open>bytes.Compare\<close> is the lexicographic order; keys that compare equal are equal.\<close>

definition bytesSorted :: "bytes list \<Rightarrow> bytes list" where
  "bytesSorted slicesData = sort slicesData"

definition Make :: "crypto \<Rightarrow> Kind \<Rightarrow> byte \<Rightarrow> bytes list \<Rightarrow> bytes result" where
  "Make C scriptKind reqsigs pubkeys =
     (case scriptKind of
        SK_P2PK \<Rightarrow> rbind (go_index pubkeys 0) p2pk
      | SK_P2PKH \<Rightarrow> rbind (go_index pubkeys 0) (p2pkh C)
      | SK_P2MS \<Rightarrow> p2ms reqsigs (bytesSorted pubkeys)
      | SK_P2SH_MULTISIG \<Rightarrow> p2shMultisig C reqsigs (bytesSorted pubkeys)
      | SK_P2SH_WPKH \<Rightarrow> rbind (go_index pubkeys 0) (p2shWpkh C)
      | SK_P2WPKH \<Rightarrow> rbind (go_index pubkeys 0) (p2wpkh C)
      | SK_P2WSH_MULTISIG \<Rightarrow> p2wshMulti reqsigs (bytesSorted pubkeys)
      | sK_NONE \<Rightarrow> Inl (Err ''bad scriptKind''))"

section \<open>Ranges of scripts\<close>

text \<open>A loop over a slice that calls a fallible function and collects the results.\<close>

fun collect :: "('a \<Rightarrow> 'b result) \<Rightarrow> 'a list \<Rightarrow> ('b list) result" where
  "collect f [] = Inr []"
| "collect f (x # xs) = rbind (f x) (\<lambda>y. rbind (collect f xs) (\<lambda>ys. Inr (y # ys)))"

definition basePubKey :: "crypto \<Rightarrow> ExtendedKey \<Rightarrow> ExtendedKey result" where
  "basePubKey C k = (if ek_Key k ! 0 = 0x00 then XpubFromXprv C k else Inr k)"

definition childScript :: "crypto \<Rightarrow> Kind \<Rightarrow> byte \<Rightarrow> ExtendedKey list \<Rightarrow> u32 \<Rightarrow> bytes result" where
  "childScript C scriptKind reqsigs basePubKeys index =
     rbind (collect (\<lambda>k. rbind (DeriveXpub C k [index]) (\<lambda>x. Inr (ek_Key x))) basePubKeys) (\<lambda>pubkeys.
     Make C scriptKind reqsigs pubkeys)"

definition MakeMulti ::
  "crypto \<Rightarrow> Kind \<Rightarrow> byte \<Rightarrow> u32 \<Rightarrow> u32 \<Rightarrow> ExtendedKey list \<Rightarrow> (bytes list) result" where
  "MakeMulti C scriptKind reqsigs offset n baseKeys =
     rbind (collect (basePubKey C) baseKeys) (\<lambda>basePubKeys.
     collect (\<lambda>i. childScript C scriptKind reqsigs basePubKeys (of_nat i + offset)) [0..<unat n])"

section \<open>Facts about the builders\<close>

lemma collect_ok_iff: "collect f xs = Inr ys \<longleftrightarrow> list_all2 (\<lambda>x y. f x = Inr y) xs ys"
  by (induction xs arbitrary: ys) (auto simp: rbind_ok_iff list_all2_Cons1)

lemma collect_nth: "collect f xs = Inr ys \<Longrightarrow> i < length xs \<Longrightarrow> f (xs ! i) = Inr (ys ! i)"
  using list_all2_nthD [of "\<lambda>x y. f x = Inr y" xs ys i] by (simp add: collect_ok_iff)

lemma collect_length: "collect f xs = Inr ys \<Longrightarrow> length ys = length xs"
  by (metis collect_ok_iff list_all2_lengthD)

lemma multisig_checks_ok_iff:
  "multisig_checks n ks = Inr () \<longleftrightarrow>
     (\<exists>l. pubkey_len_ok l \<and> list_all (\<lambda>k. length k = l) ks) \<and> 1 \<le> unat n \<and> unat n \<le> length ks \<and> length ks \<le> 16"
  by (cases ks) (auto simp: multisig_checks_def multisig_klen_def Let_def pubkey_len_ok_def)

lemma bytesSorted_perm: "mset ks = mset ls \<Longrightarrow> bytesSorted ks = bytesSorted ls"
  unfolding bytesSorted_def by (metis properties_for_sort mset_sort sorted_sort)

lemma length_bytesSorted [simp]: "length (bytesSorted ks) = length ks"
  by (simp add: bytesSorted_def)

lemma set_bytesSorted [simp]: "set (bytesSorted ks) = set ks"
  by (simp add: bytesSorted_def)

definition multi_kind :: "Kind \<Rightarrow> bool" where
  "multi_kind k \<longleftrightarrow> k \<in> {SK_P2MS, SK_P2SH_MULTISIG, SK_P2WSH_MULTISIG}"

lemma Make_perm: "multi_kind kind \<Longrightarrow> mset ks = mset ls \<Longrightarrow> Make C kind n ks = Make C kind n ls"
  using bytesSorted_perm [of ks ls] by (auto simp: multi_kind_def Make_def)

lemma multi_ok_iff:
  assumes "multi_kind kind"
  shows "(\<exists>s. Make C kind n ks = Inr s) \<longleftrightarrow>
    (\<exists>l. pubkey_len_ok l \<and> (\<forall>k\<in>set ks. length k = l)) \<and> 1 \<le> unat n \<and> unat n \<le> length ks \<and> length ks \<le> 16"
  using assms multisig_checks_ok_iff [of n "bytesSorted ks"]
  by (auto simp: multi_kind_def Make_def p2ms_def p2shMultisig_def p2wshMulti_def rbind_ok_iff list_all_iff Let_def)

text \<open>The script can be read back: a counted list of keys of one length.\<close>

lemma concat_push_inj:
  "list_all (\<lambda>k. length k = l) ks \<Longrightarrow> list_all (\<lambda>k. length k = l) ls \<Longrightarrow> length ks = length ls \<Longrightarrow>
   concat (map (\<lambda>k. p # k) ks) @ r = concat (map (\<lambda>k. p # k) ls) @ r' \<Longrightarrow> ks = ls \<and> r = r'"
  by (induction ks ls rule: list_induct2') auto

lemma p2ms_read_back:
  assumes "p2ms m ks = Inr s" "p2ms n ls = Inr s" "multisig_klen ks = multisig_klen ls"
  shows "m = n \<and> ks = ls"
proof -
  let ?l = "multisig_klen ks" and ?body = "\<lambda>ks. concat (map (\<lambda>k. [OP_PUSHBYTES_1 - 1 + of_nat (multisig_klen ks)] @ k) ks)"
  have s: "s = [OP_1 - 1 + m] @ ?body ks @ [OP_1 - 1 + of_nat (length ks), OP_CHECKMULTISIG]"
      "s = [OP_1 - 1 + n] @ ?body ls @ [OP_1 - 1 + of_nat (length ls), OP_CHECKMULTISIG]"
    and ck: "multisig_checks m ks = Inr ()" "multisig_checks n ls = Inr ()"
    using assms(1,2) by (auto simp: p2ms_def rbind_ok_iff)
  have tl: "?body ks @ [OP_1 - 1 + of_nat (length ks)] = ?body ls @ [OP_1 - 1 + of_nat (length ls)]" "m = n"
    using s by auto
  from arg_cong [OF tl(1), of last] have last: "of_nat (length ks) = (of_nat (length ls) :: byte)" by simp
  have small: "length ks \<le> 16" "length ls \<le> 16" using ck by (auto simp: multisig_checks_ok_iff)
  have "unat (of_nat (length ks) :: byte) = length ks" "unat (of_nat (length ls) :: byte) = length ls"
    using small by (simp_all add: unat_of_nat_small)
  with last have len: "length ks = length ls" by argo
  have all: "list_all (\<lambda>k. length k = ?l) ks" "list_all (\<lambda>k. length k = ?l) ls"
    using ck assms(3) by (auto simp: multisig_checks_def Let_def split: if_splits)
  show ?thesis
    using concat_push_inj [OF all len, of _ "[]" "[]"] tl assms(3) by (simp add: len)
qed

section \<open>Properties\<close>

text \<open>Multi-signature scripts (\<open>p2ms\<close>, \<open>p2sh\<close>, \<open>p2wsh\<close>) do not depend on the order in which
  the public keys are given: two co-signers who list the same keys watch the same scripts.\<close>

theorem Make_order_independent:
  assumes "kind \<in> {SK_P2MS, SK_P2SH_MULTISIG, SK_P2WSH_MULTISIG}" "mset ks = mset ls"
  shows "Make C kind reqsigs ks = Make C kind reqsigs ls"
  using assms by (intro Make_perm) (simp_all add: multi_kind_def)

theorem Make_order_independent_witness:
  "Make xor_crypto SK_P2WSH_MULTISIG 2 [2 # replicate 32 9, 3 # replicate 32 4] =
   Make xor_crypto SK_P2WSH_MULTISIG 2 [3 # replicate 32 4, 2 # replicate 32 9]"
  by (rule Make_order_independent) simp_all

text \<open>C37. When a multi-signature script is built: exactly for one to sixteen keys of one length, 33
  or 65 bytes, and a number of required signatures between one and the number of keys. Every
  other input is refused with an error.\<close>

theorem Make_multisig_accepts_iff:
  assumes "kind \<in> {SK_P2MS, SK_P2SH_MULTISIG, SK_P2WSH_MULTISIG}"
  shows "(\<exists>s. Make C kind reqsigs ks = Inr s) \<longleftrightarrow>
    (\<exists>l. (l = 33 \<or> l = 65) \<and> (\<forall>k\<in>set ks. length k = l))
    \<and> 1 \<le> unat reqsigs \<and> unat reqsigs \<le> length ks \<and> length ks \<le> 16"
  using multi_ok_iff [of kind C reqsigs ks] assms by (simp add: multi_kind_def pubkey_len_ok_def)

theorem Make_multisig_accepts_iff_witness:
  "\<exists>s. Make xor_crypto SK_P2MS 1 [2 # replicate 32 9, 3 # replicate 32 4] = Inr s"
  by (subst Make_multisig_accepts_iff) (auto intro: exI [of _ 33])

text \<open>A bare multi-signature script determines the required signatures and the keys: two
  wallets whose keys have one length share a script only if they are the same wallet.\<close>

theorem p2ms_injective:
  assumes "p2ms m ks = Inr s" "p2ms n ls = Inr s" "multisig_klen ks = multisig_klen ls"
  shows "m = n \<and> ks = ls"
  by (rule p2ms_read_back [OF assms])

theorem p2ms_injective_witness:
  "\<exists>s. p2ms 1 [2 # replicate 32 9] = Inr s \<and> (1 :: byte) = 1 \<and> [2 # replicate 32 (9 :: byte)] = [2 # replicate 32 9]"
proof -
  obtain s where s: "p2ms 1 [2 # replicate 32 9] = Inr s"
    by (simp add: p2ms_def multisig_checks_def multisig_klen_def pubkey_len_ok_def)
  from s p2ms_injective [OF s s refl] show ?thesis by blast
qed

text \<open>\<open>MakeMulti\<close> returns exactly \<open>count\<close> scripts and the script at position \<open>i\<close> is the
  one of the children with number \<open>i + offset\<close> (modulo \<open>2 ^ 32\<close>) of the base keys.\<close>

theorem MakeMulti_indexing:
  assumes "MakeMulti C kind reqsigs offset n keys = Inr scripts"
  shows "length scripts = unat n \<and> (\<exists>pubs. collect (basePubKey C) keys = Inr pubs \<and>
      (\<forall>i < unat n. childScript C kind reqsigs pubs (of_nat i + offset) = Inr (scripts ! i)))"
proof -
  obtain pubs where pubs: "collect (basePubKey C) keys = Inr pubs"
      "collect (\<lambda>i. childScript C kind reqsigs pubs (of_nat i + offset)) [0..<unat n] = Inr scripts"
    using assms by (auto simp: MakeMulti_def rbind_ok_iff)
  then have "length scripts = unat n" using collect_length by fastforce
  moreover have "childScript C kind reqsigs pubs (of_nat i + offset) = Inr (scripts ! i)" if "i < unat n" for i
    using collect_nth [OF pubs(2), of i] that by simp
  ultimately show ?thesis using pubs(1) by blast
qed

lemma sample_MakeMulti: "\<exists>scripts. MakeMulti xor_crypto SK_P2WPKH 0 5 2 [sample_xprv] = Inr scripts"
proof -
  have "\<exists>pk. collect (basePubKey xor_crypto) [sample_xprv] = Inr [pk] \<and> length (ek_Key pk) = 33"
    by (simp add: basePubKey_def sample_xprv_def XpubFromXprv_def pubFromPriv_def xor_crypto_def
        compressedFromBasePointMul_def VersionMainnetPrivate_def)
  then obtain pk where pk: "collect (basePubKey xor_crypto) [sample_xprv] = Inr [pk]" "length (ek_Key pk) = 33"
    by blast
  have "\<exists>x. DeriveXpub xor_crypto pk [i] = Inr x \<and> length (ek_Key x) = 33" if "i AND KEY_HARDENED = 0" for i
    using that pk(2) by (simp add: DeriveXpub_def deriveUnhardenedPubFromPub_def xor_crypto_def
        compressedFromBasePointMul_def compressedFromPointAdd_def Let_def)
  then have "\<exists>s. childScript xor_crypto SK_P2WPKH 0 [pk] i = Inr s" if "i AND KEY_HARDENED = 0" for i
    using that by (fastforce simp: childScript_def Make_def p2wpkh_def pubkey_len_ok_def go_index_def)
  from this [of 5] this [of 6]
  have "\<exists>scripts. collect (\<lambda>i. childScript xor_crypto SK_P2WPKH 0 [pk] (of_nat i + 5)) [0..<unat (2 :: u32)] = Inr scripts"
    by (auto simp: KEY_HARDENED_def upt_conv_Cons)
  then show ?thesis by (simp only: MakeMulti_def pk(1) rbind_simps)
qed

theorem MakeMulti_indexing_witness:
  "\<exists>scripts. MakeMulti xor_crypto SK_P2WPKH 0 5 2 [sample_xprv] = Inr scripts \<and> length scripts = 2"
proof -
  obtain scripts where s: "MakeMulti xor_crypto SK_P2WPKH 0 5 2 [sample_xprv] = Inr scripts"
    using sample_MakeMulti by blast
  from s MakeMulti_indexing [OF s] show ?thesis by auto
qed

end
