(* ===== verification/Wallet.thy ===== *)
theory Wallet
  imports RepositoryFacts ScriptPubkey
begin

text \<open>
  The wallets of \<open>walletmanager/walletmanager.go\<close>: their configuration and derivation state, the
  index of the scripts they own (\<open>scriptPubkeys\<close>), setting a wallet up, moving its next indexes
  and deriving scripts ahead of them (\<open>refillWallet\<close>). The record \<open>W\<close> is the state of the wallet manager;
  it extends the repository's \<open>store\<close>. Callbacks of subscribers are numbers and calling one appends
  to the log \<open>sent\<close>; \<open>calls\<close> counts the requests made to the Bitcoin node, whose answers are a parameter.

  Shown: the index holds, for each wallet and account, the scripts of all children derived so far
  and nothing else (\<open>spk_inv\<close>); a refill extends it to \<open>gap\<close> children beyond the next index, and what
  several refills derive in pieces is what one derivation would give (locale \<open>script_range\<close>); the
  branch of \<open>walletUpdateIndexes\<close> marked unreachable is unreachable.
\<close>

section \<open>Types\<close>

type_synonym accountKind = u32

definition receiveAccount :: accountKind where "receiveAccount = 0"
definition changeAccount :: accountKind where "changeAccount = 1"
definition gap :: u32 where "gap = 2000"

record wallet =
  wl_kind :: Kind
  wl_reqSigs :: byte
  wl_masterPubs :: "ExtendedKey list"
  wl_nextReceiveIndex :: u32
  wl_nReceiveDerived :: u32
  wl_nextChangeIndex :: u32
  wl_nChangeDerived :: u32
  wl_height :: int
  wl_hash :: hash32

record scriptPubkeyInfo =
  spi_walletIdx :: int
  spi_account :: accountKind
  spi_pubkeyIdx :: u32

record WalletConfig =
  wc_Kind :: Kind
  wc_Reqsigs :: byte
  wc_MasterPubs :: "ExtendedKey list"
  wc_Height :: int

datatype Network = Mainnet | Testnet | Regtest

datatype event =
    HeaderEvent nat int bytes     \<comment> \<open>a header callback, called with a height and a header\<close>
  | StatusEvent nat hash32        \<comment> \<open>a script hash callback, called with a status\<close>

record W = store +
  net :: Network
  bestHeader :: int
  bestHeaderHash :: hash32
  wallets :: "wallet list"
  scriptPubkeys :: "hash32 \<rightharpoonup> scriptPubkeyInfo"
  shSubs :: "(hash32 \<times> (u32 \<times> nat) list) list"
  hSubs :: "(u32 \<times> nat) list"
  sent :: "event list"
  calls :: nat

section \<open>Identity of wallets and outpoints\<close>

definition walletHash :: "Kind \<Rightarrow> byte \<Rightarrow> ExtendedKey list \<Rightarrow> hash32" where
  "walletHash kind reqsigs masterKeys = Sum256 ([kind_byte kind, reqsigs] @ concat (map ek_Key masterKeys))"

definition makeTxidVout :: "hash32 \<Rightarrow> u32 \<Rightarrow> txidVout" where
  "makeTxidVout txid vout = txid @ uint32SerializeLE vout"

section \<open>Deriving ahead\<close>

definition deriveScriptPubkeys :: "crypto \<Rightarrow> wallet \<Rightarrow> accountKind \<Rightarrow> u32 \<Rightarrow> u32 \<Rightarrow> (bytes list) result" where
  "deriveScriptPubkeys C w account offset n =
     rbind (collect (\<lambda>k. DeriveXpub C k [account]) (wl_masterPubs w)) (\<lambda>accountKeys.
     MakeMulti C (wl_kind w) (wl_reqSigs w) offset n accountKeys)"

definition offAndCount :: "u32 \<Rightarrow> u32 \<Rightarrow> u32 \<times> u32" where
  "offAndCount nextIndex nDerived =
     (let nTarget = nextIndex + gap in
      if nDerived \<ge> nTarget then (0, 0) else (nDerived, nTarget - nDerived))"

fun addToSKIdx_from ::
  "int \<Rightarrow> accountKind \<Rightarrow> u32 \<Rightarrow> bytes list \<Rightarrow> (hash32 \<rightharpoonup> scriptPubkeyInfo) \<Rightarrow> (hash32 \<rightharpoonup> scriptPubkeyInfo)" where
  "addToSKIdx_from wIdx kind idx [] m = m"
| "addToSKIdx_from wIdx kind idx (p # ps) m =
     addToSKIdx_from wIdx kind (idx + 1) ps
       (m(Sum256 p \<mapsto> \<lparr>spi_walletIdx = wIdx, spi_account = kind, spi_pubkeyIdx = idx\<rparr>))"

definition addToSKIdx :: "int \<Rightarrow> accountKind \<Rightarrow> u32 \<Rightarrow> bytes list \<Rightarrow> 'z W_scheme \<Rightarrow> 'z W_scheme" where
  "addToSKIdx wIdx kind nDerivedPrev ps s =
     s\<lparr>scriptPubkeys := addToSKIdx_from wIdx kind nDerivedPrev ps (scriptPubkeys s)\<rparr>"

definition updWallet :: "int \<Rightarrow> (wallet \<Rightarrow> wallet) \<Rightarrow> 'z W_scheme \<Rightarrow> 'z W_scheme" where
  "updWallet i f s = s\<lparr>wallets := (wallets s)[nat i := f (wallets s ! nat i)]\<rparr>"

definition refillReceive :: "crypto \<Rightarrow> int \<Rightarrow> 'z W_scheme \<Rightarrow> (unit, 'z W_scheme) outcome" where
  "refillReceive C wIdx s =
     (let wl = wallets s ! nat wIdx; (offset, n) = offAndCount (wl_nextReceiveIndex wl) (wl_nReceiveDerived wl) in
      if n \<noteq> 0 then
        ebind (ereads (deriveScriptPubkeys C wl receiveAccount offset n) s) (\<lambda>pubkeys s.
        (Inr (), updWallet wIdx (\<lambda>w. w\<lparr>wl_nReceiveDerived := wl_nReceiveDerived w + n\<rparr>)
                   (addToSKIdx wIdx receiveAccount (wl_nReceiveDerived wl) pubkeys s)))
      else (Inr (), s))"

definition refillChange :: "crypto \<Rightarrow> int \<Rightarrow> 'z W_scheme \<Rightarrow> (unit, 'z W_scheme) outcome" where
  "refillChange C wIdx s =
     (let wl = wallets s ! nat wIdx; (offset, n) = offAndCount (wl_nextChangeIndex wl) (wl_nChangeDerived wl) in
      if n \<noteq> 0 then
        ebind (ereads (deriveScriptPubkeys C wl changeAccount offset n) s) (\<lambda>pubkeys s.
        (Inr (), updWallet wIdx (\<lambda>w. w\<lparr>wl_nChangeDerived := wl_nChangeDerived w + n\<rparr>)
                   (addToSKIdx wIdx changeAccount (wl_nChangeDerived wl) pubkeys s)))
      else (Inr (), s))"

definition refillWallet :: "crypto \<Rightarrow> int \<Rightarrow> 'z W_scheme \<Rightarrow> (unit, 'z W_scheme) outcome" where
  "refillWallet C wIdx s =
     ebind (ereads (go_index (wallets s) wIdx) s) (\<lambda>_ s.
     ebind (refillReceive C wIdx s) (\<lambda>_ s.
     refillChange C wIdx s))"

section \<open>Moving the next indexes\<close>

definition walletUpdateIndexes :: "scriptPubkeyInfo \<Rightarrow> 'z W_scheme \<Rightarrow> (unit, 'z W_scheme) outcome" where
  "walletUpdateIndexes info s =
     ebind (ereads (go_index (wallets s) (spi_walletIdx info)) s) (\<lambda>wl s.
     if spi_account info = receiveAccount then
       (if spi_pubkeyIdx info < wl_nextReceiveIndex wl then (Inr (), s)
        else ebind (updateWalletIndexes (wl_hash wl) (spi_pubkeyIdx info + 1) (wl_nextChangeIndex wl) s) (\<lambda>_ s.
          (Inr (), updWallet (spi_walletIdx info) (\<lambda>w. w\<lparr>wl_nextReceiveIndex := spi_pubkeyIdx info + 1\<rparr>) s)))
     else if spi_account info = changeAccount then
       (if spi_pubkeyIdx info < wl_nextChangeIndex wl then (Inr (), s)
        else ebind (updateWalletIndexes (wl_hash wl) (wl_nextReceiveIndex wl) (spi_pubkeyIdx info + 1) s) (\<lambda>_ s.
          (Inr (), updWallet (spi_walletIdx info) (\<lambda>w. w\<lparr>wl_nextChangeIndex := spi_pubkeyIdx info + 1\<rparr>) s)))
     else (Inl (ErrPanic ''unreachable''), s))"

section \<open>Setting a wallet up\<close>

text \<open>The stored data of the wallet, or a new row at the configured height.\<close>

definition walletRow :: "hash32 \<Rightarrow> WalletConfig \<Rightarrow> 'z W_scheme \<Rightarrow> (walletData, 'z W_scheme) outcome" where
  "walletRow whash wc s =
     (case selectWalletData s whash of
        Inr wd \<Rightarrow> (Inr wd, s)
      | Inl e \<Rightarrow>
          if e = ErrNoRows then
            (let wd = \<lparr>wd_Hash = whash, wd_Height = wc_Height wc, wd_NextReceiveIndex = 0, wd_NextChangeIndex = 0\<rparr>
             in ebind (insertWalletData wd s) (\<lambda>_ s. (Inr wd, s)))
          else (Inl e, s))"

definition configured :: "WalletConfig \<Rightarrow> hash32 \<Rightarrow> walletData \<Rightarrow> wallet" where
  "configured wc whash wdata =
     \<lparr>wl_kind = wc_Kind wc, wl_reqSigs = wc_Reqsigs wc, wl_masterPubs = wc_MasterPubs wc,
      wl_nextReceiveIndex = wd_NextReceiveIndex wdata, wl_nReceiveDerived = 0,
      wl_nextChangeIndex = wd_NextChangeIndex wdata, wl_nChangeDerived = 0,
      wl_height = wd_Height wdata, wl_hash = whash\<rparr>"

text \<open>A call whose error result is not looked at: the error is dropped, a panic is not.\<close>

definition dropErr :: "(unit, 's) outcome \<Rightarrow> (unit, 's) outcome" where
  "dropErr r = (case r of (Inl (ErrPanic m), s) \<Rightarrow> (Inl (ErrPanic m), s) | (_, s) \<Rightarrow> (Inr (), s))"

definition setupWallet :: "crypto \<Rightarrow> int \<Rightarrow> WalletConfig \<Rightarrow> 'z W_scheme \<Rightarrow> (unit, 'z W_scheme) outcome" where
  "setupWallet C i wc s =
     (let whash = walletHash (wc_Kind wc) (wc_Reqsigs wc) (wc_MasterPubs wc) in
      ebind (walletRow whash wc s) (\<lambda>wdata s.
      ebind (ereads (go_index (wallets s) i) s) (\<lambda>_ s.
      dropErr (refillWallet C i (updWallet i (\<lambda>_. configured wc whash wdata) s)))))"

fun setupWallets :: "crypto \<Rightarrow> int \<Rightarrow> WalletConfig list \<Rightarrow> 'z W_scheme \<Rightarrow> (unit, 'z W_scheme) outcome" where
  "setupWallets C i [] s = (Inr (), s)"
| "setupWallets C i (wc # wcs) s = ebind (setupWallet C i wc s) (\<lambda>_ s. setupWallets C (i + 1) wcs s)"

definition zero_wallet :: wallet where
  "zero_wallet = \<lparr>wl_kind = sK_NONE, wl_reqSigs = 0, wl_masterPubs = [], wl_nextReceiveIndex = 0,
     wl_nReceiveDerived = 0, wl_nextChangeIndex = 0, wl_nChangeDerived = 0, wl_height = 0, wl_hash = replicate 32 0\<rparr>"

text \<open>The part of \<open>New\<close> before it starts \<open>run\<close> in its own goroutine.\<close>

definition New :: "crypto \<Rightarrow> database \<Rightarrow> WalletConfig list \<Rightarrow> Network \<Rightarrow> W result" where
  "New C d wcs n =
     (case newRepository d of
        (Inl e, _) \<Rightarrow> Inl e
      | (Inr _, st) \<Rightarrow>
          fst (ebind (setupWallets C 0 wcs
            \<lparr>db = db st, utxoIndex = utxoIndex st, net = n, bestHeader = 0, bestHeaderHash = replicate 32 0,
             wallets = replicate (length wcs) zero_wallet, scriptPubkeys = Map.empty, shSubs = [], hSubs = [],
             sent = [], calls = 0\<rparr>) (\<lambda>_ s. (Inr s, s))))"

lemma fst_ebind_ok: "fst (ebind r (\<lambda>_ s. (Inr s, s))) = Inr s \<Longrightarrow> \<exists>x. r = (Inr x, s)"
  by (cases r; cases "fst r") auto

section \<open>Ranges of derived scripts\<close>

text \<open>
  The contract between a wallet and its key derivation: a range of scripts is the list of the scripts of
  its indexes, and it exists as soon as each of them does.
\<close>

locale script_range =
  fixes range_of :: "u32 \<Rightarrow> u32 \<Rightarrow> (bytes list) result" and at :: "u32 \<Rightarrow> bytes result"
  assumes range_at: "range_of off n = Inr ps \<Longrightarrow> length ps = unat n \<and> (\<forall>i < unat n. at (of_nat i + off) = Inr (ps ! i))"
    and at_range: "n \<noteq> 0 \<Longrightarrow> \<forall>i < unat n. \<exists>p. at (of_nat i + off) = Inr p \<Longrightarrow> \<exists>ps. range_of off n = Inr ps"
begin

lemma range_determined:
  assumes "range_of off n = Inr ps" "length qs = unat n" "\<forall>i < unat n. at (of_nat i + off) = Inr (qs ! i)"
  shows "ps = qs"
  using range_at [OF assms(1)] assms(2,3) by (intro nth_equalityI) fastforce+

text \<open>Deriving in two pieces gives what deriving at once gives.\<close>

lemma range_append:
  assumes "range_of off n = Inr ps" "range_of (off + n) m = Inr qs" "unat n + unat m < 2 ^ 32" "n + m \<noteq> 0"
  shows "range_of off (n + m) = Inr (ps @ qs)"
proof -
  have nm: "unat (n + m) = unat n + unat m"
    using assms(3) by (simp add: unat_word_ariths)
  have at: "at (of_nat i + off) = Inr ((ps @ qs) ! i)" if "i < unat (n + m)" for i
  proof (cases "i < unat n")
    case True
    then show ?thesis using range_at [OF assms(1)] by (simp add: nth_append)
  next
    case False
    then obtain k where k: "i = unat n + k" using le_Suc_ex not_less by blast
    then have "k < unat m" using that nm by simp
    then have "at (of_nat k + (off + n)) = Inr (qs ! k)" using range_at [OF assms(2)] by blast
    moreover have "of_nat k + (off + n) = of_nat i + off" by (simp add: k algebra_simps)
    ultimately have "at (of_nat i + off) = Inr (qs ! k)" by (simp only:)
    then show ?thesis using range_at [OF assms(1)] k by (simp add: nth_append)
  qed
  have len: "length (ps @ qs) = unat (n + m)"
    using range_at [OF assms(1)] range_at [OF assms(2)] by (simp add: nm)
  from at_range [OF assms(4), of off] at obtain rs where rs: "range_of off (n + m) = Inr rs" by blast
  with range_determined [OF rs len] at show ?thesis by simp
qed

end

definition script_at :: "crypto \<Rightarrow> wallet \<Rightarrow> accountKind \<Rightarrow> u32 \<Rightarrow> bytes result" where
  "script_at C w account index =
     rbind (collect (\<lambda>k. DeriveXpub C k [account]) (wl_masterPubs w)) (\<lambda>accountKeys.
     rbind (collect (basePubKey C) accountKeys) (\<lambda>pubs.
     childScript C (wl_kind w) (wl_reqSigs w) pubs index))"

lemma collect_ex: "list_all (\<lambda>x. \<exists>y. f x = Inr y) xs \<Longrightarrow> \<exists>ys. collect f xs = Inr ys"
  by (induction xs) auto

interpretation derived: script_range "deriveScriptPubkeys C w a" "script_at C w a" for C w a
proof (unfold_locales, goal_cases)
  case (1 off n ps)
  then obtain aks pubs where k: "collect (\<lambda>k. DeriveXpub C k [a]) (wl_masterPubs w) = Inr aks"
      "collect (basePubKey C) aks = Inr pubs"
      "collect (\<lambda>i. childScript C (wl_kind w) (wl_reqSigs w) pubs (of_nat i + off)) [0..<unat n] = Inr ps"
    by (auto simp: deriveScriptPubkeys_def MakeMulti_def rbind_ok_iff)
  then show ?case
    using collect_length [OF k(3)] collect_nth [OF k(3)] by (simp add: script_at_def)
next
  case (2 n off)
  then have "0 < unat n" by (simp add: unat_gt_0)
  with 2(2) have "\<exists>p. script_at C w a off = Inr p" by fastforce
  then obtain aks pubs where k: "collect (\<lambda>k. DeriveXpub C k [a]) (wl_masterPubs w) = Inr aks"
      "collect (basePubKey C) aks = Inr pubs"
    by (auto simp: script_at_def rbind_ok_iff)
  have "list_all (\<lambda>i. \<exists>y. childScript C (wl_kind w) (wl_reqSigs w) pubs (of_nat i + off) = Inr y) [0..<unat n]"
    using 2(2) k by (auto simp: list_all_iff script_at_def)
  from collect_ex [OF this] show ?case
    by (auto simp: deriveScriptPubkeys_def MakeMulti_def k)
qed

section \<open>The index of scripts\<close>

definition nDerived :: "accountKind \<Rightarrow> wallet \<Rightarrow> u32" where
  "nDerived a w = (if a = receiveAccount then wl_nReceiveDerived w else wl_nChangeDerived w)"

definition nextIndex :: "accountKind \<Rightarrow> wallet \<Rightarrow> u32" where
  "nextIndex a w = (if a = receiveAccount then wl_nextReceiveIndex w else wl_nextChangeIndex w)"

definition setDerived :: "accountKind \<Rightarrow> u32 \<Rightarrow> wallet \<Rightarrow> wallet" where
  "setDerived a n w = (if a = receiveAccount then w\<lparr>wl_nReceiveDerived := n\<rparr> else w\<lparr>wl_nChangeDerived := n\<rparr>)"

definition accounts :: "accountKind set" where
  "accounts = {receiveAccount, changeAccount}"

text \<open>An entry of the index names a derived child whose script hashes to the key.\<close>

definition entry_ok :: "crypto \<Rightarrow> wallet list \<Rightarrow> hash32 \<Rightarrow> scriptPubkeyInfo \<Rightarrow> bool" where
  "entry_ok C ws h info \<longleftrightarrow>
     0 \<le> spi_walletIdx info \<and> nat (spi_walletIdx info) < length ws \<and> spi_account info \<in> accounts
     \<and> spi_pubkeyIdx info < nDerived (spi_account info) (ws ! nat (spi_walletIdx info))
     \<and> (\<exists>p. script_at C (ws ! nat (spi_walletIdx info)) (spi_account info) (spi_pubkeyIdx info) = Inr p \<and> Sum256 p = h)"

definition covered :: "crypto \<Rightarrow> wallet \<Rightarrow> (hash32 \<rightharpoonup> scriptPubkeyInfo) \<Rightarrow> accountKind \<Rightarrow> bool" where
  "covered C w m a \<longleftrightarrow> (\<forall>j < nDerived a w. \<exists>p. script_at C w a j = Inr p \<and> m (Sum256 p) \<noteq> None)"

definition spk_inv :: "crypto \<Rightarrow> 'z W_scheme \<Rightarrow> bool" where
  "spk_inv C s \<longleftrightarrow>
     (\<forall>h info. scriptPubkeys s h = Some info \<longrightarrow> entry_ok C (wallets s) h info)
     \<and> (\<forall>i < length (wallets s). \<forall>a\<in>accounts. covered C (wallets s ! i) (scriptPubkeys s) a)"

lemma accounts_neq [simp]: "receiveAccount \<noteq> changeAccount" "changeAccount \<noteq> receiveAccount"
  by (simp_all add: receiveAccount_def changeAccount_def)

lemma script_at_setDerived [simp]: "script_at C (setDerived a n w) b j = script_at C w b j"
  by (simp add: script_at_def setDerived_def)

lemma nDerived_setDerived [simp]:
  "a \<in> accounts \<Longrightarrow> b \<in> accounts \<Longrightarrow> nDerived b (setDerived a n w) = (if a = b then n else nDerived b w)"
  by (auto simp: nDerived_def setDerived_def accounts_def)

lemma nextIndex_setDerived [simp]: "nextIndex b (setDerived a n w) = nextIndex b w"
  by (simp add: nextIndex_def setDerived_def)

lemma addToSKIdx_from_in:
  "addToSKIdx_from i k idx ps m h = Some info \<Longrightarrow> m h = Some info \<or>
     (\<exists>j < length ps. h = Sum256 (ps ! j) \<and> info = \<lparr>spi_walletIdx = i, spi_account = k, spi_pubkeyIdx = idx + of_nat j\<rparr>)"
proof (induction ps arbitrary: idx m)
  case (Cons p ps)
  from Cons.prems have "(m(Sum256 p \<mapsto> \<lparr>spi_walletIdx = i, spi_account = k, spi_pubkeyIdx = idx\<rparr>)) h = Some info
    \<or> (\<exists>j < length ps. h = Sum256 (ps ! j) \<and> info = \<lparr>spi_walletIdx = i, spi_account = k, spi_pubkeyIdx = idx + 1 + of_nat j\<rparr>)"
    unfolding addToSKIdx_from.simps by (rule Cons.IH)
  then show ?case
  proof
    assume "(m(Sum256 p \<mapsto> \<lparr>spi_walletIdx = i, spi_account = k, spi_pubkeyIdx = idx\<rparr>)) h = Some info"
    then show ?thesis by (cases "h = Sum256 p") (auto intro: exI [of _ 0])
  next
    assume "\<exists>j < length ps. h = Sum256 (ps ! j) \<and> info = \<lparr>spi_walletIdx = i, spi_account = k, spi_pubkeyIdx = idx + 1 + of_nat j\<rparr>"
    then obtain j where "j < length ps" "h = Sum256 (ps ! j)"
        "info = \<lparr>spi_walletIdx = i, spi_account = k, spi_pubkeyIdx = idx + 1 + of_nat j\<rparr>" by blast
    then show ?thesis by (intro disjI2 exI [of _ "Suc j"]) (simp add: algebra_simps)
  qed
qed simp

lemma addToSKIdx_from_mono: "m h \<noteq> None \<Longrightarrow> addToSKIdx_from i k idx ps m h \<noteq> None"
  by (induction i k idx ps m rule: addToSKIdx_from.induct) auto

lemma addToSKIdx_from_dom: "j < length ps \<Longrightarrow> addToSKIdx_from i k idx ps m (Sum256 (ps ! j)) \<noteq> None"
proof (induction ps arbitrary: idx m j)
  case (Cons p ps)
  show ?case
  proof (cases j)
    case 0
    then show ?thesis by (simp add: addToSKIdx_from_mono del: not_None_eq)
  next
    case (Suc k)
    with Cons show ?thesis by (simp del: not_None_eq)
  qed
qed simp

text \<open>Receive and change account are refilled in the same way.\<close>

definition refillAccount :: "crypto \<Rightarrow> accountKind \<Rightarrow> int \<Rightarrow> 'z W_scheme \<Rightarrow> (unit, 'z W_scheme) outcome" where
  "refillAccount C a i s =
     (let wl = wallets s ! nat i; (off, n) = offAndCount (nextIndex a wl) (nDerived a wl) in
      if n \<noteq> 0 then
        ebind (ereads (deriveScriptPubkeys C wl a off n) s) (\<lambda>ps s.
        (Inr (), updWallet i (setDerived a (nDerived a wl + n)) (addToSKIdx i a (nDerived a wl) ps s)))
      else (Inr (), s))"

lemma refillReceive_eq: "refillReceive C i s = refillAccount C receiveAccount i s"
  by (cases "deriveScriptPubkeys C (wallets s ! nat i) receiveAccount
        (fst (offAndCount (wl_nextReceiveIndex (wallets s ! nat i)) (wl_nReceiveDerived (wallets s ! nat i))))
        (snd (offAndCount (wl_nextReceiveIndex (wallets s ! nat i)) (wl_nReceiveDerived (wallets s ! nat i))))")
    (auto simp: refillReceive_def refillAccount_def nDerived_def nextIndex_def setDerived_def updWallet_def
      addToSKIdx_def Let_def split: prod.split)

lemma refillChange_eq: "refillChange C i s = refillAccount C changeAccount i s"
  by (cases "deriveScriptPubkeys C (wallets s ! nat i) changeAccount
        (fst (offAndCount (wl_nextChangeIndex (wallets s ! nat i)) (wl_nChangeDerived (wallets s ! nat i))))
        (snd (offAndCount (wl_nextChangeIndex (wallets s ! nat i)) (wl_nChangeDerived (wallets s ! nat i))))")
    (auto simp: refillChange_def refillAccount_def nDerived_def nextIndex_def setDerived_def updWallet_def
      addToSKIdx_def Let_def split: prod.split)

lemma offAndCount_cases:
  "offAndCount x d = (off, n) \<Longrightarrow>
     n = 0 \<and> d \<ge> x + gap \<or> n \<noteq> 0 \<and> off = d \<and> d < x + gap \<and> d + n = x + gap"
  by (auto simp: offAndCount_def Let_def split: if_splits)

text \<open>What a refill of one account does: nothing when enough is derived, otherwise it fails without a
  change or it indexes the next scripts.\<close>

lemma refillAccount_cases:
  assumes "refillAccount C a i s = (r, s')"
  obtains
    (enough) "r = Inr ()" "s' = s" "nDerived a (wallets s ! nat i) \<ge> nextIndex a (wallets s ! nat i) + gap"
  | (failed) e where "r = Inl e" "s' = s"
  | (derived) ps n where "r = Inr ()"
      "nDerived a (wallets s ! nat i) < nextIndex a (wallets s ! nat i) + gap"
      "nDerived a (wallets s ! nat i) + n = nextIndex a (wallets s ! nat i) + gap"
      "deriveScriptPubkeys C (wallets s ! nat i) a (nDerived a (wallets s ! nat i)) n = Inr ps"
      "s' = updWallet i (setDerived a (nextIndex a (wallets s ! nat i) + gap))
              (addToSKIdx i a (nDerived a (wallets s ! nat i)) ps s)"
proof -
  obtain off n where on: "offAndCount (nextIndex a (wallets s ! nat i)) (nDerived a (wallets s ! nat i)) = (off, n)"
    by (cases "offAndCount (nextIndex a (wallets s ! nat i)) (nDerived a (wallets s ! nat i))")
  note c = offAndCount_cases [OF on]
  show thesis
  proof (cases "n = 0")
    case True
    then show thesis using assms on c enough by (simp add: refillAccount_def)
  next
    case False
    with c have n: "off = nDerived a (wallets s ! nat i)"
        "nDerived a (wallets s ! nat i) < nextIndex a (wallets s ! nat i) + gap"
        "nDerived a (wallets s ! nat i) + n = nextIndex a (wallets s ! nat i) + gap" by auto
    show thesis
    proof (cases "deriveScriptPubkeys C (wallets s ! nat i) a off n")
      case (Inl e)
      show thesis by (rule failed [of e]) (use assms on False Inl in \<open>simp_all add: refillAccount_def\<close>)
    next
      case (Inr ps)
      show thesis
        by (rule derived [of n ps]) (use assms on False Inr n in \<open>simp_all add: refillAccount_def Let_def\<close>)
    qed
  qed
qed

lemma updWallet_simps [simp]:
  "wallets (updWallet i f s) = (wallets s)[nat i := f (wallets s ! nat i)]"
  "db (updWallet i f s) = db s" "utxoIndex (updWallet i f s) = utxoIndex s"
  "scriptPubkeys (updWallet i f s) = scriptPubkeys s" "bestHeader (updWallet i f s) = bestHeader s"
  "bestHeaderHash (updWallet i f s) = bestHeaderHash s" "net (updWallet i f s) = net s"
  "shSubs (updWallet i f s) = shSubs s" "hSubs (updWallet i f s) = hSubs s" "sent (updWallet i f s) = sent s"
  "calls (updWallet i f s) = calls s"
  by (simp_all add: updWallet_def)

lemma addToSKIdx_simps [simp]:
  "wallets (addToSKIdx i a d ps s) = wallets s" "db (addToSKIdx i a d ps s) = db s"
  "utxoIndex (addToSKIdx i a d ps s) = utxoIndex s" "bestHeader (addToSKIdx i a d ps s) = bestHeader s"
  "bestHeaderHash (addToSKIdx i a d ps s) = bestHeaderHash s" "net (addToSKIdx i a d ps s) = net s"
  "shSubs (addToSKIdx i a d ps s) = shSubs s" "hSubs (addToSKIdx i a d ps s) = hSubs s"
  "sent (addToSKIdx i a d ps s) = sent s" "calls (addToSKIdx i a d ps s) = calls s"
  "scriptPubkeys (addToSKIdx i a d ps s) = addToSKIdx_from i a d ps (scriptPubkeys s)"
  by (simp_all add: addToSKIdx_def)

lemma word_between:
  fixes d n j :: u32
  assumes "d < d + n" "\<not> j < d" "j < d + n"
  shows "\<exists>k < unat n. j = d + of_nat k"
proof -
  have dn: "unat (d + n) = unat d + unat n"
    using assms(1) by (metis unat_plus_simple order_less_imp_le)
  have "unat (j - d) = unat j - unat d" using assms(2) by (simp add: unat_sub not_less)
  moreover have "unat j < unat d + unat n" "unat d \<le> unat j"
    using assms(2,3) dn by (simp_all add: word_less_nat_alt not_less)
  ultimately have "unat (j - d) < unat n" by simp
  moreover have "j = d + of_nat (unat (j - d))" by simp
  ultimately show ?thesis by blast
qed

lemma word_less_succ:
  fixes k n :: u32
  assumes "k < n"
  shows "k < k + 1"
proof -
  have "unat k + 1 < 2 ^ 32"
    using assms unsigned_less [of n, where 'a = nat] by (simp add: word_less_nat_alt)
  then have "unat (k + 1) = unat k + 1" by (simp add: unat_word_ariths)
  then show ?thesis by (simp add: word_less_nat_alt)
qed

lemma word_below:
  fixes d n :: u32
  assumes "d < d + n" "k < unat n"
  shows "d + of_nat k < d + n"
proof -
  have dn: "unat (d + n) = unat d + unat n"
    using assms(1) by (metis unat_plus_simple order_less_imp_le)
  have "unat n < 2 ^ 32" using unsigned_less [of n, where 'a = nat] by simp
  then have k: "unat (of_nat k :: u32) = k"
    using assms(2) by (intro unat_of_nat_small) simp
  have "unat d + unat n < 2 ^ 32" using dn unsigned_less [of "d + n", where 'a = nat] by simp
  then have "unat (d + of_nat k) = unat d + k"
    using assms(2) k by (simp add: unat_word_ariths)
  then show ?thesis using assms(2) dn by (simp add: word_less_nat_alt)
qed

text \<open>A refill keeps the index exact.\<close>

lemma entry_ok_grow:
  assumes "entry_ok C ws h info" "a \<in> accounts" "nDerived a (ws ! i) \<le> n" "i < length ws"
  shows "entry_ok C (ws[i := setDerived a n (ws ! i)]) h info"
  using assms by (auto simp: entry_ok_def nth_list_update)

lemma refillAccount_spk_inv:
  assumes inv: "spk_inv C s" and a: "a \<in> accounts" and i: "0 \<le> i" "nat i < length (wallets s)"
    and run: "refillAccount C a i s = (r, s')"
  shows "spk_inv C s'"
  using run
proof (cases rule: refillAccount_cases)
  case (derived ps n)
  let ?w = "wallets s ! nat i" and ?d = "nDerived a (wallets s ! nat i)" and ?t = "nextIndex a (wallets s ! nat i) + gap"
  let ?ws = "(wallets s)[nat i := setDerived a ?t ?w]"
  let ?m = "addToSKIdx_from i a ?d ps (scriptPubkeys s)"
  have d: "?d < ?d + n" using derived(2,3) by simp
  have ps: "length ps = unat n" "\<And>k. k < unat n \<Longrightarrow> script_at C ?w a (?d + of_nat k) = Inr (ps ! k)"
    using derived.range_at [OF derived(4)] by (auto simp: add.commute)
  have "entry_ok C ?ws h info" if m: "?m h = Some info" for h info
  proof -
    consider "scriptPubkeys s h = Some info"
      | k where "k < length ps" "h = Sum256 (ps ! k)" "info = \<lparr>spi_walletIdx = i, spi_account = a, spi_pubkeyIdx = ?d + of_nat k\<rparr>"
      using addToSKIdx_from_in [OF m] by blast
    then show ?thesis
    proof cases
      case 1
      then show ?thesis using inv a i derived(2) by (intro entry_ok_grow) (auto simp: spk_inv_def)
    next
      case 2
      with ps word_below [OF d, of k] i a derived(3) show ?thesis by (simp add: entry_ok_def)
    qed
  qed
  moreover have "covered C (?ws ! j) ?m b" if j: "j < length (wallets s)" and b: "b \<in> accounts" for j b
    unfolding covered_def
  proof (intro allI impI)
    fix x assume x: "x < nDerived b (?ws ! j)"
    show "\<exists>p. script_at C (?ws ! j) b x = Inr p \<and> ?m (Sum256 p) \<noteq> None"
    proof (cases "x < nDerived b (wallets s ! j)")
      case True
      then obtain p where "script_at C (wallets s ! j) b x = Inr p" "scriptPubkeys s (Sum256 p) \<noteq> None"
        using inv j b unfolding spk_inv_def covered_def by blast
      then show ?thesis
        using addToSKIdx_from_mono [of "scriptPubkeys s" "Sum256 p"] i by (cases "j = nat i") auto
    next
      case False
      with x i j a b have jb: "j = nat i" "b = a" by (auto simp: nth_list_update split: if_splits)
      with x False i a derived(3) obtain k where k: "k < unat n" "x = ?d + of_nat k"
        using word_between [OF d, of x] by auto
      then show ?thesis
        using ps addToSKIdx_from_dom [of k ps] jb i by (intro exI [of _ "ps ! k"]) simp
    qed
  qed
  ultimately show ?thesis
    unfolding spk_inv_def by (simp add: derived(5))
qed (use inv in simp_all)

text \<open>What a refill leaves alone: everything but the index and the numbers of derived scripts.\<close>

definition same_wallet :: "wallet \<Rightarrow> wallet \<Rightarrow> bool" where
  "same_wallet v w \<longleftrightarrow> wl_kind v = wl_kind w \<and> wl_reqSigs v = wl_reqSigs w \<and> wl_masterPubs v = wl_masterPubs w
     \<and> wl_nextReceiveIndex v = wl_nextReceiveIndex w \<and> wl_nextChangeIndex v = wl_nextChangeIndex w
     \<and> wl_height v = wl_height w \<and> wl_hash v = wl_hash w"

definition refill_frame :: "'z W_scheme \<Rightarrow> 'z W_scheme \<Rightarrow> bool" where
  "refill_frame s s' \<longleftrightarrow> db s' = db s \<and> utxoIndex s' = utxoIndex s \<and> bestHeader s' = bestHeader s
     \<and> bestHeaderHash s' = bestHeaderHash s \<and> net s' = net s \<and> shSubs s' = shSubs s \<and> hSubs s' = hSubs s
     \<and> sent s' = sent s \<and> calls s' = calls s \<and> list_all2 same_wallet (wallets s') (wallets s)"

lemma same_wallet_refl [simp]: "same_wallet w w"
  by (simp add: same_wallet_def)

lemma same_wallet_trans: "same_wallet u v \<Longrightarrow> same_wallet v w \<Longrightarrow> same_wallet u w"
  by (simp add: same_wallet_def)

lemma same_wallet_setDerived [simp]: "same_wallet (setDerived a n w) w"
  by (simp add: same_wallet_def setDerived_def)

lemma same_wallet_next: "same_wallet v w \<Longrightarrow> nextIndex a v = nextIndex a w"
  by (simp add: same_wallet_def nextIndex_def)

lemma refill_frame_refl [simp]: "refill_frame s s"
  by (simp add: refill_frame_def list_all2_refl)

lemma refill_frame_trans: "refill_frame s t \<Longrightarrow> refill_frame t u \<Longrightarrow> refill_frame s u"
  unfolding refill_frame_def using list_all2_trans [of same_wallet same_wallet same_wallet] same_wallet_trans
  by (smt (verit))

lemma refill_frame_length: "refill_frame s t \<Longrightarrow> length (wallets t) = length (wallets s)"
  unfolding refill_frame_def using list_all2_lengthD by blast

lemma list_update_same_wallet: "same_wallet v (ws ! i) \<Longrightarrow> list_all2 same_wallet (ws[i := v]) ws"
  by (cases "i < length ws") (auto simp: list_all2_conv_all_nth nth_list_update)

lemma refillAccount_frame:
  assumes "refillAccount C a i s = (r, s')"
  shows "refill_frame s s'"
  using assms
proof (cases rule: refillAccount_cases)
  case (derived ps n)
  then show ?thesis by (simp add: refill_frame_def list_update_same_wallet)
qed simp_all

lemma refillAccount_target:
  assumes "refillAccount C a i s = (Inr (), s')" "a \<in> accounts" "nat i < length (wallets s)"
  shows "nDerived a (wallets s' ! nat i) \<ge> nextIndex a (wallets s' ! nat i) + gap"
    and "b \<in> accounts \<Longrightarrow> b \<noteq> a \<Longrightarrow> nDerived b (wallets s' ! nat i) = nDerived b (wallets s ! nat i)"
  using assms by (cases rule: refillAccount_cases; simp)+

lemma refillWallet_eq:
  assumes "0 \<le> i" "nat i < length (wallets s)"
  shows "refillWallet C i s = ebind (refillAccount C receiveAccount i s) (\<lambda>_ s. refillAccount C changeAccount i s)"
proof -
  have "go_index (wallets s) i = Inr (wallets s ! nat i)" using assms by (simp add: go_index_def nat_less_iff)
  then show ?thesis by (simp add: refillWallet_def refillReceive_eq refillChange_eq)
qed

lemma refillWallet_splitE:
  assumes "refillWallet C i s = (r, s')" "0 \<le> i" "nat i < length (wallets s)"
  obtains (stop) e where "refillAccount C receiveAccount i s = (Inl e, s')" "r = Inl e"
    | (go) s1 where "refillAccount C receiveAccount i s = (Inr (), s1)" "refillAccount C changeAccount i s1 = (r, s')"
  using assms(1) unfolding refillWallet_eq [OF assms(2,3)]
  by (cases "refillAccount C receiveAccount i s"; cases "fst (refillAccount C receiveAccount i s)") auto

lemma in_accounts [simp]: "receiveAccount \<in> accounts" "changeAccount \<in> accounts"
  by (simp_all add: accounts_def)

lemma refillWallet_spk_inv:
  assumes "spk_inv C s" "0 \<le> i" "nat i < length (wallets s)" "refillWallet C i s = (r, s')"
  shows "spk_inv C s'"
  using assms(4,2,3)
proof (cases rule: refillWallet_splitE)
  case (stop e)
  show ?thesis by (rule refillAccount_spk_inv [OF assms(1) in_accounts(1) assms(2,3) stop(1)])
next
  case (go s1)
  have "spk_inv C s1" by (rule refillAccount_spk_inv [OF assms(1) in_accounts(1) assms(2,3) go(1)])
  with refill_frame_length [OF refillAccount_frame [OF go(1)]] assms(2,3) show ?thesis
    by (intro refillAccount_spk_inv [OF _ _ _ _ go(2)]) simp_all
qed

lemma refillWallet_frame:
  assumes "refillWallet C i s = (r, s')"
  shows "refill_frame s s'"
proof (cases "0 \<le> i \<and> nat i < length (wallets s)")
  case True
  then have i: "0 \<le> i" "nat i < length (wallets s)" by auto
  from assms i show ?thesis
    by (cases rule: refillWallet_splitE) (auto dest: refillAccount_frame intro: refill_frame_trans)
next
  case False
  then have "go_index (wallets s) i = Inl (ErrPanic ''index out of range'')" by (auto simp: go_index_def nat_less_iff)
  with assms show ?thesis by (auto simp: refillWallet_def)
qed

lemma refillWallet_target:
  assumes "refillWallet C i s = (Inr (), s')" "0 \<le> i" "nat i < length (wallets s)" "a \<in> accounts"
  shows "nDerived a (wallets s' ! nat i) \<ge> nextIndex a (wallets s' ! nat i) + gap"
  using assms(1,2,3)
proof (cases rule: refillWallet_splitE)
  case (go s1)
  note t1 = refillAccount_target [OF go(1) in_accounts(1) assms(3)]
  have len: "nat i < length (wallets s1)" using refill_frame_length [OF refillAccount_frame [OF go(1)]] assms(3) by simp
  note t2 = refillAccount_target [OF go(2) in_accounts(2) len]
  have "same_wallet (wallets s' ! nat i) (wallets s1 ! nat i)"
    using refillAccount_frame [OF go(2)] len by (simp add: refill_frame_def list_all2_conv_all_nth)
  then have "nextIndex receiveAccount (wallets s' ! nat i) = nextIndex receiveAccount (wallets s1 ! nat i)"
    by (rule same_wallet_next)
  then show ?thesis using t1(1) t2(1) t2(2) [of receiveAccount] assms(4) by (auto simp: accounts_def)
qed simp

section \<open>Moving the next indexes\<close>

definition setNext :: "accountKind \<Rightarrow> u32 \<Rightarrow> wallet \<Rightarrow> wallet" where
  "setNext a n w = (if a = receiveAccount then w\<lparr>wl_nextReceiveIndex := n\<rparr> else w\<lparr>wl_nextChangeIndex := n\<rparr>)"

lemma setNext_simps [simp]:
  "script_at C (setNext a n w) b j = script_at C w b j" "nDerived b (setNext a n w) = nDerived b w"
  "wl_hash (setNext a n w) = wl_hash w" "wl_height (setNext a n w) = wl_height w"
  by (simp_all add: script_at_def setNext_def nDerived_def)

lemma nextIndex_setNext:
  "a \<in> accounts \<Longrightarrow> b \<in> accounts \<Longrightarrow> nextIndex b (setNext a n w) = (if a = b then n else nextIndex b w)"
  by (auto simp: nextIndex_def setNext_def accounts_def)

lemma setNext_receive: "setNext receiveAccount n w = w\<lparr>wl_nextReceiveIndex := n\<rparr>"
  and setNext_change: "setNext changeAccount n w = w\<lparr>wl_nextChangeIndex := n\<rparr>"
  by (simp_all add: setNext_def)

definition index_rows_of :: "wallet \<Rightarrow> walletData list \<Rightarrow> walletData list" where
  "index_rows_of w rows = map (\<lambda>r. if wd_Hash r = wl_hash w
      then r\<lparr>wd_NextReceiveIndex := wl_nextReceiveIndex w, wd_NextChangeIndex := wl_nextChangeIndex w\<rparr> else r) rows"

text \<open>For an indexed script the call succeeds: it leaves the state alone when the index is known, otherwise
  it stores the new index in the row of the wallet and in the wallet.\<close>

lemma walletUpdateIndexes_eq:
  assumes "0 \<le> spi_walletIdx info" "nat (spi_walletIdx info) < length (wallets s)" "spi_account info \<in> accounts"
  defines "w \<equiv> wallets s ! nat (spi_walletIdx info)"
  shows "walletUpdateIndexes info s =
    (if spi_pubkeyIdx info < nextIndex (spi_account info) w then (Inr (), s)
     else let w' = setNext (spi_account info) (spi_pubkeyIdx info + 1) w in
       (Inr (), s\<lparr>db := (db s)\<lparr>wallet_tbl := index_rows_of w' (wallet_tbl (db s))\<rparr>,
                  wallets := (wallets s)[nat (spi_walletIdx info) := w']\<rparr>))"
proof -
  have "go_index (wallets s) (spi_walletIdx info) = Inr w"
    using assms by (simp add: go_index_def nat_less_iff)
  then show ?thesis
    using assms(3) unfolding walletUpdateIndexes_def
    by (auto simp: accounts_def nextIndex_def setNext_receive setNext_change updateWalletIndexes_def
        updWallet_def w_def index_rows_of_def Let_def)
qed

lemma entry_ok_setNext:
  "entry_ok C (ws[i := setNext a n (ws ! i)]) h info \<longleftrightarrow> entry_ok C ws h info"
  by (cases "i < length ws") (auto simp: entry_ok_def nth_list_update)

lemma covered_setNext [simp]: "covered C (setNext a n w) m b = covered C w m b"
  by (simp add: covered_def)

lemma spk_inv_setNext:
  assumes "spk_inv C s"
  shows "spk_inv C (s\<lparr>db := d, wallets := (wallets s)[i := setNext a n (wallets s ! i)]\<rparr>)"
  using assms by (cases "i < length (wallets s)") (auto simp: spk_inv_def entry_ok_setNext nth_list_update)

text \<open>Indexes only move forward, and past the script that was seen.\<close>

lemma walletUpdateIndexes_ok:
  assumes inv: "spk_inv C s" and info: "scriptPubkeys s h = Some info"
  shows "\<exists>s'. walletUpdateIndexes info s = (Inr (), s') \<and> spk_inv C s'
    \<and> spi_pubkeyIdx info < nextIndex (spi_account info) (wallets s' ! nat (spi_walletIdx info))
    \<and> (\<forall>j < length (wallets s). \<forall>a\<in>accounts. nextIndex a (wallets s ! j) \<le> nextIndex a (wallets s' ! j))
    \<and> scriptPubkeys s' = scriptPubkeys s \<and> utxoIndex s' = utxoIndex s \<and> length (wallets s') = length (wallets s)
    \<and> (\<exists>rows. db s' = (db s)\<lparr>wallet_tbl := rows\<rparr> \<and> map wd_Hash rows = map wd_Hash (wallet_tbl (db s)))"
proof -
  let ?i = "nat (spi_walletIdx info)" and ?a = "spi_account info" and ?k = "spi_pubkeyIdx info"
  let ?w = "wallets s ! ?i"
  have e: "0 \<le> spi_walletIdx info" "?i < length (wallets s)" "?a \<in> accounts" "?k < nDerived ?a ?w"
    using inv info unfolding spk_inv_def entry_ok_def by blast+
  have k1: "?k < ?k + 1" by (rule word_less_succ [OF e(4)])
  show ?thesis
  proof (cases "?k < nextIndex ?a ?w")
    case True
    with e inv show ?thesis by (auto simp: walletUpdateIndexes_eq intro!: exI [of _ "wallet_tbl (db s)"])
  next
    case False
    then have "nextIndex ?a ?w \<le> ?k + 1" using k1 by simp
    with False e inv k1 show ?thesis
      by (auto simp: walletUpdateIndexes_eq Let_def spk_inv_setNext nextIndex_setNext nth_list_update index_rows_of_def)
  qed
qed

section \<open>Setting up\<close>

text \<open>While wallet \<open>i\<close> is set up the index names wallets below \<open>i\<close> only.\<close>

definition only_below :: "int \<Rightarrow> 'z W_scheme \<Rightarrow> bool" where
  "only_below i s \<longleftrightarrow> (\<forall>h info. scriptPubkeys s h = Some info \<longrightarrow> spi_walletIdx info < i)"

lemma refillAccount_only_below:
  assumes "refillAccount C a i s = (r, s')" "only_below (i + 1) s"
  shows "only_below (i + 1) s'"
  using assms(1)
proof (cases rule: refillAccount_cases)
  case (derived ps n)
  then show ?thesis
    using assms(2) addToSKIdx_from_in [of i a _ ps "scriptPubkeys s"] unfolding only_below_def by fastforce
qed (use assms(2) in simp_all)

lemma refillWallet_only_below:
  assumes "refillWallet C i s = (r, s')" "only_below (i + 1) s" "0 \<le> i" "nat i < length (wallets s)"
  shows "only_below (i + 1) s'"
  using assms(1,3,4)
  by (cases rule: refillWallet_splitE) (auto dest: refillAccount_only_below intro: refillAccount_only_below assms(2))

lemma spk_inv_fresh:
  assumes "spk_inv C s" "only_below i s" "0 \<le> i" "nat i < length (wallets s)"
    and "wl_nReceiveDerived w = 0" "wl_nChangeDerived w = 0"
  shows "spk_inv C (updWallet i (\<lambda>_. w) s)"
proof -
  have "entry_ok C ((wallets s)[nat i := w]) h info" if "scriptPubkeys s h = Some info" for h info
  proof -
    have e: "entry_ok C (wallets s) h info" "spi_walletIdx info < i"
      using assms(1,2) that unfolding spk_inv_def only_below_def by blast+
    then have "nat i \<noteq> nat (spi_walletIdx info)" by (auto simp: entry_ok_def)
    with e(1) show ?thesis by (simp add: entry_ok_def)
  qed
  moreover have "covered C ((wallets s)[nat i := w] ! j) (scriptPubkeys s) a" if "j < length (wallets s)" "a \<in> accounts" for j a
    using assms that by (cases "j = nat i") (auto simp: spk_inv_def covered_def nDerived_def)
  ultimately show ?thesis by (simp add: spk_inv_def)
qed

lemma snd_dropErr [simp]: "snd (dropErr r) = snd r"
  by (cases r) (auto simp: dropErr_def split: sum.split error.split)

lemma walletRow_frame:
  assumes "walletRow h wc s = (Inr wd, s')"
  shows "wallets s' = wallets s" "scriptPubkeys s' = scriptPubkeys s" "utxoIndex s' = utxoIndex s"
  using assms by (auto simp: walletRow_def insertWalletData_def Let_def split: sum.splits if_splits)

lemma spk_inv_cong: "wallets s' = wallets s \<Longrightarrow> scriptPubkeys s' = scriptPubkeys s \<Longrightarrow> spk_inv C s' = spk_inv C s"
  by (simp add: spk_inv_def)

text \<open>The steps of a successful \<open>setupWallet\<close>.\<close>

lemma setupWallet_okE:
  assumes "setupWallet C i wc s = (Inr (), s')"
  obtains wd s1 r where "walletRow (walletHash (wc_Kind wc) (wc_Reqsigs wc) (wc_MasterPubs wc)) wc s = (Inr wd, s1)"
    "0 \<le> i" "nat i < length (wallets s1)"
    "refillWallet C i (updWallet i (\<lambda>_. configured wc (walletHash (wc_Kind wc) (wc_Reqsigs wc) (wc_MasterPubs wc)) wd) s1) = (r, s')"
proof -
  obtain wd s1 x where a: "walletRow (walletHash (wc_Kind wc) (wc_Reqsigs wc) (wc_MasterPubs wc)) wc s = (Inr wd, s1)"
      "go_index (wallets s1) i = Inr x"
      "dropErr (refillWallet C i (updWallet i (\<lambda>_. configured wc (walletHash (wc_Kind wc) (wc_Reqsigs wc) (wc_MasterPubs wc)) wd) s1)) = (Inr (), s')"
    using assms by (auto simp: setupWallet_def Let_def ebind_ok_iff)
  then have "snd (refillWallet C i (updWallet i (\<lambda>_. configured wc (walletHash (wc_Kind wc) (wc_Reqsigs wc) (wc_MasterPubs wc)) wd) s1)) = s'"
    by (metis snd_conv snd_dropErr)
  with a that show thesis by (metis go_index_ok_iff surjective_pairing)
qed

lemma setupWallet_spk_inv:
  fixes s :: "'z W_scheme"
  assumes "setupWallet C i wc s = (Inr (), s')" "spk_inv C s" "only_below i s"
  shows "spk_inv C s' \<and> only_below (i + 1) s' \<and> length (wallets s') = length (wallets s)"
  using assms(1)
proof (rule setupWallet_okE)
  fix wd and s1 :: "'z W_scheme" and r
  let ?w = "configured wc (walletHash (wc_Kind wc) (wc_Reqsigs wc) (wc_MasterPubs wc)) wd"
  let ?s2 = "updWallet i (\<lambda>_. ?w) s1"
  assume row: "walletRow (walletHash (wc_Kind wc) (wc_Reqsigs wc) (wc_MasterPubs wc)) wc s = (Inr wd, s1)"
    and i: "0 \<le> i" "nat i < length (wallets s1)" and fill: "refillWallet C i ?s2 = (r, s')"
  note f = walletRow_frame [OF row]
  have "spk_inv C s1" "only_below i s1" using assms(2,3) f by (simp_all add: spk_inv_def only_below_def)
  then have s2: "spk_inv C ?s2" using i by (intro spk_inv_fresh) (simp_all add: configured_def)
  have len: "nat i < length (wallets ?s2)" using i by simp
  have "only_below (i + 1) ?s2" using assms(3) f by (fastforce simp: only_below_def)
  then have "only_below (i + 1) s'" by (rule refillWallet_only_below [OF fill _ i(1) len])
  moreover have "spk_inv C s'" by (rule refillWallet_spk_inv [OF s2 i(1) len fill])
  moreover have "length (wallets s') = length (wallets s)"
    using refill_frame_length [OF refillWallet_frame [OF fill]] f by simp
  ultimately show ?thesis by blast
qed

lemma setupWallets_spk_inv:
  "setupWallets C i wcs s = (Inr (), s') \<Longrightarrow> spk_inv C s \<Longrightarrow> only_below i s \<Longrightarrow> spk_inv C s'"
proof (induction wcs arbitrary: i s)
  case (Cons wc wcs)
  from Cons.prems(1) obtain s1 where s1: "setupWallet C i wc s = (Inr (), s1)" "setupWallets C (i + 1) wcs s1 = (Inr (), s')"
    by (auto simp: ebind_ok_iff)
  with Cons.IH [OF s1(2)] setupWallet_spk_inv [OF s1(1) Cons.prems(2,3)] show ?case by blast
qed simp

lemma New_spk_inv:
  assumes "New C d wcs n = Inr s"
  shows "spk_inv C s"
proof -
  obtain st s0 where st: "newRepository d = (Inr (), st)" and s0:
      "setupWallets C 0 wcs s0 = (Inr (), s)" "scriptPubkeys s0 = Map.empty" "wallets s0 = replicate (length wcs) zero_wallet"
  proof (cases "newRepository d")
    case (Pair r st)
    show thesis
    proof (cases r)
      case (Inr u)
      then show thesis
        using assms Pair that unfolding New_def
        by (auto simp: prod_eq_iff dest!: fst_ebind_ok)
    qed (use assms Pair in \<open>simp add: New_def\<close>)
  qed
  have "spk_inv C s0" by (auto simp: spk_inv_def s0 covered_def zero_wallet_def nDerived_def)
  then show ?thesis using setupWallets_spk_inv [OF s0(1)] by (simp add: only_below_def s0)
qed

section \<open>A sample wallet\<close>

definition sample_xpub :: ExtendedKey where
  "sample_xpub = \<lparr>ek_Version = VersionMainnetPublic, ek_Depth = 3, ek_Fingerprint = [1, 2, 3, 4],
     ek_ChildNum = [0, 0, 0, 0], ek_Chaincode = replicate 32 9, ek_Key = 2 # replicate 32 5\<rparr>"

definition sample_config :: WalletConfig where
  "sample_config = \<lparr>wc_Kind = SK_P2WPKH, wc_Reqsigs = 0, wc_MasterPubs = [sample_xpub], wc_Height = 10\<rparr>"

definition sample_wallet :: wallet where
  "sample_wallet = configured sample_config (walletHash SK_P2WPKH 0 [sample_xpub])
     \<lparr>wd_Hash = walletHash SK_P2WPKH 0 [sample_xpub], wd_Height = 10, wd_NextReceiveIndex = 0, wd_NextChangeIndex = 0\<rparr>"

lemma xor_derive:
  assumes "length (ek_Key k) = 33" "unhardened i"
  shows "\<exists>x. DeriveXpub xor_crypto k [i] = Inr x \<and> length (ek_Key x) = 33 \<and> ek_Key x ! 0 = 2"
  using assms by (simp add: DeriveXpub_def deriveUnhardenedPubFromPub_def xor_crypto_def unhardened_def
      compressedFromBasePointMul_def compressedFromPointAdd_def Let_def)

lemma sample_script_at:
  assumes "a \<in> accounts" "unhardened j" "same_wallet w sample_wallet"
  shows "\<exists>p. script_at xor_crypto w a j = Inr p"
proof -
  have "unhardened a" using assms(1) by (auto simp: accounts_def receiveAccount_def changeAccount_def unhardened_def KEY_HARDENED_def)
  then obtain x where x: "DeriveXpub xor_crypto sample_xpub [a] = Inr x" "length (ek_Key x) = 33" "ek_Key x ! 0 = 2"
    using xor_derive [of sample_xpub a] by (auto simp: sample_xpub_def)
  obtain y where y: "DeriveXpub xor_crypto x [j] = Inr y" "length (ek_Key y) = 33"
    using xor_derive [OF x(2) assms(2)] by auto
  show ?thesis
    using assms(3) x y
    by (simp add: script_at_def same_wallet_def sample_wallet_def configured_def sample_config_def basePubKey_def
        childScript_def Make_def p2wpkh_def pubkey_len_ok_def go_index_def)
qed

lemma unhardened_small: "n < 2 ^ 31 \<Longrightarrow> unhardened (of_nat n)"
proof -
  assume n: "n < 2 ^ 31"
  have "\<not> bit n 31" using n by (simp add: bit_iff_odd)
  then have "\<not> bit (of_nat n :: u32) 31" by (simp only: bit_of_nat_iff) simp
  then show ?thesis
    unfolding unhardened_def KEY_HARDENED_def
    by (intro bit_word_eqI, auto simp only: bit_and_iff bit_push_bit_iff bit_1_iff bit_0_eq bot_apply bot_bool_def)
      (metis le_antisym diff_is_0_eq)
qed

lemma sample_refill:
  assumes "wallets s = [w]" "same_wallet w sample_wallet" "nDerived a w = 0" "a \<in> accounts"
  shows "\<exists>ps. refillAccount xor_crypto a 0 s = (Inr (), updWallet 0 (setDerived a gap) (addToSKIdx 0 a 0 ps s))"
proof -
  have "nextIndex a w = 0"
    using assms(2) by (simp add: same_wallet_next) (simp add: nextIndex_def sample_wallet_def configured_def)
  moreover have "\<exists>ps. deriveScriptPubkeys xor_crypto w a 0 gap = Inr ps"
  proof (rule derived.at_range)
    show "\<forall>i < unat gap. \<exists>p. script_at xor_crypto w a (of_nat i + 0) = Inr p"
      using sample_script_at [OF assms(4) unhardened_small assms(2)] by (simp add: gap_def)
  qed (simp add: gap_def)
  ultimately show ?thesis
    using assms(1,3) by (auto simp: refillAccount_def offAndCount_def gap_def)
qed

lemma sample_refillWallet:
  assumes "wallets s = [w]" "same_wallet w sample_wallet" "nDerived receiveAccount w = 0" "nDerived changeAccount w = 0"
  shows "\<exists>s'. refillWallet xor_crypto 0 s = (Inr (), s') \<and> wallets s' = [setDerived changeAccount gap (setDerived receiveAccount gap w)]"
proof -
  obtain ps where ps: "refillAccount xor_crypto receiveAccount 0 s =
      (Inr (), updWallet 0 (setDerived receiveAccount gap) (addToSKIdx 0 receiveAccount 0 ps s))"
    using sample_refill [OF assms(1,2,3)] by auto
  let ?s1 = "updWallet 0 (setDerived receiveAccount gap) (addToSKIdx 0 receiveAccount 0 ps s)"
  obtain qs where qs: "refillAccount xor_crypto changeAccount 0 ?s1 =
      (Inr (), updWallet 0 (setDerived changeAccount gap) (addToSKIdx 0 changeAccount 0 qs ?s1))"
    using sample_refill [of ?s1 "setDerived receiveAccount gap w" changeAccount] assms
      same_wallet_trans [OF same_wallet_setDerived assms(2)] by auto
  show ?thesis using assms(1) ps qs by (simp add: refillWallet_eq)
qed

abbreviation (input) "sample_wallet_row \<equiv> \<lparr>wd_Hash = walletHash SK_P2WPKH 0 [sample_xpub], wd_Height = 10, wd_NextReceiveIndex = 0, wd_NextChangeIndex = 0\<rparr>"

lemma sample_New_on:
  assumes "unspent_tbl d = []" "wallet_tbl d = [] \<or> wallet_tbl d = [sample_wallet_row]"
  shows "\<exists>s. New xor_crypto d [sample_config] n = Inr s
     \<and> wallets s = [setDerived changeAccount gap (setDerived receiveAccount gap sample_wallet)]
     \<and> db s = d\<lparr>wallet_tbl := [sample_wallet_row]\<rparr> \<and> net s = n \<and> calls s = 0 \<and> utxoIndex s = [] \<and> shSubs s = [] \<and> hSubs s = [] \<and> sent s = []"
proof -
  let ?h = "walletHash SK_P2WPKH 0 [sample_xpub]"
  define s0 :: W where "s0 = \<lparr>db = d, utxoIndex = [], net = n, bestHeader = 0,
     bestHeaderHash = replicate 32 0, wallets = [zero_wallet], scriptPubkeys = Map.empty, shSubs = [], hSubs = [], sent = [], calls = 0\<rparr>"
  define s1 where "s1 = s0\<lparr>db := d\<lparr>wallet_tbl := [sample_wallet_row]\<rparr>\<rparr>"
  have row: "walletRow ?h sample_config s0 = (Inr sample_wallet_row, s1)"
    using assms(2) by (auto simp: walletRow_def s0_def s1_def selectWalletData_def queryRow_def insertWalletData_def sample_config_def Let_def)
  let ?s2 = "updWallet 0 (\<lambda>_. sample_wallet) s1"
  obtain s' where s': "refillWallet xor_crypto 0 ?s2 = (Inr (), s')"
      "wallets s' = [setDerived changeAccount gap (setDerived receiveAccount gap sample_wallet)]"
    using sample_refillWallet [of ?s2 sample_wallet]
    by (auto simp: s1_def s0_def nDerived_def sample_wallet_def configured_def)
  have cfg: "wc_Kind sample_config = SK_P2WPKH" "wc_Reqsigs sample_config = 0" "wc_MasterPubs sample_config = [sample_xpub]"
    by (simp_all add: sample_config_def)
  have "setupWallet xor_crypto 0 sample_config s0 = (Inr (), s')"
    unfolding setupWallet_def Let_def cfg row
    using s'(1) by (simp add: s1_def s0_def go_index_def sample_wallet_def dropErr_def)
  then have "New xor_crypto d [sample_config] n = Inr s'"
    using assms(1) by (simp add: New_def newRepository_def loadUtxoIndex_def selectAllUtxos_def index_rows_def s0_def)
  moreover have "db s' = d\<lparr>wallet_tbl := [sample_wallet_row]\<rparr>" "net s' = n" "calls s' = 0" "utxoIndex s' = []" "shSubs s' = []" "hSubs s' = []" "sent s' = []"
    using refillWallet_frame [OF s'(1)] by (simp_all add: refill_frame_def s1_def s0_def)
  ultimately show ?thesis using s'(2) by blast
qed

lemma sample_New_db:
  "\<exists>s. New xor_crypto empty_database [sample_config] Mainnet = Inr s
     \<and> wallets s = [setDerived changeAccount gap (setDerived receiveAccount gap sample_wallet)]
     \<and> (\<exists>row. db s = empty_database\<lparr>wallet_tbl := [row]\<rparr>) \<and> utxoIndex s = [] \<and> shSubs s = [] \<and> hSubs s = [] \<and> sent s = []"
  using sample_New_on [of empty_database Mainnet] by (auto simp: empty_database_def)

lemma sample_New:
  "\<exists>s. New xor_crypto empty_database [sample_config] Mainnet = Inr s
     \<and> wallets s = [setDerived changeAccount gap (setDerived receiveAccount gap sample_wallet)]"
  using sample_New_db by blast

section \<open>Properties\<close>

text \<open>C30. The look-ahead of a wallet: after a successful \<open>refillWallet\<close> the index of scripts holds, for
  both accounts, the script of every child below the next index plus \<open>gap\<close>, and it still holds only
  scripts of derived children.\<close>

theorem refill_keeps_gap:
  assumes "spk_inv C s" "0 \<le> i" "nat i < length (wallets s)" "refillWallet C i s = (Inr (), s')"
  shows "spk_inv C s' \<and> (\<forall>a\<in>{receiveAccount, changeAccount}.
    \<forall>j < nextIndex a (wallets s' ! nat i) + gap. \<exists>p. script_at C (wallets s' ! nat i) a j = Inr p
      \<and> scriptPubkeys s' (Sum256 p) \<noteq> None)"
proof -
  have inv: "spk_inv C s'" by (rule refillWallet_spk_inv [OF assms])
  moreover have len: "nat i < length (wallets s')"
    using refill_frame_length [OF refillWallet_frame [OF assms(4)]] assms(3) by simp
  moreover have "covered C (wallets s' ! nat i) (scriptPubkeys s') a" if "a \<in> accounts" for a
    using inv len that unfolding spk_inv_def by blast
  ultimately show ?thesis
    using refillWallet_target [OF assms(4,2,3)] unfolding covered_def accounts_def
    by (meson less_le_trans)
qed

theorem refill_keeps_gap_witness:
  "\<exists>s s' p. wallets (s :: W) = [sample_wallet] \<and> refillWallet xor_crypto 0 s = (Inr (), s')
     \<and> script_at xor_crypto (wallets s' ! 0) receiveAccount 1999 = Inr p \<and> scriptPubkeys s' (Sum256 p) \<noteq> None"
proof -
  define s :: W where "s = \<lparr>db = empty_database, utxoIndex = [], net = Mainnet, bestHeader = 0, bestHeaderHash = [],
     wallets = [sample_wallet], scriptPubkeys = Map.empty, shSubs = [], hSubs = [], sent = [], calls = 0\<rparr>"
  have inv: "spk_inv xor_crypto s"
    by (simp add: spk_inv_def s_def covered_def nDerived_def sample_wallet_def configured_def)
  have ws: "wallets s = [sample_wallet]" by (simp add: s_def)
  obtain s' where s': "refillWallet xor_crypto 0 s = (Inr (), s')"
      "wallets s' = [setDerived changeAccount gap (setDerived receiveAccount gap sample_wallet)]"
    using sample_refillWallet [OF ws] by (auto simp: nDerived_def sample_wallet_def configured_def)
  have "1999 < nextIndex receiveAccount (wallets s' ! nat 0) + gap"
    by (simp add: s'(2)) (simp add: nextIndex_def sample_wallet_def configured_def gap_def)
  with refill_keeps_gap [OF inv _ _ s'(1)] ws
  obtain p where "script_at xor_crypto (wallets s' ! 0) receiveAccount 1999 = Inr p" "scriptPubkeys s' (Sum256 p) \<noteq> None"
    by (auto simp del: not_None_eq)
  with ws s'(1) show ?thesis by blast
qed

text \<open>The index of scripts is exact from the start: after \<open>New\<close> every entry names a derived child of a
  configured wallet whose script hashes to the key, and every derived child has an entry.\<close>

theorem New_index_exact:
  assumes "New C d wcs n = Inr s"
  shows "spk_inv C s"
  by (rule New_spk_inv [OF assms])

theorem New_index_exact_witness:
  "\<exists>s. New xor_crypto empty_database [sample_config] Mainnet = Inr s \<and> spk_inv xor_crypto s
     \<and> nDerived receiveAccount (wallets s ! 0) = 2000"
proof -
  obtain s where s: "New xor_crypto empty_database [sample_config] Mainnet = Inr s"
      "wallets s = [setDerived changeAccount gap (setDerived receiveAccount gap sample_wallet)]"
    using sample_New by blast
  from New_index_exact [OF s(1)] s show ?thesis by (auto simp: gap_def)
qed

text \<open>Seeing an indexed script moves the next index of its account past it: \<open>walletUpdateIndexes\<close>
  never takes the branch marked unreachable, no index moves back, and the index of scripts stays exact.\<close>

theorem walletUpdateIndexes_forward:
  assumes "spk_inv C s" "scriptPubkeys s h = Some info"
  shows "\<exists>s'. walletUpdateIndexes info s = (Inr (), s') \<and> spk_inv C s'
    \<and> spi_pubkeyIdx info < nextIndex (spi_account info) (wallets s' ! nat (spi_walletIdx info))
    \<and> (\<forall>j < length (wallets s). \<forall>a\<in>{receiveAccount, changeAccount}.
         nextIndex a (wallets s ! j) \<le> nextIndex a (wallets s' ! j))"
  using walletUpdateIndexes_ok [OF assms] unfolding accounts_def by blast

theorem walletUpdateIndexes_forward_witness:
  "\<exists>s h info s'. New xor_crypto empty_database [sample_config] Mainnet = Inr s \<and> scriptPubkeys s h = Some info
     \<and> walletUpdateIndexes info s = (Inr (), s')
     \<and> spi_pubkeyIdx info < nextIndex (spi_account info) (wallets s' ! nat (spi_walletIdx info))"
proof -
  obtain s where s: "New xor_crypto empty_database [sample_config] Mainnet = Inr s"
      "wallets s = [setDerived changeAccount gap (setDerived receiveAccount gap sample_wallet)]"
    using sample_New by blast
  have inv: "spk_inv xor_crypto s" by (rule New_spk_inv [OF s(1)])
  have "7 < nDerived receiveAccount (wallets s ! 0)" "0 < length (wallets s)" by (simp_all add: s(2) gap_def)
  with inv obtain p where "scriptPubkeys s (Sum256 p) \<noteq> None"
    using in_accounts(1) unfolding spk_inv_def covered_def by meson
  then obtain h info where info: "scriptPubkeys s h = Some info" by blast
  from walletUpdateIndexes_forward [OF inv info] s(1) info show ?thesis by blast
qed

end
