(* ===== verification/WalletManager.thy ===== *)
theory WalletManager
  imports Wallet
begin

text \<open>
  The queries, the subscriptions and the block processor of \<open>walletmanager/walletmanager.go\<close>.

  The exported methods take \<open>w.mu\<close> for their whole body, as does each round of \<open>run\<close>, so
  they are atomic and each is one function on the state. Queries that the Electrum handlers make only
  read the state. \<open>processBlock\<close> is run inside \<open>sql.Execute\<close>, whose rollback restores the database but
  not the memory of the process. Log output and the estimate of the remaining time are not modelled.
  The order in which Go iterates over a map is not specified; where the code iterates over subscribers
  or updated script hashes the model uses the order of insertion, and no theorem depends on it.
\<close>

section \<open>Genesis blocks\<close>

fun genesisBlockData :: "Network \<Rightarrow> blockHeaderData" where
  "genesisBlockData Mainnet = \<lparr>bh_Hash = [
       0x6f, 0xe2, 0x8c, 0x0a, 0xb6, 0xf1, 0xb3, 0x72, 0xc1, 0xa6, 0xa2, 0x46, 0xae, 0x63, 0xf7, 0x4f, 0x93, 0x1e, 0x83, 0x65, 0xe1, 0x5a, 0x08, 0x9c,
       0x68, 0xd6, 0x19, 0x00, 0x00, 0x00, 0x00, 0x00],
     bh_Height = 0, bh_Serialized = [
       0x01, 0x00, 0x00, 0x00, 0x00, 0x00, 0x00, 0x00, 0x00, 0x00, 0x00, 0x00, 0x00, 0x00, 0x00, 0x00, 0x00, 0x00, 0x00, 0x00, 0x00, 0x00, 0x00, 0x00,
       0x00, 0x00, 0x00, 0x00, 0x00, 0x00, 0x00, 0x00, 0x00, 0x00, 0x00, 0x00, 0x3b, 0xa3, 0xed, 0xfd, 0x7a, 0x7b, 0x12, 0xb2, 0x7a, 0xc7, 0x2c, 0x3e,
       0x67, 0x76, 0x8f, 0x61, 0x7f, 0xc8, 0x1b, 0xc3, 0x88, 0x8a, 0x51, 0x32, 0x3a, 0x9f, 0xb8, 0xaa, 0x4b, 0x1e, 0x5e, 0x4a, 0x29, 0xab, 0x5f, 0x49,
       0xff, 0xff, 0x00, 0x1d, 0x1d, 0xac, 0x2b, 0x7c, 0x01, 0x01, 0x00, 0x00, 0x00, 0x01, 0x00, 0x00, 0x00, 0x00, 0x00, 0x00, 0x00, 0x00, 0x00, 0x00,
       0x00, 0x00, 0x00, 0x00, 0x00, 0x00, 0x00, 0x00, 0x00, 0x00, 0x00, 0x00, 0x00, 0x00, 0x00, 0x00, 0x00, 0x00, 0x00, 0x00, 0x00, 0x00, 0xff, 0xff,
       0xff, 0xff, 0x4d, 0x04, 0xff, 0xff, 0x00, 0x1d, 0x01, 0x04, 0x45, 0x54, 0x68, 0x65, 0x20, 0x54, 0x69, 0x6d, 0x65, 0x73, 0x20, 0x30, 0x33, 0x2f,
       0x4a, 0x61, 0x6e, 0x2f, 0x32, 0x30, 0x30, 0x39, 0x20, 0x43, 0x68, 0x61, 0x6e, 0x63, 0x65, 0x6c, 0x6c, 0x6f, 0x72, 0x20, 0x6f, 0x6e, 0x20, 0x62,
       0x72, 0x69, 0x6e, 0x6b, 0x20, 0x6f, 0x66, 0x20, 0x73, 0x65, 0x63, 0x6f, 0x6e, 0x64, 0x20, 0x62, 0x61, 0x69, 0x6c, 0x6f, 0x75, 0x74, 0x20, 0x66,
       0x6f, 0x72, 0x20, 0x62, 0x61, 0x6e, 0x6b, 0x73, 0xff, 0xff, 0xff, 0xff, 0x01, 0x00, 0xf2, 0x05, 0x2a, 0x01, 0x00, 0x00, 0x00, 0x43, 0x41, 0x04,
       0x67, 0x8a, 0xfd, 0xb0, 0xfe, 0x55, 0x48, 0x27, 0x19, 0x67, 0xf1, 0xa6, 0x71, 0x30, 0xb7, 0x10, 0x5c, 0xd6, 0xa8, 0x28, 0xe0, 0x39, 0x09, 0xa6,
       0x79, 0x62, 0xe0, 0xea, 0x1f, 0x61, 0xde, 0xb6, 0x49, 0xf6, 0xbc, 0x3f, 0x4c, 0xef, 0x38, 0xc4, 0xf3, 0x55, 0x04, 0xe5, 0x1e, 0xc1, 0x12, 0xde,
       0x5c, 0x38, 0x4d, 0xf7, 0xba, 0x0b, 0x8d, 0x57, 0x8a, 0x4c, 0x70, 0x2b, 0x6b, 0xf1, 0x1d, 0x5f, 0xac, 0x00, 0x00, 0x00, 0x00]\<rparr>"
| "genesisBlockData Testnet = \<lparr>bh_Hash = replicate 32 0, bh_Height = 0, bh_Serialized = []\<rparr>"
| "genesisBlockData Regtest = \<lparr>bh_Hash = [
       0x06, 0x22, 0x6e, 0x46, 0x11, 0x1a, 0x0b, 0x59, 0xca, 0xaf, 0x12, 0x60, 0x43, 0xeb, 0x5b, 0xbf, 0x28, 0xc3, 0x4f, 0x3a, 0x5e, 0x33, 0x2a, 0x1f,
       0xc7, 0xb2, 0xb7, 0x3c, 0xf1, 0x88, 0x91, 0x0f],
     bh_Height = 0, bh_Serialized = [
       0x01, 0x00, 0x00, 0x00, 0x00, 0x00, 0x00, 0x00, 0x00, 0x00, 0x00, 0x00, 0x00, 0x00, 0x00, 0x00, 0x00, 0x00, 0x00, 0x00, 0x00, 0x00, 0x00, 0x00,
       0x00, 0x00, 0x00, 0x00, 0x00, 0x00, 0x00, 0x00, 0x00, 0x00, 0x00, 0x00, 0x3b, 0xa3, 0xed, 0xfd, 0x7a, 0x7b, 0x12, 0xb2, 0x7a, 0xc7, 0x2c, 0x3e,
       0x67, 0x76, 0x8f, 0x61, 0x7f, 0xc8, 0x1b, 0xc3, 0x88, 0x8a, 0x51, 0x32, 0x3a, 0x9f, 0xb8, 0xaa, 0x4b, 0x1e, 0x5e, 0x4a, 0xda, 0xe5, 0x49, 0x4d,
       0xff, 0xff, 0x7f, 0x20, 0x02, 0x00, 0x00, 0x00, 0x01, 0x01, 0x00, 0x00, 0x00, 0x01, 0x00, 0x00, 0x00, 0x00, 0x00, 0x00, 0x00, 0x00, 0x00, 0x00,
       0x00, 0x00, 0x00, 0x00, 0x00, 0x00, 0x00, 0x00, 0x00, 0x00, 0x00, 0x00, 0x00, 0x00, 0x00, 0x00, 0x00, 0x00, 0x00, 0x00, 0x00, 0x00, 0xff, 0xff,
       0xff, 0xff, 0x4d, 0x04, 0xff, 0xff, 0x00, 0x1d, 0x01, 0x04, 0x45, 0x54, 0x68, 0x65, 0x20, 0x54, 0x69, 0x6d, 0x65, 0x73, 0x20, 0x30, 0x33, 0x2f,
       0x4a, 0x61, 0x6e, 0x2f, 0x32, 0x30, 0x30, 0x39, 0x20, 0x43, 0x68, 0x61, 0x6e, 0x63, 0x65, 0x6c, 0x6c, 0x6f, 0x72, 0x20, 0x6f, 0x6e, 0x20, 0x62,
       0x72, 0x69, 0x6e, 0x6b, 0x20, 0x6f, 0x66, 0x20, 0x73, 0x65, 0x63, 0x6f, 0x6e, 0x64, 0x20, 0x62, 0x61, 0x69, 0x6c, 0x6f, 0x75, 0x74, 0x20, 0x66,
       0x6f, 0x72, 0x20, 0x62, 0x61, 0x6e, 0x6b, 0x73, 0xff, 0xff, 0xff, 0xff, 0x01, 0x00, 0xf2, 0x05, 0x2a, 0x01, 0x00, 0x00, 0x00, 0x43, 0x41, 0x04,
       0x67, 0x8a, 0xfd, 0xb0, 0xfe, 0x55, 0x48, 0x27, 0x19, 0x67, 0xf1, 0xa6, 0x71, 0x30, 0xb7, 0x10, 0x5c, 0xd6, 0xa8, 0x28, 0xe0, 0x39, 0x09, 0xa6,
       0x79, 0x62, 0xe0, 0xea, 0x1f, 0x61, 0xde, 0xb6, 0x49, 0xf6, 0xbc, 0x3f, 0x4c, 0xef, 0x38, 0xc4, 0xf3, 0x55, 0x04, 0xe5, 0x1e, 0xc1, 0x12, 0xde,
       0x5c, 0x38, 0x4d, 0xf7, 0xba, 0x0b, 0x8d, 0x57, 0x8a, 0x4c, 0x70, 0x2b, 0x6b, 0xf1, 0x1d, 0x5f, 0xac, 0x00, 0x00, 0x00, 0x00]\<rparr>"

section \<open>Queries\<close>

text \<open>\<open>x[:80]\<close> of a slice shorter than 80 bytes is a panic.\<close>

definition genesisHeader :: "Network \<Rightarrow> bytes result" where
  "genesisHeader n =
     (if length (bh_Serialized (genesisBlockData n)) < 80 then Inl (ErrPanic ''slice bounds out of range'')
      else Inr (take 80 (bh_Serialized (genesisBlockData n))))"

definition GetBlockHeader :: "'z W_scheme \<Rightarrow> int \<Rightarrow> bytes result" where
  "GetBlockHeader s height =
     (if height = 0 then genesisHeader (net s) else selectRawBlockHeaderByHeight s height)"

definition GetBlockHeaders :: "'z W_scheme \<Rightarrow> int \<Rightarrow> int \<Rightarrow> (bytes list) result" where
  "GetBlockHeaders s height limit =
     (let sel = selectRawBlockHeadersByHeight s height limit in
      if height = 0 then
        rbind (genesisHeader (net s)) (\<lambda>h.
        rbind sel (\<lambda>headers.
        let headers = h # headers
        in Inr (if int (length headers) > limit then take (length headers - 1) headers else headers)))
      else sel)"

definition GetTipHeader :: "'z W_scheme \<Rightarrow> (int \<times> bytes) result" where
  "GetTipHeader s = selectLastBlockHeaderHeightAndRaw s"

definition GetScriptHashBalance :: "'z W_scheme \<Rightarrow> hash32 \<Rightarrow> u64 \<times> u64" where
  "GetScriptHashBalance s sh =
     (case scriptPubkeys s sh of None \<Rightarrow> (0, 0) | Some _ \<Rightarrow> (selectScriptHashBalance s sh, 0))"

definition GetScriptHashHistory :: "'z W_scheme \<Rightarrow> hash32 \<Rightarrow> (TxData list) result" where
  "GetScriptHashHistory s sh = selectScriptHashHistory s sh"

definition GetScriptHashUnspent :: "'z W_scheme \<Rightarrow> hash32 \<Rightarrow> (UtxoData list) result" where
  "GetScriptHashUnspent s sh = selectScriptHashUnspent s sh"

text \<open>Text as bytes: hexadecimal digits, decimal numbers.\<close>

definition hexDigit :: "byte \<Rightarrow> byte" where
  "hexDigit d = (if d < 10 then 0x30 + d else 0x61 + (d - 10))"

definition hexEncode :: "bytes \<Rightarrow> bytes" where
  "hexEncode bs = concat (map (\<lambda>b. [hexDigit (drop_bit 4 b), hexDigit (b AND 0x0f)]) bs)"

fun decDigits :: "nat \<Rightarrow> bytes" where
  "decDigits n = (if n < 10 then [0x30 + of_nat n] else decDigits (n div 10) @ [0x30 + of_nat (n mod 10)])"

declare decDigits.simps [simp del]

definition decEncode :: "int \<Rightarrow> bytes" where
  "decEncode i = (if i < 0 then 0x2d # decDigits (nat (- i)) else decDigits (nat i))"

text \<open>\<open>shStatus\<close> appends to its buffer; the callers hand it an empty one. \<open>None\<close> is the nil slice.\<close>

definition statusItem :: "TxData \<Rightarrow> bytes" where
  "statusItem t = hexEncode (rev (hd_Txid t)) @ [0x3a] @ decEncode (hd_Height t) @ [0x3a]"

definition shStatus :: "TxData list \<Rightarrow> bytes \<Rightarrow> hash32 option" where
  "shStatus txs buf = (if txs = [] then None else Some (Sum256 (buf @ concat (map statusItem txs))))"

definition GetScriptHashStatus :: "'z W_scheme \<Rightarrow> hash32 \<Rightarrow> (hash32 option) result" where
  "GetScriptHashStatus s sh = rbind (selectScriptHashHistory s sh) (\<lambda>hist. Inr (shStatus hist []))"

definition GetRawTx :: "'z W_scheme \<Rightarrow> hash32 \<Rightarrow> bytes result" where
  "GetRawTx s txid = selectRawTransaction s txid"

record MerkleData =
  md_Merkle :: "hash32 list"
  md_Pos :: int

record MerkleFromPosData =
  mp_Merkle :: "hash32 list"
  mp_Txid :: hash32

text \<open>The loop that cuts a stored proof into nodes of 32 bytes.\<close>

fun splitBranch :: "bytes \<Rightarrow> (hash32 list) result" where
  "splitBranch p =
     (if p = [] then Inr []
      else if length p < 32 then Inl (ErrPanic ''slice bounds out of range'')
      else rbind (splitBranch (drop 32 p)) (\<lambda>hs. Inr (take 32 p # hs)))"

declare splitBranch.simps [simp del]

definition GetTransactionMerkle :: "'z W_scheme \<Rightarrow> hash32 \<Rightarrow> MerkleData result" where
  "GetTransactionMerkle s txid =
     rbind (selectTransactionFromTxid s txid) (\<lambda>txData.
     rbind (splitBranch (td_MerkleProof txData)) (\<lambda>branch.
     Inr \<lparr>md_Merkle = branch, md_Pos = td_Pos txData\<rparr>))"

definition GetTransactionMerkleFromPos :: "'z W_scheme \<Rightarrow> int \<Rightarrow> int \<Rightarrow> MerkleFromPosData result" where
  "GetTransactionMerkleFromPos s height pos =
     rbind (selectTransactionFromHeightPos s height pos) (\<lambda>txData.
     rbind (splitBranch (td_MerkleProof txData)) (\<lambda>branch.
     Inr \<lparr>mp_Merkle = branch, mp_Txid = td_Txid txData\<rparr>))"

section \<open>Subscriptions\<close>

definition HeadersSubscribe :: "u32 \<Rightarrow> nat \<Rightarrow> 'z W_scheme \<Rightarrow> 'z W_scheme" where
  "HeadersSubscribe cid cb s = s\<lparr>hSubs := AList.update cid cb (hSubs s)\<rparr>"

definition notifyHeaderSubscribers :: "int \<Rightarrow> bytes \<Rightarrow> 'z W_scheme \<Rightarrow> 'z W_scheme" where
  "notifyHeaderSubscribers height buf s =
     (if hSubs s = [] then s
      else s\<lparr>sent := sent s @ map (\<lambda>(_, cb). HeaderEvent cb height (take 80 (buf @ replicate 80 0))) (hSubs s)\<rparr>)"

definition shSubscribers :: "hash32 \<Rightarrow> 'z W_scheme \<Rightarrow> (u32 \<times> nat) list" where
  "shSubscribers sh s = (case map_of (shSubs s) sh of None \<Rightarrow> [] | Some m \<Rightarrow> m)"

definition ScriptHashSubscribe :: "u32 \<Rightarrow> hash32 \<Rightarrow> nat \<Rightarrow> 'z W_scheme \<Rightarrow> 'z W_scheme" where
  "ScriptHashSubscribe cid sh cb s =
     s\<lparr>shSubs := AList.update sh (AList.update cid cb (shSubscribers sh s)) (shSubs s)\<rparr>"

definition notifyScriptHashSubscribers :: "hash32 \<Rightarrow> hash32 \<Rightarrow> 'z W_scheme \<Rightarrow> 'z W_scheme" where
  "notifyScriptHashSubscribers sh status s =
     (if shSubscribers sh s = [] then s
      else s\<lparr>sent := sent s @ map (\<lambda>(_, cb). StatusEvent cb status) (shSubscribers sh s)\<rparr>)"

definition UnsubscribeAll :: "u32 \<Rightarrow> 'z W_scheme \<Rightarrow> 'z W_scheme" where
  "UnsubscribeAll cid s =
     s\<lparr>hSubs := AList.delete cid (hSubs s),
       shSubs := filter (\<lambda>(_, v). v \<noteq> []) (map (\<lambda>(k, v). (k, AList.delete cid v)) (shSubs s))\<rparr>"

section \<open>The block processor\<close>

text \<open>The steps \<open>processOutput\<close> and \<open>processInput\<close> share: the transaction with its Merkle proof is stored and
  linked to the script hash.\<close>

definition recordTx :: "Block \<Rightarrow> Transaction \<Rightarrow> int \<Rightarrow> hash32 \<Rightarrow> 'z W_scheme \<Rightarrow> (unit, 'z W_scheme) outcome" where
  "recordTx block tx txPos sh s =
     ebind (ereads (MerkleProof (TXIDs block) (Txid tx)) s) (\<lambda>(pos, merkleP) s.
     if pos \<noteq> txPos then (Inl (ErrPanic ''unreachable''), s)
     else
       ebind (insertTransaction (Txid tx) (Block_Hash block) txPos (Transaction_Serialize tx) (concat merkleP) s) (\<lambda>_ s.
       insertScriptPubkeyTransaction sh (Txid tx) s))"

definition processOutput ::
  "crypto \<Rightarrow> Block \<Rightarrow> int \<Rightarrow> Transaction \<Rightarrow> int \<Rightarrow> Output \<Rightarrow> u32 \<Rightarrow> hash32 list \<Rightarrow> 'z W_scheme \<Rightarrow>
   (hash32 list, 'z W_scheme) outcome" where
  "processOutput C block height tx txPos out vout updatedSH s =
     (let sh = Sum256 (o_ScriptPubkey out) in
      case scriptPubkeys s sh of
        None \<Rightarrow> (Inr updatedSH, s)
      | Some info \<Rightarrow>
          ebind (recordTx block tx txPos sh s) (\<lambda>_ s.
          ebind (insertUnspentOutput (makeTxidVout (Txid tx) vout) (o_Amount out) sh s) (\<lambda>_ s.
          ebind (walletUpdateIndexes info s) (\<lambda>_ s.
          ebind (refillWallet C (spi_walletIdx info) s) (\<lambda>_ s.
          (Inr (List.insert sh updatedSH), s))))))"

definition processInput ::
  "Block \<Rightarrow> int \<Rightarrow> Transaction \<Rightarrow> int \<Rightarrow> Input \<Rightarrow> hash32 list \<Rightarrow> 'z W_scheme \<Rightarrow> (hash32 list, 'z W_scheme) outcome" where
  "processInput block height tx txPos inp updatedSH s =
     (let txVout = makeTxidVout (i_Txid inp) (i_Vout inp) in
      case selectUnspentOutput s txVout of
        Inl e \<Rightarrow> if e = ErrNotFound then (Inr updatedSH, s) else (Inl e, s)
      | Inr utxoD \<Rightarrow>
          ebind (recordTx block tx txPos (u_ScriptPubkeyHash utxoD) s) (\<lambda>_ s.
          ebind (deleteUnspentOutput txVout height s) (\<lambda>_ s.
          (Inr (List.insert (u_ScriptPubkeyHash utxoD) updatedSH), s))))"

fun processOutputs ::
  "crypto \<Rightarrow> Block \<Rightarrow> int \<Rightarrow> Transaction \<Rightarrow> int \<Rightarrow> nat \<Rightarrow> Output list \<Rightarrow> hash32 list \<Rightarrow> 'z W_scheme \<Rightarrow>
   (hash32 list, 'z W_scheme) outcome" where
  "processOutputs C block height tx txPos j [] upd s = (Inr upd, s)"
| "processOutputs C block height tx txPos j (out # outs) upd s =
     ebind (processOutput C block height tx txPos out (of_nat j) upd s) (\<lambda>upd s.
     processOutputs C block height tx txPos (Suc j) outs upd s)"

fun processInputs ::
  "Block \<Rightarrow> int \<Rightarrow> Transaction \<Rightarrow> int \<Rightarrow> Input list \<Rightarrow> hash32 list \<Rightarrow> 'z W_scheme \<Rightarrow> (hash32 list, 'z W_scheme) outcome" where
  "processInputs block height tx txPos [] upd s = (Inr upd, s)"
| "processInputs block height tx txPos (inp # inps) upd s =
     ebind (processInput block height tx txPos inp upd s) (\<lambda>upd s.
     processInputs block height tx txPos inps upd s)"

fun processTxs ::
  "crypto \<Rightarrow> Block \<Rightarrow> int \<Rightarrow> nat \<Rightarrow> Transaction list \<Rightarrow> hash32 list \<Rightarrow> 'z W_scheme \<Rightarrow> (hash32 list, 'z W_scheme) outcome" where
  "processTxs C block height i [] upd s = (Inr upd, s)"
| "processTxs C block height i (tx # txs) upd s =
     ebind (processOutputs C block height tx (int i) 0 (t_Outputs tx) upd s) (\<lambda>upd s.
     ebind (processInputs block height tx (int i) (t_Inputs tx) upd s) (\<lambda>upd s.
     processTxs C block height (Suc i) txs upd s))"

text \<open>The loop over the wallets, by their indexes.\<close>

fun updateHeights :: "int \<Rightarrow> nat list \<Rightarrow> 'z W_scheme \<Rightarrow> (unit, 'z W_scheme) outcome" where
  "updateHeights height [] s = (Inr (), s)"
| "updateHeights height (i # is) s =
     (if wl_height (wallets s ! i) \<ge> height then updateHeights height is s
      else ebind (updateWalletHeight (wl_hash (wallets s ! i)) height s) (\<lambda>_ s.
           updateHeights height is (updWallet (int i) (\<lambda>w. w\<lparr>wl_height := height\<rparr>) s)))"

fun notifyUpdated :: "hash32 list \<Rightarrow> 'z W_scheme \<Rightarrow> (unit, 'z W_scheme) outcome" where
  "notifyUpdated [] s = (Inr (), s)"
| "notifyUpdated (sh # shs) s =
     ebind (ereads (GetScriptHashStatus s sh) s) (\<lambda>status s.
     notifyUpdated shs
       (notifyScriptHashSubscribers sh (case status of None \<Rightarrow> replicate 32 0 | Some h \<Rightarrow> h) s))"

definition processBlock :: "crypto \<Rightarrow> Block \<Rightarrow> int \<Rightarrow> 'z W_scheme \<Rightarrow> (unit, 'z W_scheme) outcome" where
  "processBlock C block height s =
     ebind (processTxs C block height 0 (b_Transactions block) [] s) (\<lambda>updatedSH s.
     ebind (updateHeights height [0..<length (wallets s)] s) (\<lambda>_ s.
     notifyUpdated updatedSH s))"

text \<open>\<open>sql.Execute\<close>: an error or a panic of the function rolls the database back.\<close>

definition sqlExecute :: "('z W_scheme \<Rightarrow> (unit, 'z W_scheme) outcome) \<Rightarrow> 'z W_scheme \<Rightarrow> (unit, 'z W_scheme) outcome" where
  "sqlExecute f s = (case f s of (Inl e, s') \<Rightarrow> (Inl e, s'\<lparr>db := db s\<rparr>) | (Inr u, s') \<Rightarrow> (Inr u, s'))"

section \<open>Facts about queries\<close>

lemma sql_limit_length: "0 \<le> l \<Longrightarrow> length (sql_limit l xs) \<le> nat l"
  by (simp add: sql_limit_def)

lemma headers_limit:
  assumes "selectRawBlockHeadersByHeight s height limit = Inr hs" "0 \<le> limit"
  shows "length hs \<le> nat limit"
  using assms scanRows_length sql_limit_length unfolding selectRawBlockHeadersByHeight_def by metis

lemma GetBlockHeaders_length:
  assumes "GetBlockHeaders s height limit = Inr hs" "0 \<le> limit"
  shows "length hs \<le> nat limit"
  using assms headers_limit
  by (fastforce simp: GetBlockHeaders_def Let_def rbind_ok_iff split: if_splits)

text \<open>Stored proofs are cut where they were joined.\<close>

lemma splitBranch_concat:
  "list_all (\<lambda>h. length h = 32) hs \<Longrightarrow> splitBranch (concat hs) = Inr hs"
proof (induction hs)
  case Nil
  then show ?case by (simp add: splitBranch.simps)
next
  case (Cons h hs)
  then have "h @ concat hs \<noteq> []" by auto
  with Cons show ?case by (subst splitBranch.simps) auto
qed

text \<open>The text a status is computed from can be read back: 64 hexadecimal digits, a colon, a decimal
  number and a colon.\<close>

lemma length_hexEncode [simp]: "length (hexEncode bs) = 2 * length bs"
  by (induction bs) (simp_all add: hexEncode_def)

lemma hexDigit_inj:
  assumes "a < 16" "b < 16" "hexDigit a = hexDigit b"
  shows "a = b"
proof -
  have u: "unat a < 16" "unat b < 16" using assms(1,2) by (simp_all add: word_less_nat_alt)
  have "unat (hexDigit x) = (if unat x < 10 then 48 + unat x else 87 + unat x)" if "unat x < 16" for x
    using that by (simp add: hexDigit_def word_less_nat_alt unat_word_ariths unat_sub_if')
  from this [OF u(1)] this [OF u(2)] have "unat a = unat b" using assms(3) u by (auto split: if_splits)
  then show ?thesis by (simp add: word_unat_eq_iff)
qed

lemma nibbles_small: "drop_bit 4 (b :: byte) < 16" "b AND 0x0f < (16 :: byte)"
proof -
  have "unat b < 256" using unsigned_less [of b, where 'a = nat] by simp
  then have "unat b div 2 ^ 4 < 16" by simp
  then have "drop_bit 4 (unat b) < 16" by (simp only: drop_bit_eq_div)
  then have "unat (drop_bit 4 b) < 16" by (simp only: unat_drop_bit_eq)
  then show "drop_bit 4 b < 16" by (simp add: word_less_nat_alt)
  have "b AND 0x0f = take_bit 4 b" by (simp add: take_bit_eq_mask mask_eq_exp_minus_1)
  moreover have "unat (take_bit 4 b) = take_bit 4 (unat b)" by (rule unsigned_take_bit_eq)
  moreover have "take_bit 4 (unat b) < 16" using take_bit_nat_less_exp [of 4 "unat b"] by simp
  ultimately show "b AND 0x0f < 16" by (simp add: word_less_nat_alt)
qed

lemma byte_of_nibbles:
  fixes a b :: byte
  assumes "drop_bit 4 a = drop_bit 4 b" "a AND 0x0f = b AND 0x0f"
  shows "a = b"
proof -
  have "x AND 0x0f = take_bit 4 x" for x :: byte by (simp add: take_bit_eq_mask mask_eq_exp_minus_1)
  then have "take_bit 4 a = take_bit 4 b" using assms(2) by (simp only:)
  then show ?thesis using assms(1) bits_ident [of 4 a] bits_ident [of 4 b] by argo
qed

lemma hexEncode_inj: "hexEncode xs = hexEncode ys \<Longrightarrow> xs = ys"
proof (induction xs arbitrary: ys)
  case Nil
  then show ?case by (cases ys) (simp_all add: hexEncode_def)
next
  case (Cons x xs)
  then obtain y zs where ys: "ys = y # zs" by (cases ys) (simp_all add: hexEncode_def)
  with Cons.prems have "hexDigit (drop_bit 4 x) = hexDigit (drop_bit 4 y)" "hexDigit (x AND 0x0f) = hexDigit (y AND 0x0f)"
      "hexEncode xs = hexEncode zs" by (simp_all add: hexEncode_def)
  then have "drop_bit 4 x = drop_bit 4 y" "x AND 0x0f = y AND 0x0f" "xs = zs"
    using Cons.IH by (auto intro: hexDigit_inj nibbles_small)
  with byte_of_nibbles [of x y] ys show ?case by simp
qed

definition decValue :: "bytes \<Rightarrow> nat" where
  "decValue = foldl (\<lambda>a d. 10 * a + unat (d - 0x30)) 0"

lemma decDigits_range: "d \<in> set (decDigits n) \<Longrightarrow> 0x30 \<le> d \<and> d \<le> 0x39"
proof (induction n rule: decDigits.induct)
  case (1 n)
  have digit: "0x30 \<le> (0x30 + of_nat k :: byte) \<and> (0x30 + of_nat k :: byte) \<le> 0x39" if "k < 10" for k
    using that by (simp add: word_le_nat_alt unat_word_ariths unat_of_nat_small)
  show ?case
  proof (cases "n < 10")
    case True
    then show ?thesis using 1(2) digit [of n] by (subst (asm) decDigits.simps) auto
  next
    case False
    then have "d \<in> set (decDigits (n div 10)) \<or> d = 0x30 + of_nat (n mod 10)"
      using 1(2) by (subst (asm) decDigits.simps) auto
    then show ?thesis using 1(1) [OF False] digit [of "n mod 10"] by auto
  qed
qed

lemma decValue_decDigits: "decValue (decDigits n) = n"
proof (induction n rule: decDigits.induct)
  case (1 n)
  have digit: "unat ((0x30 + of_nat k :: byte) - 0x30) = k" if "k < 10" for k
    using that by (simp add: unat_of_nat_small)
  show ?case
  proof (cases "n < 10")
    case True
    then show ?thesis using digit [of n] by (subst decDigits.simps) (simp add: decValue_def)
  next
    case False
    then show ?thesis using 1 digit [of "n mod 10"] by (subst decDigits.simps) (simp add: decValue_def)
  qed
qed

lemma decEncode_no_colon: "0x3a \<notin> set (decEncode i)"
  using decDigits_range [of "0x3a"] by (auto simp: decEncode_def)

lemma decDigits_no_minus: "decDigits n \<noteq> 0x2d # ds"
  using decDigits_range [of "0x2d" n] by auto

lemma decDigits_inj: "decDigits m = decDigits n \<Longrightarrow> m = n"
  by (metis decValue_decDigits)

lemma decEncode_inj:
  assumes "decEncode i = decEncode j"
  shows "i = j"
proof (cases "i < 0"; cases "j < 0")
  assume "i < 0" "j < 0"
  with assms have "nat (- i) = nat (- j)" by (intro decDigits_inj) (simp add: decEncode_def)
  with \<open>i < 0\<close> \<open>j < 0\<close> show ?thesis by simp
next
  assume "\<not> i < 0" "\<not> j < 0"
  with assms have "nat i = nat j" by (intro decDigits_inj) (simp add: decEncode_def)
  with \<open>\<not> i < 0\<close> \<open>\<not> j < 0\<close> show ?thesis by simp
qed (use assms decDigits_no_minus in \<open>auto simp: decEncode_def\<close>, metis decDigits_no_minus)

lemma split_colon:
  "xs @ c # r = ys @ c # r' \<Longrightarrow> c \<notin> set xs \<Longrightarrow> c \<notin> set ys \<Longrightarrow> xs = ys \<and> r = r'"
  by (induction xs arbitrary: ys) (auto simp: Cons_eq_append_conv append_eq_Cons_conv)

lemma statusItem_prefix_free:
  assumes "statusItem t @ r = statusItem u @ r'" "length (hd_Txid t) = 32" "length (hd_Txid u) = 32"
  shows "t = u \<and> r = r'"
proof -
  have "hexEncode (rev (hd_Txid t)) = hexEncode (rev (hd_Txid u))"
      "decEncode (hd_Height t) @ 0x3a # r = decEncode (hd_Height u) @ 0x3a # r'"
    using assms by (auto simp: statusItem_def append_eq_append_conv)
  then show ?thesis
    using hexEncode_inj decEncode_inj split_colon decEncode_no_colon
    by (metis (full_types) TxData.surjective rev_rev_ident old.unit.exhaust)
qed

lemma statusItems_inj:
  "concat (map statusItem ts) = concat (map statusItem us) \<Longrightarrow> list_all (\<lambda>t. length (hd_Txid t) = 32) ts \<Longrightarrow>
   list_all (\<lambda>t. length (hd_Txid t) = 32) us \<Longrightarrow> ts = us"
proof (induction ts arbitrary: us)
  case Nil
  then show ?case by (cases us) (simp_all add: statusItem_def)
next
  case (Cons t ts)
  then obtain u vs where us: "us = u # vs" by (cases us) (simp_all add: statusItem_def)
  with Cons.prems have "t = u \<and> concat (map statusItem ts) = concat (map statusItem vs)"
    by (intro statusItem_prefix_free) simp_all
  with Cons us show ?case by simp
qed

section \<open>The contract of a subscription registry\<close>

text \<open>
  Headers and script hashes have registries of one kind: per topic, a callback for each connection.
  Subscribing again replaces the callback, dropping a connection removes it from every topic and leaves the
  others alone.
\<close>

locale registry =
  fixes subs :: "'s \<Rightarrow> 'k \<Rightarrow> (u32 \<times> nat) list" and add :: "u32 \<Rightarrow> 'k \<Rightarrow> nat \<Rightarrow> 's \<Rightarrow> 's"
    and drop :: "u32 \<Rightarrow> 's \<Rightarrow> 's" and inv :: "'s \<Rightarrow> bool"
  assumes inv_add: "inv s \<Longrightarrow> inv (add c k cb s)" and inv_drop: "inv s \<Longrightarrow> inv (drop c s)"
    and distinct_subs: "inv s \<Longrightarrow> distinct (map fst (subs s k))"
    and subs_add: "subs (add c k cb s) k' = (if k' = k then AList.update c cb (subs s k) else subs s k')"
    and subs_drop: "inv s \<Longrightarrow> subs (drop c s) k = AList.delete c (subs s k)"
begin

lemma dropped_gets_nothing: "inv s \<Longrightarrow> c \<notin> fst ` set (subs (drop c s) k)"
  by (auto simp: subs_drop AList.delete_eq)

lemma others_keep: "inv s \<Longrightarrow> c' \<noteq> c \<Longrightarrow> map_of (subs (drop c s) k) c' = map_of (subs s k) c'"
  by (simp add: subs_drop delete_conv')

lemma add_lookup: "map_of (subs (add c k cb s) k) c = Some cb"
  by (simp add: subs_add update_conv')

lemma add_once:
  assumes "inv s"
  shows "length (filter (\<lambda>p. fst p = c) (subs (add c k cb s) k)) = 1"
proof -
  have d: "distinct (map fst (subs (add c k cb s) k))" by (rule distinct_subs [OF inv_add [OF assms]])
  have "(c, cb) \<in> set (subs (add c k cb s) k)" by (rule map_of_SomeD [OF add_lookup])
  from filter_unique [OF d this] show ?thesis by simp
qed

end

definition subs_inv :: "'z W_scheme \<Rightarrow> bool" where
  "subs_inv s \<longleftrightarrow> distinct (map fst (hSubs s)) \<and> distinct (map fst (shSubs s))
     \<and> (\<forall>(k, v)\<in>set (shSubs s). distinct (map fst v) \<and> v \<noteq> [])"

lemma subs_inv_subscribers: "subs_inv s \<Longrightarrow> distinct (map fst (shSubscribers sh s))"
  by (auto simp: subs_inv_def shSubscribers_def dest: map_of_SomeD split: option.split)

lemma update_Nil_neq: "AList.update k v xs \<noteq> []"
  by (cases xs) auto

lemma set_update_cases: "p \<in> set (AList.update k v xs) \<Longrightarrow> p = (k, v) \<or> p \<in> set xs"
  by (induction xs) (auto split: if_splits)

lemma subs_inv_ScriptHashSubscribe:
  assumes "subs_inv s"
  shows "subs_inv (ScriptHashSubscribe c sh cb s)"
  using assms subs_inv_subscribers [OF assms, of sh]
  by (auto simp: subs_inv_def ScriptHashSubscribe_def distinct_update update_Nil_neq dest!: set_update_cases)

lemma subs_inv_UnsubscribeAll:
  assumes "subs_inv s"
  shows "subs_inv (UnsubscribeAll c s)"
proof -
  have keys: "map fst (map (\<lambda>(k, v). (k, AList.delete c v)) (shSubs s)) = map fst (shSubs s)"
    by (simp add: comp_def case_prod_unfold)
  have "distinct (map fst (filter (\<lambda>(_, v). v \<noteq> []) (map (\<lambda>(k, v). (k, AList.delete c v)) (shSubs s))))"
    using assms by (intro distinct_map_filter_key, unfold keys) (simp add: subs_inv_def)
  then show ?thesis
    using assms by (auto simp: subs_inv_def UnsubscribeAll_def distinct_delete)
qed

lemma map_of_filter_map:
  assumes "distinct (map fst xs)"
  shows "map_of (filter (\<lambda>(_, v). v \<noteq> []) (map (\<lambda>(k, v). (k, f v)) xs)) sh =
    (case map_of xs sh of None \<Rightarrow> None | Some v \<Rightarrow> if f v = [] then None else Some (f v))"
  using assms
proof (induction xs)
  case (Cons p xs)
  then show ?case
    by (cases p) (auto simp: map_of_eq_None_notin split: option.split dest!: map_of_SomeD; force)
qed simp

lemma shSubscribers_UnsubscribeAll:
  assumes "subs_inv s"
  shows "shSubscribers sh (UnsubscribeAll c s) = AList.delete c (shSubscribers sh s)"
  using assms map_of_filter_map [of "shSubs s" "AList.delete c" sh]
  by (auto simp: shSubscribers_def UnsubscribeAll_def subs_inv_def split: option.split)

interpretation shsub: registry "\<lambda>s sh. shSubscribers sh s"
  "ScriptHashSubscribe :: _ \<Rightarrow> _ \<Rightarrow> _ \<Rightarrow> 'z W_scheme \<Rightarrow> _" UnsubscribeAll subs_inv
proof (unfold_locales, goal_cases)
  case (4 c k cb s k')
  then show ?case by (simp add: shSubscribers_def ScriptHashSubscribe_def update_conv')
qed (auto simp: subs_inv_ScriptHashSubscribe subs_inv_UnsubscribeAll subs_inv_subscribers shSubscribers_UnsubscribeAll)

interpretation hsub: registry "\<lambda>s (k :: unit). hSubs s"
  "\<lambda>c _ cb. HeadersSubscribe c cb :: 'z W_scheme \<Rightarrow> _" UnsubscribeAll subs_inv
proof (unfold_locales, goal_cases)
  case (1 s c k cb)
  then show ?case by (simp add: subs_inv_def HeadersSubscribe_def distinct_update)
next
  case (2 s c)
  then show ?case by (rule subs_inv_UnsubscribeAll)
qed (simp_all add: subs_inv_def HeadersSubscribe_def UnsubscribeAll_def)

definition sample_row :: "byte \<Rightarrow> int \<Rightarrow> blockHeaderData" where
  "sample_row x h = \<lparr>bh_Hash = replicate 32 x, bh_Height = h, bh_Serialized = replicate 80 x\<rparr>"

definition sample_W :: W where
  "sample_W = \<lparr>db = empty_database\<lparr>blockheader_tbl := [sample_row 1 1, sample_row 2 2, sample_row 3 3]\<rparr>,
     utxoIndex = [], net = Regtest, bestHeader = 3, bestHeaderHash = replicate 32 3, wallets = [], scriptPubkeys = Map.empty,
     shSubs = [([5], [(1, 10), (2, 20)])], hSubs = [(1, 11), (2, 21)], sent = [], calls = 0\<rparr>"

lemma width_sample_W: "width_inv (db sample_W)"
  by (simp add: sample_W_def width_inv_def sample_row_def empty_database_def)

lemma sample_W_headers: "headers_asc sample_W = [sample_row 1 1, sample_row 2 2, sample_row 3 3]"
  by (simp add: sample_W_def headers_asc_def sample_row_def)

section \<open>Properties\<close>

text \<open>C38. The Electrum status of a script hash binds its history: two histories have one status exactly
  when they are equal, or when neither is empty and the two texts hashed, named here, are a
  collision of SHA-256 (\<open>shStatus\<close>). A client that compares statuses misses no change of a
  transaction, of a height or of the order.\<close>

theorem shStatus_binds:
  assumes "\<forall>t\<in>set ts. length (hd_Txid t) = 32" "\<forall>t\<in>set us. length (hd_Txid t) = 32"
  shows "shStatus ts [] = shStatus us [] \<longleftrightarrow>
    ts = us \<or> ts \<noteq> [] \<and> us \<noteq> [] \<and> collides Sum256 (concat (map statusItem ts)) (concat (map statusItem us))"
  using statusItems_inj [of ts us] assms by (auto simp: shStatus_def list_all_iff collides_def)

text \<open>One transaction that moves from height 7 to height 8 in a reorganisation changes the status, short
  of a collision of the two texts.\<close>

theorem shStatus_binds_witness:
  "shStatus [\<lparr>hd_Height = 7, hd_Txid = replicate 32 1\<rparr>] [] = shStatus [\<lparr>hd_Height = 8, hd_Txid = replicate 32 1\<rparr>] [] \<longleftrightarrow>
   collides Sum256 (statusItem \<lparr>hd_Height = 7, hd_Txid = replicate 32 1\<rparr>) (statusItem \<lparr>hd_Height = 8, hd_Txid = replicate 32 1\<rparr>)"
  using shStatus_binds [of "[\<lparr>hd_Height = 7, hd_Txid = replicate 32 1\<rparr>]" "[\<lparr>hd_Height = 8, hd_Txid = replicate 32 1\<rparr>]"]
  by simp

text \<open>C39. \<open>GetBlockHeaders\<close> returns no more headers than the limit allows, for every limit that is not
  negative, the genesis header included.\<close>

theorem GetBlockHeaders_bounded:
  assumes "GetBlockHeaders s height limit = Inr hs" "0 \<le> limit"
  shows "int (length hs) \<le> limit"
  using GetBlockHeaders_length [OF assms] assms(2) by simp

theorem GetBlockHeaders_bounded_witness:
  "\<exists>hs. GetBlockHeaders sample_W 1 2 = Inr hs \<and> int (length hs) \<le> 2"
proof -
  have ok: "GetBlockHeaders sample_W 1 2 = Inr [replicate 80 1, replicate 80 2]"
    by (simp add: GetBlockHeaders_def selectRawBlockHeadersByHeight_def sample_W_headers sql_limit_def sample_row_def
        bufWrapper_Scan_def)
  from ok GetBlockHeaders_bounded [OF ok] show ?thesis by simp
qed

text \<open>A negative limit is no limit: \<open>GetBlockHeaders\<close> then returns every header from the height on, so the
  cap of 2016 headers per request that the handler computes with \<open>min\<close> does not hold for a negative count.\<close>

theorem GetBlockHeaders_negative_unbounded:
  assumes "limit < 0" "height \<noteq> 0" "width_inv (db s)"
  shows "GetBlockHeaders s height limit =
    Inr (map bh_Serialized (filter (\<lambda>r. bh_Height r \<ge> height) (headers_asc s)))"
proof -
  have "list_all (\<lambda>r. bufWrapper_Scan 80 (bh_Serialized r) = Inr (bh_Serialized r)) (filter (\<lambda>r. bh_Height r \<ge> height) (headers_asc s))"
    using assms(3) by (auto simp: list_all_iff width_inv_def headers_asc_def)
  from scanRows_ok [OF this] show ?thesis
    using assms(1,2) by (simp add: GetBlockHeaders_def selectRawBlockHeadersByHeight_def sql_limit_def)
qed

theorem GetBlockHeaders_negative_unbounded_witness:
  "GetBlockHeaders sample_W 1 (- 1) = Inr [replicate 80 1, replicate 80 2, replicate 80 3]"
  by (subst GetBlockHeaders_negative_unbounded) (simp_all add: width_sample_W sample_W_headers sample_row_def)

text \<open>After a connection is dropped (\<open>UnsubscribeAll\<close>) no callback of it is left in any registry, and the
  callbacks of every other connection are the same as before.\<close>

theorem UnsubscribeAll_exact:
  assumes "subs_inv s" "c' \<noteq> c"
  shows "c \<notin> fst ` set (hSubs (UnsubscribeAll c s)) \<and> c \<notin> fst ` set (shSubscribers sh (UnsubscribeAll c s))
    \<and> map_of (hSubs (UnsubscribeAll c s)) c' = map_of (hSubs s) c'
    \<and> map_of (shSubscribers sh (UnsubscribeAll c s)) c' = map_of (shSubscribers sh s) c'
    \<and> subs_inv (UnsubscribeAll c s)"
  using shsub.dropped_gets_nothing [OF assms(1)] hsub.dropped_gets_nothing [OF assms(1)]
    shsub.others_keep [OF assms] hsub.others_keep [OF assms] shsub.inv_drop [OF assms(1)] by blast

theorem UnsubscribeAll_exact_witness:
  "1 \<notin> fst ` set (hSubs (UnsubscribeAll 1 sample_W)) \<and> map_of (hSubs (UnsubscribeAll 1 sample_W)) 2 = Some 21"
proof -
  have "subs_inv sample_W" by (simp add: subs_inv_def sample_W_def)
  from UnsubscribeAll_exact [OF this, of 2 1 "[5]"] show ?thesis by (simp add: sample_W_def)
qed

end
