(* ===== verification/Json.thy ===== *)
theory Json
  imports WalletManager
begin

text \<open>
  What \<open>jsonrpc/\<close> and \<open>electrum/\<close> use of the standard library's \<open>encoding/json\<close>, \<open>encoding/hex\<close> and
  \<open>unicode/utf8\<close>, on bytes: the scanner (grammar of RFC 8259, at most 10000 levels of nesting), string literals with their
  escapes, decoding into \<open>int\<close>, \<open>string\<close>, \<open>RawMessage\<close> and slices of them, and the compaction of raw values by the encoder.

  A parsed value keeps the text of its literals, and an array or object its own text, so that a \<open>RawMessage\<close> is the
  text \<open>raw\<close> of a value. Shown: the scanner is a left inverse of the printer \<open>render\<close> (\<open>parse_render\<close>), what it accepts
  is a piece of its input, and its fuel never runs out (\<open>parse_fuel\<close>).
\<close>

section \<open>Bytes and text\<close>

definition ascii :: "string \<Rightarrow> bytes" where
  "ascii s = map of_char s"

definition isSpace :: "byte \<Rightarrow> bool" where
  "isSpace c \<longleftrightarrow> c = 0x20 \<or> c = 0x09 \<or> c = 0x0a \<or> c = 0x0d"

definition isDigit :: "byte \<Rightarrow> bool" where
  "isDigit c \<longleftrightarrow> 0x30 \<le> c \<and> c \<le> 0x39"

definition skipSpace :: "bytes \<Rightarrow> bytes" where
  "skipSpace s = dropWhile isSpace s"

definition hexVal :: "byte \<Rightarrow> byte option" where
  "hexVal c = (if 0x30 \<le> c \<and> c \<le> 0x39 then Some (c - 0x30)
     else if 0x61 \<le> c \<and> c \<le> 0x66 then Some (c - 0x61 + 10)
     else if 0x41 \<le> c \<and> c \<le> 0x46 then Some (c - 0x41 + 10) else None)"

definition isHex :: "byte \<Rightarrow> bool" where
  "isHex c \<longleftrightarrow> hexVal c \<noteq> None"

text \<open>\<open>hex.DecodeString\<close>.\<close>

fun hexDecode :: "bytes \<Rightarrow> bytes result" where
  "hexDecode [] = Inr []"
| "hexDecode [c] = Inl (Err ''encoding/hex'')"
| "hexDecode (a # b # r) =
     (case (hexVal a, hexVal b) of
        (Some x, Some y) \<Rightarrow> rbind (hexDecode r) (\<lambda>bs. Inr ((push_bit 4 x OR y) # bs))
      | _ \<Rightarrow> Inl (Err ''encoding/hex''))"

section \<open>Values\<close>

datatype json = JNull | JBool bool | JNum bytes | JStr bytes | JArr bytes "json list" | JObj bytes "(bytes \<times> json) list"

definition quoted :: "bytes \<Rightarrow> bytes" where
  "quoted s = 0x22 # s @ [0x22]"

definition lit_null :: bytes where "lit_null = [0x6e, 0x75, 0x6c, 0x6c]"
definition lit_true :: bytes where "lit_true = [0x74, 0x72, 0x75, 0x65]"
definition lit_false :: bytes where "lit_false = [0x66, 0x61, 0x6c, 0x73, 0x65]"

fun raw :: "json \<Rightarrow> bytes" where
  "raw JNull = lit_null"
| "raw (JBool b) = (if b then lit_true else lit_false)"
| "raw (JNum t) = t"
| "raw (JStr s) = quoted s"
| "raw (JArr t vs) = t"
| "raw (JObj t ms) = t"

text \<open>A list of texts with commas between them.\<close>

fun commas :: "bytes list \<Rightarrow> bytes" where
  "commas [] = []"
| "commas [x] = x"
| "commas (x # y # xs) = x @ 0x2c # commas (y # xs)"

fun render :: "json \<Rightarrow> bytes" where
  "render JNull = lit_null"
| "render (JBool b) = (if b then lit_true else lit_false)"
| "render (JNum t) = t"
| "render (JStr s) = quoted s"
| "render (JArr t vs) = 0x5b # commas (map render vs) @ [0x5d]"
| "render (JObj t ms) = 0x7b # commas (map (\<lambda>(k, v). quoted k @ 0x3a # render v) ms) @ [0x7d]"

section \<open>The scanner\<close>

text \<open>Inside a string literal: \<open>stateInString\<close>, \<open>stateInStringEsc\<close> and \<open>stateInStringEscU\<close> with the digits still to come.\<close>

datatype strState = InString | InEsc | InEscU nat

definition consTo :: "'a \<Rightarrow> ('a list \<times> 'b) option \<Rightarrow> ('a list \<times> 'b) option" where
  "consTo c r = map_option (\<lambda>(x, y). (c # x, y)) r"

definition isEscape :: "byte \<Rightarrow> bool" where
  "isEscape c \<longleftrightarrow> c = 0x62 \<or> c = 0x66 \<or> c = 0x6e \<or> c = 0x72 \<or> c = 0x74 \<or> c = 0x5c \<or> c = 0x2f \<or> c = 0x22"

fun scanString :: "strState \<Rightarrow> bytes \<Rightarrow> (bytes \<times> bytes) option" where
  "scanString st [] = None"
| "scanString InString (c # cs) =
     (if c = 0x22 then Some ([], cs)
      else if c = 0x5c then consTo c (scanString InEsc cs)
      else if c < 0x20 then None
      else consTo c (scanString InString cs))"
| "scanString InEsc (c # cs) =
     (if isEscape c then consTo c (scanString InString cs)
      else if c = 0x75 then consTo c (scanString (InEscU 3) cs)
      else None)"
| "scanString (InEscU n) (c # cs) =
     (if isHex c then consTo c (scanString (if n = 0 then InString else InEscU (n - 1)) cs) else None)"

text \<open>A number: sign, integer part without leading zeros, fraction, exponent.\<close>

definition scanInt :: "bytes \<Rightarrow> (bytes \<times> bytes) option" where
  "scanInt s = (case s of [] \<Rightarrow> None
     | c # cs \<Rightarrow> if c = 0x30 then Some ([c], cs)
                else if isDigit c then Some (takeWhile isDigit s, dropWhile isDigit s) else None)"

definition scanFrac :: "bytes \<Rightarrow> (bytes \<times> bytes) option" where
  "scanFrac s = (case s of [] \<Rightarrow> Some ([], [])
     | c # cs \<Rightarrow> if c = 0x2e then (if takeWhile isDigit cs = [] then None else Some (c # takeWhile isDigit cs, dropWhile isDigit cs))
                else Some ([], s))"

definition scanExp :: "bytes \<Rightarrow> (bytes \<times> bytes) option" where
  "scanExp s = (case s of [] \<Rightarrow> Some ([], [])
     | c # cs \<Rightarrow> if c = 0x65 \<or> c = 0x45 then
                  (let sg = (if cs \<noteq> [] \<and> (hd cs = 0x2b \<or> hd cs = 0x2d) then [hd cs] else []); r = drop (length sg) cs
                   in if takeWhile isDigit r = [] then None else Some (c # sg @ takeWhile isDigit r, dropWhile isDigit r))
                else Some ([], s))"

definition scanNumber :: "bytes \<Rightarrow> (bytes \<times> bytes) option" where
  "scanNumber s =
     (let sg = (if s \<noteq> [] \<and> hd s = 0x2d then [0x2d] else [])
      in case scanInt (drop (length sg) s) of None \<Rightarrow> None
       | Some (i, r) \<Rightarrow> (case scanFrac r of None \<Rightarrow> None
       | Some (f, r) \<Rightarrow> (case scanExp r of None \<Rightarrow> None
       | Some (e, r) \<Rightarrow> Some (sg @ i @ f @ e, r))))"

definition consumed :: "bytes \<Rightarrow> bytes \<Rightarrow> bytes" where
  "consumed s r = take (length s - length r) s"

definition scanLit :: "bytes \<Rightarrow> json \<Rightarrow> bytes \<Rightarrow> (json \<times> bytes) option" where
  "scanLit l v s = (if take (length l) s = l then Some (v, drop (length l) s) else None)"

text \<open>Values, by recursive descent; \<open>d\<close> is the number of levels that may still be opened.\<close>

fun parseValue :: "nat \<Rightarrow> int \<Rightarrow> bytes \<Rightarrow> (json \<times> bytes) option"
and parseElems :: "nat \<Rightarrow> int \<Rightarrow> bytes \<Rightarrow> (json list \<times> bytes) option"
and parseMembers :: "nat \<Rightarrow> int \<Rightarrow> bytes \<Rightarrow> ((bytes \<times> json) list \<times> bytes) option" where
  "parseValue 0 d s = None"
| "parseValue (Suc n) d s =
     (case s of [] \<Rightarrow> None | c # cs \<Rightarrow>
       if c = 0x22 then map_option (\<lambda>(x, r). (JStr x, r)) (scanString InString cs)
       else if c = 0x5b then
         (if d \<le> 0 then None
          else case skipSpace cs of [] \<Rightarrow> None | c' # cs' \<Rightarrow>
            if c' = 0x5d then Some (JArr (consumed s cs') [], cs')
            else map_option (\<lambda>(vs, r). (JArr (consumed s r) vs, r)) (parseElems n (d - 1) (c' # cs')))
       else if c = 0x7b then
         (if d \<le> 0 then None
          else case skipSpace cs of [] \<Rightarrow> None | c' # cs' \<Rightarrow>
            if c' = 0x7d then Some (JObj (consumed s cs') [], cs')
            else map_option (\<lambda>(ms, r). (JObj (consumed s r) ms, r)) (parseMembers n (d - 1) (c' # cs')))
       else if c = 0x6e then scanLit lit_null JNull s
       else if c = 0x74 then scanLit lit_true (JBool True) s
       else if c = 0x66 then scanLit lit_false (JBool False) s
       else map_option (\<lambda>(t, r). (JNum t, r)) (scanNumber s))"
| "parseElems 0 d s = None"
| "parseElems (Suc n) d s =
     (case parseValue n d s of None \<Rightarrow> None | Some (v, r) \<Rightarrow>
       (case skipSpace r of [] \<Rightarrow> None | c # cs \<Rightarrow>
          if c = 0x2c then consTo v (parseElems n d (skipSpace cs))
          else if c = 0x5d then Some ([v], cs) else None))"
| "parseMembers 0 d s = None"
| "parseMembers (Suc n) d s =
     (case s of [] \<Rightarrow> None | q # cs \<Rightarrow> if q \<noteq> 0x22 then None else
      (case scanString InString cs of None \<Rightarrow> None | Some (k, r) \<Rightarrow>
      (case skipSpace r of [] \<Rightarrow> None | c # cs \<Rightarrow> if c \<noteq> 0x3a then None else
      (case parseValue n d (skipSpace cs) of None \<Rightarrow> None | Some (v, r) \<Rightarrow>
      (case skipSpace r of [] \<Rightarrow> None | c # cs \<Rightarrow>
         if c = 0x2c then consTo (k, v) (parseMembers n d (skipSpace cs))
         else if c = 0x7d then Some ([(k, v)], cs) else None)))))"

definition maxNestingDepth :: int where "maxNestingDepth = 10000"

text \<open>One value after white space, as \<open>Decoder.readValue\<close> finds it; and \<open>checkValid\<close> of a whole text.\<close>

definition parsePrefix :: "bytes \<Rightarrow> (json \<times> bytes) option" where
  "parsePrefix s = parseValue (2 * length s + 1) maxNestingDepth (skipSpace s)"

definition parseJson :: "bytes \<Rightarrow> json option" where
  "parseJson s = (case parsePrefix s of None \<Rightarrow> None | Some (v, r) \<Rightarrow> if skipSpace r = [] then Some v else None)"

section \<open>String literals\<close>

text \<open>\<open>utf8.DecodeRune\<close> of a text whose first byte is not ASCII: the rune and its size, \<open>(0xFFFD, 1)\<close> for an invalid one.\<close>

definition runeError :: int where "runeError = 0xFFFD"

definition cont :: "bytes \<Rightarrow> nat \<Rightarrow> byte \<Rightarrow> byte \<Rightarrow> bool" where
  "cont s i lo hi \<longleftrightarrow> i < length s \<and> lo \<le> s ! i \<and> s ! i \<le> hi"

definition low6 :: "byte \<Rightarrow> int" where "low6 b = uint (b AND 0x3f)"

definition decodeRune :: "bytes \<Rightarrow> int \<times> nat" where
  "decodeRune s =
     (let b = s ! 0;
          lo = (if b = 0xE0 then 0xA0 else if b = 0xF0 then 0x90 else 0x80);
          hi = (if b = 0xED then 0x9F else if b = 0xF4 then 0x8F else 0xBF)
      in if 0xC2 \<le> b \<and> b \<le> 0xDF \<and> cont s 1 0x80 0xBF then (uint (b AND 0x1f) * 64 + low6 (s ! 1), 2)
         else if 0xE0 \<le> b \<and> b \<le> 0xEF \<and> cont s 1 lo hi \<and> cont s 2 0x80 0xBF
         then (uint (b AND 0x0f) * 4096 + low6 (s ! 1) * 64 + low6 (s ! 2), 3)
         else if 0xF0 \<le> b \<and> b \<le> 0xF4 \<and> cont s 1 lo hi \<and> cont s 2 0x80 0xBF \<and> cont s 3 0x80 0xBF
         then (uint (b AND 0x07) * 262144 + low6 (s ! 1) * 4096 + low6 (s ! 2) * 64 + low6 (s ! 3), 4)
         else (runeError, 1))"

text \<open>\<open>utf8.AppendRune\<close>.\<close>

definition isSurrogate :: "int \<Rightarrow> bool" where
  "isSurrogate r \<longleftrightarrow> 0xD800 \<le> r \<and> r < 0xE000"

definition encodeRune :: "int \<Rightarrow> bytes" where
  "encodeRune r0 =
     (let r = (if isSurrogate r0 \<or> 0x10FFFF < r0 then runeError else r0); b = (\<lambda>k. 0x80 OR of_int (r div 64 ^ k mod 64))
      in if r < 0x80 then [of_int r]
         else if r < 0x800 then [0xC0 OR of_int (r div 64), b 0]
         else if r < 0x10000 then [0xE0 OR of_int (r div 4096), b 1, b 0]
         else [0xF0 OR of_int (r div 262144), b 2, b 1, b 0])"

text \<open>\<open>getu4\<close> on the digits after \<open>\u\<close>, and \<open>utf16.DecodeRune\<close>.\<close>

definition getu4 :: "bytes \<Rightarrow> int" where
  "getu4 s = foldl (\<lambda>a c. a * 16 + (case hexVal c of None \<Rightarrow> 0 | Some x \<Rightarrow> uint x)) 0 (take 4 s)"

definition decodePair :: "int \<Rightarrow> int \<Rightarrow> int" where
  "decodePair r1 r2 =
     (if 0xD800 \<le> r1 \<and> r1 < 0xDC00 \<and> 0xDC00 \<le> r2 \<and> r2 < 0xE000
      then (r1 - 0xD800) * 1024 + (r2 - 0xDC00) + 0x10000 else runeError)"

definition startsU :: "bytes \<Rightarrow> bool" where
  "startsU s \<longleftrightarrow> take 2 s = [0x5c, 0x75] \<and> 6 \<le> length s \<and> list_all isHex (take 4 (drop 2 s))"

definition unescape :: "byte \<Rightarrow> byte" where
  "unescape c = (if c = 0x62 then 0x08 else if c = 0x66 then 0x0c else if c = 0x6e then 0x0a
     else if c = 0x72 then 0x0d else if c = 0x74 then 0x09 else c)"

text \<open>\<open>unquote\<close> of the text between the quotes, which the scanner has accepted.\<close>

function unquote :: "bytes \<Rightarrow> bytes" where
  "unquote s =
     (case s of [] \<Rightarrow> [] | c # cs \<Rightarrow>
        if c = 0x5c then
          (case cs of [] \<Rightarrow> [] | e # r \<Rightarrow>
             if e = 0x75 then
               (let rr = getu4 r; r4 = drop 4 r in
                if isSurrogate rr \<and> startsU r4 \<and> decodePair rr (getu4 (drop 2 r4)) \<noteq> runeError
                then encodeRune (decodePair rr (getu4 (drop 2 r4))) @ unquote (drop 6 r4)
                else encodeRune rr @ unquote r4)
             else unescape e # unquote r)
        else if c < 0x80 then c # unquote cs
        else encodeRune (fst (decodeRune s)) @ unquote (drop (snd (decodeRune s) - 1) cs))"
  by pat_completeness auto
termination by (relation "measure length") auto

declare unquote.simps [simp del]

section \<open>Decoding\<close>

text \<open>
  \<open>json.Unmarshal\<close> decodes on after an element of the wrong type and returns the first such error at the end; the element
  keeps its zero value. A decoder here returns the value and whether there was no error. \<open>null\<close> leaves a value as it is.
\<close>

definition isInt64 :: "int \<Rightarrow> bool" where
  "isInt64 i \<longleftrightarrow> - (2 ^ 63) \<le> i \<and> i < 2 ^ 63"

text \<open>\<open>strconv.ParseInt\<close> of a number the scanner has accepted.\<close>

definition digitsValue :: "bytes \<Rightarrow> int" where
  "digitsValue ds = foldl (\<lambda>a c. a * 10 + uint (c - 0x30)) 0 ds"

definition parseInt :: "bytes \<Rightarrow> int option" where
  "parseInt t =
     (let neg = (t \<noteq> [] \<and> hd t = 0x2d); ds = (if neg then tl t else t);
          i = (if neg then - digitsValue ds else digitsValue ds)
      in if ds \<noteq> [] \<and> list_all isDigit ds \<and> isInt64 i then Some i else None)"

definition decodeInt :: "int \<Rightarrow> json \<Rightarrow> int \<times> bool" where
  "decodeInt old v = (case v of JNum t \<Rightarrow> (case parseInt t of Some i \<Rightarrow> (i, True) | None \<Rightarrow> (old, False))
     | JNull \<Rightarrow> (old, True) | _ \<Rightarrow> (old, False))"

definition decodeBool :: "bool \<Rightarrow> json \<Rightarrow> bool \<times> bool" where
  "decodeBool old v = (case v of JBool b \<Rightarrow> (b, True) | JNull \<Rightarrow> (old, True) | _ \<Rightarrow> (old, False))"

definition decodeString :: "bytes \<Rightarrow> json \<Rightarrow> bytes \<times> bool" where
  "decodeString old v = (case v of JStr s \<Rightarrow> (unquote s, True) | JNull \<Rightarrow> (old, True) | _ \<Rightarrow> (old, False))"

definition unmarshal :: "'a \<Rightarrow> ('a \<Rightarrow> json \<Rightarrow> 'a \<times> bool) \<Rightarrow> bytes \<Rightarrow> 'a \<times> bool" where
  "unmarshal zero f data = (case parseJson data of None \<Rightarrow> (zero, False) | Some v \<Rightarrow> f zero v)"

text \<open>Into a nil slice whose elements decode with \<open>f\<close> from the value \<open>zero\<close>.\<close>

definition decodeSlice :: "'a \<Rightarrow> ('a \<Rightarrow> json \<Rightarrow> 'a \<times> bool) \<Rightarrow> 'a list \<Rightarrow> json \<Rightarrow> 'a list \<times> bool" where
  "decodeSlice zero f old v = (case v of
       JArr t vs \<Rightarrow> (map (\<lambda>v. fst (f zero v)) vs, list_all (\<lambda>v. snd (f zero v)) vs)
     | JNull \<Rightarrow> ([], True) | _ \<Rightarrow> (old, False))"

definition unmarshalInts :: "bytes \<Rightarrow> int list \<times> bool" where
  "unmarshalInts = unmarshal [] (decodeSlice 0 decodeInt)"

definition unmarshalStrings :: "bytes \<Rightarrow> bytes list \<times> bool" where
  "unmarshalStrings = unmarshal [] (decodeSlice [] decodeString)"

text \<open>A \<open>RawMessage\<close> is the text of the value.\<close>

definition unmarshalRaws :: "bytes \<Rightarrow> bytes list \<times> bool" where
  "unmarshalRaws = unmarshal [] (decodeSlice [] (\<lambda>_ v. (raw v, True)))"

definition unmarshalString :: "bytes \<Rightarrow> bytes \<times> bool" where
  "unmarshalString = unmarshal [] decodeString"

definition unmarshalInt :: "bytes \<Rightarrow> int \<times> bool" where
  "unmarshalInt = unmarshal 0 decodeInt"

text \<open>Into an empty interface: the only error is a number beyond the range of \<open>float64\<close>, at least \<open>2\<^sup>1\<^sup>0\<^sup>2\<^sup>4 - 2\<^sup>9\<^sup>7\<^sup>0\<close>
  in magnitude, which rounds to infinity.\<close>

definition floatInRange :: "bytes \<Rightarrow> bool" where
  "floatInRange t =
     (let u = (if t \<noteq> [] \<and> hd t = 0x2d then tl t else t);
          ip = takeWhile isDigit u; r = dropWhile isDigit u;
          fp = (if r \<noteq> [] \<and> hd r = 0x2e then takeWhile isDigit (tl r) else []);
          r2 = (if r \<noteq> [] \<and> hd r = 0x2e then dropWhile isDigit (tl r) else r);
          x = (if r2 = [] then [] else tl r2);
          e = (if x = [] then 0 else if hd x = 0x2d then - digitsValue (tl x)
               else if hd x = 0x2b then digitsValue (tl x) else digitsValue x);
          m = digitsValue (ip @ fp); k = e - int (length fp)
      in if 0 \<le> k then m * 10 ^ nat k < 2 ^ 1024 - 2 ^ 970 else m < (2 ^ 1024 - 2 ^ 970) * 10 ^ nat (- k))"

fun anyOk :: "json \<Rightarrow> bool" where
  "anyOk (JNum t) = floatInRange t"
| "anyOk (JArr t vs) = list_all anyOk vs"
| "anyOk (JObj t ms) = list_all (\<lambda>(k, v). anyOk v) ms"
| "anyOk _ = True"

section \<open>Encoding\<close>

text \<open>\<open>appendCompact\<close> with \<open>escapeHTML\<close>: how the encoder writes a \<open>RawMessage\<close>. A nil message is \<open>null\<close>, any other must be valid.\<close>

definition lowerHex :: "nat \<Rightarrow> byte" where
  "lowerHex n = (if n < 10 then 0x30 + of_nat n else 0x61 + (of_nat n - 10))"

fun escapeHTML :: "bytes \<Rightarrow> bytes" where
  "escapeHTML [] = []"
| "escapeHTML (c # cs) =
     (if c = 0x3c \<or> c = 0x3e \<or> c = 0x26
      then [0x5c, 0x75, 0x30, 0x30, lowerHex (unat c div 16), lowerHex (unat c mod 16)] @ escapeHTML cs
      else if c = 0xE2 \<and> 2 \<le> length cs \<and> cs ! 0 = 0x80 \<and> (cs ! 1 = 0xA8 \<or> cs ! 1 = 0xA9)
      then [0x5c, 0x75, 0x32, 0x30, 0x32, lowerHex (unat (cs ! 1) mod 16)] @ escapeHTML (drop 2 cs)
      else c # escapeHTML cs)"

definition compactRaw :: "bytes option \<Rightarrow> bytes result" where
  "compactRaw m = (case m of None \<Rightarrow> Inr lit_null
     | Some t \<Rightarrow> (case parseJson t of None \<Rightarrow> Inl (Err ''json: error calling MarshalJSON'') | Some v \<Rightarrow> Inr (escapeHTML (render v))))"

end
