(* ===== verification/JsonFacts.thy ===== *)
theory JsonFacts
  imports Json
begin

text \<open>
  The scanner of \<open>Json\<close>: what it consumes, that its fuel is enough, and that it reads back what is printed.
\<close>

section \<open>What is consumed\<close>

lemma consTo_Some_iff: "consTo c r = Some (x, y) \<longleftrightarrow> (\<exists>xs. r = Some (xs, y) \<and> x = c # xs)"
  by (auto simp: consTo_def)

lemma skipSpace_suffix: "\<exists>p. s = p @ skipSpace s"
  unfolding skipSpace_def by (metis takeWhile_dropWhile_id)

lemma skipSpace_length: "length (skipSpace s) \<le> length s"
  by (simp add: skipSpace_def length_dropWhile_le)

lemma scanString_text: "scanString st s = Some (x, r) \<Longrightarrow> s = x @ 0x22 # r"
  by (induction st s arbitrary: x r rule: scanString.induct) (auto simp: consTo_Some_iff split: if_splits)

lemma scanInt_text: "scanInt s = Some (t, r) \<Longrightarrow> s = t @ r \<and> t \<noteq> []"
  by (auto simp: scanInt_def split: list.splits if_splits)

lemma scanFrac_text: "scanFrac s = Some (t, r) \<Longrightarrow> s = t @ r"
  by (auto simp: scanFrac_def split: list.splits if_splits)

lemma scanExp_text: "scanExp s = Some (t, r) \<Longrightarrow> s = t @ r"
proof -
  assume a: "scanExp s = Some (t, r)"
  show ?thesis
  proof (cases s)
    case (Cons c cs)
    define sg where "sg = (if cs \<noteq> [] \<and> (hd cs = 0x2b \<or> hd cs = 0x2d) then [hd cs] else [])"
    have "cs = sg @ drop (length sg) cs" by (cases cs) (auto simp: sg_def)
    then show ?thesis using a Cons by (auto simp: scanExp_def Let_def simp flip: sg_def split: if_splits)
  qed (use a in \<open>simp add: scanExp_def\<close>)
qed

lemma scanNumber_text:
  assumes "scanNumber s = Some (t, r)"
  shows "s = t @ r \<and> t \<noteq> []"
proof -
  define sg where "sg = (if s \<noteq> [] \<and> hd s = 0x2d then [0x2d :: byte] else [])"
  have s: "s = sg @ drop (length sg) s" by (cases s) (auto simp: sg_def)
  from assms obtain i r1 f r2 e where p: "scanInt (drop (length sg) s) = Some (i, r1)" "scanFrac r1 = Some (f, r2)" "scanExp r2 = Some (e, r)" "t = sg @ i @ f @ e"
    by (auto simp: scanNumber_def Let_def simp flip: sg_def split: option.splits)
  from scanInt_text [OF p(1)] scanFrac_text [OF p(2)] scanExp_text [OF p(3)] s p(4) show ?thesis by auto
qed

lemma scanLit_text: "scanLit l v s = Some (w, r) \<Longrightarrow> s = l @ r \<and> w = v"
  by (auto simp: scanLit_def split: if_splits) (metis append_take_drop_id)

lemma consumed_append [simp]: "consumed (p @ r) r = p"
  by (simp add: consumed_def)

lemma parse_text:
  "parseValue n d s = Some (v, r) \<Longrightarrow> s = raw v @ r \<and> raw v \<noteq> []"
  "parseElems n d s = Some (vs, r) \<Longrightarrow> \<exists>p. s = p @ r \<and> p \<noteq> []"
  "parseMembers n d s = Some (ms, r) \<Longrightarrow> \<exists>p. s = p @ r \<and> p \<noteq> []"
proof (induction n d s and n d s and n d s arbitrary: v r and vs r and ms r rule: parseValue_parseElems_parseMembers.induct)
  case (2 n d s)
  show ?case
  proof (cases s)
    case Nil
    with 2 show ?thesis by simp
  next
    case (Cons c cs)
    have br: "\<exists>p. s = p @ q \<and> p \<noteq> []" if "skipSpace cs = c' # cs'" "c' # cs' = u @ q" "u \<noteq> []" for c' cs' u q
      using skipSpace_suffix [of cs] that Cons by (metis append_Cons append_assoc list.discI)
    consider "c = 0x22" | "c = 0x5b" | "c = 0x7b" | "c = 0x6e \<or> c = 0x74 \<or> c = 0x66"
      | "c \<notin> {0x22, 0x5b, 0x7b, 0x6e, 0x74, 0x66}" by blast
    then show ?thesis
    proof cases
      case 1
      with 2(3) Cons show ?thesis by (auto simp: quoted_def dest: scanString_text)
    next
      case c: 2
      with 2(3) Cons obtain c' cs' where sk: "0 < d" "skipSpace cs = c' # cs'" by (auto split: if_splits list.splits)
      show ?thesis
      proof (cases "c' = 0x5d")
        case True
        with 2(3) Cons c sk have "v = JArr (consumed s cs') []" "r = cs'" by auto
        with br [OF sk(2), of "[c']" cs'] show ?thesis by auto
      next
        case False
        with 2(3) Cons c sk obtain vs where e: "parseElems n (d - 1) (c' # cs') = Some (vs, r)" "v = JArr (consumed s r) vs" by auto
        with 2(1) [OF Cons _ c _ sk(2) False] c sk obtain u where "c' # cs' = u @ r" "u \<noteq> []" by fastforce
        with br [OF sk(2)] e(2) show ?thesis by fastforce
      qed
    next
      case c: 3
      with 2(3) Cons obtain c' cs' where sk: "0 < d" "skipSpace cs = c' # cs'" by (auto split: if_splits list.splits)
      show ?thesis
      proof (cases "c' = 0x7d")
        case True
        with 2(3) Cons c sk have "v = JObj (consumed s cs') []" "r = cs'" by auto
        with br [OF sk(2), of "[c']" cs'] show ?thesis by auto
      next
        case False
        with 2(3) Cons c sk obtain ms where e: "parseMembers n (d - 1) (c' # cs') = Some (ms, r)" "v = JObj (consumed s r) ms" by auto
        with 2(2) [OF Cons _ _ c _ sk(2) False] c sk obtain u where "c' # cs' = u @ r" "u \<noteq> []" by fastforce
        with br [OF sk(2)] e(2) show ?thesis by fastforce
      qed
    next
      case 4
      with 2(3) Cons show ?thesis by (auto dest!: scanLit_text simp: lit_null_def lit_true_def lit_false_def)
    next
      case 5
      with 2(3) Cons show ?thesis by (auto dest: scanNumber_text)
    qed
  qed
next
  case (4 n d s)
  then obtain v r1 c cs where p: "parseValue n d s = Some (v, r1)" "skipSpace r1 = c # cs" by (auto split: option.splits list.splits)
  with 4(1) have s: "s = raw v @ r1" "raw v \<noteq> []" by blast+
  obtain q where q: "r1 = q @ c # cs" using skipSpace_suffix [of r1] p(2) by metis
  show ?case
  proof (cases "c = 0x2c")
    case True
    with 4(3) p obtain vs' where e: "parseElems n d (skipSpace cs) = Some (vs', r)" by (auto simp: consTo_Some_iff)
    from 4(2) [OF p(1) _ p(2) True e] obtain u where "skipSpace cs = u @ r" by auto
    then obtain q' where "cs = q' @ u @ r" using skipSpace_suffix [of cs] by metis
    then have "s = (raw v @ q @ c # q' @ u) @ r" using s q by simp
    with s(2) show ?thesis by blast
  next
    case False
    with 4(3) p have "r = cs" by (auto split: if_splits)
    then have "s = (raw v @ q @ [c]) @ r" using s q by simp
    with s(2) show ?thesis by blast
  qed
next
  case (6 n d s)
  then obtain cs k r1 c1 cs1 v r2 c2 cs2 where p: "s = 0x22 # cs" "scanString InString cs = Some (k, r1)" "skipSpace r1 = c1 # cs1" "c1 = 0x3a"
      "parseValue n d (skipSpace cs1) = Some (v, r2)" "skipSpace r2 = c2 # cs2"
    by (auto split: option.splits list.splits if_splits)
  have sv: "skipSpace cs1 = raw v @ r2"
    using 6(1) [OF p(1) _ p(2) _ p(3) _ p(5)] p(4) by auto
  obtain q1 q2 q3 where q: "r1 = q1 @ c1 # cs1" "cs1 = q2 @ raw v @ r2" "r2 = q3 @ c2 # cs2"
    using skipSpace_suffix [of r1] skipSpace_suffix [of cs1] skipSpace_suffix [of r2] p(3,6) sv by metis
  have s: "s = (0x22 # k @ 0x22 # q1 @ c1 # q2 @ raw v @ q3 @ [c2]) @ cs2"
    using p(1) scanString_text [OF p(2)] q by simp
  show ?case
  proof (cases "c2 = 0x2c")
    case True
    with 6(3) p obtain ms' where e: "parseMembers n d (skipSpace cs2) = Some (ms', r)" by (auto simp: consTo_Some_iff)
    from 6(2) [OF p(1) _ p(2) _ p(3) _ p(5) _ p(6) True e] p(4) obtain u where "skipSpace cs2 = u @ r" by auto
    then obtain q' where "cs2 = q' @ u @ r" using skipSpace_suffix [of cs2] by metis
    then have "s = (0x22 # k @ 0x22 # q1 @ c1 # q2 @ raw v @ q3 @ c2 # q' @ u) @ r" using s by simp
    then show ?thesis by blast
  next
    case False
    with 6(3) p have "r = cs2" by (auto split: if_splits)
    with s show ?thesis by blast
  qed
qed simp_all

section \<open>Fuel\<close>

lemma parse_length:
  "parseValue n d s = Some (v, r) \<Longrightarrow> length r < length s"
  "parseElems n d s = Some (vs, r) \<Longrightarrow> length r < length s"
  "parseMembers n d s = Some (ms, r) \<Longrightarrow> length r < length s"
  using parse_text(1) [of n d s v r] parse_text(2) [of n d s vs r] parse_text(3) [of n d s ms r] by auto

lemma skipSpace_Cons_length: "skipSpace r = c # cs \<Longrightarrow> length cs < length r"
  using skipSpace_length [of r] by simp

lemma parseValue_flat: "c \<noteq> 0x5b \<Longrightarrow> c \<noteq> 0x7b \<Longrightarrow> parseValue (Suc n) d (c # cs) = parseValue (Suc m) d (c # cs)"
  by simp

lemma parse_fuel_any:
  "parseValue m d s = Some x \<Longrightarrow> 2 * length s \<le> n \<Longrightarrow> parseValue n d s = Some x"
  "parseElems m d s = Some y \<Longrightarrow> 2 * length s + 1 \<le> n \<Longrightarrow> parseElems n d s = Some y"
  "parseMembers m d s = Some z \<Longrightarrow> 2 * length s + 1 \<le> n \<Longrightarrow> parseMembers n d s = Some z"
proof (induction m d s and m d s and m d s arbitrary: n x and n y and n z rule: parseValue_parseElems_parseMembers.induct)
  case (2 m d s)
  show ?case
  proof (cases s)
    case Nil
    with 2 show ?thesis by simp
  next
    case (Cons c cs)
    with 2(4) obtain k where n: "n = Suc k" by (cases n) auto
    show ?thesis
    proof (cases "c = 0x5b \<or> c = 0x7b")
      case True
      with 2(3) Cons obtain c' cs' where sk: "0 < d" "skipSpace cs = c' # cs'" by (auto split: if_splits list.splits)
      have l: "2 * length (c' # cs') + 1 \<le> k" using skipSpace_length [of cs] sk(2) 2(4) Cons n by simp
      show ?thesis
      proof (cases "c = 0x5b")
        case c: True
        show ?thesis
        proof (cases "c' = 0x5d")
          case False
          with 2(3) Cons c sk obtain y where y: "parseElems m (d - 1) (c' # cs') = Some y" "x = (case y of (vs, r) \<Rightarrow> (JArr (consumed s r) vs, r))" by auto
          from 2(1) [OF Cons _ c _ sk(2) False y(1) l] c sk have "parseElems k (d - 1) (c' # cs') = Some y" by simp
          with y(2) Cons c sk n False show ?thesis by simp
        qed (use 2(3) Cons c sk n in simp)
      next
        case nc: False
        with True have c: "c = 0x7b" by simp
        show ?thesis
        proof (cases "c' = 0x7d")
          case False
          with 2(3) Cons c sk obtain y where y: "parseMembers m (d - 1) (c' # cs') = Some y" "x = (case y of (ms, r) \<Rightarrow> (JObj (consumed s r) ms, r))" by auto
          from 2(2) [OF Cons _ _ c _ sk(2) False y(1) l] c sk have "parseMembers k (d - 1) (c' # cs') = Some y" by simp
          with y(2) Cons c sk n False show ?thesis by simp
        qed (use 2(3) Cons c sk n in simp)
      qed
    next
      case False
      have "parseValue n d s = parseValue (Suc m) d s" unfolding Cons n by (rule parseValue_flat) (use False in simp_all)
      from trans [OF this 2(3)] show ?thesis .
    qed
  qed
next
  case (4 m d s)
  from 4(3) obtain v r1 c cs where p: "parseValue m d s = Some (v, r1)" "skipSpace r1 = c # cs" by (auto split: option.splits list.splits)
  from 4(4) obtain k where n: "n = Suc k" by (cases n) auto
  have v: "parseValue k d s = Some (v, r1)" using 4(1) [OF p(1), where n = k] 4(4) n by simp
  show ?case
  proof (cases "c = 0x2c")
    case True
    with 4(3) p obtain y' where e: "parseElems m d (skipSpace cs) = Some y'" "Some y = consTo v (Some y')" by (auto simp: consTo_def)
    have "2 * length (skipSpace cs) + 1 \<le> k"
      using 4(4) n skipSpace_length [of cs] skipSpace_Cons_length [OF p(2)] parse_length(1) [OF p(1)] by linarith
    from 4(2) [OF p(1) _ p(2) True e(1) this] have "parseElems k d (skipSpace cs) = Some y'" by simp
    with e(2) v p(2) True n show ?thesis by simp
  qed (use 4(3) p v n in simp)
next
  case (6 m d s)
  from 6(3) obtain cs k r1 c1 cs1 v r2 c2 cs2 where p: "s = 0x22 # cs" "scanString InString cs = Some (k, r1)" "skipSpace r1 = c1 # cs1" "c1 = 0x3a"
      "parseValue m d (skipSpace cs1) = Some (v, r2)" "skipSpace r2 = c2 # cs2"
    by (auto split: option.splits list.splits if_splits)
  from 6(4) obtain j where n: "n = Suc j" by (cases n) auto
  have l: "length (skipSpace cs1) < length s" "length cs2 < length (skipSpace cs1)"
    using p(1) scanString_text [OF p(2)] skipSpace_Cons_length [OF p(3)] skipSpace_length [of cs1] parse_length(1) [OF p(5)] skipSpace_Cons_length [OF p(6)]
    by simp_all
  have v: "parseValue j d (skipSpace cs1) = Some (v, r2)"
    using 6(1) [OF p(1) _ p(2) _ p(3) _ p(5), where n = j] p(4) l 6(4) n by simp
  show ?case
  proof (cases "c2 = 0x2c")
    case True
    with 6(3) p obtain y' where e: "parseMembers m d (skipSpace cs2) = Some y'" "Some z = consTo (k, v) (Some y')" by (auto simp: consTo_def)
    have b: "2 * length (skipSpace cs2) + 1 \<le> j" using 6(4) n l skipSpace_length [of cs2] by linarith
    have "parseMembers j d (skipSpace cs2) = Some y'"
      using 6(2) [OF p(1) _ p(2) _ p(3) _ p(5) _ p(6) True e(1) b] p(4) by simp
    with e(2) v p True n show ?thesis by simp
  qed (use 6(3) p v n in simp)
qed simp_all

text \<open>The fuel of \<open>parsePrefix\<close> is enough: with any other amount the answer is the same or missing.\<close>

lemma parse_fuel: "parseValue m maxNestingDepth (skipSpace s) = Some x \<Longrightarrow> parsePrefix s = Some x"
  unfolding parsePrefix_def by (erule parse_fuel_any(1)) (use skipSpace_length [of s] in linarith)

section \<open>Reading back what is printed\<close>

text \<open>What may follow a number: not a character that would continue it.\<close>

definition stops :: "bytes \<Rightarrow> bool" where
  "stops s \<longleftrightarrow> s = [] \<or> (\<not> isDigit (hd s) \<and> hd s \<notin> {0x2e, 0x65, 0x45})"

lemma scanString_append: "scanString st s = Some (x, r) \<Longrightarrow> scanString st (s @ q) = Some (x, r @ q)"
  by (induction st s arbitrary: x r rule: scanString.induct) (auto simp: consTo_Some_iff split: if_splits)

lemma digits_append:
  assumes "stops q"
  shows "takeWhile isDigit (s @ q) = takeWhile isDigit s" "dropWhile isDigit (s @ q) = dropWhile isDigit s @ q"
  using assms by (induction s) (cases q; auto simp: stops_def)+

lemma scanInt_append: "scanInt s = Some (t, r) \<Longrightarrow> stops q \<Longrightarrow> scanInt (s @ q) = Some (t, r @ q)"
  using digits_append [of q s] by (auto simp: scanInt_def split: list.splits if_splits)

lemma scanFrac_append: "scanFrac s = Some (t, r) \<Longrightarrow> stops q \<Longrightarrow> scanFrac (s @ q) = Some (t, r @ q)"
  using digits_append [of q "tl s"] by (cases s; cases q) (auto simp: scanFrac_def stops_def split: if_splits)

lemma scanExp_append:
  assumes "scanExp s = Some (t, r)" "stops q"
  shows "scanExp (s @ q) = Some (t, r @ q)"
proof (cases s)
  case Nil
  with assms show ?thesis by (cases q) (auto simp: scanExp_def stops_def)
next
  case (Cons c cs)
  show ?thesis
  proof (cases "c = 0x65 \<or> c = 0x45")
    case True
    define sg where "sg cs = (if cs \<noteq> [] \<and> (hd cs = 0x2b \<or> hd cs = 0x2d) then [hd cs] else [])" for cs :: bytes
    have ne: "takeWhile isDigit (drop (length (sg cs)) cs) \<noteq> []"
      using assms(1) Cons True by (auto simp: scanExp_def Let_def simp flip: sg_def split: if_splits)
    then have "cs \<noteq> []" by auto
    then have sq: "sg (cs @ q) = sg cs" "drop (length (sg (cs @ q))) (cs @ q) = drop (length (sg cs)) cs @ q"
      by (cases cs; auto simp: sg_def)+
    have le: "length (sg cs) - length cs = 0" by (cases cs) (auto simp: sg_def)
    have "scanExp (c # cs @ q) = (let r = drop (length (sg (cs @ q))) (cs @ q) in if takeWhile isDigit r = [] then None
        else Some (c # sg (cs @ q) @ takeWhile isDigit r, dropWhile isDigit r))"
      using True by (auto simp: scanExp_def sg_def Let_def)
    moreover have "scanExp (c # cs) = (let r = drop (length (sg cs)) cs in if takeWhile isDigit r = [] then None
        else Some (c # sg cs @ takeWhile isDigit r, dropWhile isDigit r))"
      using True by (auto simp: scanExp_def sg_def Let_def)
    ultimately show ?thesis using assms ne Cons by (simp only: append_Cons sq Let_def digits_append [OF assms(2)]) (auto simp: le digits_append [OF assms(2)])
  qed (use assms Cons in \<open>auto simp: scanExp_def\<close>)
qed

lemma scanNumber_append:
  assumes "scanNumber s = Some (t, r)" "stops q"
  shows "scanNumber (s @ q) = Some (t, r @ q)"
proof -
  define sg where "sg s = (if s \<noteq> [] \<and> hd s = 0x2d then [0x2d :: byte] else [])" for s :: bytes
  from assms(1) obtain i r1 f r2 e where p: "scanInt (drop (length (sg s)) s) = Some (i, r1)" "scanFrac r1 = Some (f, r2)" "scanExp r2 = Some (e, r)" "t = sg s @ i @ f @ e"
    by (auto simp: scanNumber_def Let_def simp flip: sg_def split: option.splits)
  have sn: "scanNumber u = (case scanInt (drop (length (sg u)) u) of None \<Rightarrow> None | Some (i, r) \<Rightarrow> (case scanFrac r of None \<Rightarrow> None
      | Some (f, r) \<Rightarrow> (case scanExp r of None \<Rightarrow> None | Some (e, r) \<Rightarrow> Some (sg u @ i @ f @ e, r))))" for u
    by (simp only: scanNumber_def sg_def Let_def)
  have "s \<noteq> []" using p(1) by (auto simp: scanInt_def sg_def)
  then have "sg (s @ q) = sg s" "drop (length (sg (s @ q))) (s @ q) = drop (length (sg s)) s @ q" by (cases s; auto simp: sg_def)+
  then show ?thesis
    using scanInt_append [OF p(1) assms(2)] scanFrac_append [OF p(2) assms(2)] scanExp_append [OF p(3) assms(2)] p(4)
    by (simp add: sn)
qed

definition numText :: "bytes \<Rightarrow> bool" where
  "numText t \<longleftrightarrow> scanNumber t = Some (t, [])"

definition strText :: "bytes \<Rightarrow> bool" where
  "strText s \<longleftrightarrow> scanString InString (s @ [0x22]) = Some (s, [])"

text \<open>Values with at most \<open>d\<close> levels whose literals are well formed, and whose arrays and objects are compact.\<close>

fun wf_json :: "int \<Rightarrow> json \<Rightarrow> bool" where
  "wf_json d (JNum t) = numText t"
| "wf_json d (JStr s) = strText s"
| "wf_json d (JArr t vs) = (0 < d \<and> t = render (JArr t vs) \<and> list_all (wf_json (d - 1)) vs)"
| "wf_json d (JObj t ms) = (0 < d \<and> t = render (JObj t ms) \<and> list_all (\<lambda>(k, v). strText k \<and> wf_json (d - 1) v) ms)"
| "wf_json d _ = True"

lemma isSpace_simps [simp]: "\<not> isSpace 0x22" "\<not> isSpace 0x2c" "\<not> isSpace 0x3a" "\<not> isSpace 0x5b" "\<not> isSpace 0x5d" "\<not> isSpace 0x7b" "\<not> isSpace 0x7d"
    "\<not> isSpace 0x6e" "\<not> isSpace 0x74" "\<not> isSpace 0x66" "\<not> isSpace 0x2d"
  by (simp_all add: isSpace_def)

lemma skipSpace_Cons [simp]: "\<not> isSpace c \<Longrightarrow> skipSpace (c # cs) = c # cs"
  by (simp add: skipSpace_def)

lemma stops_simps [simp]: "stops []" "stops (0x2c # r)" "stops (0x5d # r)" "stops (0x7d # r)"
  by (simp_all add: stops_def isDigit_def)

lemma strText_append: "strText s \<Longrightarrow> scanString InString (s @ 0x22 # r) = Some (s, r)"
  using scanString_append [of InString "s @ [0x22]" s "[]" r] by (simp add: strText_def)

lemma numText_start:
  assumes "numText t"
  shows "\<exists>c cs. t = c # cs \<and> (c = 0x2d \<or> isDigit c)"
proof (cases t)
  case Nil
  with assms show ?thesis by (simp add: numText_def scanNumber_def scanInt_def)
next
  case (Cons c cs)
  with assms show ?thesis
    by (cases "c = 0x2d") (auto simp: numText_def scanNumber_def scanInt_def isDigit_def split: if_splits)
qed

lemma isDigit_not: "isDigit c \<Longrightarrow> c \<notin> {0x22, 0x5b, 0x5d, 0x7b, 0x7d, 0x6e, 0x74, 0x66, 0x2c} \<and> \<not> isSpace c"
  by (auto simp: isDigit_def isSpace_def)

lemma render_start:
  assumes "wf_json d v"
  shows "\<exists>c cs. render v = c # cs \<and> \<not> isSpace c \<and> c \<noteq> 0x5d \<and> c \<noteq> 0x7d"
proof (cases v)
  case (JNum t)
  with assms numText_start [of t] isDigit_not show ?thesis by fastforce
qed (auto simp: lit_null_def lit_true_def lit_false_def quoted_def)

lemma skipSpace_render: "wf_json d v \<Longrightarrow> skipSpace (render v @ r) = render v @ r"
  using render_start [of d v] by auto

lemma commas_Cons: "commas (x # xs) = x @ (if xs = [] then [] else 0x2c # commas xs)"
  by (cases xs) simp_all

definition reads :: "json \<Rightarrow> bool" where
  "reads v \<longleftrightarrow> (\<forall>d r n. wf_json d v \<longrightarrow> stops r \<longrightarrow> 2 * length (render v @ r) \<le> n \<longrightarrow> parseValue n d (render v @ r) = Some (v, r))"

lemma reads_elems:
  assumes "vs \<noteq> []" "list_all (wf_json d) vs" "\<forall>v\<in>set vs. reads v"
    and "2 * length (commas (map render vs) @ 0x5d # r) + 1 \<le> n"
  shows "parseElems n d (commas (map render vs) @ 0x5d # r) = Some (vs, r)"
  using assms
proof (induction vs arbitrary: n)
  case (Cons v vs)
  then obtain k where n: "n = Suc k" by (cases n) auto
  have wf: "wf_json d v" "reads v" using Cons.prems by simp_all
  show ?case
  proof (cases vs)
    case Nil
    then have "parseValue k d (render v @ 0x5d # r) = Some (v, 0x5d # r)"
      using wf Cons.prems(4) n unfolding reads_def by (simp add: commas_Cons)
    then show ?thesis using Nil n by simp
  next
    case Cons': (Cons w ws)
    have "parseValue k d (render v @ 0x2c # commas (map render vs) @ 0x5d # r) = Some (v, 0x2c # commas (map render vs) @ 0x5d # r)"
      using wf Cons.prems(4) n Cons' unfolding reads_def by (simp add: commas_Cons)
    moreover have "skipSpace (commas (map render vs) @ 0x5d # r) = commas (map render vs) @ 0x5d # r"
      using skipSpace_render [of d w] Cons.prems(2) Cons' by (simp add: commas_Cons)
    moreover have "parseElems k d (commas (map render vs) @ 0x5d # r) = Some (vs, r)"
      using Cons.IH [of k] Cons.prems Cons' n by (simp add: commas_Cons)
    ultimately show ?thesis using n Cons' by (simp add: commas_Cons consTo_def)
  qed
qed simp

abbreviation member :: "bytes \<times> json \<Rightarrow> bytes" where
  "member \<equiv> \<lambda>(k, v). quoted k @ 0x3a # render v"

lemma reads_members:
  assumes "ms \<noteq> []" "list_all (\<lambda>(k, v). strText k \<and> wf_json d v) ms" "\<forall>(k, v)\<in>set ms. reads v"
    and "2 * length (commas (map member ms) @ 0x7d # r) + 1 \<le> n"
  shows "parseMembers n d (commas (map member ms) @ 0x7d # r) = Some (ms, r)"
  using assms
proof (induction ms arbitrary: n)
  case (Cons m ms)
  obtain k v where m: "m = (k, v)" by force
  from Cons.prems(4) obtain j where n: "n = Suc j" by (cases n) auto
  have wf: "strText k" "wf_json d v" "reads v" using Cons.prems(2,3) m by simp_all
  show ?case
  proof (cases ms)
    case Nil
    have "parseValue j d (render v @ 0x7d # r) = Some (v, 0x7d # r)"
      using wf Cons.prems(4) n Nil m unfolding reads_def by (simp add: commas_Cons)
    then show ?thesis using Nil n m wf skipSpace_render [of d v "0x7d # r"] by (simp add: quoted_def strText_append)
  next
    case Cons': (Cons m' ms')
    let ?q = "commas (map member ms) @ 0x7d # r"
    have "parseValue j d (render v @ 0x2c # ?q) = Some (v, 0x2c # ?q)"
      using wf Cons.prems(4) n Cons' m unfolding reads_def by (simp add: commas_Cons)
    moreover have "skipSpace ?q = ?q" using Cons' by (cases m') (simp add: commas_Cons quoted_def)
    moreover have "parseMembers j d ?q = Some (ms, r)"
      using Cons.IH [of j] Cons.prems Cons' n by (simp add: commas_Cons)
    moreover have "commas (map member (m # ms)) @ 0x7d # r = 0x22 # k @ 0x22 # 0x3a # render v @ 0x2c # ?q"
      using Cons' m by (simp add: commas_Cons quoted_def)
    ultimately show ?thesis using n m wf skipSpace_render [of d v] by (simp add: strText_append consTo_def)
  qed
qed simp

lemma reads_scalar:
  assumes "\<And>d r k. wf_json d v \<Longrightarrow> parseValue (Suc k) d (render v @ r) = Some (v, r)" "render v \<noteq> []"
  shows "reads v"
  unfolding reads_def
proof (intro allI impI)
  fix d :: int and r :: bytes and n :: nat
  assume "wf_json d v" "2 * length (render v @ r) \<le> n"
  then show "parseValue n d (render v @ r) = Some (v, r)" using assms by (cases n) auto
qed

lemma render_reads: "reads v"
proof (induction v)
  case (JNum t)
  show ?case unfolding reads_def
  proof (intro allI impI)
    fix d :: int and r :: bytes and n :: nat
    assume a: "wf_json d (JNum t)" "stops r" "2 * length (render (JNum t) @ r) \<le> n"
    obtain c cs where t: "t = c # cs" "c = 0x2d \<or> isDigit c" using numText_start [of t] a(1) by auto
    then have "c \<notin> {0x22, 0x5b, 0x7b, 0x6e, 0x74, 0x66}" using isDigit_not [of c] by auto
    moreover obtain k where "n = Suc k" using a(3) t by (cases n) auto
    moreover have "scanNumber (t @ r) = Some (t, r)" using scanNumber_append [of t t "[]" r] a(1,2) by (simp add: numText_def)
    ultimately show "parseValue n d (render (JNum t) @ r) = Some (JNum t, r)" using t by simp
  qed
next
  case (JArr t vs)
  show ?case unfolding reads_def
  proof (intro allI impI)
    fix d :: int and r :: bytes and n :: nat
    assume a: "wf_json d (JArr t vs)" "stops r" "2 * length (render (JArr t vs) @ r) \<le> n"
    then obtain k where n: "n = Suc k" by (cases n) auto
    show "parseValue n d (render (JArr t vs) @ r) = Some (JArr t vs, r)"
    proof (cases "vs = []")
      case True
      have "consumed (0x5b # 0x5d # r) r = [0x5b, 0x5d]" using consumed_append [of "[0x5b, 0x5d]" r] by simp
      with a n True show ?thesis by simp
    next
      case False
      then obtain w ws where vs: "vs = w # ws" by (cases vs) auto
      have e: "parseElems k (d - 1) (commas (map render vs) @ 0x5d # r) = Some (vs, r)"
        by (rule reads_elems) (use False a JArr n in \<open>simp_all\<close>)
      obtain c cs where c: "commas (map render vs) @ 0x5d # r = c # cs" "\<not> isSpace c" "c \<noteq> 0x5d"
        using render_start [of "d - 1" w] a(1) vs by (auto simp: commas_Cons)
      have "consumed (0x5b # commas (map render vs) @ 0x5d # r) r = t"
        using consumed_append [of "0x5b # commas (map render vs) @ [0x5d]" r] a(1) by simp
      then show ?thesis using a(1) e n c by simp
    qed
  qed
next
  case (JObj t ms)
  show ?case unfolding reads_def
  proof (intro allI impI)
    fix d :: int and r :: bytes and n :: nat
    assume a: "wf_json d (JObj t ms)" "stops r" "2 * length (render (JObj t ms) @ r) \<le> n"
    then obtain k where n: "n = Suc k" by (cases n) auto
    show "parseValue n d (render (JObj t ms) @ r) = Some (JObj t ms, r)"
    proof (cases "ms = []")
      case True
      have "consumed (0x7b # 0x7d # r) r = [0x7b, 0x7d]" using consumed_append [of "[0x7b, 0x7d]" r] by simp
      with a n True show ?thesis by simp
    next
      case False
      then obtain w ws where ms: "ms = w # ws" by (cases ms) auto
      have "\<forall>(k, v)\<in>set ms. reads v" using JObj by auto
      then have e: "parseMembers k (d - 1) (commas (map member ms) @ 0x7d # r) = Some (ms, r)"
        by (intro reads_members) (use False a n in \<open>simp_all\<close>)
      obtain cs where c: "commas (map member ms) @ 0x7d # r = 0x22 # cs"
        using ms by (cases w) (simp add: commas_Cons quoted_def)
      have "consumed (0x7b # commas (map member ms) @ 0x7d # r) r = t"
        using consumed_append [of "0x7b # commas (map member ms) @ [0x7d]" r] a(1) by simp
      then show ?thesis using a(1) e n c by simp
    qed
  qed
qed (auto intro!: reads_scalar simp: lit_null_def lit_true_def lit_false_def scanLit_def quoted_def strText_append split: if_splits)

theorem parse_render:
  assumes "wf_json maxNestingDepth v"
  shows "parseJson (render v) = Some v"
proof -
  have "parsePrefix (render v) = Some (v, [])"
    using render_reads [of v] assms skipSpace_render [OF assms, of "[]"] unfolding reads_def parsePrefix_def by (metis append_Nil2 le_add1 stops_simps(1))
  then show ?thesis by (simp add: parseJson_def skipSpace_def)
qed

end
