(* ===== verification/Jsonrpc.thy ===== *)
theory Jsonrpc
  imports JsonFacts
begin

text \<open>
  The messages of \<open>jsonrpc/types.go\<close>, how the server reads requests from the byte stream of a connection
  (\<open>Server.read\<close>) and how responses and notifications are written (\<open>Server.write\<close>), and how the client tells the two apart
  (\<open>Client.read\<close>). A \<open>json.RawMessage\<close> is \<open>None\<close> when it is nil.
\<close>

section \<open>Messages\<close>

record Request =
  rq_JsonRPC :: "bytes option"
  rq_Id :: "bytes option"
  rq_Method :: "bytes option"
  rq_Params :: "bytes option"

record Notification =
  nt_JsonRPC :: "bytes option"
  nt_Method :: "bytes option"
  nt_Params :: "bytes option"

record Response =
  rs_JsonRPC :: "bytes option"
  rs_Id :: "bytes option"
  rs_Result :: "bytes option"
  rs_Error :: "bytes option"

definition empty_Request :: Request where
  "empty_Request = \<lparr>rq_JsonRPC = None, rq_Id = None, rq_Method = None, rq_Params = None\<rparr>"

definition empty_Notification :: Notification where
  "empty_Notification = \<lparr>nt_JsonRPC = None, nt_Method = None, nt_Params = None\<rparr>"

definition empty_Response :: Response where
  "empty_Response = \<lparr>rs_JsonRPC = None, rs_Id = None, rs_Result = None, rs_Error = None\<rparr>"

text \<open>The bytes of a message handed to \<open>json.Unmarshal\<close>; those of a nil one are empty and not valid JSON.\<close>

definition msgBytes :: "bytes option \<Rightarrow> bytes" where
  "msgBytes m = (case m of None \<Rightarrow> [] | Some b \<Rightarrow> b)"

text \<open>A decoding error ends the handler.\<close>

definition jsonOk :: "'a \<times> bool \<Rightarrow> 'a result" where
  "jsonOk r = (if snd r then Inr (fst r) else Inl (Err ''json''))"

section \<open>Decoding messages\<close>

text \<open>Keys are matched to the names of the fields up to Unicode case folding: besides ASCII letters, the Kelvin sign folds
  to \<open>k\<close> and the long s to \<open>s\<close>.\<close>

fun foldKey :: "bytes \<Rightarrow> bytes" where
  "foldKey [] = []"
| "foldKey (c # cs) =
     (if c = 0xC5 \<and> cs \<noteq> [] \<and> hd cs = 0xBF then 0x53 # foldKey (tl cs)
      else if c = 0xE2 \<and> 2 \<le> length cs \<and> cs ! 0 = 0x84 \<and> cs ! 1 = 0xAA then 0x4B # foldKey (drop 2 cs)
      else if 0x61 \<le> c \<and> c \<le> 0x7a then (c - 0x20) # foldKey cs
      else c # foldKey cs)"

definition isKey :: "bytes \<Rightarrow> string \<Rightarrow> bool" where
  "isKey k name \<longleftrightarrow> foldKey (unquote k) = foldKey (ascii name)"

definition setRequestField :: "bytes \<times> json \<Rightarrow> Request \<Rightarrow> Request" where
  "setRequestField = (\<lambda>(k, v) r.
     if isKey k ''jsonrpc'' then r\<lparr>rq_JsonRPC := Some (raw v)\<rparr>
     else if isKey k ''id'' then r\<lparr>rq_Id := Some (raw v)\<rparr>
     else if isKey k ''method'' then r\<lparr>rq_Method := Some (raw v)\<rparr>
     else if isKey k ''params'' then r\<lparr>rq_Params := Some (raw v)\<rparr>
     else r)"

text \<open>Into a struct: fields in the order of the text, a later duplicate wins; \<open>null\<close> changes nothing.\<close>

definition decodeRequest :: "json \<Rightarrow> Request result" where
  "decodeRequest v = (case v of JObj t ms \<Rightarrow> Inr (fold setRequestField ms empty_Request)
     | JNull \<Rightarrow> Inr empty_Request | _ \<Rightarrow> Inl (Err ''json''))"

lemma parsePrefix_length: "parsePrefix s = Some (v, r) \<Longrightarrow> length r < length s"
  using parse_length(1) skipSpace_length [of s] unfolding parsePrefix_def by (meson less_le_trans)

text \<open>\<open>Server.read\<close> on all the bytes a connection delivers: the requests decoded, and the error that ends the reader.\<close>

function readRequests :: "bytes \<Rightarrow> Request list \<times> error" where
  "readRequests s =
     (if skipSpace s = [] then ([], ErrEOF)
      else case parsePrefix s of
        None \<Rightarrow> ([], Err ''json'')
      | Some (v, r) \<Rightarrow>
          (case decodeRequest v of
             Inl e \<Rightarrow> ([], e)
           | Inr rq \<Rightarrow> (let (rqs, e) = readRequests r in (rq # rqs, e))))"
  by pat_completeness auto
termination by (relation "measure length") (auto dest: parsePrefix_length)

declare readRequests.simps [simp del]

section \<open>Encoding messages\<close>

definition jfield :: "string \<Rightarrow> bytes \<Rightarrow> bytes" where
  "jfield name v = quoted (ascii name) @ 0x3a # v"

definition jobject :: "bytes list \<Rightarrow> bytes" where
  "jobject fs = 0x7b # commas fs @ [0x7d]"

definition jarray :: "bytes list \<Rightarrow> bytes" where
  "jarray xs = 0x5b # commas xs @ [0x5d]"

text \<open>A field with \<open>omitempty\<close>.\<close>

definition optField :: "string \<Rightarrow> bytes option \<Rightarrow> (bytes list) result" where
  "optField name m = (if msgBytes m = [] then Inr [] else rbind (compactRaw m) (\<lambda>v. Inr [jfield name v]))"

definition encodeRequest :: "Request \<Rightarrow> bytes result" where
  "encodeRequest r =
     rbind (compactRaw (rq_JsonRPC r)) (\<lambda>j.
     rbind (compactRaw (rq_Id r)) (\<lambda>i.
     rbind (compactRaw (rq_Method r)) (\<lambda>m.
     rbind (compactRaw (rq_Params r)) (\<lambda>p.
     Inr (jobject [jfield ''jsonrpc'' j, jfield ''id'' i, jfield ''method'' m, jfield ''params'' p] @ [0x0a])))))"

definition encodeResponse :: "Response \<Rightarrow> bytes result" where
  "encodeResponse r =
     rbind (compactRaw (rs_JsonRPC r)) (\<lambda>j.
     rbind (compactRaw (rs_Id r)) (\<lambda>i.
     rbind (optField ''result'' (rs_Result r)) (\<lambda>res.
     rbind (optField ''error'' (rs_Error r)) (\<lambda>err.
     Inr (jobject ([jfield ''jsonrpc'' j, jfield ''id'' i] @ res @ err) @ [0x0a])))))"

definition encodeNotification :: "Notification \<Rightarrow> bytes result" where
  "encodeNotification n =
     rbind (compactRaw (nt_JsonRPC n)) (\<lambda>j.
     rbind (compactRaw (nt_Method n)) (\<lambda>m.
     rbind (compactRaw (nt_Params n)) (\<lambda>p.
     Inr (jobject [jfield ''jsonrpc'' j, jfield ''method'' m, jfield ''params'' p] @ [0x0a]))))"

section \<open>The client\<close>

definition setResponseField :: "bytes \<times> json \<Rightarrow> Response \<Rightarrow> Response" where
  "setResponseField = (\<lambda>(k, v) r.
     if isKey k ''jsonrpc'' then r\<lparr>rs_JsonRPC := Some (raw v)\<rparr>
     else if isKey k ''id'' then r\<lparr>rs_Id := Some (raw v)\<rparr>
     else if isKey k ''result'' then r\<lparr>rs_Result := Some (raw v)\<rparr>
     else if isKey k ''error'' then r\<lparr>rs_Error := Some (raw v)\<rparr>
     else r)"

definition setNotificationField :: "bytes \<times> json \<Rightarrow> Notification \<Rightarrow> Notification" where
  "setNotificationField = (\<lambda>(k, v) n.
     if isKey k ''jsonrpc'' then n\<lparr>nt_JsonRPC := Some (raw v)\<rparr>
     else if isKey k ''method'' then n\<lparr>nt_Method := Some (raw v)\<rparr>
     else if isKey k ''params'' then n\<lparr>nt_Params := Some (raw v)\<rparr>
     else n)"

datatype inbound = InResponse Response | InNotification Notification

text \<open>\<open>Client.read\<close> of one value: with an \<open>id\<close> a response, without one a notification.\<close>

definition classify :: "json \<Rightarrow> inbound result" where
  "classify v = (case v of
       JObj t ms \<Rightarrow>
         (let res = fold setResponseField ms empty_Response in
          Inr (if rs_Id res \<noteq> None then InResponse res else InNotification (fold setNotificationField ms empty_Notification)))
     | JNull \<Rightarrow> Inr (InNotification empty_Notification)
     | _ \<Rightarrow> Inl (Err ''json''))"

end
