(* ===== verification/BlockProcessing.thy ===== *)
theory BlockProcessing
  imports WalletManager
begin

text \<open>
  What \<open>processBlock\<close> does to the state. A successful run refines a simple ledger: the relation
  \<open>ledger_txs T T'\<close> credits every output whose script hash is in \<open>T\<close> (tracked before), may credit those in
  \<open>T'\<close> (tracked at the end: scripts derived while the block is processed) and no other, and debits every
  input. The invariants of the repository and of the script index are kept, the branches marked
  unreachable are unreachable, every transaction that is stored has a Merkle proof that verifies, and
  the subscribers of every touched script hash are notified.

  The hypothesis \<open>block_outputs V block\<close> says that a map \<open>V\<close> from outpoints to outputs covers the block: one
  outpoint stands for one output. It holds as long as transaction identifiers do not collide.
\<close>

section \<open>The ledger\<close>

type_synonym utxos = "txidVout \<rightharpoonup> utxoData2"

definition scriptHash :: "Output \<Rightarrow> hash32" where
  "scriptHash out = Sum256 (o_ScriptPubkey out)"

definition outputValue :: "Output \<Rightarrow> utxoData2" where
  "outputValue out = \<lparr>u2_Satoshi = o_Amount out, u2_ScriptPubkeyHash = scriptHash out\<rparr>"

definition outpoint :: "Input \<Rightarrow> txidVout" where
  "outpoint i = makeTxidVout (i_Txid i) (i_Vout i)"

inductive ledger_outs :: "hash32 set \<Rightarrow> hash32 set \<Rightarrow> hash32 \<Rightarrow> nat \<Rightarrow> Output list \<Rightarrow> utxos \<Rightarrow> utxos \<Rightarrow> bool"
  for T T' txid where
  no_outs: "ledger_outs T T' txid j [] m m"
| credit: "scriptHash out \<in> T' \<Longrightarrow>
    ledger_outs T T' txid (Suc j) outs (m(makeTxidVout txid (of_nat j) \<mapsto> outputValue out)) m' \<Longrightarrow>
    ledger_outs T T' txid j (out # outs) m m'"
| ignore: "scriptHash out \<notin> T \<Longrightarrow> ledger_outs T T' txid (Suc j) outs m m' \<Longrightarrow>
    ledger_outs T T' txid j (out # outs) m m'"

inductive_cases ledger_outs_NilE [elim!]: "ledger_outs T T' txid j [] m m'"
inductive_cases ledger_outs_ConsE: "ledger_outs T T' txid j (out # outs) m m'"

fun ledger_ins :: "Input list \<Rightarrow> utxos \<Rightarrow> utxos" where
  "ledger_ins [] m = m"
| "ledger_ins (i # is) m = ledger_ins is (m(outpoint i := None))"

inductive ledger_txs :: "hash32 set \<Rightarrow> hash32 set \<Rightarrow> Transaction list \<Rightarrow> utxos \<Rightarrow> utxos \<Rightarrow> bool" for T T' where
  no_txs: "ledger_txs T T' [] m m"
| one_tx: "ledger_outs T T' (Txid tx) 0 (t_Outputs tx) m m1 \<Longrightarrow>
    ledger_txs T T' txs (ledger_ins (t_Inputs tx) m1) m' \<Longrightarrow> ledger_txs T T' (tx # txs) m m'"

inductive_cases ledger_txs_NilE [elim!]: "ledger_txs T T' [] m m'"
inductive_cases ledger_txs_ConsE: "ledger_txs T T' (tx # txs) m m'"

lemma ledger_outs_mono:
  "ledger_outs T T' txid j outs m m' \<Longrightarrow> S \<subseteq> T \<Longrightarrow> T' \<subseteq> S' \<Longrightarrow> ledger_outs S S' txid j outs m m'"
  by (induction rule: ledger_outs.induct) (auto intro: ledger_outs.intros)

lemma ledger_txs_mono: "ledger_txs T T' txs m m' \<Longrightarrow> S \<subseteq> T \<Longrightarrow> T' \<subseteq> S' \<Longrightarrow> ledger_txs S S' txs m m'"
  by (induction rule: ledger_txs.induct) (auto intro: ledger_txs.intros ledger_outs_mono)

section \<open>Storing a transaction\<close>

definition txRow :: "Block \<Rightarrow> Transaction \<Rightarrow> nat \<Rightarrow> hash32 list \<Rightarrow> transactionData" where
  "txRow block tx i branch = \<lparr>td_Txid = Txid tx, td_BlockHash = Block_Hash block, td_Pos = int i,
     td_Raw = Transaction_Serialize tx, td_MerkleProof = concat branch\<rparr>"

definition addTx :: "transactionData \<Rightarrow> database \<Rightarrow> database" where
  "addTx r d = (if td_Txid r \<in> td_Txid ` set (tx_tbl d) then d else d\<lparr>tx_tbl := tx_tbl d @ [r]\<rparr>)"

definition addStx :: "hash32 \<times> hash32 \<Rightarrow> database \<Rightarrow> database" where
  "addStx p d = (if p \<in> set (stx_tbl d) then d else d\<lparr>stx_tbl := stx_tbl d @ [p]\<rparr>)"

text \<open>In a block without repeated identifiers the search finds each transaction where it is, so the branch
  marked unreachable is unreachable and storing succeeds.\<close>

lemma MerkleProof_at:
  assumes "distinct (TXIDs block)" "i < length (b_Transactions block)"
  obtains branch root where
    "MerkleProof (TXIDs block) (Txid (b_Transactions block ! i)) = Inr (int i, branch)"
    "merkleRoot (TXIDs block) = Some root" "checkMerkleProof (Txid (b_Transactions block ! i)) (int i) root branch"
proof -
  let ?txid = "Txid (b_Transactions block ! i)"
  have i: "i < length (TXIDs block)" "TXIDs block ! i = ?txid" using assms(2) by (simp_all add: TXIDs_def)
  then have "?txid \<in> set (TXIDs block)" by (metis nth_mem)
  from MerkleProof_complete [OF this] obtain n branch root where n:
    "MerkleProof (TXIDs block) ?txid = Inr (int n, branch)" "merkleRoot (TXIDs block) = Some root"
    "n < length (TXIDs block)" "TXIDs block ! n = ?txid" "checkMerkleProof ?txid (int n) root branch" by blast
  moreover have "n = i" using n(3,4) i assms(1) by (metis nth_eq_iff_index_eq)
  ultimately show thesis using that by blast
qed

lemma recordTx_eq:
  assumes "distinct (TXIDs block)" "i < length (b_Transactions block)"
  shows "\<exists>branch root. MerkleProof (TXIDs block) (Txid (b_Transactions block ! i)) = Inr (int i, branch)
    \<and> merkleRoot (TXIDs block) = Some root \<and> checkMerkleProof (Txid (b_Transactions block ! i)) (int i) root branch
    \<and> recordTx block (b_Transactions block ! i) (int i) sh s =
      (Inr (), s\<lparr>db := addStx (sh, Txid (b_Transactions block ! i)) (addTx (txRow block (b_Transactions block ! i) i branch) (db s))\<rparr>)"
proof (rule MerkleProof_at [OF assms])
  fix branch root
  assume b: "MerkleProof (TXIDs block) (Txid (b_Transactions block ! i)) = Inr (int i, branch)"
    "merkleRoot (TXIDs block) = Some root" "checkMerkleProof (Txid (b_Transactions block ! i)) (int i) root branch"
  have "recordTx block (b_Transactions block ! i) (int i) sh s =
      (Inr (), s\<lparr>db := addStx (sh, Txid (b_Transactions block ! i)) (addTx (txRow block (b_Transactions block ! i) i branch) (db s))\<rparr>)"
    by (simp add: recordTx_def b(1) insertTransaction_def insertScriptPubkeyTransaction_def addTx_def addStx_def txRow_def)
  with b show ?thesis by blast
qed

lemma addTx_simps [simp]:
  "wallet_tbl (addTx r d) = wallet_tbl d" "blockheader_tbl (addTx r d) = blockheader_tbl d"
  "unspent_tbl (addTx r d) = unspent_tbl d" "stx_tbl (addTx r d) = stx_tbl d" "spent_tbl (addTx r d) = spent_tbl d"
  "td_Txid ` set (tx_tbl (addTx r d)) = insert (td_Txid r) (td_Txid ` set (tx_tbl d))"
  by (auto simp: addTx_def)

lemma addStx_simps [simp]:
  "wallet_tbl (addStx p d) = wallet_tbl d" "blockheader_tbl (addStx p d) = blockheader_tbl d"
  "unspent_tbl (addStx p d) = unspent_tbl d" "tx_tbl (addStx p d) = tx_tbl d" "spent_tbl (addStx p d) = spent_tbl d"
  "set (stx_tbl (addStx p d)) = insert p (set (stx_tbl d))"
  by (auto simp: addStx_def)

lemma addTx_rows: "t \<in> set (tx_tbl (addTx r d)) \<Longrightarrow> t \<in> set (tx_tbl d) \<or> t = r"
  by (auto simp: addTx_def split: if_splits)

section \<open>The invariant\<close>

definition db_inv :: "database \<Rightarrow> bool" where
  "db_inv d \<longleftrightarrow> pk_inv d \<and> width_inv d \<and> ref_inv d"

definition wm_inv :: "crypto \<Rightarrow> utxos \<Rightarrow> 'z W_scheme \<Rightarrow> bool" where
  "wm_inv C V s \<longleftrightarrow> db_inv (db s) \<and> cache_inv s \<and> spk_inv C s \<and> unspent_map s \<subseteq>\<^sub>m V"

definition block_outputs :: "utxos \<Rightarrow> Block \<Rightarrow> bool" where
  "block_outputs V block \<longleftrightarrow>
     (\<forall>tx\<in>set (b_Transactions block). \<forall>j < length (t_Outputs tx).
        V (makeTxidVout (Txid tx) (of_nat j)) = Some (outputValue (t_Outputs tx ! j)))"

definition has_header :: "Block \<Rightarrow> database \<Rightarrow> bool" where
  "has_header block d \<longleftrightarrow> Block_Hash block \<in> bh_Hash ` set (blockheader_tbl d)"

lemma pk_addTx: "pk_inv d \<Longrightarrow> pk_inv (addTx r d)"
  by (auto simp: pk_inv_def addTx_def)

lemma pk_addStx: "pk_inv d \<Longrightarrow> pk_inv (addStx p d)"
  by (auto simp: pk_inv_def addStx_def)

lemma db_inv_record:
  assumes "db_inv d" "has_header block d" "td_Txid r = Txid tx" "td_BlockHash r = Block_Hash block"
  shows "db_inv (addStx (sh, Txid tx) (addTx r d))"
proof -
  have "width_inv (addStx (sh, Txid tx) (addTx r d))"
    using assms by (auto simp: db_inv_def width_inv_def list_all_iff dest: addTx_rows)
  moreover have "ref_inv (addStx (sh, Txid tx) (addTx r d))"
    using assms by (auto simp: db_inv_def ref_inv_def list_all_iff has_header_def dest!: addTx_rows)
  ultimately show ?thesis using assms(1) by (simp add: db_inv_def pk_addTx pk_addStx)
qed

lemma length_makeTxidVout [simp]: "length (makeTxidVout txid v) = length txid + 4"
  by (simp add: makeTxidVout_def)

lemma take_makeTxidVout [simp]: "length txid = 32 \<Longrightarrow> take 32 (makeTxidVout txid v) = txid"
  by (simp add: makeTxidVout_def)

lemma makeTxidVout_inj:
  "length a = 32 \<Longrightarrow> length b = 32 \<Longrightarrow> makeTxidVout a v = makeTxidVout b w \<longleftrightarrow> a = b \<and> v = w"
  using u32le.enc_inj [of v w] by (auto simp: makeTxidVout_def)

section \<open>What the steps leave alone\<close>

definition grows :: "'z W_scheme \<Rightarrow> 'z W_scheme \<Rightarrow> bool" where
  "grows s s' \<longleftrightarrow> blockheader_tbl (db s') = blockheader_tbl (db s) \<and> map wd_Hash (wallet_tbl (db s')) = map wd_Hash (wallet_tbl (db s))
     \<and> dom (scriptPubkeys s) \<subseteq> dom (scriptPubkeys s') \<and> map wl_hash (wallets s') = map wl_hash (wallets s)
     \<and> map wl_height (wallets s') = map wl_height (wallets s)
     \<and> bestHeader s' = bestHeader s \<and> bestHeaderHash s' = bestHeaderHash s \<and> net s' = net s
     \<and> shSubs s' = shSubs s \<and> hSubs s' = hSubs s \<and> sent s' = sent s \<and> calls s' = calls s"

lemma grows_refl [simp]: "grows s s"
  by (simp add: grows_def)

lemma grows_trans: "grows s t \<Longrightarrow> grows t u \<Longrightarrow> grows s u"
  unfolding grows_def by auto

lemma refillAccount_dom:
  assumes "refillAccount C a i s = (r, s')"
  shows "dom (scriptPubkeys s) \<subseteq> dom (scriptPubkeys s')"
  using assms
proof (cases rule: refillAccount_cases)
  case (derived ps n)
  then show ?thesis using addToSKIdx_from_mono [of "scriptPubkeys s"] by auto
qed simp_all

lemma refillWallet_grows:
  assumes "refillWallet C i s = (r, s')" "0 \<le> i" "nat i < length (wallets s)"
  shows "grows s s'"
proof -
  have "dom (scriptPubkeys s) \<subseteq> dom (scriptPubkeys s')"
    using assms by (cases rule: refillWallet_splitE) (use refillAccount_dom in blast)+
  moreover have "map wl_hash (wallets s') = map wl_hash (wallets s)" "map wl_height (wallets s') = map wl_height (wallets s)"
    using refillWallet_frame [OF assms(1)]
    by (auto simp: refill_frame_def list_all2_conv_all_nth same_wallet_def intro!: nth_equalityI)
  ultimately show ?thesis using refillWallet_frame [OF assms(1)] by (simp add: grows_def refill_frame_def)
qed

lemma list_update_map: "f y = f (xs ! i) \<Longrightarrow> map f (xs[i := y]) = map f xs"
  by (cases "i < length xs") (auto simp: map_update list_update_same_conv list_update_beyond)

lemma walletUpdateIndexes_grows:
  assumes "walletUpdateIndexes info s = (Inr (), s')" "entry_ok C (wallets s) h info"
  shows "grows s s'"
  using assms walletUpdateIndexes_eq [of info s]
  by (auto simp: entry_ok_def grows_def index_rows_of_def Let_def list_update_map split: if_splits)

lemma db_inv_wallet_tbl:
  assumes "db_inv d" "map wd_Hash rows = map wd_Hash (wallet_tbl d)"
  shows "db_inv (d\<lparr>wallet_tbl := rows\<rparr>)"
  using assms by (simp add: db_inv_def pk_inv_def width_inv_def ref_inv_def)

section \<open>One output\<close>

lemma db_inv_unspent:
  assumes "db_inv d" "length k = 36" "length h = 32" "take 32 k \<in> td_Txid ` set (tx_tbl d)"
    and "pk_inv (d\<lparr>unspent_tbl := unspent_tbl d @ [\<lparr>u_TxidVout = k, u_Satoshi = v, u_ScriptPubkeyHash = h\<rparr>]\<rparr>)"
  shows "db_inv (d\<lparr>unspent_tbl := unspent_tbl d @ [\<lparr>u_TxidVout = k, u_Satoshi = v, u_ScriptPubkeyHash = h\<rparr>]\<rparr>)"
  using assms by (auto simp: db_inv_def width_inv_def ref_inv_def)

text \<open>Inserting a credited output: the map gains it, the invariants stay.\<close>

lemma insert_credit:
  assumes inv: "wm_inv C V s" and V: "V k = Some (outputValue out)"
    and k: "length k = 36" "take 32 k \<in> td_Txid ` set (tx_tbl (db s))"
    and run: "insertUnspentOutput k (o_Amount out) (scriptHash out) s = (Inr (), s')"
  shows "wm_inv C V s' \<and> unspent_map s' = (unspent_map s)(k \<mapsto> outputValue out) \<and> grows s s'
    \<and> tx_tbl (db s') = tx_tbl (db s) \<and> stx_tbl (db s') = stx_tbl (db s) \<and> scriptPubkeys s' = scriptPubkeys s
    \<and> wallets s' = wallets s \<and> spent_tbl (db s') = spent_tbl (db s)"
proof -
  have st: "store_inv s" using inv by (simp add: wm_inv_def db_inv_def store_inv_def)
  have same: "unspent_map s k \<in> {None, Some \<lparr>u2_Satoshi = o_Amount out, u2_ScriptPubkeyHash = scriptHash out\<rparr>}"
    using inv V by (auto simp: wm_inv_def map_le_def outputValue_def dom_def)
  note ins = insertUnspentOutput_inv [OF st same run]
  note eqs = insertUnspentOutput_ok [OF run]
  have s': "s' = s\<lparr>db := db s', utxoIndex := utxoIndex s'\<rparr>"
    using run by (auto simp: insertUnspentOutput_def Let_def split: if_splits)
  have "length (scriptHash out) = 32" by (simp add: scriptHash_def)
  then have db: "db_inv (db s')"
    using inv k ins(1) eqs(1) db_inv_unspent [of "db s" k "scriptHash out" "o_Amount out"]
    by (auto simp: wm_inv_def store_inv_def split: if_splits)
  have um: "unspent_map s' = (unspent_map s)(k \<mapsto> outputValue out)" using ins(2) by (simp add: outputValue_def)
  have "spk_inv C s'" using inv by (subst s') (simp add: wm_inv_def spk_inv_def)
  moreover have "unspent_map s' \<subseteq>\<^sub>m V" using inv V unfolding um by (auto simp: wm_inv_def map_le_def)
  ultimately have "wm_inv C V s'" using db ins(1) by (simp add: wm_inv_def store_inv_def)
  moreover have "grows s s'" by (subst s') (simp add: grows_def eqs(1))
  moreover have "scriptPubkeys s' = scriptPubkeys s" "wallets s' = wallets s" by (subst s', simp)+
  ultimately show ?thesis using um eqs(1) by simp
qed

text \<open>The wallet moves on: only rows of the table \<open>wallet\<close>, the wallets and the index change.\<close>

lemma wallet_moves:
  assumes inv: "wm_inv C V s" and info: "scriptPubkeys s h = Some info"
    and upd: "walletUpdateIndexes info s = (Inr (), s1)" and fill: "refillWallet C (spi_walletIdx info) s1 = (r, s')"
  shows "wm_inv C V s' \<and> unspent_map s' = unspent_map s \<and> grows s s' \<and> tx_tbl (db s') = tx_tbl (db s)
    \<and> stx_tbl (db s') = stx_tbl (db s) \<and> unspent_tbl (db s') = unspent_tbl (db s) \<and> spent_tbl (db s') = spent_tbl (db s)"
proof -
  have e: "entry_ok C (wallets s) h info" using inv info by (auto simp: wm_inv_def spk_inv_def)
  have spk: "spk_inv C s" using inv by (simp add: wm_inv_def)
  from walletUpdateIndexes_ok [OF spk info] upd obtain rows where s1: "spk_inv C s1" "utxoIndex s1 = utxoIndex s"
      "length (wallets s1) = length (wallets s)" "db s1 = (db s)\<lparr>wallet_tbl := rows\<rparr>" "map wd_Hash rows = map wd_Hash (wallet_tbl (db s))"
    by auto
  have i: "0 \<le> spi_walletIdx info" "nat (spi_walletIdx info) < length (wallets s1)" using e s1(3) by (auto simp: entry_ok_def)
  have f: "db s' = db s1" "utxoIndex s' = utxoIndex s1" using refillWallet_frame [OF fill] by (simp_all add: refill_frame_def)
  have "grows s s'"
    using walletUpdateIndexes_grows [OF upd e] refillWallet_grows [OF fill i] by (rule grows_trans)
  moreover have "spk_inv C s'" by (rule refillWallet_spk_inv [OF s1(1) i fill])
  moreover have "db_inv (db s')" using inv s1(4,5) f by (simp add: wm_inv_def db_inv_wallet_tbl)
  moreover have um: "unspent_map s' = unspent_map s" using s1(4) f by (simp add: unspent_map_def)
  moreover have "cache_inv s'" using inv f s1(2) um by (simp add: wm_inv_def cache_inv_def)
  ultimately show ?thesis using inv s1(4) f by (simp add: wm_inv_def)
qed

text \<open>The stored transaction.\<close>

lemma record_moves:
  assumes inv: "wm_inv C V s" and hd: "has_header block (db s)"
    and d: "distinct (TXIDs block)" "i < length (b_Transactions block)"
    and run: "recordTx block (b_Transactions block ! i) (int i) sh s = (r, s')"
  shows "r = Inr () \<and> wm_inv C V s' \<and> unspent_map s' = unspent_map s \<and> grows s s' \<and> scriptPubkeys s' = scriptPubkeys s
    \<and> wallets s' = wallets s \<and> Txid (b_Transactions block ! i) \<in> td_Txid ` set (tx_tbl (db s'))
    \<and> set (stx_tbl (db s')) = insert (sh, Txid (b_Transactions block ! i)) (set (stx_tbl (db s)))
    \<and> unspent_tbl (db s') = unspent_tbl (db s) \<and> spent_tbl (db s') = spent_tbl (db s)"
proof -
  let ?tx = "b_Transactions block ! i"
  from recordTx_eq [OF d, of sh s] run obtain branch where
    s': "r = Inr ()" "s' = s\<lparr>db := addStx (sh, Txid ?tx) (addTx (txRow block ?tx i branch) (db s))\<rparr>" by auto
  have db: "db_inv (db s')"
    unfolding s'(2) using inv hd db_inv_record [of "db s" block "txRow block ?tx i branch" ?tx sh]
    by (simp add: wm_inv_def txRow_def)
  then show ?thesis
    using inv s' by (auto simp: wm_inv_def unspent_map_def cache_inv_def spk_inv_def grows_def txRow_def)
qed

lemma processOutput_step:
  assumes inv: "wm_inv C V s" and hd: "has_header block (db s)"
    and d: "distinct (TXIDs block)" "i < length (b_Transactions block)"
    and V: "V (makeTxidVout (Txid (b_Transactions block ! i)) v) = Some (outputValue out)"
    and run: "processOutput C block ht (b_Transactions block ! i) (int i) out v upd s = (Inr upd', s')"
  shows "wm_inv C V s' \<and> grows s s' \<and> spent_tbl (db s') = spent_tbl (db s)
    \<and> unspent_map s' = (if scriptHash out \<in> dom (scriptPubkeys s)
        then (unspent_map s)(makeTxidVout (Txid (b_Transactions block ! i)) v \<mapsto> outputValue out) else unspent_map s)
    \<and> set upd \<subseteq> set upd' \<and> set (stx_tbl (db s)) \<subseteq> set (stx_tbl (db s'))
    \<and> set (stx_tbl (db s')) \<subseteq> set (stx_tbl (db s)) \<union> set upd' \<times> UNIV"
proof (cases "scriptPubkeys s (scriptHash out)")
  case None
  with run have "upd' = upd" "s' = s" by (simp_all add: processOutput_def scriptHash_def)
  with inv None show ?thesis by auto
next
  case (Some info)
  let ?tx = "b_Transactions block ! i" and ?k = "makeTxidVout (Txid (b_Transactions block ! i)) v"
  obtain s1 s2 s3 where run1: "recordTx block ?tx (int i) (scriptHash out) s = (Inr (), s1)"
      "insertUnspentOutput ?k (o_Amount out) (scriptHash out) s1 = (Inr (), s2)"
      "walletUpdateIndexes info s2 = (Inr (), s3)" "refillWallet C (spi_walletIdx info) s3 = (Inr (), s')"
      and u: "upd' = List.insert (scriptHash out) upd"
    using run Some by (auto simp: processOutput_def scriptHash_def Let_def ebind_ok_iff)
  note m1 = record_moves [OF inv hd d run1(1)]
  then have k: "length ?k = 36" "take 32 ?k \<in> td_Txid ` set (tx_tbl (db s1))" "wm_inv C V s1" by auto
  note m2 = insert_credit [OF k(3) V k(1,2) run1(2)]
  have "wm_inv C V s2" "scriptPubkeys s2 (scriptHash out) = Some info" using m1 m2 Some by auto
  note m3 = wallet_moves [OF this run1(3,4)]
  have "grows s s'" using m1 m2 m3 by (blast intro: grows_trans)
  then show ?thesis using m1 m2 m3 u Some by auto
qed

section \<open>One input\<close>

lemma delete_debit:
  assumes inv: "wm_inv C V s" and run: "deleteUnspentOutput k ht s = (r, s')"
  shows "r = Inr () \<and> wm_inv C V s' \<and> unspent_map s' = (unspent_map s)(k := None) \<and> grows s s'
    \<and> scriptPubkeys s' = scriptPubkeys s \<and> tx_tbl (db s') = tx_tbl (db s) \<and> stx_tbl (db s') = stx_tbl (db s)"
proof -
  have st: "store_inv s" using inv by (simp add: wm_inv_def db_inv_def store_inv_def)
  note eqs = deleteUnspentOutput_ok [OF run]
  note del = deleteUnspentOutput_inv [OF st run]
  have s': "s' = s\<lparr>db := db s', utxoIndex := utxoIndex s'\<rparr>"
    using run by (auto simp: deleteUnspentOutput_def Let_def)
  have "width_inv (db s')" "ref_inv (db s')"
    using inv unfolding eqs(2) by (auto simp: wm_inv_def db_inv_def width_inv_def ref_inv_def list_all_iff spend_row_def)
  then have "db_inv (db s')" using del(1) by (simp add: db_inv_def store_inv_def)
  moreover have "unspent_map s' \<subseteq>\<^sub>m V" using inv del(2) by (auto simp: wm_inv_def map_le_def)
  moreover have "spk_inv C s'" using inv by (subst s') (simp add: wm_inv_def spk_inv_def)
  moreover have "grows s s'" by (subst s') (simp add: grows_def eqs(2))
  moreover have "scriptPubkeys s' = scriptPubkeys s" by (subst s') simp
  ultimately show ?thesis using del eqs by (simp add: wm_inv_def store_inv_def)
qed

lemma processInput_step:
  assumes inv: "wm_inv C V s" and hd: "has_header block (db s)"
    and d: "distinct (TXIDs block)" "i < length (b_Transactions block)"
    and run: "processInput block ht (b_Transactions block ! i) (int i) inp upd s = (r, s')"
  shows "\<exists>upd'. r = Inr upd' \<and> wm_inv C V s' \<and> grows s s' \<and> unspent_map s' = (unspent_map s)(outpoint inp := None)
    \<and> set upd \<subseteq> set upd' \<and> set (stx_tbl (db s)) \<subseteq> set (stx_tbl (db s'))
    \<and> set (stx_tbl (db s')) \<subseteq> set (stx_tbl (db s)) \<union> set upd' \<times> UNIV"
proof (cases "unspent_map s (outpoint inp)")
  case None
  have "store_inv s" using inv by (simp add: wm_inv_def db_inv_def store_inv_def)
  then have "selectUnspentOutput s (outpoint inp) = Inl ErrNotFound"
    using None by (simp add: selectUnspentOutput_eq)
  with run have "r = Inr upd" "s' = s" by (simp_all add: processInput_def outpoint_def)
  with inv None show ?thesis by auto
next
  case (Some u)
  let ?tx = "b_Transactions block ! i"
  have "store_inv s" using inv by (simp add: wm_inv_def db_inv_def store_inv_def)
  then have sel: "selectUnspentOutput s (outpoint inp) =
      Inr \<lparr>u_TxidVout = outpoint inp, u_Satoshi = u2_Satoshi u, u_ScriptPubkeyHash = u2_ScriptPubkeyHash u\<rparr>"
    using Some by (simp add: selectUnspentOutput_eq)
  obtain q s1 where r1: "recordTx block ?tx (int i) (u2_ScriptPubkeyHash u) s = (q, s1)" by force
  note m1 = record_moves [OF inv hd d r1]
  obtain q2 s2 where r2: "deleteUnspentOutput (outpoint inp) ht s1 = (q2, s2)" by force
  have "wm_inv C V s1" using m1 by blast
  note m2 = delete_debit [OF this r2]
  have "r = Inr (List.insert (u2_ScriptPubkeyHash u) upd)" "s' = s2"
    using run r1 r2 m1 m2 by (simp_all add: processInput_def Let_def sel flip: outpoint_def)
  then show ?thesis using m1 m2 by (auto intro: grows_trans)
qed

section \<open>A whole block\<close>

lemma processOutputs_steps:
  assumes hd: "has_header block (db s)" and d: "distinct (TXIDs block)" "i < length (b_Transactions block)"
    and V: "block_outputs V block"
  shows "wm_inv C V s \<Longrightarrow> drop j (t_Outputs (b_Transactions block ! i)) = outs \<Longrightarrow> has_header block (db s) \<Longrightarrow>
    processOutputs C block ht (b_Transactions block ! i) (int i) j outs upd s = (Inr upd', s') \<Longrightarrow>
    wm_inv C V s' \<and> grows s s' \<and> spent_tbl (db s') = spent_tbl (db s)
    \<and> ledger_outs (dom (scriptPubkeys s)) (dom (scriptPubkeys s')) (Txid (b_Transactions block ! i)) j outs (unspent_map s) (unspent_map s')
    \<and> set upd \<subseteq> set upd' \<and> set (stx_tbl (db s)) \<subseteq> set (stx_tbl (db s'))
    \<and> set (stx_tbl (db s')) \<subseteq> set (stx_tbl (db s)) \<union> set upd' \<times> UNIV"
proof (induction outs arbitrary: j upd s)
  case Nil
  then show ?case by (auto intro: ledger_outs.intros)
next
  case (Cons out outs)
  let ?tx = "b_Transactions block ! i"
  from Cons.prems(4) obtain u1 s1 where r1: "processOutput C block ht ?tx (int i) out (of_nat j) upd s = (Inr u1, s1)"
      "processOutputs C block ht ?tx (int i) (Suc j) outs u1 s1 = (Inr upd', s')"
    by (auto simp: ebind_ok_iff)
  have j: "j < length (t_Outputs ?tx)" "t_Outputs ?tx ! j = out" "drop (Suc j) (t_Outputs ?tx) = outs"
    using Cons.prems(2) by (metis drop_all list.distinct(1) not_less, metis nth_via_drop, metis drop_Suc list.sel(3) tl_drop)
  then have "V (makeTxidVout (Txid ?tx) (of_nat j)) = Some (outputValue out)"
    using V d(2) unfolding block_outputs_def by (metis nth_mem)
  note m1 = processOutput_step [OF Cons.prems(1,3) d this r1(1)]
  then have hd1: "has_header block (db s1)" using Cons.prems(3) by (simp add: has_header_def grows_def)
  from m1 Cons.IH [OF _ j(3) hd1 r1(2)] have m2: "wm_inv C V s' \<and> grows s1 s' \<and> spent_tbl (db s') = spent_tbl (db s1)
    \<and> ledger_outs (dom (scriptPubkeys s1)) (dom (scriptPubkeys s')) (Txid ?tx) (Suc j) outs (unspent_map s1) (unspent_map s')
    \<and> set u1 \<subseteq> set upd' \<and> set (stx_tbl (db s1)) \<subseteq> set (stx_tbl (db s'))
    \<and> set (stx_tbl (db s')) \<subseteq> set (stx_tbl (db s1)) \<union> set upd' \<times> UNIV" by blast
  have sub: "dom (scriptPubkeys s) \<subseteq> dom (scriptPubkeys s1)" "dom (scriptPubkeys s1) \<subseteq> dom (scriptPubkeys s')"
    using m1 m2 by (simp_all add: grows_def)
  then have l: "ledger_outs (dom (scriptPubkeys s)) (dom (scriptPubkeys s')) (Txid ?tx) (Suc j) outs (unspent_map s1) (unspent_map s')"
    using m2 ledger_outs_mono by blast
  have "ledger_outs (dom (scriptPubkeys s)) (dom (scriptPubkeys s')) (Txid ?tx) j (out # outs) (unspent_map s) (unspent_map s')"
  proof (cases "scriptHash out \<in> dom (scriptPubkeys s)")
    case True
    with l m1 sub show ?thesis by (intro ledger_outs.credit) auto
  next
    case False
    with l m1 show ?thesis by (intro ledger_outs.ignore) auto
  qed
  moreover have "grows s s'" using m1 m2 by (blast intro: grows_trans)
  ultimately show ?case using m1 m2 by auto
qed

lemma processInputs_steps:
  assumes d: "distinct (TXIDs block)" "i < length (b_Transactions block)"
  shows "wm_inv C V s \<Longrightarrow> has_header block (db s) \<Longrightarrow>
    processInputs block ht (b_Transactions block ! i) (int i) inps upd s = (r, s') \<Longrightarrow>
    \<exists>upd'. r = Inr upd' \<and> wm_inv C V s' \<and> grows s s' \<and> unspent_map s' = ledger_ins inps (unspent_map s)
    \<and> set upd \<subseteq> set upd' \<and> set (stx_tbl (db s)) \<subseteq> set (stx_tbl (db s'))
    \<and> set (stx_tbl (db s')) \<subseteq> set (stx_tbl (db s)) \<union> set upd' \<times> UNIV"
proof (induction inps arbitrary: upd s)
  case Nil
  then show ?case by auto
next
  case (Cons inp inps)
  let ?tx = "b_Transactions block ! i"
  obtain q s1 where r1: "processInput block ht ?tx (int i) inp upd s = (q, s1)" by force
  from processInput_step [OF Cons.prems(1,2) d r1] obtain u1 where m1: "q = Inr u1" "wm_inv C V s1" "grows s s1"
      "unspent_map s1 = (unspent_map s)(outpoint inp := None)" "set upd \<subseteq> set u1" "set (stx_tbl (db s)) \<subseteq> set (stx_tbl (db s1))"
      "set (stx_tbl (db s1)) \<subseteq> set (stx_tbl (db s)) \<union> set u1 \<times> UNIV" by blast
  have hd1: "has_header block (db s1)" using Cons.prems(2) m1(3) by (simp add: has_header_def grows_def)
  have "processInputs block ht ?tx (int i) inps u1 s1 = (r, s')" using Cons.prems(3) r1 m1(1) by simp
  from Cons.IH [OF m1(2) hd1 this] obtain u2 where m2: "r = Inr u2" "wm_inv C V s'" "grows s1 s'"
      "unspent_map s' = ledger_ins inps (unspent_map s1)" "set u1 \<subseteq> set u2" "set (stx_tbl (db s1)) \<subseteq> set (stx_tbl (db s'))"
      "set (stx_tbl (db s')) \<subseteq> set (stx_tbl (db s1)) \<union> set u2 \<times> UNIV" by blast
  have "grows s s'" using m1(3) m2(3) by (rule grows_trans)
  then show ?case using m1 m2 by (intro exI [of _ u2]) auto
qed

lemma touched_trans:
  "B \<subseteq> A \<union> set u \<times> UNIV \<Longrightarrow> D \<subseteq> B \<union> set v \<times> UNIV \<Longrightarrow> set u \<subseteq> set v \<Longrightarrow> D \<subseteq> A \<union> set v \<times> UNIV"
  by fast

lemma processTxs_steps:
  assumes d: "distinct (TXIDs block)" and V: "block_outputs V block"
  shows "wm_inv C V s \<Longrightarrow> has_header block (db s) \<Longrightarrow> drop i (b_Transactions block) = txs \<Longrightarrow>
    processTxs C block ht i txs upd s = (Inr upd', s') \<Longrightarrow>
    wm_inv C V s' \<and> grows s s'
    \<and> ledger_txs (dom (scriptPubkeys s)) (dom (scriptPubkeys s')) txs (unspent_map s) (unspent_map s')
    \<and> set upd \<subseteq> set upd' \<and> set (stx_tbl (db s)) \<subseteq> set (stx_tbl (db s'))
    \<and> set (stx_tbl (db s')) \<subseteq> set (stx_tbl (db s)) \<union> set upd' \<times> UNIV"
proof (induction txs arbitrary: i upd s)
  case Nil
  then show ?case by (auto intro: ledger_txs.intros)
next
  case (Cons tx txs)
  have i: "i < length (b_Transactions block)" "b_Transactions block ! i = tx" "drop (Suc i) (b_Transactions block) = txs"
    using Cons.prems(3) by (metis drop_all list.distinct(1) not_less, metis nth_via_drop, metis drop_Suc list.sel(3) tl_drop)
  from Cons.prems(4) obtain u1 s1 u2 s2 where r: "processOutputs C block ht tx (int i) 0 (t_Outputs tx) upd s = (Inr u1, s1)"
      "processInputs block ht tx (int i) (t_Inputs tx) u1 s1 = (Inr u2, s2)" "processTxs C block ht (Suc i) txs u2 s2 = (Inr upd', s')"
    by (auto simp: ebind_ok_iff)
  from processOutputs_steps [OF Cons.prems(2) d i(1) V Cons.prems(1) _ Cons.prems(2), of 0] r(1) i(2)
  have m1: "wm_inv C V s1 \<and> grows s s1
    \<and> ledger_outs (dom (scriptPubkeys s)) (dom (scriptPubkeys s1)) (Txid tx) 0 (t_Outputs tx) (unspent_map s) (unspent_map s1)
    \<and> set upd \<subseteq> set u1 \<and> set (stx_tbl (db s)) \<subseteq> set (stx_tbl (db s1))
    \<and> set (stx_tbl (db s1)) \<subseteq> set (stx_tbl (db s)) \<union> set u1 \<times> UNIV" by simp
  have hd1: "has_header block (db s1)" using m1 Cons.prems(2) by (simp add: has_header_def grows_def)
  have w1: "wm_inv C V s1" using m1 by blast
  from processInputs_steps [OF d i(1) w1 hd1, unfolded i(2), OF r(2)]
  have m2: "wm_inv C V s2 \<and> grows s1 s2 \<and> unspent_map s2 = ledger_ins (t_Inputs tx) (unspent_map s1)
    \<and> set u1 \<subseteq> set u2 \<and> set (stx_tbl (db s1)) \<subseteq> set (stx_tbl (db s2))
    \<and> set (stx_tbl (db s2)) \<subseteq> set (stx_tbl (db s1)) \<union> set u2 \<times> UNIV" by auto
  have hd2: "has_header block (db s2)" using m2 hd1 by (simp add: has_header_def grows_def)
  from Cons.IH [OF _ hd2 i(3) r(3)] m2 have m3: "wm_inv C V s' \<and> grows s2 s'
    \<and> ledger_txs (dom (scriptPubkeys s2)) (dom (scriptPubkeys s')) txs (unspent_map s2) (unspent_map s')
    \<and> set u2 \<subseteq> set upd' \<and> set (stx_tbl (db s2)) \<subseteq> set (stx_tbl (db s'))
    \<and> set (stx_tbl (db s')) \<subseteq> set (stx_tbl (db s2)) \<union> set upd' \<times> UNIV" by blast
  have sub: "dom (scriptPubkeys s) \<subseteq> dom (scriptPubkeys s1)" "dom (scriptPubkeys s1) \<subseteq> dom (scriptPubkeys s2)"
      "dom (scriptPubkeys s2) \<subseteq> dom (scriptPubkeys s')"
    using m1 m2 m3 by (simp_all add: grows_def)
  have l: "ledger_txs (dom (scriptPubkeys s)) (dom (scriptPubkeys s')) (tx # txs) (unspent_map s) (unspent_map s')"
  proof (rule ledger_txs.one_tx)
    show "ledger_outs (dom (scriptPubkeys s)) (dom (scriptPubkeys s')) (Txid tx) 0 (t_Outputs tx) (unspent_map s) (unspent_map s1)"
      by (rule ledger_outs_mono [of "dom (scriptPubkeys s)" "dom (scriptPubkeys s1)"]) (use m1 sub in auto)
    show "ledger_txs (dom (scriptPubkeys s)) (dom (scriptPubkeys s')) txs (ledger_ins (t_Inputs tx) (unspent_map s1)) (unspent_map s')"
      by (rule ledger_txs_mono [of "dom (scriptPubkeys s2)" "dom (scriptPubkeys s')"]) (use m2 m3 sub in auto)
  qed
  have "grows s s1" "grows s1 s2" "grows s2 s'" using m1 m2 m3 by blast+
  then have "grows s s'" by (metis grows_trans)
  have "set (stx_tbl (db s1)) \<subseteq> set (stx_tbl (db s)) \<union> set u1 \<times> UNIV"
      "set (stx_tbl (db s2)) \<subseteq> set (stx_tbl (db s1)) \<union> set u2 \<times> UNIV" "set u1 \<subseteq> set u2"
    using m1 m2 by blast+
  then have "set (stx_tbl (db s2)) \<subseteq> set (stx_tbl (db s)) \<union> set u2 \<times> UNIV" by (rule touched_trans)
  moreover have "set (stx_tbl (db s')) \<subseteq> set (stx_tbl (db s2)) \<union> set upd' \<times> UNIV" "set u2 \<subseteq> set upd'"
    using m3 by blast+
  ultimately have "set (stx_tbl (db s')) \<subseteq> set (stx_tbl (db s)) \<union> set upd' \<times> UNIV" by (rule touched_trans)
  moreover note l \<open>grows s s'\<close>
  ultimately show ?case using m1 m2 m3 by blast
qed

section \<open>Heights and notifications\<close>

lemma updateHeights_steps:
  assumes "wm_inv C V s" "set is \<subseteq> {..<length (wallets s)}"
  shows "\<exists>s'. updateHeights ht is s = (Inr (), s') \<and> wm_inv C V s' \<and> unspent_map s' = unspent_map s
    \<and> scriptPubkeys s' = scriptPubkeys s \<and> stx_tbl (db s') = stx_tbl (db s) \<and> tx_tbl (db s') = tx_tbl (db s)
    \<and> blockheader_tbl (db s') = blockheader_tbl (db s) \<and> shSubs s' = shSubs s \<and> sent s' = sent s
    \<and> unspent_tbl (db s') = unspent_tbl (db s) \<and> spent_tbl (db s') = spent_tbl (db s)
    \<and> bestHeader s' = bestHeader s \<and> bestHeaderHash s' = bestHeaderHash s \<and> hSubs s' = hSubs s \<and> net s' = net s \<and> calls s' = calls s
    \<and> length (wallets s') = length (wallets s)
    \<and> (\<forall>i < length (wallets s). wl_height (wallets s' ! i) =
          (if i \<in> set is then max ht (wl_height (wallets s ! i)) else wl_height (wallets s ! i)))"
  using assms
proof (induction "is" arbitrary: s)
  case Nil
  then show ?case by simp
next
  case (Cons i "is")
  let ?w = "wallets s ! i"
  show ?case
  proof (cases "wl_height ?w \<ge> ht")
    case True
    have sub: "set is \<subseteq> {..<length (wallets s)}" using Cons.prems(2) by simp
    from Cons.IH [OF Cons.prems(1) sub] True show ?thesis by (auto simp: max_def)
  next
    case False
    let ?rows = "map (\<lambda>r. if wd_Hash r = wl_hash ?w then r\<lparr>wd_Height := ht\<rparr> else r) (wallet_tbl (db s))"
    let ?s1 = "updWallet (int i) (\<lambda>w. w\<lparr>wl_height := ht\<rparr>) (s\<lparr>db := (db s)\<lparr>wallet_tbl := ?rows\<rparr>\<rparr>)"
    have i: "i < length (wallets s)" using Cons.prems(2) by simp
    have sc: "script_at C (w\<lparr>wl_height := ht\<rparr>) a j = script_at C w a j" "nDerived a (w\<lparr>wl_height := ht\<rparr>) = nDerived a w" for w a j
      by (simp_all add: script_at_def nDerived_def)
    have "db_inv ((db s)\<lparr>wallet_tbl := ?rows\<rparr>)"
      using Cons.prems(1) by (intro db_inv_wallet_tbl) (auto simp: wm_inv_def)
    moreover have "spk_inv C ?s1"
      using Cons.prems(1) i unfolding wm_inv_def spk_inv_def
      by (auto simp: entry_ok_def covered_def nth_list_update sc)
    ultimately have "wm_inv C V ?s1"
      using Cons.prems(1) by (simp add: wm_inv_def cache_inv_def unspent_map_def)
    moreover have "set is \<subseteq> {..<length (wallets ?s1)}" using Cons.prems(2) by simp
    ultimately obtain s' where s': "updateHeights ht is ?s1 = (Inr (), s') \<and> wm_inv C V s' \<and> unspent_map s' = unspent_map ?s1
      \<and> scriptPubkeys s' = scriptPubkeys ?s1 \<and> stx_tbl (db s') = stx_tbl (db ?s1) \<and> tx_tbl (db s') = tx_tbl (db ?s1)
      \<and> blockheader_tbl (db s') = blockheader_tbl (db ?s1) \<and> shSubs s' = shSubs ?s1 \<and> sent s' = sent ?s1
      \<and> unspent_tbl (db s') = unspent_tbl (db ?s1) \<and> spent_tbl (db s') = spent_tbl (db ?s1)
      \<and> bestHeader s' = bestHeader ?s1 \<and> bestHeaderHash s' = bestHeaderHash ?s1 \<and> hSubs s' = hSubs ?s1 \<and> net s' = net ?s1 \<and> calls s' = calls ?s1
      \<and> length (wallets s') = length (wallets ?s1)
      \<and> (\<forall>i < length (wallets ?s1). wl_height (wallets s' ! i) =
            (if i \<in> set is then max ht (wl_height (wallets ?s1 ! i)) else wl_height (wallets ?s1 ! i)))"
      using Cons.IH [of ?s1] by blast
    then show ?thesis
      using False i by (auto simp: updateWalletHeight_def unspent_map_def nth_list_update max_def)
  qed
qed

text \<open>The events sent for a list of script hashes, each with the status of its history.\<close>

definition statusEvents :: "'z W_scheme \<Rightarrow> hash32 \<Rightarrow> event list" where
  "statusEvents s sh =
     (case GetScriptHashStatus s sh of
        Inl _ \<Rightarrow> []
      | Inr status \<Rightarrow> map (\<lambda>(_, cb). StatusEvent cb (case status of None \<Rightarrow> replicate 32 0 | Some h \<Rightarrow> h)) (shSubscribers sh s))"

lemma GetScriptHashStatus_cong: "db s' = db s \<Longrightarrow> GetScriptHashStatus s' sh = GetScriptHashStatus s sh"
  by (simp add: GetScriptHashStatus_def selectScriptHashHistory_def tx_join_header_def)

lemma statusEvents_cong:
  assumes "db s' = db s" "shSubs s' = shSubs s"
  shows "statusEvents s' = statusEvents s"
proof
  fix sh
  have "shSubscribers sh s' = shSubscribers sh s" using assms(2) by (simp add: shSubscribers_def)
  then show "statusEvents s' sh = statusEvents s sh"
    unfolding statusEvents_def GetScriptHashStatus_cong [OF assms(1)] by (rule ssubst) (rule refl)
qed

lemma notify_status:
  "notifyScriptHashSubscribers sh st s = s\<lparr>sent := sent s @ map (\<lambda>(_, cb). StatusEvent cb st) (shSubscribers sh s)\<rparr>"
  by (simp add: notifyScriptHashSubscribers_def)

lemma notifyUpdated_steps:
  "notifyUpdated shs s = (Inr (), s') \<Longrightarrow>
   s' = s\<lparr>sent := sent s @ concat (map (statusEvents s) shs)\<rparr> \<and> (\<forall>sh\<in>set shs. \<exists>st. GetScriptHashStatus s sh = Inr st)"
proof (induction shs arbitrary: s)
  case (Cons sh shs)
  then obtain st where st: "GetScriptHashStatus s sh = Inr st"
      "notifyUpdated shs (notifyScriptHashSubscribers sh (case st of None \<Rightarrow> replicate 32 0 | Some h \<Rightarrow> h) s) = (Inr (), s')"
    by (auto simp: ebind_ok_iff)
  have e: "statusEvents (s\<lparr>sent := x\<rparr>) = statusEvents s" "GetScriptHashStatus (s\<lparr>sent := x\<rparr>) = GetScriptHashStatus s" for x
    by (auto intro!: statusEvents_cong GetScriptHashStatus_cong)
  have s1: "notifyScriptHashSubscribers sh (case st of None \<Rightarrow> replicate 32 0 | Some h \<Rightarrow> h) s = s\<lparr>sent := sent s @ statusEvents s sh\<rparr>"
    by (simp add: notify_status statusEvents_def st(1))
  from Cons.IH [OF st(2)] show ?case unfolding s1 e by (simp add: st(1))
qed simp

text \<open>A successful \<open>processBlock\<close>, taken apart.\<close>

lemma processBlock_steps:
  assumes inv: "wm_inv C V s" and hd: "has_header block (db s)" and d: "distinct (TXIDs block)"
    and V: "block_outputs V block" and run: "processBlock C block ht s = (Inr (), s')"
  shows "\<exists>upd. wm_inv C V s'
    \<and> ledger_txs (dom (scriptPubkeys s)) (dom (scriptPubkeys s')) (b_Transactions block) (unspent_map s) (unspent_map s')
    \<and> dom (scriptPubkeys s) \<subseteq> dom (scriptPubkeys s')
    \<and> set (stx_tbl (db s)) \<subseteq> set (stx_tbl (db s')) \<and> set (stx_tbl (db s')) \<subseteq> set (stx_tbl (db s)) \<union> set upd \<times> UNIV
    \<and> blockheader_tbl (db s') = blockheader_tbl (db s) \<and> shSubs s' = shSubs s \<and> hSubs s' = hSubs s
    \<and> bestHeader s' = bestHeader s \<and> bestHeaderHash s' = bestHeaderHash s \<and> net s' = net s \<and> calls s' = calls s
    \<and> sent s' = sent s @ concat (map (statusEvents s') upd)
    \<and> map wl_height (wallets s') = map (\<lambda>w. max ht (wl_height w)) (wallets s)"
proof -
  obtain upd s1 s2 where r: "processTxs C block ht 0 (b_Transactions block) [] s = (Inr upd, s1)"
      "updateHeights ht [0..<length (wallets s1)] s1 = (Inr (), s2)" "notifyUpdated upd s2 = (Inr (), s')"
    using run by (auto simp: processBlock_def ebind_ok_iff)
  have m1: "wm_inv C V s1 \<and> grows s s1
    \<and> ledger_txs (dom (scriptPubkeys s)) (dom (scriptPubkeys s1)) (b_Transactions block) (unspent_map s) (unspent_map s1)
    \<and> set (stx_tbl (db s)) \<subseteq> set (stx_tbl (db s1)) \<and> set (stx_tbl (db s1)) \<subseteq> set (stx_tbl (db s)) \<union> set upd \<times> UNIV"
    using processTxs_steps [OF d V inv hd _ r(1)] by simp
  then have "wm_inv C V s1" by blast
  from updateHeights_steps [OF this, of "[0..<length (wallets s1)]" ht] r(2)
  have m2: "wm_inv C V s2" "unspent_map s2 = unspent_map s1" "scriptPubkeys s2 = scriptPubkeys s1"
      "stx_tbl (db s2) = stx_tbl (db s1)" "blockheader_tbl (db s2) = blockheader_tbl (db s1)" "shSubs s2 = shSubs s1"
      "sent s2 = sent s1" "bestHeader s2 = bestHeader s1" "bestHeaderHash s2 = bestHeaderHash s1" "hSubs s2 = hSubs s1"
      "net s2 = net s1" "calls s2 = calls s1" "length (wallets s2) = length (wallets s1)"
      "\<forall>i < length (wallets s1). wl_height (wallets s2 ! i) = max ht (wl_height (wallets s1 ! i))"
    by (auto simp: subset_iff)
  have s': "s' = s2\<lparr>sent := sent s2 @ concat (map (statusEvents s2) upd)\<rparr>" using notifyUpdated_steps [OF r(3)] by blast
  have m3: "db s' = db s2" "utxoIndex s' = utxoIndex s2" "wallets s' = wallets s2" "scriptPubkeys s' = scriptPubkeys s2"
      "shSubs s' = shSubs s2" "hSubs s' = hSubs s2" "bestHeader s' = bestHeader s2" "bestHeaderHash s' = bestHeaderHash s2"
      "net s' = net s2" "calls s' = calls s2" "sent s' = sent s2 @ concat (map (statusEvents s2) upd)"
    by (subst s', simp)+
  have ev: "statusEvents s' = statusEvents s2"
    using statusEvents_cong [OF m3(1,5)] by blast
  have um: "unspent_map s' = unspent_map s2" using m3(1) by (simp add: unspent_map_def)
  have "wm_inv C V s'"
    using m2(1) m3 um by (simp add: wm_inv_def cache_inv_def spk_inv_def)
  moreover have "map wl_height (wallets s') = map (\<lambda>w. max ht (wl_height w)) (wallets s)"
  proof -
    have "map wl_height (wallets s') = map (\<lambda>x. max ht x) (map wl_height (wallets s1))"
      using m2(13,14) m3(3) by (simp add: list_eq_iff_nth_eq)
    also have "\<dots> = map (\<lambda>x. max ht x) (map wl_height (wallets s))" using m1 by (simp add: grows_def)
    finally show ?thesis by (simp add: comp_def)
  qed
  moreover have "sent s' = sent s @ concat (map (statusEvents s') upd)"
    unfolding ev m3(11) m2(7) using m1 by (simp add: grows_def)
  moreover have "ledger_txs (dom (scriptPubkeys s)) (dom (scriptPubkeys s')) (b_Transactions block) (unspent_map s) (unspent_map s')"
    unfolding um m2(2,3) m3(4) using m1 by blast
  moreover have "dom (scriptPubkeys s) \<subseteq> dom (scriptPubkeys s')" unfolding m3(4) m2(3) using m1 by (simp add: grows_def)
  moreover have "set (stx_tbl (db s)) \<subseteq> set (stx_tbl (db s'))" "set (stx_tbl (db s')) \<subseteq> set (stx_tbl (db s)) \<union> set upd \<times> UNIV"
    unfolding m3(1) m2(4) using m1 by blast+
  moreover have "blockheader_tbl (db s') = blockheader_tbl (db s)" "shSubs s' = shSubs s" "hSubs s' = hSubs s"
      "bestHeader s' = bestHeader s" "bestHeaderHash s' = bestHeaderHash s" "net s' = net s" "calls s' = calls s"
    using m1 m2 m3 by (simp_all add: grows_def)
  ultimately show ?thesis by blast
qed

section \<open>What the ledger relation says of one outpoint\<close>

definition created :: "Transaction list \<Rightarrow> txidVout \<Rightarrow> Output \<Rightarrow> bool" where
  "created txs k out \<longleftrightarrow> (\<exists>tx\<in>set txs. \<exists>j < length (t_Outputs tx).
     k = makeTxidVout (Txid tx) (of_nat j) \<and> out = t_Outputs tx ! j)"

definition spent :: "Transaction list \<Rightarrow> txidVout \<Rightarrow> bool" where
  "spent txs k \<longleftrightarrow> (\<exists>tx\<in>set txs. \<exists>inp\<in>set (t_Inputs tx). outpoint inp = k)"

text \<open>A transaction spends outputs of earlier blocks or of earlier transactions of its block only.\<close>

fun in_order :: "Transaction list \<Rightarrow> bool" where
  "in_order [] = True"
| "in_order (tx # txs) = ((\<forall>inp\<in>set (t_Inputs tx). length (i_Txid inp) = 32 \<and> (\<forall>tx'\<in>set txs. i_Txid inp \<noteq> Txid tx')) \<and> in_order txs)"

lemma created_Cons: "created (tx # txs) k out \<longleftrightarrow>
    (\<exists>j < length (t_Outputs tx). k = makeTxidVout (Txid tx) (of_nat j) \<and> out = t_Outputs tx ! j) \<or> created txs k out"
  by (auto simp: created_def)

lemma created_head:
  "i < length (t_Outputs tx) \<Longrightarrow> k = makeTxidVout (Txid tx) (of_nat (0 + i)) \<Longrightarrow> created (tx # txs) k (t_Outputs tx ! i)"
  by (auto simp: created_def)

lemma spent_Cons: "spent (tx # txs) k \<longleftrightarrow> (\<exists>inp\<in>set (t_Inputs tx). outpoint inp = k) \<or> spent txs k"
  by (auto simp: spent_def)

lemma ledger_outs_frame:
  "ledger_outs T T' txid j outs m m' \<Longrightarrow>
   (\<And>i. i < length outs \<Longrightarrow> k = makeTxidVout txid (of_nat (j + i)) \<Longrightarrow> scriptHash (outs ! i) \<notin> T') \<Longrightarrow> m' k = m k"
proof (induction rule: ledger_outs.induct)
  case (credit out j outs m m')
  have "k \<noteq> makeTxidVout txid (of_nat j)" using credit.hyps(1) credit.prems [of 0] by auto
  with credit.IH credit.prems [of "Suc _"] show ?case by simp
next
  case (ignore out j outs m m')
  with ignore.prems [of "Suc _"] show ?case by simp
qed simp

lemma ledger_outs_keeps:
  "ledger_outs T T' txid j outs m m' \<Longrightarrow>
   (\<And>i. i < length outs \<Longrightarrow> k = makeTxidVout txid (of_nat (j + i)) \<Longrightarrow> outputValue (outs ! i) = v) \<Longrightarrow>
   m k = Some v \<Longrightarrow> m' k = Some v"
proof (induction rule: ledger_outs.induct)
  case (credit out j outs m m')
  have "(m(makeTxidVout txid (of_nat j) \<mapsto> outputValue out)) k = Some v" using credit.prems(1) [of 0] credit.prems(2) by auto
  with credit.IH credit.prems(1) [of "Suc _"] show ?case by simp
next
  case (ignore out j outs m m')
  with ignore.prems(1) [of "Suc _"] show ?case by simp
qed simp

lemma ledger_outs_credits:
  "ledger_outs T T' txid j outs m m' \<Longrightarrow>
   (\<And>i. i < length outs \<Longrightarrow> k = makeTxidVout txid (of_nat (j + i)) \<Longrightarrow> outputValue (outs ! i) = v) \<Longrightarrow>
   i < length outs \<Longrightarrow> k = makeTxidVout txid (of_nat (j + i)) \<Longrightarrow> scriptHash (outs ! i) \<in> T \<Longrightarrow> m' k = Some v"
proof (induction arbitrary: i rule: ledger_outs.induct)
  case (credit out j outs m m')
  show ?case
  proof (cases i)
    case 0
    then have "(m(makeTxidVout txid (of_nat j) \<mapsto> outputValue out)) k = Some v"
      using credit.prems(1) [of 0] credit.prems(3) by simp
    with ledger_outs_keeps [OF credit.hyps(2), of k v] credit.prems(1) [of "Suc _"] show ?thesis by simp
  next
    case (Suc i')
    with credit.IH [of i'] credit.prems(1) [of "Suc _"] credit.prems(2-4) show ?thesis by simp
  qed
next
  case (ignore out j outs m m')
  then obtain i' where "i = Suc i'" by (cases i) auto
  with ignore.IH [of i'] ignore.prems(1) [of "Suc _"] ignore.prems(2-4) show ?case by simp
qed simp

lemma ledger_ins_eq: "ledger_ins inps m k = (if k \<in> outpoint ` set inps then None else m k)"
  by (induction inps arbitrary: m) auto

lemma ledger_txs_frame:
  "ledger_txs T T' txs m m' \<Longrightarrow> \<forall>out. created txs k out \<longrightarrow> scriptHash out \<notin> T' \<Longrightarrow> \<not> spent txs k \<Longrightarrow> m' k = m k"
proof (induction rule: ledger_txs.induct)
  case (one_tx tx m m1 txs m')
  have "m1 k = m k" 
    by (rule ledger_outs_frame [OF one_tx.hyps(1)]) (use one_tx.prems(1) created_head in blast)
  moreover have "k \<notin> outpoint ` set (t_Inputs tx)" using one_tx.prems(2) by (auto simp: spent_Cons)
  ultimately show ?case using one_tx.IH one_tx.prems by (simp add: created_Cons spent_Cons ledger_ins_eq)
qed simp

lemma ledger_txs_none:
  "ledger_txs T T' txs m m' \<Longrightarrow> \<nexists>out. created txs k out \<Longrightarrow> m k = None \<Longrightarrow> m' k = None"
proof (induction rule: ledger_txs.induct)
  case (one_tx tx m m1 txs m')
  have "m1 k = m k" 
    by (rule ledger_outs_frame [OF one_tx.hyps(1)]) (use one_tx.prems(1) created_head in blast)
  then show ?case using one_tx.IH one_tx.prems by (simp add: created_Cons ledger_ins_eq)
qed simp

lemma ledger_txs_spent:
  "ledger_txs T T' txs m m' \<Longrightarrow> in_order txs \<Longrightarrow> spent txs k \<Longrightarrow> m' k = None"
proof (induction rule: ledger_txs.induct)
  case (one_tx tx m m1 txs m')
  show ?case
  proof (cases "spent txs k")
    case True
    with one_tx show ?thesis by simp
  next
    case False
    with one_tx.prems(2) obtain inp where inp: "inp \<in> set (t_Inputs tx)" "outpoint inp = k" by (auto simp: spent_Cons)
    then have "\<not> created txs k out" for out
      using one_tx.prems(1) by (auto simp: created_def outpoint_def makeTxidVout_inj)
    moreover have "ledger_ins (t_Inputs tx) m1 k = None" using inp by (auto simp: ledger_ins_eq)
    ultimately show ?thesis using ledger_txs_none [OF one_tx.hyps(2)] by blast
  qed
qed (simp add: spent_def)

lemma ledger_txs_keeps:
  "ledger_txs T T' txs m m' \<Longrightarrow> \<forall>out. created txs k out \<longrightarrow> outputValue out = v \<Longrightarrow> \<not> spent txs k \<Longrightarrow>
   m k = Some v \<Longrightarrow> m' k = Some v"
proof (induction rule: ledger_txs.induct)
  case (one_tx tx m m1 txs m')
  have "m1 k = Some v" 
    by (rule ledger_outs_keeps [OF one_tx.hyps(1) _ one_tx.prems(3)]) (use one_tx.prems(1) created_head in blast)
  moreover have "k \<notin> outpoint ` set (t_Inputs tx)" using one_tx.prems(2) by (auto simp: spent_Cons)
  ultimately show ?case using one_tx.IH one_tx.prems by (simp add: created_Cons spent_Cons ledger_ins_eq)
qed simp

lemma ledger_txs_credits:
  "ledger_txs T T' txs m m' \<Longrightarrow> \<forall>o'. created txs k o' \<longrightarrow> outputValue o' = v \<Longrightarrow> \<not> spent txs k \<Longrightarrow>
   created txs k out \<Longrightarrow> scriptHash out \<in> T \<Longrightarrow> m' k = Some v"
proof (induction rule: ledger_txs.induct)
  case (one_tx tx m m1 txs m')
  show ?case
  proof (cases "created txs k out")
    case True
    with one_tx show ?thesis by (simp add: created_Cons spent_Cons)
  next
    case False
    with one_tx.prems(3) obtain j where j: "j < length (t_Outputs tx)" "k = makeTxidVout (Txid tx) (of_nat j)" "out = t_Outputs tx ! j"
      by (auto simp: created_Cons)
    have "m1 k = Some v"
    proof (rule ledger_outs_credits [OF one_tx.hyps(1)])
      show "outputValue (t_Outputs tx ! i) = v" if "i < length (t_Outputs tx)" "k = makeTxidVout (Txid tx) (of_nat (0 + i))" for i
        using one_tx.prems(1) created_head [OF that] by blast
    qed (use j one_tx.prems(4) in simp_all)
    moreover have "k \<notin> outpoint ` set (t_Inputs tx)" using one_tx.prems(2) by (auto simp: spent_Cons)
    ultimately show ?thesis
      using ledger_txs_keeps [OF one_tx.hyps(2)] one_tx.prems(1,2) by (simp add: created_Cons spent_Cons ledger_ins_eq)
  qed
qed (simp add: created_def)

lemma created_value:
  "block_outputs V block \<Longrightarrow> created (b_Transactions block) k out \<Longrightarrow> V k = Some (outputValue out)"
  by (auto simp: block_outputs_def created_def)

end
