(* ===== verification/BlockProgress.thy ===== *)
theory BlockProgress
  imports BlockProcessing
begin

text \<open>
  When \<open>processBlock\<close> succeeds. Its only sources of failure are amounts that the database driver
  refuses (\<open>2 ^ 63\<close> and above) and scripts that cannot be derived. \<open>derivable\<close> says that every unhardened child
  script of the wallets exists, \<open>room n\<close> that \<open>n\<close> more refills stay below the hardened indexes. Under
  these hypotheses the block is processed to the end.
\<close>

section \<open>Refilling succeeds\<close>

definition derivable :: "crypto \<Rightarrow> wallet \<Rightarrow> bool" where
  "derivable C w \<longleftrightarrow> (\<forall>a\<in>accounts. \<forall>j. unhardened j \<longrightarrow> (\<exists>p. script_at C w a j = Inr p))"

definition reach :: "accountKind \<Rightarrow> wallet \<Rightarrow> nat" where
  "reach a w = max (unat (nDerived a w)) (unat (nextIndex a w))"

definition room :: "nat \<Rightarrow> wallet list \<Rightarrow> bool" where
  "room n ws \<longleftrightarrow> (\<forall>w\<in>set ws. \<forall>a\<in>accounts. reach a w + 2000 * Suc n \<le> 2 ^ 31)"

lemma room_mono: "room n ws \<Longrightarrow> m \<le> n \<Longrightarrow> room m ws"
  unfolding room_def by (meson Suc_le_mono add_left_mono le_trans mult_le_mono2)

lemma unhardened_less: "unat j < 2 ^ 31 \<Longrightarrow> unhardened j"
  using unhardened_small [of "unat j"] by simp

lemma derivable_setDerived [simp]: "derivable C (setDerived a n w) = derivable C w"
  by (simp add: derivable_def)

lemma nth_list_update_at: "j < length xs \<Longrightarrow> xs[i := x] ! j = (if i = j then x else xs ! j)"
  by (cases "i = j") simp_all

lemma refillAccount_progress:
  assumes d: "derivable C (wallets s ! nat i)" and a: "a \<in> accounts"
    and r: "reach a (wallets s ! nat i) + 2000 \<le> 2 ^ 31"
  shows "\<exists>s'. refillAccount C a i s = (Inr (), s') \<and> length (wallets s') = length (wallets s)
    \<and> (\<forall>j < length (wallets s). wallets s' ! j = wallets s ! j \<or> (j = nat i \<and>
         wallets s' ! j = setDerived a (nextIndex a (wallets s ! j) + gap) (wallets s ! j)))"
proof -
  let ?w = "wallets s ! nat i"
  obtain r' s' where run: "refillAccount C a i s = (r', s')" by force
  from run show ?thesis
  proof (cases rule: refillAccount_cases)
    case enough
    with run show ?thesis by auto
  next
    case (failed e)
    obtain off n where on: "offAndCount (nextIndex a ?w) (nDerived a ?w) = (off, n)" by force
    have n: "n \<noteq> 0" using failed run on by (auto simp: refillAccount_def)
    with offAndCount_cases [OF on] have off: "off = nDerived a ?w" "nDerived a ?w < nextIndex a ?w + gap"
        "nDerived a ?w + n = nextIndex a ?w + gap" by auto
    have "unat (nextIndex a ?w + gap) = unat (nextIndex a ?w) + 2000"
      using r by (simp add: gap_def reach_def unat_word_ariths)
    then have t: "unat (nextIndex a ?w + gap) \<le> 2 ^ 31" using r by (simp add: reach_def)
    have "\<exists>p. script_at C ?w a (of_nat k + off) = Inr p" if "k < unat n" for k
    proof -
      have "nDerived a ?w + of_nat k < nextIndex a ?w + gap"
        using word_below [of "nDerived a ?w" n k] that off(2,3) by simp
      then have "unat (of_nat k + off) < 2 ^ 31" using t off(1) by (simp add: word_less_nat_alt add.commute)
      then show ?thesis using d a unhardened_less unfolding derivable_def by blast
    qed
    then obtain ps where "deriveScriptPubkeys C ?w a off n = Inr ps" using derived.at_range [OF n] by blast
    with failed run on n show ?thesis by (simp add: refillAccount_def Let_def)
  next
    case (derived ps n)
    with run show ?thesis by (auto simp: nth_list_update_at)
  qed
qed

lemma reach_setDerived:
  assumes "a \<in> accounts" "b \<in> accounts" "reach a w + 2000 \<le> 2 ^ 31"
  shows "reach b (setDerived a (nextIndex a w + gap) w) \<le> (if a = b then reach b w + 2000 else reach b w)"
proof -
  have "unat (nextIndex a w + gap) = unat (nextIndex a w) + 2000"
    using assms(3) by (simp add: gap_def reach_def unat_word_ariths)
  with assms(1,2) show ?thesis by (auto simp: reach_def)
qed

lemma refillWallet_progress:
  assumes i: "0 \<le> i" "nat i < length (wallets s)" and d: "list_all (derivable C) (wallets s)"
    and r: "room (Suc n) (wallets s)"
  shows "\<exists>s'. refillWallet C i s = (Inr (), s') \<and> list_all (derivable C) (wallets s') \<and> room n (wallets s')"
proof -
  let ?step = "\<lambda>a s s'. length (wallets s') = length (wallets s)
    \<and> (\<forall>j < length (wallets s). wallets s' ! j = wallets s ! j \<or> (j = nat i \<and>
         wallets s' ! j = setDerived a (nextIndex a (wallets s ! j) + gap) (wallets s ! j)))"
  have pre: "derivable C (wallets s ! nat i)" "reach receiveAccount (wallets s ! nat i) + 2000 \<le> 2 ^ 31"
      "reach changeAccount (wallets s ! nat i) + 2000 \<le> 2 ^ 31"
    using d r i by (auto simp: list_all_length room_def accounts_def dest!: bspec [OF _ nth_mem])
  obtain s1 where s1: "refillAccount C receiveAccount i s = (Inr (), s1)" "?step receiveAccount s s1"
    using refillAccount_progress [OF pre(1) in_accounts(1) pre(2)] by blast
  have w1: "wallets s1 ! nat i = wallets s ! nat i \<or>
      wallets s1 ! nat i = setDerived receiveAccount (nextIndex receiveAccount (wallets s ! nat i) + gap) (wallets s ! nat i)"
    using s1(2) i(2) by blast
  then have pre1: "derivable C (wallets s1 ! nat i)" "reach changeAccount (wallets s1 ! nat i) + 2000 \<le> 2 ^ 31"
    using pre by (auto simp: reach_def)
  obtain s2 where s2: "refillAccount C changeAccount i s1 = (Inr (), s2)" "?step changeAccount s1 s2"
    using refillAccount_progress [OF pre1(1) in_accounts(2) pre1(2)] by blast
  have len: "length (wallets s2) = length (wallets s)" using s1(2) s2(2) by simp
  have fact: "derivable C (wallets s2 ! j) \<and> (\<forall>a\<in>accounts. reach a (wallets s2 ! j) + 2000 * Suc n \<le> 2 ^ 31)"
    if j: "j < length (wallets s)" for j
  proof -
    have w: "derivable C (wallets s ! j)" "\<forall>a\<in>accounts. reach a (wallets s ! j) + 2000 * Suc (Suc n) \<le> 2 ^ 31"
      using d r j by (auto simp: list_all_length room_def)
    have u: "wallets s1 ! j = wallets s ! j \<or> wallets s1 ! j = setDerived receiveAccount (nextIndex receiveAccount (wallets s ! j) + gap) (wallets s ! j)"
        "wallets s2 ! j = wallets s1 ! j \<or> wallets s2 ! j = setDerived changeAccount (nextIndex changeAccount (wallets s1 ! j) + gap) (wallets s1 ! j)"
      using s1(2) s2(2) j by auto
    have r0: "reach b (wallets s ! j) + 2000 * Suc (Suc n) \<le> 2 ^ 31" if "b \<in> accounts" for b
      using w(2) that by blast
    have "reach b (wallets s1 ! j) \<le> (if receiveAccount = b then reach b (wallets s ! j) + 2000 else reach b (wallets s ! j))"
      if "b \<in> accounts" for b
      using u(1) reach_setDerived [OF in_accounts(1) that, of "wallets s ! j"] r0 [OF in_accounts(1)] by auto
    note r1 = this [OF in_accounts(1)] this [OF in_accounts(2)]
    have "reach b (wallets s2 ! j) \<le> (if changeAccount = b then reach b (wallets s1 ! j) + 2000 else reach b (wallets s1 ! j))"
      if "b \<in> accounts" for b
      using u(2) reach_setDerived [OF in_accounts(2) that, of "wallets s1 ! j"] r1 r0 [OF in_accounts(2)] by auto
    note r2 = this [OF in_accounts(1)] this [OF in_accounts(2)]
    have "reach receiveAccount (wallets s2 ! j) + 2000 * Suc n \<le> 2 ^ 31" "reach changeAccount (wallets s2 ! j) + 2000 * Suc n \<le> 2 ^ 31"
      using r1 r2 r0 [OF in_accounts(1)] r0 [OF in_accounts(2)] by simp_all
    then show ?thesis using u w(1) by (auto simp: accounts_def)
  qed
  have "refillWallet C i s = (Inr (), s2)" using s1 s2 by (simp add: refillWallet_eq [OF i])
  moreover have "list_all (derivable C) (wallets s2)" "room n (wallets s2)"
    using fact len by (auto simp: list_all_length room_def in_set_conv_nth)
  ultimately show ?thesis by blast
qed

section \<open>The block is processed to the end\<close>

definition ready :: "crypto \<Rightarrow> nat \<Rightarrow> 'z W_scheme \<Rightarrow> bool" where
  "ready C n s \<longleftrightarrow> list_all (derivable C) (wallets s) \<and> room n (wallets s)"

lemma ready_mono: "ready C n s \<Longrightarrow> m \<le> n \<Longrightarrow> ready C m s"
  using room_mono by (auto simp: ready_def)

lemma derivable_setNext [simp]: "derivable C (setNext a n w) = derivable C w"
  by (simp add: derivable_def)

text \<open>Moving the index of a seen script does not reach beyond what is derived.\<close>

lemma walletUpdateIndexes_ready:
  assumes "ready C n s" "entry_ok C (wallets s) h info" "walletUpdateIndexes info s = (Inr (), s')"
  shows "ready C n s'"
proof -
  let ?i = "nat (spi_walletIdx info)" and ?a = "spi_account info" and ?k = "spi_pubkeyIdx info"
  let ?w = "wallets s ! nat (spi_walletIdx info)"
  have e: "0 \<le> spi_walletIdx info" "?i < length (wallets s)" "?a \<in> accounts" "?k < nDerived ?a ?w"
    using assms(2) by (auto simp: entry_ok_def)
  have "unat (?k + 1) = unat ?k + 1"
    using e(4) unsigned_less [of "nDerived ?a ?w", where 'a = nat] by (simp add: word_less_nat_alt unat_word_ariths)
  then have "unat (?k + 1) \<le> unat (nDerived ?a ?w)" using e(4) by (simp add: word_less_nat_alt)
  then have small: "reach b (setNext ?a (?k + 1) ?w) \<le> reach b ?w" if "b \<in> accounts" for b
    using that e(3) by (auto simp: reach_def nextIndex_setNext)
  have w: "?w \<in> set (wallets s)" using e(2) by simp
  let ?new = "setNext ?a (?k + 1) ?w"
  have new: "derivable C ?new" using assms(1) w by (simp add: ready_def list_all_iff)
  have "reach b ?new + 2000 * Suc n \<le> 2 ^ 31" if "b \<in> accounts" for b
  proof -
    have "reach b ?w + 2000 * Suc n \<le> 2 ^ 31" using assms(1) w that unfolding ready_def room_def by blast
    with small [OF that] show ?thesis by linarith
  qed
  then have new2: "\<forall>b\<in>accounts. reach b ?new + 2000 * Suc n \<le> 2 ^ 31" by blast
  have "wallets s' = wallets s \<or> wallets s' = (wallets s)[?i := ?new]"
    using assms(3) unfolding walletUpdateIndexes_eq [OF e(1,2,3)] Let_def
    by (cases "?k < nextIndex ?a ?w") (simp_all only: if_True if_False prod.inject, auto)
  then have sub: "set (wallets s') \<subseteq> insert ?new (set (wallets s))"
    using set_update_subset_insert [of "wallets s" ?i ?new] by (elim disjE) (simp_all only: subset_insertI)
  have "list_all (derivable C) (wallets s')" unfolding list_all_iff
    using sub new assms(1) by (auto simp: ready_def list_all_iff)
  moreover have "room n (wallets s')" unfolding room_def
    using sub new2 assms(1) unfolding ready_def room_def by blast
  ultimately show ?thesis by (simp add: ready_def)
qed

lemma processOutput_progress:
  assumes inv: "wm_inv C V s" and hd: "has_header block (db s)"
    and d: "distinct (TXIDs block)" "i < length (b_Transactions block)"
    and V: "V (makeTxidVout (Txid (b_Transactions block ! i)) v) = Some (outputValue out)"
    and amt: "o_Amount out < 2 ^ 63" and ready: "ready C (Suc n) s"
  shows "\<exists>upd' s'. processOutput C block ht (b_Transactions block ! i) (int i) out v upd s = (Inr upd', s') \<and> ready C n s'"
proof (cases "scriptPubkeys s (scriptHash out)")
  case None
  then show ?thesis using ready_mono [OF ready] by (simp add: processOutput_def scriptHash_def)
next
  case (Some info)
  let ?tx = "b_Transactions block ! i" and ?k = "makeTxidVout (Txid (b_Transactions block ! i)) v"
  obtain q s1 where r1: "recordTx block ?tx (int i) (scriptHash out) s = (q, s1)" by force
  note m1 = record_moves [OF inv hd d r1]
  obtain s2 where r2: "insertUnspentOutput ?k (o_Amount out) (scriptHash out) s1 = (Inr (), s2)"
    using repo.ins_ok [OF amt] by blast
  have k: "length ?k = 36" "take 32 ?k \<in> td_Txid ` set (tx_tbl (db s1))" "wm_inv C V s1" using m1 by auto
  note m2 = insert_credit [OF k(3) V k(1,2) r2]
  have spk: "spk_inv C s2" "scriptPubkeys s2 (scriptHash out) = Some info"
    using m1 m2 Some by (auto simp: wm_inv_def)
  then have e: "entry_ok C (wallets s2) (scriptHash out) info" by (auto simp: spk_inv_def)
  obtain s3 where r3: "walletUpdateIndexes info s2 = (Inr (), s3)" "length (wallets s3) = length (wallets s2)"
    using walletUpdateIndexes_ok [OF spk] by blast
  have "wallets s2 = wallets s" using m1 m2 by metis
  with ready have "ready C (Suc n) s2" by (simp add: ready_def)
  then have "ready C (Suc n) s3" using walletUpdateIndexes_ready e r3(1) by blast
  then obtain s4 where "refillWallet C (spi_walletIdx info) s3 = (Inr (), s4)" "ready C n s4"
    using refillWallet_progress [of "spi_walletIdx info" s3 C n] e r3(2) by (auto simp: ready_def entry_ok_def)
  with r1 r2 r3(1) m1 Some show ?thesis
    by (simp add: processOutput_def Let_def flip: scriptHash_def)
qed

lemma processOutputs_progress:
  assumes d: "distinct (TXIDs block)" "i < length (b_Transactions block)" and V: "block_outputs V block"
  shows "wm_inv C V s \<Longrightarrow> has_header block (db s) \<Longrightarrow> drop j (t_Outputs (b_Transactions block ! i)) = outs \<Longrightarrow>
    \<forall>out\<in>set outs. o_Amount out < 2 ^ 63 \<Longrightarrow> ready C (length outs + n) s \<Longrightarrow>
    \<exists>upd' s'. processOutputs C block ht (b_Transactions block ! i) (int i) j outs upd s = (Inr upd', s') \<and> ready C n s'"
proof (induction outs arbitrary: j upd s)
  case (Cons out outs)
  let ?tx = "b_Transactions block ! i"
  have j: "j < length (t_Outputs ?tx)" "t_Outputs ?tx ! j = out" "drop (Suc j) (t_Outputs ?tx) = outs"
    using Cons.prems(3) by (metis drop_all list.distinct(1) not_less, metis nth_via_drop, metis drop_Suc list.sel(3) tl_drop)
  then have V1: "V (makeTxidVout (Txid ?tx) (of_nat j)) = Some (outputValue out)"
    using V d(2) unfolding block_outputs_def by (metis nth_mem)
  have a: "o_Amount out < 2 ^ 63" "ready C (Suc (length outs + n)) s" using Cons.prems(4,5) by simp_all
  obtain u1 s1 where r1: "processOutput C block ht ?tx (int i) out (of_nat j) upd s = (Inr u1, s1)" "ready C (length outs + n) s1"
    using processOutput_progress [OF Cons.prems(1,2) d V1 a] by blast
  note m1 = processOutput_step [OF Cons.prems(1,2) d V1 r1(1)]
  then have "wm_inv C V s1" "has_header block (db s1)" using Cons.prems(2) by (simp_all add: has_header_def grows_def)
  from Cons.IH [OF this j(3) _ r1(2)] Cons.prems(4) r1(1) show ?case by simp
qed auto

lemma processInputs_wallets:
  "wm_inv C V s \<Longrightarrow> has_header block (db s) \<Longrightarrow> distinct (TXIDs block) \<Longrightarrow> i < length (b_Transactions block) \<Longrightarrow>
   processInputs block ht (b_Transactions block ! i) (int i) inps upd s = (r, s') \<Longrightarrow> wallets s' = wallets s"
proof (induction inps arbitrary: upd s)
  case (Cons inp inps)
  let ?tx = "b_Transactions block ! i"
  obtain q s1 where r1: "processInput block ht ?tx (int i) inp upd s = (q, s1)" by force
  have "wallets s1 = wallets s"
  proof (cases "selectUnspentOutput s (outpoint inp)")
    case (Inl e)
    then show ?thesis using r1 by (auto simp: processInput_def Let_def simp flip: outpoint_def split: if_splits)
  next
    case (Inr u)
    obtain p t where t: "recordTx block ?tx (int i) (u_ScriptPubkeyHash u) s = (p, t)" by force
    obtain p' t' where t': "deleteUnspentOutput (outpoint inp) ht t = (p', t')" by force
    have "wallets t = wallets s" "p = Inr ()" using record_moves [OF Cons.prems(1-4) t] by auto
    moreover have "wallets t' = wallets t" "p' = Inr ()" using t' by (auto simp: deleteUnspentOutput_def Let_def)
    ultimately show ?thesis using r1 Inr t t' by (simp add: processInput_def Let_def flip: outpoint_def)
  qed
  moreover from processInput_step [OF Cons.prems(1-4) r1] obtain u1 where u1: "q = Inr u1" "wm_inv C V s1" "grows s s1" by blast
  moreover have "has_header block (db s1)" using Cons.prems(2) u1(3) by (simp add: has_header_def grows_def)
  ultimately show ?case using Cons.IH [of s1 u1] Cons.prems(3-5) r1 by simp
qed simp

definition outputCount :: "Transaction list \<Rightarrow> nat" where
  "outputCount txs = sum_list (map (\<lambda>tx. length (t_Outputs tx)) txs)"

lemma processTxs_progress:
  assumes d: "distinct (TXIDs block)" and V: "block_outputs V block"
  shows "wm_inv C V s \<Longrightarrow> has_header block (db s) \<Longrightarrow> drop i (b_Transactions block) = txs \<Longrightarrow>
    \<forall>tx\<in>set txs. \<forall>out\<in>set (t_Outputs tx). o_Amount out < 2 ^ 63 \<Longrightarrow> ready C (outputCount txs) s \<Longrightarrow>
    \<exists>upd' s'. processTxs C block ht i txs upd s = (Inr upd', s')"
proof (induction txs arbitrary: i upd s)
  case (Cons tx txs)
  have i: "i < length (b_Transactions block)" "b_Transactions block ! i = tx" "drop (Suc i) (b_Transactions block) = txs"
    using Cons.prems(3) by (metis drop_all list.distinct(1) not_less, metis nth_via_drop, metis drop_Suc list.sel(3) tl_drop)
  have "ready C (length (t_Outputs tx) + outputCount txs) s" using Cons.prems(5) by (simp add: outputCount_def)
  then obtain u1 s1 where r1: "processOutputs C block ht tx (int i) 0 (t_Outputs tx) upd s = (Inr u1, s1)" "ready C (outputCount txs) s1"
    using processOutputs_progress [OF d i(1) V Cons.prems(1,2), of 0 "t_Outputs tx" "outputCount txs" ht upd] Cons.prems(4) i(2) by auto
  from processOutputs_steps [OF Cons.prems(2) d i(1) V Cons.prems(1) _ Cons.prems(2), of 0 "t_Outputs tx" ht upd u1 s1] r1(1) i(2)
  have m1: "wm_inv C V s1" "grows s s1" by simp_all
  have hd1: "has_header block (db s1)" using m1(2) Cons.prems(2) by (simp add: has_header_def grows_def)
  obtain q s2 where r2: "processInputs block ht tx (int i) (t_Inputs tx) u1 s1 = (q, s2)" by force
  from processInputs_steps [OF d i(1) m1(1) hd1, unfolded i(2), OF r2] obtain u2 where m2: "q = Inr u2" "wm_inv C V s2" "grows s1 s2" by blast
  have hd2: "has_header block (db s2)" using m2(3) hd1 by (simp add: has_header_def grows_def)
  have "wallets s2 = wallets s1" by (rule processInputs_wallets [OF m1(1) hd1 d i(1), unfolded i(2), OF r2])
  then have "ready C (outputCount txs) s2" using r1(2) by (simp add: ready_def)
  from Cons.IH [OF m2(2) hd2 i(3) _ this] Cons.prems(4) r1(1) r2 m2(1) show ?case by simp
qed simp

text \<open>The history of a script hash can be read whenever the columns have their widths.\<close>

lemma history_ok: "width_inv (db s) \<Longrightarrow> \<exists>h. selectScriptHashHistory s sh = Inr h"
proof -
  assume w: "width_inv (db s)"
  let ?rows = "sort_key (\<lambda>(t, b). (bh_Height b, td_Pos t))
         (concat (map (\<lambda>(_, txid). filter (\<lambda>(t, b). td_Txid t = txid) (tx_join_header s))
           (filter (\<lambda>(h, _). h = sh) (stx_tbl (db s)))))"
  have "list_all (\<lambda>(t, b). length (td_Txid t) = 32) ?rows"
    using w by (auto simp: list_all_iff width_inv_def tx_join_header_def)
  then have "list_all (\<lambda>r. (\<lambda>(t, b). rbind (bufWrapper_Scan 32 (td_Txid t)) (\<lambda>txid. Inr \<lparr>hd_Height = bh_Height b, hd_Txid = txid\<rparr>)) r
      = Inr ((\<lambda>(t, b). \<lparr>hd_Height = bh_Height b, hd_Txid = td_Txid t\<rparr>) r)) ?rows"
    by (auto simp: list_all_iff)
  from scanRows_ok [OF this] show ?thesis unfolding selectScriptHashHistory_def by blast
qed

lemma notifyUpdated_progress: "width_inv (db s) \<Longrightarrow> \<exists>s'. notifyUpdated shs s = (Inr (), s')"
proof (induction shs arbitrary: s)
  case (Cons sh shs)
  obtain h where "selectScriptHashHistory s sh = Inr h" using history_ok [OF Cons.prems] by blast
  then have "GetScriptHashStatus s sh = Inr (shStatus h [])" by (simp add: GetScriptHashStatus_def)
  moreover have "width_inv (db (notifyScriptHashSubscribers sh st s))" for st
    using Cons.prems by (simp add: notify_status)
  ultimately show ?case using Cons.IH by simp
qed simp

lemma processBlock_progress:
  assumes "wm_inv C V s" "has_header block (db s)" "distinct (TXIDs block)" "block_outputs V block"
    and "\<forall>tx\<in>set (b_Transactions block). \<forall>out\<in>set (t_Outputs tx). o_Amount out < 2 ^ 63"
    and "ready C (outputCount (b_Transactions block)) s"
  shows "\<exists>s'. processBlock C block ht s = (Inr (), s')"
proof -
  obtain upd s1 where r1: "processTxs C block ht 0 (b_Transactions block) [] s = (Inr upd, s1)"
    using processTxs_progress [OF assms(3,4,1,2) _ assms(5,6), of 0 ht "[]"] by auto
  have s1: "wm_inv C V s1" using processTxs_steps [OF assms(3,4,1,2) _ r1] by simp
  have "set [0..<length (wallets s1)] \<subseteq> {..<length (wallets s1)}" by auto
  then obtain s2 where r2: "updateHeights ht [0..<length (wallets s1)] s1 = (Inr (), s2)" "wm_inv C V s2"
    using updateHeights_steps [OF s1] by blast
  obtain s3 where "notifyUpdated upd s2 = (Inr (), s3)"
    using notifyUpdated_progress r2(2) by (auto simp: wm_inv_def db_inv_def)
  with r1 r2 show ?thesis by (simp add: processBlock_def)
qed

section \<open>Histories are complete\<close>

text \<open>A tracked output, and an input that spends a known output, put their transaction into the history of the
  script hash; nothing is taken out of a history.\<close>

lemma processOutput_history:
  assumes inv: "wm_inv C V s" and hd: "has_header block (db s)"
    and d: "distinct (TXIDs block)" "i < length (b_Transactions block)"
    and V: "V (makeTxidVout (Txid (b_Transactions block ! i)) v) = Some (outputValue out)"
    and tracked: "scriptHash out \<in> dom (scriptPubkeys s)"
    and run: "processOutput C block ht (b_Transactions block ! i) (int i) out v upd s = (Inr upd', s')"
  shows "(scriptHash out, Txid (b_Transactions block ! i)) \<in> set (stx_tbl (db s'))"
proof -
  let ?tx = "b_Transactions block ! i" and ?k = "makeTxidVout (Txid (b_Transactions block ! i)) v"
  obtain info where info: "scriptPubkeys s (scriptHash out) = Some info" using tracked by blast
  then obtain s1 s2 s3 where run1: "recordTx block ?tx (int i) (scriptHash out) s = (Inr (), s1)"
      "insertUnspentOutput ?k (o_Amount out) (scriptHash out) s1 = (Inr (), s2)"
      "walletUpdateIndexes info s2 = (Inr (), s3)" "refillWallet C (spi_walletIdx info) s3 = (Inr (), s')"
    using run by (auto simp: processOutput_def scriptHash_def Let_def ebind_ok_iff)
  note m1 = record_moves [OF inv hd d run1(1)]
  then have k: "length ?k = 36" "take 32 ?k \<in> td_Txid ` set (tx_tbl (db s1))" "wm_inv C V s1" by auto
  note m2 = insert_credit [OF k(3) V k(1,2) run1(2)]
  have "wm_inv C V s2" "scriptPubkeys s2 (scriptHash out) = Some info" using m1 m2 info by auto
  from wallet_moves [OF this run1(3,4)] m1 m2 show ?thesis by auto
qed

lemma processOutputs_history:
  assumes d: "distinct (TXIDs block)" "i < length (b_Transactions block)" and V: "block_outputs V block"
  shows "wm_inv C V s \<Longrightarrow> has_header block (db s) \<Longrightarrow> drop j (t_Outputs (b_Transactions block ! i)) = outs \<Longrightarrow>
    processOutputs C block ht (b_Transactions block ! i) (int i) j outs upd s = (Inr upd', s') \<Longrightarrow>
    out \<in> set outs \<Longrightarrow> scriptHash out \<in> dom (scriptPubkeys s) \<Longrightarrow>
    (scriptHash out, Txid (b_Transactions block ! i)) \<in> set (stx_tbl (db s'))"
proof (induction outs arbitrary: j upd s)
  case (Cons o1 outs)
  let ?tx = "b_Transactions block ! i"
  from Cons.prems(4) obtain u1 s1 where r1: "processOutput C block ht ?tx (int i) o1 (of_nat j) upd s = (Inr u1, s1)"
      "processOutputs C block ht ?tx (int i) (Suc j) outs u1 s1 = (Inr upd', s')"
    by (auto simp: ebind_ok_iff)
  have j: "j < length (t_Outputs ?tx)" "t_Outputs ?tx ! j = o1" "drop (Suc j) (t_Outputs ?tx) = outs"
    using Cons.prems(3) by (metis drop_all list.distinct(1) not_less, metis nth_via_drop, metis drop_Suc list.sel(3) tl_drop)
  then have V1: "V (makeTxidVout (Txid ?tx) (of_nat j)) = Some (outputValue o1)"
    using V d(2) unfolding block_outputs_def by (metis nth_mem)
  note m1 = processOutput_step [OF Cons.prems(1,2) d V1 r1(1)]
  then have s1: "wm_inv C V s1" "has_header block (db s1)" "dom (scriptPubkeys s) \<subseteq> dom (scriptPubkeys s1)"
    using Cons.prems(2) by (simp_all add: has_header_def grows_def)
  show ?case
  proof (cases "out \<in> set outs")
    case True
    with Cons.IH [OF s1(1,2) j(3) r1(2)] Cons.prems(6) s1(3) show ?thesis by blast
  next
    case False
    with Cons.prems(5) have "out = o1" by simp
    with processOutput_history [OF Cons.prems(1,2) d V1 _ r1(1)] Cons.prems(6)
    have "(scriptHash out, Txid ?tx) \<in> set (stx_tbl (db s1))" by blast
    then show ?thesis using processOutputs_steps [OF s1(2) d V s1(1) j(3) s1(2) r1(2)] by blast
  qed
qed simp

lemma processInputs_history:
  assumes d: "distinct (TXIDs block)" "i < length (b_Transactions block)"
  shows "wm_inv C V s \<Longrightarrow> has_header block (db s) \<Longrightarrow>
    processInputs block ht (b_Transactions block ! i) (int i) inps upd s = (r, s') \<Longrightarrow>
    k \<in> outpoint ` set inps \<Longrightarrow> unspent_map s k = Some u \<Longrightarrow>
    (u2_ScriptPubkeyHash u, Txid (b_Transactions block ! i)) \<in> set (stx_tbl (db s'))"
proof (induction inps arbitrary: upd s)
  case (Cons inp inps)
  let ?tx = "b_Transactions block ! i"
  obtain q s1 where r1: "processInput block ht ?tx (int i) inp upd s = (q, s1)" by force
  from processInput_step [OF Cons.prems(1,2) d r1] obtain u1 where m1: "q = Inr u1" "wm_inv C V s1" "grows s s1"
      "unspent_map s1 = (unspent_map s)(outpoint inp := None)" by blast
  have hd1: "has_header block (db s1)" using Cons.prems(2) m1(3) by (simp add: has_header_def grows_def)
  have run: "processInputs block ht ?tx (int i) inps u1 s1 = (r, s')" using Cons.prems(3) r1 m1(1) by simp
  show ?case
  proof (cases "outpoint inp = k")
    case True
    have "store_inv s" using Cons.prems(1) by (simp add: wm_inv_def db_inv_def store_inv_def)
    then have sel: "selectUnspentOutput s k =
        Inr \<lparr>u_TxidVout = k, u_Satoshi = u2_Satoshi u, u_ScriptPubkeyHash = u2_ScriptPubkeyHash u\<rparr>"
      using Cons.prems(5) by (simp add: selectUnspentOutput_eq)
    obtain p t where t: "recordTx block ?tx (int i) (u2_ScriptPubkeyHash u) s = (p, t)" by force
    obtain p' t' where t': "deleteUnspentOutput k ht t = (p', t')" by force
    note mt = record_moves [OF Cons.prems(1,2) d t]
    then have "wm_inv C V t" by blast
    note mt' = delete_debit [OF this t']
    have "s1 = t'" using r1 t t' mt mt' sel True by (simp add: processInput_def Let_def flip: outpoint_def)
    with mt mt' have "(u2_ScriptPubkeyHash u, Txid ?tx) \<in> set (stx_tbl (db s1))" by simp
    then show ?thesis using processInputs_steps [OF d m1(2) hd1 run] by blast
  next
    case False
    with Cons.prems(4,5) m1(4) have "k \<in> outpoint ` set inps" "unspent_map s1 k = Some u" by auto
    with Cons.IH [OF m1(2) hd1 run] show ?thesis by blast
  qed
qed simp

lemma processTxs_history:
  assumes d: "distinct (TXIDs block)" and V: "block_outputs V block"
  shows "wm_inv C V s \<Longrightarrow> has_header block (db s) \<Longrightarrow> drop i (b_Transactions block) = txs \<Longrightarrow>
    processTxs C block ht i txs upd s = (Inr upd', s') \<Longrightarrow>
    (\<forall>tx\<in>set txs. \<forall>out\<in>set (t_Outputs tx). scriptHash out \<in> dom (scriptPubkeys s) \<longrightarrow>
       (scriptHash out, Txid tx) \<in> set (stx_tbl (db s')))
    \<and> (\<forall>k u. unspent_map s k = Some u \<longrightarrow> spent txs k \<longrightarrow>
       (\<exists>tx\<in>set txs. k \<in> outpoint ` set (t_Inputs tx) \<and> (u2_ScriptPubkeyHash u, Txid tx) \<in> set (stx_tbl (db s'))))"
proof (induction txs arbitrary: i upd s)
  case Nil
  then show ?case by (simp add: spent_def)
next
  case (Cons tx txs)
  have i: "i < length (b_Transactions block)" "b_Transactions block ! i = tx" "drop (Suc i) (b_Transactions block) = txs"
    using Cons.prems(3) by (metis drop_all list.distinct(1) not_less, metis nth_via_drop, metis drop_Suc list.sel(3) tl_drop)
  from Cons.prems(4) obtain u1 s1 u2 s2 where r: "processOutputs C block ht tx (int i) 0 (t_Outputs tx) upd s = (Inr u1, s1)"
      "processInputs block ht tx (int i) (t_Inputs tx) u1 s1 = (Inr u2, s2)" "processTxs C block ht (Suc i) txs u2 s2 = (Inr upd', s')"
    by (auto simp: ebind_ok_iff)
  have o1: "wm_inv C V s1 \<and> grows s s1 \<and> ledger_outs (dom (scriptPubkeys s)) (dom (scriptPubkeys s1)) (Txid tx) 0 (t_Outputs tx) (unspent_map s) (unspent_map s1)"
    using processOutputs_steps [OF Cons.prems(2) d i(1) V Cons.prems(1) _ Cons.prems(2), of 0 "t_Outputs tx" ht upd u1 s1] r(1) i(2) by simp
  then have w1: "wm_inv C V s1" and hd1: "has_header block (db s1)" using Cons.prems(2) by (simp_all add: has_header_def grows_def)
  from processInputs_steps [OF d i(1) w1 hd1, unfolded i(2), OF r(2)]
  have i2: "wm_inv C V s2" "grows s1 s2" "unspent_map s2 = ledger_ins (t_Inputs tx) (unspent_map s1)"
      "set (stx_tbl (db s1)) \<subseteq> set (stx_tbl (db s2))" by auto
  have hd2: "has_header block (db s2)" using i2(2) hd1 by (simp add: has_header_def grows_def)
  note IH = Cons.IH [OF i2(1) hd2 i(3) r(3)]
  have mono: "set (stx_tbl (db s2)) \<subseteq> set (stx_tbl (db s'))" using processTxs_steps [OF d V i2(1) hd2 i(3) r(3)] by blast
  have sub: "dom (scriptPubkeys s) \<subseteq> dom (scriptPubkeys s2)" using o1 i2(2) unfolding grows_def by blast
  have outs: "(scriptHash out, Txid tx) \<in> set (stx_tbl (db s'))"
    if "out \<in> set (t_Outputs tx)" "scriptHash out \<in> dom (scriptPubkeys s)" for out
    using processOutputs_history [OF d i(1) V Cons.prems(1,2) _ _ _ that(2), of 0 "t_Outputs tx" ht upd u1 s1, unfolded i(2)]
      that(1) r(1) i2(4) mono by auto
  have ins: "\<exists>t\<in>set (tx # txs). k \<in> outpoint ` set (t_Inputs t) \<and> (u2_ScriptPubkeyHash u, Txid t) \<in> set (stx_tbl (db s'))"
    if u: "unspent_map s k = Some u" and sp: "spent (tx # txs) k" for k u
  proof -
    have "V k = Some u" using Cons.prems(1) u by (auto simp: wm_inv_def map_le_def dom_def)
    then have "outputValue out = u" if "j < length (t_Outputs tx)" "k = makeTxidVout (Txid tx) (of_nat j)" "out = t_Outputs tx ! j" for j out
      using V i(1,2) that unfolding block_outputs_def by (metis nth_mem option.inject)
    then have k1: "unspent_map s1 k = Some u"
      using ledger_outs_keeps [of _ _ "Txid tx" 0 "t_Outputs tx" "unspent_map s" "unspent_map s1" k u] o1 u by auto
    show ?thesis
    proof (cases "k \<in> outpoint ` set (t_Inputs tx)")
      case True
      with processInputs_history [OF d i(1) w1 hd1, unfolded i(2), OF r(2) _ k1] mono show ?thesis by auto
    next
      case False
      then have "unspent_map s2 k = Some u" "spent txs k" using k1 i2(3) sp by (auto simp: ledger_ins_eq spent_Cons)
      with IH show ?thesis by auto
    qed
  qed
  have rest: "(scriptHash out, Txid t) \<in> set (stx_tbl (db s'))"
    if "t \<in> set txs" "out \<in> set (t_Outputs t)" "scriptHash out \<in> dom (scriptPubkeys s)" for t out
    using conjunct1 [OF IH] that sub by blast
  show ?case using outs rest ins by simp
qed

lemma processBlock_history_steps:
  assumes "wm_inv C V s" "has_header block (db s)" "distinct (TXIDs block)" "block_outputs V block"
    and "processBlock C block ht s = (Inr (), s')"
  shows "(\<forall>tx\<in>set (b_Transactions block). \<forall>out\<in>set (t_Outputs tx). scriptHash out \<in> dom (scriptPubkeys s) \<longrightarrow>
       (scriptHash out, Txid tx) \<in> set (stx_tbl (db s')))
    \<and> (\<forall>k u. unspent_map s k = Some u \<longrightarrow> spent (b_Transactions block) k \<longrightarrow>
       (\<exists>tx\<in>set (b_Transactions block). k \<in> outpoint ` set (t_Inputs tx)
          \<and> (u2_ScriptPubkeyHash u, Txid tx) \<in> set (stx_tbl (db s'))))"
proof -
  from assms(5) obtain upd s1 s2 where r: "processTxs C block ht 0 (b_Transactions block) [] s = (Inr upd, s1)"
      "updateHeights ht [0..<length (wallets s1)] s1 = (Inr (), s2)" "notifyUpdated upd s2 = (Inr (), s')"
    by (auto simp: processBlock_def ebind_ok_iff)
  have "wm_inv C V s1" using processTxs_steps [OF assms(3,4,1,2) _ r(1)] by simp
  from updateHeights_steps [OF this, of "[0..<length (wallets s1)]" ht] r(2)
  have "stx_tbl (db s2) = stx_tbl (db s1)" by (auto simp: subset_iff)
  moreover have "stx_tbl (db s') = stx_tbl (db s2)" using notifyUpdated_steps [OF r(3)] by simp
  moreover note processTxs_history [OF assms(3,4,1,2) _ r(1)]
  ultimately show ?thesis by simp
qed

section \<open>A sample run\<close>

text \<open>A fresh wallet manager with one wallet, the header of a block in its table, and a block that pays the
  first receive script of the wallet.\<close>

definition sample_pay :: "bytes \<Rightarrow> Output" where
  "sample_pay p = \<lparr>o_Amount = 5000, o_ScriptPubKeySize = of_nat (length p), o_ScriptPubkey = p\<rparr>"

definition sample_pay_tx :: "bytes \<Rightarrow> Transaction" where
  "sample_pay_tx p = sample_tx\<lparr>t_Outputs := [sample_pay p]\<rparr>"

definition sample_pay_block :: "bytes \<Rightarrow> Block" where
  "sample_pay_block p = sample_block\<lparr>b_Transactions := [sample_pay_tx p], b_MerkleRoot := Txid (sample_pay_tx p)\<rparr>"

definition sample_V :: "bytes \<Rightarrow> utxos" where
  "sample_V p = [makeTxidVout (Txid (sample_pay_tx p)) 0 \<mapsto> outputValue (sample_pay p)]"

lemma sample_state:
  "\<exists>(s :: W) p. wm_inv xor_crypto (sample_V p) s \<and> Sum256 p \<in> dom (scriptPubkeys s) \<and> unspent_map s = Map.empty
     \<and> ready xor_crypto 1 s \<and> stx_tbl (db s) = [] \<and> tx_tbl (db s) = [] \<and> spent_tbl (db s) = [] \<and> unspent_tbl (db s) = []
     \<and> blockheader_tbl (db s) = [\<lparr>bh_Hash = Block_Hash (sample_pay_block p), bh_Height = 11, bh_Serialized = Block_bytes80 (sample_pay_block p)\<rparr>]
     \<and> shSubs s = [] \<and> length (wallets s) = 1 \<and> wl_height (wallets s ! 0) = 10"
proof -
  obtain s0 row where s0: "New xor_crypto empty_database [sample_config] Mainnet = Inr s0"
      "wallets s0 = [setDerived changeAccount gap (setDerived receiveAccount gap sample_wallet)]"
      "db s0 = empty_database\<lparr>wallet_tbl := [row]\<rparr>" "utxoIndex s0 = []" "shSubs s0 = []"
    using sample_New_db by blast
  have spk: "spk_inv xor_crypto s0" by (rule New_spk_inv [OF s0(1)])
  have "0 < nDerived receiveAccount (wallets s0 ! 0)" "0 < length (wallets s0)" by (simp_all add: s0(2) gap_def)
  then obtain p where p: "scriptPubkeys s0 (Sum256 p) \<noteq> None"
    using spk in_accounts(1) unfolding spk_inv_def covered_def by meson
  define s where "s = s0\<lparr>db := (db s0)\<lparr>blockheader_tbl := [\<lparr>bh_Hash = Block_Hash (sample_pay_block p), bh_Height = 11,
     bh_Serialized = Block_bytes80 (sample_pay_block p)\<rparr>]\<rparr>\<rparr>"
  have "length (Block_bytes80 (sample_pay_block p)) = 80"
    by (simp add: Block_bytes80_def sample_pay_block_def sample_block_def)
  then have "wm_inv xor_crypto (sample_V p) s"
    using spk by (simp add: wm_inv_def s_def s0(3,4) db_inv_def pk_inv_def width_inv_def ref_inv_def empty_database_def
        cache_inv_def unspent_map_def utxo_map_def spk_inv_def)
  moreover have "ready xor_crypto 1 s"
  proof -
    have same: "same_wallet (setDerived changeAccount gap (setDerived receiveAccount gap sample_wallet)) sample_wallet"
      by (meson same_wallet_setDerived same_wallet_trans)
    have "derivable xor_crypto (setDerived changeAccount gap (setDerived receiveAccount gap sample_wallet))"
      unfolding derivable_def using sample_script_at [OF _ _ same] by blast
    moreover have "nextIndex a sample_wallet = 0" for a by (simp add: nextIndex_def sample_wallet_def configured_def)
    ultimately show ?thesis
      by (simp add: ready_def s_def s0(2) room_def accounts_def reach_def gap_def)
  qed
  moreover have "Sum256 p \<in> dom (scriptPubkeys s)" using p by (auto simp: s_def)
  moreover have "wl_height (wallets s ! 0) = 10"
    by (simp add: s_def s0(2) setDerived_def sample_wallet_def configured_def)
  ultimately show ?thesis
    by (intro exI [of _ s] exI [of _ p]) (simp add: s_def s0 empty_database_def unspent_map_def utxo_map_def)
qed

lemma sample_block_facts:
  "distinct (TXIDs (sample_pay_block p))" "block_outputs (sample_V p) (sample_pay_block p)"
  "b_Transactions (sample_pay_block p) = [sample_pay_tx p]" "t_Outputs (sample_pay_tx p) = [sample_pay p]"
  "in_order (b_Transactions (sample_pay_block p))" "scriptHash (sample_pay p) = Sum256 p"
  "outputCount (b_Transactions (sample_pay_block p)) = 1"
  "\<forall>tx\<in>set (b_Transactions (sample_pay_block p)). \<forall>out\<in>set (t_Outputs tx). o_Amount out < 2 ^ 63"
  by (simp_all add: sample_pay_block_def TXIDs_def block_outputs_def sample_V_def sample_pay_tx_def sample_tx_def
      scriptHash_def sample_pay_def outputCount_def)

lemma sample_processed:
  assumes "wm_inv xor_crypto (sample_V p) s" "ready xor_crypto 1 s"
    "blockheader_tbl (db s) = [\<lparr>bh_Hash = Block_Hash (sample_pay_block p), bh_Height = 11, bh_Serialized = Block_bytes80 (sample_pay_block p)\<rparr>]"
  shows "has_header (sample_pay_block p) (db s)" "\<exists>s'. processBlock xor_crypto (sample_pay_block p) 11 s = (Inr (), s')"
proof -
  show hd: "has_header (sample_pay_block p) (db s)" by (simp add: has_header_def assms(3))
  show "\<exists>s'. processBlock xor_crypto (sample_pay_block p) 11 s = (Inr (), s')"
    using processBlock_progress [OF assms(1) hd sample_block_facts(1,2,8)] assms(2) by (simp add: sample_block_facts(7))
qed

section \<open>Properties\<close>

text \<open>C2. A block is processed to the end: when every amount is below \<open>2 ^ 63\<close>, the scripts of the wallets can
  be derived and their indexes stay clear of the hardened range, \<open>processBlock\<close> returns no error and does not panic
  (in particular the branches marked unreachable are not reached).\<close>

theorem processBlock_succeeds:
  assumes "wm_inv C V s" "has_header block (db s)" "distinct (TXIDs block)" "block_outputs V block"
    and "\<forall>tx\<in>set (b_Transactions block). \<forall>out\<in>set (t_Outputs tx). o_Amount out < 2 ^ 63"
    and "ready C (outputCount (b_Transactions block)) s"
  shows "\<exists>s'. processBlock C block ht s = (Inr (), s')"
  by (rule processBlock_progress [OF assms])

theorem processBlock_succeeds_witness:
  "\<exists>(s :: W) p s'. Sum256 p \<in> dom (scriptPubkeys s) \<and> processBlock xor_crypto (sample_pay_block p) 11 s = (Inr (), s')"
proof -
  obtain s :: W and p where s: "wm_inv xor_crypto (sample_V p) s" "Sum256 p \<in> dom (scriptPubkeys s)" "ready xor_crypto 1 s"
      "blockheader_tbl (db s) = [\<lparr>bh_Hash = Block_Hash (sample_pay_block p), bh_Height = 11, bh_Serialized = Block_bytes80 (sample_pay_block p)\<rparr>]"
    using sample_state by blast
  have "\<exists>s'. processBlock xor_crypto (sample_pay_block p) 11 s = (Inr (), s')"
    using processBlock_succeeds [OF s(1) sample_processed(1) [OF s(1,3,4)] sample_block_facts(1,2,8)] s(3)
    by (simp add: sample_block_facts(7))
  with s(2) show ?thesis by blast
qed

text \<open>C1. What a block does to the unspent outputs. After a successful \<open>processBlock\<close>, for every outpoint: if an
  input of the block spends it, it is gone; if the block creates it for a script tracked before the block and does
  not spend it, it is there with its amount and script; and if the block neither spends it nor creates it for a script
  tracked at the end, nothing changed. The cache and the table agree on it.\<close>

theorem processBlock_utxos:
  assumes "wm_inv C V s" "has_header block (db s)" "distinct (TXIDs block)" "block_outputs V block"
    and "in_order (b_Transactions block)" "processBlock C block ht s = (Inr (), s')"
  shows "cache_inv s'
    \<and> (spent (b_Transactions block) k \<longrightarrow> unspent_map s' k = None)
    \<and> (\<not> spent (b_Transactions block) k \<and> created (b_Transactions block) k out \<and> scriptHash out \<in> dom (scriptPubkeys s)
        \<longrightarrow> unspent_map s' k = Some (outputValue out))
    \<and> (\<not> spent (b_Transactions block) k \<and> (\<forall>out. created (b_Transactions block) k out \<longrightarrow> scriptHash out \<notin> dom (scriptPubkeys s'))
        \<longrightarrow> unspent_map s' k = unspent_map s k)"
proof -
  from processBlock_steps [OF assms(1-4,6)]
  have l: "ledger_txs (dom (scriptPubkeys s)) (dom (scriptPubkeys s')) (b_Transactions block) (unspent_map s) (unspent_map s')"
    and inv: "wm_inv C V s'" by blast+
  have v: "\<forall>o'. created (b_Transactions block) k o' \<longrightarrow> outputValue o' = outputValue out"
    if "created (b_Transactions block) k out" for out
    using created_value [OF assms(4)] that by (metis option.inject)
  show ?thesis
    using inv ledger_txs_spent [OF l assms(5)] ledger_txs_credits [OF l v] ledger_txs_frame [OF l]
    by (auto simp: wm_inv_def)
qed

theorem processBlock_utxos_witness:
  "\<exists>(s :: W) p s' k. unspent_map s = Map.empty \<and> processBlock xor_crypto (sample_pay_block p) 11 s = (Inr (), s')
     \<and> unspent_map s' k = Some (outputValue (sample_pay p))"
proof -
  obtain s :: W and p where s: "wm_inv xor_crypto (sample_V p) s" "Sum256 p \<in> dom (scriptPubkeys s)" "ready xor_crypto 1 s"
      "unspent_map s = Map.empty"
      "blockheader_tbl (db s) = [\<lparr>bh_Hash = Block_Hash (sample_pay_block p), bh_Height = 11, bh_Serialized = Block_bytes80 (sample_pay_block p)\<rparr>]"
    using sample_state by blast
  obtain s' where s': "processBlock xor_crypto (sample_pay_block p) 11 s = (Inr (), s')"
    using sample_processed(2) [OF s(1,3,5)] by blast
  let ?k = "makeTxidVout (Txid (sample_pay_tx p)) 0"
  have "created (b_Transactions (sample_pay_block p)) ?k (sample_pay p)"
    by (simp add: created_def sample_block_facts(3,4))
  moreover have "\<not> spent (b_Transactions (sample_pay_block p)) ?k"
  proof
    assume "spent (b_Transactions (sample_pay_block p)) ?k"
    then have "makeTxidVout (replicate 32 7) 1 = ?k"
      by (simp add: spent_def sample_block_facts(3) sample_pay_tx_def sample_tx_def outpoint_def)
    then show False by (simp add: makeTxidVout_inj)
  qed
  ultimately have "unspent_map s' ?k = Some (outputValue (sample_pay p))"
    using processBlock_utxos [OF s(1) sample_processed(1) [OF s(1,3,5)] sample_block_facts(1,2,5) s'] s(2)
    by (simp add: sample_block_facts(6))
  with s(4) s' show ?thesis by blast
qed

text \<open>C3. \<open>processBlock\<close> refines the ledger: from the map of unspent outputs before the block a run of the
  abstract ledger (credits for tracked scripts, debits for inputs, transaction by transaction) leads to
  the map after it, and the invariants of the repository, the cache and the script index are kept.\<close>

theorem processBlock_refines_ledger:
  assumes "wm_inv C V s" "has_header block (db s)" "distinct (TXIDs block)" "block_outputs V block"
    and "processBlock C block ht s = (Inr (), s')"
  shows "wm_inv C V s' \<and> ledger_txs (dom (scriptPubkeys s)) (dom (scriptPubkeys s')) (b_Transactions block) (unspent_map s) (unspent_map s')"
  using processBlock_steps [OF assms] by blast

theorem processBlock_refines_ledger_witness:
  "\<exists>(s :: W) p (s' :: W). wm_inv xor_crypto (sample_V p) s' \<and>
     ledger_txs (dom (scriptPubkeys s)) (dom (scriptPubkeys s')) (b_Transactions (sample_pay_block p)) (unspent_map s) (unspent_map s')"
proof -
  obtain s :: W and p where s: "wm_inv xor_crypto (sample_V p) s" "ready xor_crypto 1 s"
      "blockheader_tbl (db s) = [\<lparr>bh_Hash = Block_Hash (sample_pay_block p), bh_Height = 11, bh_Serialized = Block_bytes80 (sample_pay_block p)\<rparr>]"
    using sample_state by blast
  obtain s' where s': "processBlock xor_crypto (sample_pay_block p) 11 s = (Inr (), s')"
    using sample_processed(2) [OF s(1,2,3)] by blast
  from processBlock_refines_ledger [OF s(1) sample_processed(1) [OF s(1,2,3)] sample_block_facts(1,2) s'] show ?thesis by blast
qed

text \<open>No missed notification: every script hash whose list of transactions grew while the block was
  processed has its subscribers called, each with the status of the history after the block.\<close>

lemma processBlock_notifies:
  assumes "wm_inv C V s" "has_header block (db s)" "distinct (TXIDs block)" "block_outputs V block"
    and "processBlock C block ht s = (Inr (), s')"
    and "(sh, txid) \<in> set (stx_tbl (db s'))" "(sh, txid) \<notin> set (stx_tbl (db s))" "(conn, cb) \<in> set (shSubscribers sh s)"
  shows "\<exists>st. GetScriptHashStatus s' sh = Inr st
    \<and> StatusEvent cb (case st of None \<Rightarrow> replicate 32 0 | Some h \<Rightarrow> h) \<in> set (drop (length (sent s)) (sent s'))"
proof -
  from processBlock_steps [OF assms(1-5)] obtain upd where u: "wm_inv C V s'"
      "set (stx_tbl (db s')) \<subseteq> set (stx_tbl (db s)) \<union> set upd \<times> UNIV" "shSubs s' = shSubs s"
      "sent s' = sent s @ concat (map (statusEvents s') upd)" by blast
  from u(2) assms(6,7) have sh: "sh \<in> set upd" by blast
  have "width_inv (db s')" using u(1) by (simp add: wm_inv_def db_inv_def)
  then obtain h where h: "selectScriptHashHistory s' sh = Inr h" using history_ok by blast
  then have st: "GetScriptHashStatus s' sh = Inr (shStatus h [])" by (simp add: GetScriptHashStatus_def)
  have "shSubscribers sh s' = shSubscribers sh s" using u(3) by (simp add: shSubscribers_def)
  then have "StatusEvent cb (case shStatus h [] of None \<Rightarrow> replicate 32 0 | Some h \<Rightarrow> h) \<in> set (statusEvents s' sh)"
    using assms(8) by (force simp: statusEvents_def st)
  then have "StatusEvent cb (case shStatus h [] of None \<Rightarrow> replicate 32 0 | Some h \<Rightarrow> h) \<in> set (drop (length (sent s)) (sent s'))"
    using sh u(4) by auto
  with st show ?thesis by blast
qed

text \<open>C4. The history is complete: after a successful \<open>processBlock\<close> every output of the block that pays a script
  tracked before the block has put its transaction into the history of that script, and for every unspent output
  known before the block that the block spends, a transaction of the block spending it is in the history of the
  script that owned it.\<close>

theorem processBlock_history:
  assumes "wm_inv C V s" "has_header block (db s)" "distinct (TXIDs block)" "block_outputs V block"
    and "processBlock C block ht s = (Inr (), s')"
  shows "(\<forall>tx\<in>set (b_Transactions block). \<forall>out\<in>set (t_Outputs tx). scriptHash out \<in> dom (scriptPubkeys s) \<longrightarrow>
       (scriptHash out, Txid tx) \<in> set (stx_tbl (db s')))
    \<and> (\<forall>k u. unspent_map s k = Some u \<longrightarrow> spent (b_Transactions block) k \<longrightarrow>
       (\<exists>tx\<in>set (b_Transactions block). k \<in> outpoint ` set (t_Inputs tx)
          \<and> (u2_ScriptPubkeyHash u, Txid tx) \<in> set (stx_tbl (db s'))))"
  by (rule processBlock_history_steps [OF assms])

theorem processBlock_history_witness:
  "\<exists>(s :: W) p s'. processBlock xor_crypto (sample_pay_block p) 11 s = (Inr (), s') \<and> stx_tbl (db s) = []
     \<and> (Sum256 p, Txid (sample_pay_tx p)) \<in> set (stx_tbl (db s'))"
proof -
  obtain s :: W and p where s: "wm_inv xor_crypto (sample_V p) s" "Sum256 p \<in> dom (scriptPubkeys s)" "ready xor_crypto 1 s"
      "stx_tbl (db s) = []"
      "blockheader_tbl (db s) = [\<lparr>bh_Hash = Block_Hash (sample_pay_block p), bh_Height = 11, bh_Serialized = Block_bytes80 (sample_pay_block p)\<rparr>]"
    using sample_state by blast
  obtain s' where s': "processBlock xor_crypto (sample_pay_block p) 11 s = (Inr (), s')"
    using sample_processed(2) [OF s(1,3,5)] by blast
  from processBlock_history [OF s(1) sample_processed(1) [OF s(1,3,5)] sample_block_facts(1,2) s'] s(2)
  have "(Sum256 p, Txid (sample_pay_tx p)) \<in> set (stx_tbl (db s'))"
    by (simp add: sample_block_facts(3,4,6) ball_simps)
  with s(4) s' show ?thesis by blast
qed

end
