(* ===== verification/Rollback.thy ===== *)
theory Rollback
  imports BlockProgress
begin

text \<open>
  Rolling back to a block (\<open>deleteAllSinceBlock\<close> and \<open>processReorg\<close> of \<open>walletmanager\<close>).

  \<open>extends r d0 d\<close> says that \<open>d\<close> is \<open>d0\<close> with rows that belong to blocks above the height \<open>r\<close>: new headers, their
  transactions with their links to script hashes, and outputs moved between the tables of unspent and spent outputs.
  Inserting a header above \<open>r\<close> and processing its block keep the relation, and \<open>deleteAllSinceBlock r\<close> takes \<open>d\<close>
  back to \<open>d0\<close>: the tables of headers, transactions, links and spent outputs are restored row by row, the table
  of unspent outputs up to the order of its rows.
\<close>

section \<open>Databases that extend a settled one\<close>

definition settled :: "int \<Rightarrow> database \<Rightarrow> bool" where
  "settled r d \<longleftrightarrow> (\<forall>b\<in>set (blockheader_tbl d). bh_Height b \<le> r) \<and> (\<forall>x\<in>set (spent_tbl d). sp_Height x \<le> r)"

definition extends_by ::
  "int \<Rightarrow> database \<Rightarrow> database \<Rightarrow> blockHeaderData list \<Rightarrow> transactionData list \<Rightarrow> (hash32 \<times> hash32) list \<Rightarrow> spentData list \<Rightarrow> bool" where
  "extends_by r d0 d hs ts ps sp \<longleftrightarrow>
     blockheader_tbl d = blockheader_tbl d0 @ hs \<and> (\<forall>b\<in>set hs. r < bh_Height b)
     \<and> tx_tbl d = tx_tbl d0 @ ts \<and> (\<forall>t\<in>set ts. td_BlockHash t \<in> bh_Hash ` set hs)
     \<and> stx_tbl d = stx_tbl d0 @ ps \<and> (\<forall>p\<in>set ps. snd p \<in> td_Txid ` set ts)
     \<and> spent_tbl d = spent_tbl d0 @ sp \<and> (\<forall>x\<in>set sp. r < sp_Height x)
     \<and> mset (filter (\<lambda>u. take 32 (u_TxidVout u) \<notin> td_Txid ` set ts) (unspent_tbl d @ map unspend_row sp)) = mset (unspent_tbl d0)
     \<and> map wd_Hash (wallet_tbl d) = map wd_Hash (wallet_tbl d0)"

definition extends :: "int \<Rightarrow> database \<Rightarrow> database \<Rightarrow> bool" where
  "extends r d0 d \<longleftrightarrow> (\<exists>hs ts ps sp. extends_by r d0 d hs ts ps sp)"

lemma extends_refl [simp]: "extends r d d"
  unfolding extends_def extends_by_def by (intro exI [of _ "[]"]) simp

text \<open>A block above \<open>r\<close> whose header is among the new rows.\<close>

definition new_block :: "database \<Rightarrow> database \<Rightarrow> Block \<Rightarrow> bool" where
  "new_block d0 d block \<longleftrightarrow> Block_Hash block \<in> bh_Hash ` (set (blockheader_tbl d) - set (blockheader_tbl d0))"

lemma new_block_in:
  "extends_by r d0 d hs ts ps sp \<Longrightarrow> new_block d0 d block \<Longrightarrow> Block_Hash block \<in> bh_Hash ` set hs"
  by (auto simp: extends_by_def new_block_def)

section \<open>The steps of the block processor extend\<close>

lemma extends_insertBlockHeader:
  assumes "extends r d0 (db s)" "r < height" "insertBlockHeader hash height ser s = (q, s')"
  shows "extends r d0 (db s')"
proof (cases "db s' = db s")
  case False
  with assms(3) have d: "db s' = (db s)\<lparr>blockheader_tbl := blockheader_tbl (db s) @
      [\<lparr>bh_Hash = hash, bh_Height = height, bh_Serialized = take 80 ser\<rparr>]\<rparr>"
    by (auto simp: insertBlockHeader_def split: if_splits)
  from assms(1) obtain hs ts ps sp where "extends_by r d0 (db s) hs ts ps sp" by (auto simp: extends_def)
  then have "extends_by r d0 (db s') (hs @ [\<lparr>bh_Hash = hash, bh_Height = height, bh_Serialized = take 80 ser\<rparr>]) ts ps sp"
    using assms(2) by (auto simp: extends_by_def d)
  then show ?thesis by (auto simp: extends_def)
qed (use assms in simp)

lemma extends_addTx:
  assumes "extends_by r d0 d hs ts ps sp" "db_inv d0" "td_BlockHash t \<in> bh_Hash ` set hs" "td_Txid t \<notin> td_Txid ` set (tx_tbl d0)"
  shows "\<exists>ts'. extends_by r d0 (addTx t d) hs ts' ps sp \<and> td_Txid t \<in> td_Txid ` set ts'"
proof (cases "td_Txid t \<in> td_Txid ` set (tx_tbl d)")
  case True
  then have "td_Txid t \<in> td_Txid ` set ts" using assms(1,4) by (auto simp: extends_by_def)
  with True assms(1) show ?thesis by (auto simp: addTx_def)
next
  case False
  have old: "take 32 (u_TxidVout u) \<noteq> td_Txid t" if "u \<in> set (unspent_tbl d0)" for u
    using that assms(2,4) unfolding db_inv_def ref_inv_def list_all_iff by metis
  let ?P = "\<lambda>u. take 32 (u_TxidVout u) \<notin> td_Txid ` set ts"
  have "mset (filter (\<lambda>u. take 32 (u_TxidVout u) \<notin> td_Txid ` set (ts @ [t])) (unspent_tbl d @ map unspend_row sp))
      = filter_mset (\<lambda>u. take 32 (u_TxidVout u) \<noteq> td_Txid t) (mset (filter ?P (unspent_tbl d @ map unspend_row sp)))"
    by (simp add: filter_filter_mset conj_commute filter_union_mset)
  also have "\<dots> = mset (unspent_tbl d0)"
    using assms(1) old by (simp add: extends_by_def filter_mset_eq_conv flip: mset_filter)
  finally have "mset (filter (\<lambda>u. take 32 (u_TxidVout u) \<notin> td_Txid ` set (ts @ [t])) (unspent_tbl d @ map unspend_row sp)) = mset (unspent_tbl d0)" .
  then have "extends_by r d0 (addTx t d) hs (ts @ [t]) ps sp"
    using assms(1,3) False unfolding extends_by_def by (auto simp: addTx_def)
  then show ?thesis by auto
qed

lemma extends_addStx:
  assumes "extends_by r d0 d hs ts ps sp" "txid \<in> td_Txid ` set ts"
  shows "\<exists>ps'. extends_by r d0 (addStx (sh, txid) d) hs ts ps' sp"
proof (cases "(sh, txid) \<in> set (stx_tbl d)")
  case True
  with assms(1) show ?thesis by (auto simp: addStx_def)
next
  case False
  have "extends_by r d0 (addStx (sh, txid) d) hs ts (ps @ [(sh, txid)]) sp"
    using assms False unfolding extends_by_def by (auto simp: addStx_def)
  then show ?thesis by blast
qed

lemma extends_recordTx:
  assumes e: "extends r d0 (db s)" "db_inv d0" "new_block d0 (db s) block"
    and d: "distinct (TXIDs block)" "i < length (b_Transactions block)"
    and fresh: "Txid (b_Transactions block ! i) \<notin> td_Txid ` set (tx_tbl d0)"
    and run: "recordTx block (b_Transactions block ! i) (int i) sh s = (q, s')"
  shows "extends r d0 (db s')"
proof -
  let ?tx = "b_Transactions block ! i"
  from recordTx_eq [OF d, of sh s] run obtain branch where
    s': "s' = s\<lparr>db := addStx (sh, Txid ?tx) (addTx (txRow block ?tx i branch) (db s))\<rparr>" by auto
  from e(1) obtain hs ts ps sp where x: "extends_by r d0 (db s) hs ts ps sp" by (auto simp: extends_def)
  have "td_BlockHash (txRow block ?tx i branch) \<in> bh_Hash ` set hs" "td_Txid (txRow block ?tx i branch) \<notin> td_Txid ` set (tx_tbl d0)"
    using new_block_in [OF x e(3)] fresh by (simp_all add: txRow_def)
  from extends_addTx [OF x e(2) this] obtain ts' where "extends_by r d0 (addTx (txRow block ?tx i branch) (db s)) hs ts' ps sp"
      "Txid ?tx \<in> td_Txid ` set ts'" by (auto simp: txRow_def)
  from extends_addStx [OF this, of sh] show ?thesis unfolding s' extends_def by auto
qed

lemma extends_insertUnspent:
  assumes e: "extends r d0 (db s)" and k: "take 32 k \<in> td_Txid ` set (tx_tbl (db s))" "take 32 k \<notin> td_Txid ` set (tx_tbl d0)"
    and run: "insertUnspentOutput k v h s = (Inr (), s')"
  shows "extends r d0 (db s')"
proof -
  from e obtain hs ts ps sp where x: "extends_by r d0 (db s) hs ts ps sp" by (auto simp: extends_def)
  then have "take 32 k \<in> td_Txid ` set ts" using k by (auto simp: extends_by_def)
  with x have "extends_by r d0 (db s') hs ts ps sp" using insertUnspentOutput_ok(1) [OF run] by (simp add: extends_by_def)
  then show ?thesis by (auto simp: extends_def)
qed

lemma mset_filter_split:
  "mset (filter P (filter (\<lambda>x. \<not> Q x) xs)) + (A + mset (filter P (filter Q xs))) = mset (filter P xs) + A"
  by (induction xs) (simp_all del: mset_filter)

lemma unspend_spend [simp]: "unspend_row (spend_row ht u) = u"
  by (simp add: unspend_row_def spend_row_def)

lemma extends_deleteUnspent:
  assumes e: "extends r d0 (db s)" "spent_inv (db s)" "r < ht" and run: "deleteUnspentOutput k ht s = (q, s')"
  shows "extends r d0 (db s') \<and> spent_inv (db s')"
proof -
  let ?moved = "map (spend_row ht) (filter (\<lambda>u. u_TxidVout u = k) (unspent_tbl (db s)))"
  have moved: "?moved = []" if "k \<in> sp_TxidVout ` set (spent_tbl (db s))"
    using e(2) that by (fastforce simp: spent_inv_def filter_empty_conv)
  have d: "db s' = (db s)\<lparr>spent_tbl := spent_tbl (db s) @ ?moved, unspent_tbl := filter (\<lambda>u. u_TxidVout u \<noteq> k) (unspent_tbl (db s))\<rparr>"
    using run moved by (auto simp: deleteUnspentOutput_def Let_def)
  from e(1) obtain hs ts ps sp where x: "extends_by r d0 (db s) hs ts ps sp" by (auto simp: extends_def)
  let ?P = "\<lambda>u. take 32 (u_TxidVout u) \<notin> td_Txid ` set ts"
  have "mset (filter ?P (filter (\<lambda>u. u_TxidVout u \<noteq> k) (unspent_tbl (db s)) @ map unspend_row (sp @ ?moved)))
      = mset (filter ?P (unspent_tbl (db s) @ map unspend_row sp))"
    by (simp only: filter_append map_append mset_append map_map comp_def unspend_spend map_ident mset_filter_split)
  then have "extends_by r d0 (db s') hs ts ps (sp @ ?moved)"
    using x e(3) unfolding extends_by_def d
    by (simp del: mset_filter mset_append filter_append map_append) (auto simp: spend_row_def simp del: mset_filter mset_append filter_append map_append)
  moreover have "spent_inv (db s')" using e(2) by (auto simp: d spent_inv_def spend_row_def)
  ultimately show ?thesis by (auto simp: extends_def)
qed

lemma extends_wallet_tbl:
  "extends r d0 d \<Longrightarrow> map wd_Hash rows = map wd_Hash (wallet_tbl d) \<Longrightarrow> extends r d0 (d\<lparr>wallet_tbl := rows\<rparr>)"
  by (simp add: extends_def extends_by_def)


lemma extends_cong:
  assumes "extends r d0 d" "blockheader_tbl d' = blockheader_tbl d" "tx_tbl d' = tx_tbl d" "stx_tbl d' = stx_tbl d"
    and "unspent_tbl d' = unspent_tbl d" "spent_tbl d' = spent_tbl d" "map wd_Hash (wallet_tbl d') = map wd_Hash (wallet_tbl d)"
  shows "extends r d0 d'"
  using assms unfolding extends_def extends_by_def by simp

lemma spent_inv_cong:
  "spent_inv d \<Longrightarrow> unspent_tbl d' = unspent_tbl d \<Longrightarrow> spent_tbl d' = spent_tbl d \<Longrightarrow> spent_inv d'"
  by (simp add: spent_inv_def)

lemma new_block_cong: "blockheader_tbl d' = blockheader_tbl d \<Longrightarrow> new_block d0 d' block = new_block d0 d block"
  by (simp add: new_block_def)

lemma recordTx_txids:
  assumes "distinct (TXIDs block)" "i < length (b_Transactions block)"
    and "recordTx block (b_Transactions block ! i) (int i) sh s = (q, s')"
  shows "td_Txid ` set (tx_tbl (db s')) = insert (Txid (b_Transactions block ! i)) (td_Txid ` set (tx_tbl (db s)))"
proof -
  from recordTx_eq [OF assms(1,2), of sh s] assms(3) obtain branch where
    s': "s' = s\<lparr>db := addStx (sh, Txid (b_Transactions block ! i)) (addTx (txRow block (b_Transactions block ! i) i branch) (db s))\<rparr>" by auto
  have "td_Txid (txRow block (b_Transactions block ! i) i branch) = Txid (b_Transactions block ! i)" by (simp add: txRow_def)
  then show ?thesis unfolding s' by simp
qed

lemma insertUnspent_spent_inv:
  assumes "spent_inv (db s)" "k \<notin> sp_TxidVout ` set (spent_tbl (db s))" "insertUnspentOutput k v h s = (Inr (), s')"
  shows "spent_inv (db s')"
  using assms insertUnspentOutput_ok(1) [OF assms(3)] by (auto simp: spent_inv_def)

section \<open>A whole block extends\<close>

definition rolls :: "int \<Rightarrow> database \<Rightarrow> 'z W_scheme \<Rightarrow> bool" where
  "rolls r d0 s \<longleftrightarrow> extends r d0 (db s) \<and> spent_inv (db s)"

lemma processOutput_rolls:
  assumes inv: "wm_inv C V s" and hd: "has_header block (db s)" and d: "distinct (TXIDs block)" "i < length (b_Transactions block)"
    and V: "V (makeTxidVout (Txid (b_Transactions block ! i)) v) = Some (outputValue out)"
    and run: "processOutput C block ht (b_Transactions block ! i) (int i) out v upd s = (Inr upd', s')"
    and e: "rolls r d0 s" "db_inv d0" "new_block d0 (db s) block"
    and fresh: "Txid (b_Transactions block ! i) \<notin> td_Txid ` set (tx_tbl d0)"
    and nsp: "\<forall>x\<in>set (spent_tbl (db s)). take 32 (sp_TxidVout x) \<noteq> Txid (b_Transactions block ! i)"
  shows "rolls r d0 s' \<and> td_Txid ` set (tx_tbl (db s')) \<subseteq> insert (Txid (b_Transactions block ! i)) (td_Txid ` set (tx_tbl (db s)))"
proof (cases "scriptPubkeys s (scriptHash out)")
  case None
  with run have "s' = s" by (simp add: processOutput_def scriptHash_def)
  with e(1) show ?thesis by auto
next
  case (Some info)
  let ?tx = "b_Transactions block ! i" and ?k = "makeTxidVout (Txid (b_Transactions block ! i)) v"
  obtain s1 s2 s3 where run1: "recordTx block ?tx (int i) (scriptHash out) s = (Inr (), s1)"
      "insertUnspentOutput ?k (o_Amount out) (scriptHash out) s1 = (Inr (), s2)"
      "walletUpdateIndexes info s2 = (Inr (), s3)" "refillWallet C (spi_walletIdx info) s3 = (Inr (), s')"
    using run Some by (auto simp: processOutput_def scriptHash_def Let_def ebind_ok_iff)
  note m1 = record_moves [OF inv hd d run1(1)]
  then have k: "length ?k = 36" "take 32 ?k \<in> td_Txid ` set (tx_tbl (db s1))" "wm_inv C V s1" by auto
  note m2 = insert_credit [OF k(3) V k(1,2) run1(2)]
  have w2: "wm_inv C V s2" "scriptPubkeys s2 (scriptHash out) = Some info" using m1 m2 Some by auto
  note m3 = wallet_moves [OF w2 run1(3,4)]
  have e1: "extends r d0 (db s1)" using extends_recordTx [OF _ e(2,3) d fresh run1(1)] e(1) by (simp add: rolls_def)
  have e2: "extends r d0 (db s2)" using extends_insertUnspent [OF e1 k(2) _ run1(2)] fresh by simp
  have sp1: "spent_inv (db s1)" using e(1) m1 by (auto simp: rolls_def intro: spent_inv_cong)
  have "spent_tbl (db s1) = spent_tbl (db s)" using m1 by blast
  moreover have "take 32 ?k = Txid ?tx" by simp
  ultimately have "?k \<notin> sp_TxidVout ` set (spent_tbl (db s1))" using nsp by (metis imageE)
  then have sp2: "spent_inv (db s2)" using insertUnspent_spent_inv [OF sp1 _ run1(2)] by blast
  have g: "grows s2 s'" using m3 by blast
  have "blockheader_tbl (db s') = blockheader_tbl (db s2)" "map wd_Hash (wallet_tbl (db s')) = map wd_Hash (wallet_tbl (db s2))"
    using g by (simp_all add: grows_def)
  then have "extends r d0 (db s')" using m3 by (intro extends_cong [OF e2]) simp_all
  moreover have "spent_inv (db s')" using m3 by (intro spent_inv_cong [OF sp2]) simp_all
  moreover have "tx_tbl (db s') = tx_tbl (db s1)" using m2 m3 by simp
  ultimately show ?thesis using recordTx_txids [OF d run1(1)] by (simp add: rolls_def)
qed

lemma processInput_rolls:
  assumes inv: "wm_inv C V s" and hd: "has_header block (db s)" and d: "distinct (TXIDs block)" "i < length (b_Transactions block)"
    and run: "processInput block ht (b_Transactions block ! i) (int i) inp upd s = (q, s')"
    and e: "rolls r d0 s" "db_inv d0" "new_block d0 (db s) block" "r < ht"
    and fresh: "Txid (b_Transactions block ! i) \<notin> td_Txid ` set (tx_tbl d0)"
  shows "rolls r d0 s' \<and> td_Txid ` set (tx_tbl (db s')) \<subseteq> insert (Txid (b_Transactions block ! i)) (td_Txid ` set (tx_tbl (db s)))"
proof (cases "selectUnspentOutput s (outpoint inp)")
  case (Inl er)
  then have "s' = s" using run by (auto simp: processInput_def Let_def outpoint_def split: if_splits)
  with e(1) show ?thesis by auto
next
  case (Inr u)
  let ?tx = "b_Transactions block ! i"
  obtain p s1 where r1: "recordTx block ?tx (int i) (u_ScriptPubkeyHash u) s = (p, s1)" by force
  note m1 = record_moves [OF inv hd d r1]
  obtain p2 s2 where r2: "deleteUnspentOutput (outpoint inp) ht s1 = (p2, s2)" by force
  have "wm_inv C V s1" using m1 by blast
  note m2 = delete_debit [OF this r2]
  have s': "s' = s2" using run r1 r2 m1 m2 Inr by (simp add: processInput_def Let_def flip: outpoint_def)
  have e1: "extends r d0 (db s1)" using extends_recordTx [OF _ e(2,3) d fresh r1] e(1) by (simp add: rolls_def)
  have "spent_inv (db s1)" using e(1) m1 by (auto simp: rolls_def intro: spent_inv_cong)
  from extends_deleteUnspent [OF e1 this e(4) r2] m2 show ?thesis using recordTx_txids [OF d r1] by (simp add: s' rolls_def)
qed

lemma processOutputs_rolls:
  assumes d: "distinct (TXIDs block)" "i < length (b_Transactions block)" and V: "block_outputs V block"
    and d0: "db_inv d0" and fresh: "Txid (b_Transactions block ! i) \<notin> td_Txid ` set (tx_tbl d0)"
  shows "wm_inv C V s \<Longrightarrow> drop j (t_Outputs (b_Transactions block ! i)) = outs \<Longrightarrow> has_header block (db s) \<Longrightarrow>
    processOutputs C block ht (b_Transactions block ! i) (int i) j outs upd s = (Inr upd', s') \<Longrightarrow>
    rolls r d0 s \<Longrightarrow> new_block d0 (db s) block \<Longrightarrow>
    \<forall>x\<in>set (spent_tbl (db s)). take 32 (sp_TxidVout x) \<noteq> Txid (b_Transactions block ! i) \<Longrightarrow>
    rolls r d0 s' \<and> td_Txid ` set (tx_tbl (db s')) \<subseteq> insert (Txid (b_Transactions block ! i)) (td_Txid ` set (tx_tbl (db s)))"
proof (induction outs arbitrary: j upd s)
  case (Cons out outs)
  let ?tx = "b_Transactions block ! i"
  from Cons.prems(4) obtain u1 s1 where r1: "processOutput C block ht ?tx (int i) out (of_nat j) upd s = (Inr u1, s1)"
      "processOutputs C block ht ?tx (int i) (Suc j) outs u1 s1 = (Inr upd', s')"
    by (auto simp: ebind_ok_iff)
  have j: "j < length (t_Outputs ?tx)" "t_Outputs ?tx ! j = out" "drop (Suc j) (t_Outputs ?tx) = outs"
    using Cons.prems(2) by (metis drop_all list.distinct(1) not_less, metis nth_via_drop, metis drop_Suc list.sel(3) tl_drop)
  then have v: "V (makeTxidVout (Txid ?tx) (of_nat j)) = Some (outputValue out)"
    using V d(2) unfolding block_outputs_def by (metis nth_mem)
  note m = processOutput_step [OF Cons.prems(1,3) d v r1(1)]
  then have m1: "wm_inv C V s1" "blockheader_tbl (db s1) = blockheader_tbl (db s)" "spent_tbl (db s1) = spent_tbl (db s)"
    by (auto simp: grows_def)
  note s = processOutput_rolls [OF Cons.prems(1,3) d v r1(1) Cons.prems(5) d0 Cons.prems(6) fresh Cons.prems(7)]
  have hd1: "has_header block (db s1)" "new_block d0 (db s1) block"
    using Cons.prems(3,6) m1(2) by (simp_all add: has_header_def new_block_def)
  have "\<forall>x\<in>set (spent_tbl (db s1)). take 32 (sp_TxidVout x) \<noteq> Txid ?tx" using Cons.prems(7) m1(3) by simp
  from Cons.IH [OF m1(1) j(3) hd1(1) r1(2) _ hd1(2) this] s show ?case by blast
qed auto

lemma processInputs_rolls:
  assumes d: "distinct (TXIDs block)" "i < length (b_Transactions block)"
    and d0: "db_inv d0" "r < ht" and fresh: "Txid (b_Transactions block ! i) \<notin> td_Txid ` set (tx_tbl d0)"
  shows "wm_inv C V s \<Longrightarrow> has_header block (db s) \<Longrightarrow>
    processInputs block ht (b_Transactions block ! i) (int i) inps upd s = (q, s') \<Longrightarrow>
    rolls r d0 s \<Longrightarrow> new_block d0 (db s) block \<Longrightarrow>
    rolls r d0 s' \<and> td_Txid ` set (tx_tbl (db s')) \<subseteq> insert (Txid (b_Transactions block ! i)) (td_Txid ` set (tx_tbl (db s)))"
proof (induction inps arbitrary: upd s)
  case (Cons inp inps)
  let ?tx = "b_Transactions block ! i"
  obtain q1 s1 where r1: "processInput block ht ?tx (int i) inp upd s = (q1, s1)" by force
  from processInput_step [OF Cons.prems(1,2) d r1] obtain u1 where m1: "q1 = Inr u1" "wm_inv C V s1" "grows s s1" by blast
  have run: "processInputs block ht ?tx (int i) inps u1 s1 = (q, s')" using Cons.prems(3) r1 m1(1) by simp
  have hd1: "has_header block (db s1)" "new_block d0 (db s1) block"
    using Cons.prems(2,5) m1(3) by (auto simp: has_header_def grows_def new_block_def)
  note s = processInput_rolls [OF Cons.prems(1,2) d r1 Cons.prems(4) d0(1) Cons.prems(5) d0(2) fresh]
  from Cons.IH [OF m1(2) hd1(1) run _ hd1(2)] s show ?case by blast
qed auto


lemma spent_txids:
  assumes "db_inv d" "txid \<notin> td_Txid ` set (tx_tbl d)"
  shows "\<forall>x\<in>set (spent_tbl d). take 32 (sp_TxidVout x) \<noteq> txid"
  using assms unfolding db_inv_def ref_inv_def list_all_iff by metis

lemma insert_chain: "D \<subseteq> X \<union> B \<Longrightarrow> B \<subseteq> insert a A \<Longrightarrow> D \<subseteq> insert a X \<union> A"
  by blast

lemma processTxs_rolls:
  assumes d: "distinct (TXIDs block)" and V: "block_outputs V block" and d0: "db_inv d0" "r < ht"
    and fresh: "\<forall>tx\<in>set (b_Transactions block). Txid tx \<notin> td_Txid ` set (tx_tbl d0)"
  shows "wm_inv C V s \<Longrightarrow> has_header block (db s) \<Longrightarrow> drop i (b_Transactions block) = txs \<Longrightarrow>
    processTxs C block ht i txs upd s = (Inr upd', s') \<Longrightarrow>
    rolls r d0 s \<Longrightarrow> new_block d0 (db s) block \<Longrightarrow> \<forall>tx\<in>set txs. Txid tx \<notin> td_Txid ` set (tx_tbl (db s)) \<Longrightarrow>
    rolls r d0 s' \<and> td_Txid ` set (tx_tbl (db s')) \<subseteq> Txid ` set txs \<union> td_Txid ` set (tx_tbl (db s))"
proof (induction txs arbitrary: i upd s)
  case (Cons tx txs)
  have i: "i < length (b_Transactions block)" "b_Transactions block ! i = tx" "drop (Suc i) (b_Transactions block) = txs"
    using Cons.prems(3) by (metis drop_all list.distinct(1) not_less, metis nth_via_drop, metis drop_Suc list.sel(3) tl_drop)
  from Cons.prems(4) obtain u1 s1 u2 s2 where run: "processOutputs C block ht tx (int i) 0 (t_Outputs tx) upd s = (Inr u1, s1)"
      "processInputs block ht tx (int i) (t_Inputs tx) u1 s1 = (Inr u2, s2)" "processTxs C block ht (Suc i) txs u2 s2 = (Inr upd', s')"
    by (auto simp: ebind_ok_iff)
  have fr: "Txid (b_Transactions block ! i) \<notin> td_Txid ` set (tx_tbl d0)" using fresh i(1) nth_mem by blast
  have "Txid tx \<notin> td_Txid ` set (tx_tbl (db s))" using Cons.prems(7) by simp
  then have nsp: "\<forall>x\<in>set (spent_tbl (db s)). take 32 (sp_TxidVout x) \<noteq> Txid (b_Transactions block ! i)"
    using spent_txids [of "db s" "Txid tx"] Cons.prems(1) by (simp add: wm_inv_def i(2))
  have o: "processOutputs C block ht (b_Transactions block ! i) (int i) 0 (t_Outputs tx) upd s = (Inr u1, s1)" using run(1) i(2) by simp
  have dr: "drop 0 (t_Outputs (b_Transactions block ! i)) = t_Outputs tx" using i(2) by simp
  have "wm_inv C V s1 \<and> grows s s1" using processOutputs_steps [OF Cons.prems(2) d i(1) V Cons.prems(1) dr Cons.prems(2) o] by blast
  then have w1: "wm_inv C V s1" "has_header block (db s1)" "new_block d0 (db s1) block"
    using Cons.prems(2,6) by (simp_all add: has_header_def grows_def new_block_def)
  note s1 = processOutputs_rolls [OF d i(1) V d0(1) fr Cons.prems(1) dr Cons.prems(2) o Cons.prems(5,6) nsp, unfolded i(2)]
  then have e1: "rolls r d0 s1" by blast
  from processInputs_steps [OF d i(1) w1(1,2), unfolded i(2), OF run(2)] have "wm_inv C V s2 \<and> grows s1 s2" by blast
  then have w2: "wm_inv C V s2" "has_header block (db s2)" "new_block d0 (db s2) block"
    using w1 by (simp_all add: has_header_def grows_def new_block_def)
  note s2 = processInputs_rolls [OF d i(1) d0 fr w1(1,2), unfolded i(2), OF run(2) e1 w1(3)]
  have "distinct (map Txid (tx # txs))" using d Cons.prems(3) unfolding TXIDs_def by (metis distinct_drop drop_map)
  then have "\<forall>t\<in>set txs. Txid t \<noteq> Txid tx" by (metis distinct.simps(2) image_eqI list.map(2) list.set_map)
  moreover have sub: "td_Txid ` set (tx_tbl (db s2)) \<subseteq> insert (Txid tx) (td_Txid ` set (tx_tbl (db s)))" using s1 s2 by blast
  ultimately have "\<forall>t\<in>set txs. Txid t \<notin> td_Txid ` set (tx_tbl (db s2))"
    using Cons.prems(7) by (metis in_mono insertE list.set_intros(2))
  note ih = Cons.IH [OF w2(1,2) i(3) run(3) conjunct1 [OF s2] w2(3) this]
  show ?case using conjunct1 [OF ih] insert_chain [OF conjunct2 [OF ih] sub] by simp
qed simp

lemma updateHeights_tables:
  assumes "wm_inv C V s" "set is \<subseteq> {..<length (wallets s)}" "updateHeights ht is s = (Inr (), s')"
  shows "stx_tbl (db s') = stx_tbl (db s) \<and> tx_tbl (db s') = tx_tbl (db s) \<and> blockheader_tbl (db s') = blockheader_tbl (db s)
    \<and> unspent_tbl (db s') = unspent_tbl (db s) \<and> spent_tbl (db s') = spent_tbl (db s)"
  using updateHeights_steps [OF assms(1,2), of ht] by (elim exE conjE) (simp add: assms(3))

lemma updateHeights_wallet_tbl:
  "updateHeights ht is s = (r, s') \<Longrightarrow> map wd_Hash (wallet_tbl (db s')) = map wd_Hash (wallet_tbl (db s))"
proof (induction "is" arbitrary: s)
  case (Cons i "is")
  have "map wd_Hash (map (\<lambda>r. if wd_Hash r = h then r\<lparr>wd_Height := ht\<rparr> else r) rows) = map wd_Hash rows" for h rows by simp
  with Cons show ?case by (auto simp: updateWalletHeight_def updWallet_def split: if_splits)
qed simp

lemma processBlock_rolls:
  assumes inv: "wm_inv C V s" "has_header block (db s)" "distinct (TXIDs block)" "block_outputs V block"
    and run: "processBlock C block ht s = (Inr (), s')"
    and e: "rolls r d0 s" "db_inv d0" "new_block d0 (db s) block" "r < ht"
    and fresh: "\<forall>tx\<in>set (b_Transactions block). Txid tx \<notin> td_Txid ` set (tx_tbl (db s))"
  shows "rolls r d0 s' \<and> td_Txid ` set (tx_tbl (db s')) \<subseteq> Txid ` set (b_Transactions block) \<union> td_Txid ` set (tx_tbl (db s))"
proof -
  obtain upd s1 s2 where r: "processTxs C block ht 0 (b_Transactions block) [] s = (Inr upd, s1)"
      "updateHeights ht [0..<length (wallets s1)] s1 = (Inr (), s2)" "notifyUpdated upd s2 = (Inr (), s')"
    using run by (auto simp: processBlock_def ebind_ok_iff)
  have fr0: "\<forall>tx\<in>set (b_Transactions block). Txid tx \<notin> td_Txid ` set (tx_tbl d0)"
    using fresh e(1) unfolding rolls_def extends_def extends_by_def by auto
  have w1: "wm_inv C V s1" using processTxs_steps [OF inv(3,4,1,2) _ r(1)] by simp
  have m1: "rolls r d0 s1" "td_Txid ` set (tx_tbl (db s1)) \<subseteq> Txid ` set (b_Transactions block) \<union> td_Txid ` set (tx_tbl (db s))"
    using processTxs_rolls [OF inv(3,4) e(2,4) fr0 inv(1,2) _ r(1) e(1,3) fresh] by simp_all
  have "set [0..<length (wallets s1)] \<subseteq> {..<length (wallets s1)}" by auto
  note m2 = updateHeights_tables [OF w1 this r(2)]
  have wd: "map wd_Hash (wallet_tbl (db s2)) = map wd_Hash (wallet_tbl (db s1))" by (rule updateHeights_wallet_tbl [OF r(2)])
  have u: "stx_tbl (db s2) = stx_tbl (db s1)" "tx_tbl (db s2) = tx_tbl (db s1)" "blockheader_tbl (db s2) = blockheader_tbl (db s1)"
      "unspent_tbl (db s2) = unspent_tbl (db s1)" "spent_tbl (db s2) = spent_tbl (db s1)"
    using m2 by blast+
  have db: "db s' = db s2" using notifyUpdated_steps [OF r(3)] by simp
  have x1: "extends r d0 (db s1)" "spent_inv (db s1)" using m1(1) by (simp_all add: rolls_def)
  have "rolls r d0 s'"
    unfolding rolls_def db using extends_cong [OF x1(1) u(3,2,1,4,5) wd] spent_inv_cong [OF x1(2) u(4,5)] by blast
  then show ?thesis using m1(2) unfolding db u(2) by blast
qed

section \<open>Rolling back\<close>

lemma txids_above_extends:
  assumes x: "extends_by r d0 d hs ts ps sp" and d0: "db_inv d0" "settled r d0" and d: "db_inv d"
  shows "filter (\<lambda>t. list_ex (\<lambda>b. bh_Hash b = td_BlockHash t \<and> bh_Height b > r) (blockheader_tbl d)) (tx_tbl d) = ts"
    and "filter (\<lambda>t. \<not> list_ex (\<lambda>b. bh_Hash b = td_BlockHash t \<and> bh_Height b > r) (blockheader_tbl d)) (tx_tbl d) = tx_tbl d0"
proof -
  let ?P = "\<lambda>t. list_ex (\<lambda>b. bh_Hash b = td_BlockHash t \<and> bh_Height b > r) (blockheader_tbl d)"
  have hd: "blockheader_tbl d = blockheader_tbl d0 @ hs" "tx_tbl d = tx_tbl d0 @ ts" using x by (simp_all add: extends_by_def)
  have new: "?P t" if "t \<in> set ts" for t
  proof -
    from that x obtain b where "b \<in> set hs" "bh_Hash b = td_BlockHash t" "r < bh_Height b" by (fastforce simp: extends_by_def)
    then show ?thesis by (auto simp: hd(1) list_ex_iff)
  qed
  have old: "\<not> ?P t" if t: "t \<in> set (tx_tbl d0)" for t
  proof
    assume "?P t"
    then obtain b where b: "b \<in> set (blockheader_tbl d)" "bh_Hash b = td_BlockHash t" "r < bh_Height b" by (auto simp: list_ex_iff)
    from t d0(1) obtain b0 where b0: "b0 \<in> set (blockheader_tbl d0)" "bh_Hash b0 = td_BlockHash t"
      by (fastforce simp: db_inv_def ref_inv_def list_all_iff)
    have "b = b0" using d b b0 hd(1) by (intro distinct_key_inj [of bh_Hash "blockheader_tbl d"]) (auto simp: db_inv_def pk_inv_def)
    with b0(1) b(3) d0(2) show False by (fastforce simp: settled_def)
  qed
  show "filter ?P (tx_tbl d) = ts" unfolding hd(2) using new old by (simp add: filter_True filter_False)
  show "filter (\<lambda>t. \<not> ?P t) (tx_tbl d) = tx_tbl d0" unfolding hd(2) using new old by (simp add: filter_True filter_False)
qed

text \<open>\<open>deleteAllSinceBlock r\<close> undoes everything above \<open>r\<close>.\<close>

lemma deleteAllSinceBlock_restores:
  assumes x: "rolls r d0 s" and d0: "db_inv d0" "settled r d0" and d: "db_inv (db s)"
  shows "\<exists>s'. deleteAllSinceBlock r s = (Inr (), s') \<and> s' = s\<lparr>db := db s'\<rparr>
    \<and> blockheader_tbl (db s') = blockheader_tbl d0 \<and> tx_tbl (db s') = tx_tbl d0 \<and> stx_tbl (db s') = stx_tbl d0
    \<and> spent_tbl (db s') = spent_tbl d0 \<and> mset (unspent_tbl (db s')) = mset (unspent_tbl d0)
    \<and> wallet_tbl (db s') = map (\<lambda>w. if wd_Height w > r then w\<lparr>wd_Height := r\<rparr> else w) (wallet_tbl (db s))"
proof -
  from x obtain hs ts ps sp where e: "extends_by r d0 (db s) hs ts ps sp" by (auto simp: rolls_def extends_def)
  note T = txids_above_extends [OF e d0 d]
  have above: "set (txids_above r (db s)) = td_Txid ` set ts" by (simp add: txids_above_def T(1))
  have fresh: "td_Txid ` set ts \<inter> td_Txid ` set (tx_tbl d0) = {}"
    using d e by (auto simp: db_inv_def pk_inv_def extends_by_def)
  have sp_back: "filter (\<lambda>q. sp_Height q > r) (spent_tbl (db s)) = sp" "filter (\<lambda>q. \<not> sp_Height q > r) (spent_tbl (db s)) = spent_tbl d0"
    using e d0(2) by (auto simp: extends_by_def settled_def filter_empty_conv filter_id_conv not_less)
  have headers: "filter (\<lambda>b. \<not> bh_Height b > r) (blockheader_tbl (db s)) = blockheader_tbl d0"
    using e d0(2) by (auto simp: extends_by_def settled_def filter_empty_conv filter_id_conv not_less)
  have "snd p \<in> td_Txid ` set (tx_tbl d0)" if "p \<in> set (stx_tbl d0)" for p
    using d0(1) that by (auto simp: db_inv_def ref_inv_def list_all_iff)
  then have stx: "filter (\<lambda>(_, txid). txid \<notin> td_Txid ` set ts) (stx_tbl (db s)) = stx_tbl d0"
    using e fresh by (auto simp: extends_by_def filter_empty_conv filter_id_conv case_prod_unfold)
  have "distinct (map u_TxidVout (unspent_tbl (db s) @ map unspend_row sp))"
  proof -
    have "distinct (map sp_TxidVout sp)" "sp_TxidVout ` set sp \<subseteq> sp_TxidVout ` set (spent_tbl (db s))"
      using d e by (auto simp: db_inv_def pk_inv_def extends_by_def)
    moreover have "u_TxidVout ` set (unspent_tbl (db s)) \<inter> sp_TxidVout ` set (spent_tbl (db s)) = {}"
      using x by (simp add: rolls_def spent_inv_def)
    moreover have "map u_TxidVout (map unspend_row sp) = map sp_TxidVout sp" by (simp add: unspend_row_def)
    ultimately show ?thesis using d unfolding map_append distinct_append by (auto simp: db_inv_def pk_inv_def simp del: map_map)
  qed
  then have "deleteAllSinceBlock r s = (Inr (), s\<lparr>db := (db s)\<lparr>stx_tbl := stx_tbl d0, spent_tbl := spent_tbl d0,
      unspent_tbl := filter (\<lambda>u. take 32 (u_TxidVout u) \<notin> td_Txid ` set ts) (unspent_tbl (db s) @ map unspend_row sp),
      tx_tbl := tx_tbl d0, blockheader_tbl := blockheader_tbl d0,
      wallet_tbl := map (\<lambda>w. if wd_Height w > r then w\<lparr>wd_Height := r\<rparr> else w) (wallet_tbl (db s))\<rparr>\<rparr>)"
    unfolding deleteAllSinceBlock_def Let_def sp_back headers T(2) above stx by simp
  moreover have "mset (filter (\<lambda>u. take 32 (u_TxidVout u) \<notin> td_Txid ` set ts) (unspent_tbl (db s) @ map unspend_row sp)) = mset (unspent_tbl d0)"
    using e by (simp only: extends_by_def)
  ultimately show ?thesis by simp
qed

end
