(* ===== verification/Sync.thy ===== *)
theory Sync
  imports Rollback
begin

text \<open>
  The synchronisation with the node: \<open>syncHeaders\<close>, \<open>checkReorg\<close>, \<open>processReorg\<close>, \<open>syncWallets\<close> and the rounds of
  \<open>run\<close> of \<open>walletmanager/walletmanager.go\<close>.

  The peer is a parameter: a record \<open>node\<close> of the answers of \<open>GetHeaders\<close> and \<open>GetBlock\<close> and of the
  cancellation of the context, each a function of the number of calls made so far (\<open>calls\<close>), so that the answers may
  change over time in any way. Loops that the peer can prolong for ever run on fuel, and \<open>None\<close> is a loop that has not
  ended yet.
\<close>

section \<open>The peer\<close>

record node =
  nd_headers :: "nat \<Rightarrow> hash32 list \<Rightarrow> Header list result"
  nd_block :: "nat \<Rightarrow> hash32 \<Rightarrow> Block result"
  nd_cancelled :: "nat \<Rightarrow> bool"

definition GetHeaders :: "node \<Rightarrow> hash32 list \<Rightarrow> 'z W_scheme \<Rightarrow> (Header list, 'z W_scheme) outcome" where
  "GetHeaders N hashes s = (nd_headers N (calls s) hashes, s\<lparr>calls := Suc (calls s)\<rparr>)"

definition GetBlock :: "node \<Rightarrow> hash32 \<Rightarrow> 'z W_scheme \<Rightarrow> (Block, 'z W_scheme) outcome" where
  "GetBlock N bh s = (nd_block N (calls s) bh, s\<lparr>calls := Suc (calls s)\<rparr>)"

section \<open>Reorganisations\<close>

text \<open>The loop of \<open>checkReorg\<close>, from the height of the best header down.\<close>

function checkReorg_from :: "node \<Rightarrow> int \<Rightarrow> 'z W_scheme \<Rightarrow> (unit, 'z W_scheme) outcome" where
  "checkReorg_from N height s =
     (if bestHeader s - (height - 1) > 6 then (Inl (ErrPanic ''REORG WITH DELTA > 6''), s)
      else
        ebind (ereads (selectBlockHashesAtHeight s (height - 1) 1) s) (\<lambda>blockHashes s'.
        case blockHashes of
          [] \<Rightarrow> (Inl (ErrPanic ''unreachable''), s)
        | bh # _ \<Rightarrow>
            ebind (GetHeaders N [bh] s) (\<lambda>headers s'.
            if headers = [] \<or> h_PreviousBlock (hd headers) = bh then (Inl (ErrReorg (height - 1)), s')
            else checkReorg_from N (height - 1) s')))"
  by pat_completeness auto
termination
  by (relation "measure (\<lambda>(N, h, s). nat (h - bestHeader s + 7))") (auto simp: GetHeaders_def)

declare checkReorg_from.simps [simp del]

definition checkReorg :: "node \<Rightarrow> 'z W_scheme \<Rightarrow> (unit, 'z W_scheme) outcome" where
  "checkReorg N s = (if bestHeader s = 0 then (Inr (), s) else checkReorg_from N (bestHeader s) s)"

definition processReorg :: "int \<Rightarrow> 'z W_scheme \<Rightarrow> (unit, 'z W_scheme) outcome" where
  "processReorg height s =
     ebind (ereads (selectBlockHashesAtHeight s height 1) s) (\<lambda>hashes s.
     case hashes of
       [] \<Rightarrow> (Inl (ErrPanic ''unreachable''), s)
     | h # _ \<Rightarrow>
         ebind (deleteAllSinceBlock height s) (\<lambda>_ s.
         ebind (reloadCaches s) (\<lambda>_ s.
         (Inr (), s\<lparr>wallets := map (\<lambda>w. w\<lparr>wl_height := min height (wl_height w)\<rparr>) (wallets s),
                    bestHeader := height, bestHeaderHash := h\<rparr>))))"

section \<open>Headers\<close>

text \<open>The loop over the headers of one answer.\<close>

fun addHeaders :: "node \<Rightarrow> Header list \<Rightarrow> 'z W_scheme \<Rightarrow> (unit, 'z W_scheme) outcome" where
  "addHeaders N [] s = (Inr (), s)"
| "addHeaders N (hdr # hdrs) s =
     (if h_PreviousBlock hdr \<noteq> bestHeaderHash s
      then ebind (checkReorg N s) (\<lambda>_ s. (Inl (Err ''unexpected block''), s))
      else
        let hash = Header_Hash hdr; buf = Header_Serialize hdr;
            s = notifyHeaderSubscribers (bestHeader s + 1) buf s
        in ebind (insertBlockHeader hash (bestHeader s + 1) buf s) (\<lambda>_ s.
           addHeaders N hdrs (s\<lparr>bestHeader := bestHeader s + 1, bestHeaderHash := hash\<rparr>)))"

fun syncHeaders_loop :: "node \<Rightarrow> nat \<Rightarrow> 'z W_scheme \<Rightarrow> (unit, 'z W_scheme) outcome option" where
  "syncHeaders_loop N 0 s = None"
| "syncHeaders_loop N (Suc fuel) s =
     (if nd_cancelled N (calls s) then Some (Inr (), s)
      else case GetHeaders N [bestHeaderHash s] s of
        (Inl e, s) \<Rightarrow> Some (Inl e, s)
      | (Inr headers, s) \<Rightarrow>
          if headers = [] then Some (Inr (), s)
          else case addHeaders N headers s of
            (Inl e, s) \<Rightarrow> Some (Inl e, s)
          | (Inr _, s) \<Rightarrow> syncHeaders_loop N fuel s)"

text \<open>The stored tip, or the genesis block.\<close>

definition storedTip :: "'z W_scheme \<Rightarrow> blockHeaderData result" where
  "storedTip s =
     (case selectLastBlockHeaderData s of
        Inl e \<Rightarrow> if e = ErrNoRows then Inr (genesisBlockData (net s)) else Inl e
      | Inr b \<Rightarrow> Inr b)"

definition syncHeaders :: "node \<Rightarrow> nat \<Rightarrow> 'z W_scheme \<Rightarrow> (unit, 'z W_scheme) outcome option" where
  "syncHeaders N fuel s =
     (case storedTip s of
        Inl e \<Rightarrow> Some (Inl e, s)
      | Inr b \<Rightarrow> syncHeaders_loop N fuel (s\<lparr>bestHeader := bh_Height b, bestHeaderHash := bh_Hash b\<rparr>))"

section \<open>Blocks\<close>

text \<open>The blocks of one page of hashes; the height after the last one is returned.\<close>

fun syncBlocks :: "crypto \<Rightarrow> node \<Rightarrow> hash32 list \<Rightarrow> int \<Rightarrow> 'z W_scheme \<Rightarrow> (int, 'z W_scheme) outcome" where
  "syncBlocks C N [] height s = (Inr height, s)"
| "syncBlocks C N (bh # bhs) height s =
     ebind (GetBlock N bh s) (\<lambda>block s.
     ebind (sqlExecute (processBlock C block height) s) (\<lambda>_ s.
     syncBlocks C N bhs (height + 1) s))"

fun syncWallets_loop :: "crypto \<Rightarrow> node \<Rightarrow> nat \<Rightarrow> int \<Rightarrow> 'z W_scheme \<Rightarrow> (unit, 'z W_scheme) outcome option" where
  "syncWallets_loop C N 0 height s = None"
| "syncWallets_loop C N (Suc fuel) height s =
     (if height > bestHeader s then Some (Inr (), s)
      else case ebind (ereads (selectBlockHashesAtHeight s height 2000) s) (\<lambda>hbuf s. syncBlocks C N hbuf height s) of
        (Inl e, s) \<Rightarrow> Some (Inl e, s)
      | (Inr height, s) \<Rightarrow> syncWallets_loop C N fuel height s)"

definition syncWallets :: "crypto \<Rightarrow> node \<Rightarrow> nat \<Rightarrow> 'z W_scheme \<Rightarrow> (unit, 'z W_scheme) outcome option" where
  "syncWallets C N fuel s =
     (case wallets s of
        [] \<Rightarrow> Some (Inr (), s)
      | w # _ \<Rightarrow>
          let height = foldl (\<lambda>h w. min h (wl_height w)) (wl_height w) (wallets s) in
          if height \<ge> bestHeader s then Some (Inr (), s)
          else syncWallets_loop C N fuel (height + 1) s)"

section \<open>A round of \<open>run\<close>\<close>

definition syncRound :: "crypto \<Rightarrow> node \<Rightarrow> nat \<Rightarrow> 'z W_scheme \<Rightarrow> (unit, 'z W_scheme) outcome option" where
  "syncRound C N fuel s =
     (case syncHeaders N fuel s of
        None \<Rightarrow> None
      | Some (Inl e, s) \<Rightarrow>
          (case e of
             ErrReorg height \<Rightarrow>
               (case processReorg height s of
                  (Inl e, s) \<Rightarrow> Some (Inl e, s)
                | (Inr _, s) \<Rightarrow> syncWallets C N fuel s)
           | _ \<Rightarrow> Some (Inl e, s))
      | Some (Inr _, s) \<Rightarrow> syncWallets C N fuel s)"

text \<open>
  The service: the first round has no subscribers and ends with \<open>initCompleted\<close>, which every query and
  subscription waits for; later rounds are started by the ticker under the mutex, and clients subscribe and leave
  between them. A round that fails ends \<open>run\<close>: in \<open>Failed\<close> the channel \<open>initCompleted\<close> is never closed, in
  \<open>Stopped\<close> clients are served from the last state. A panic, of a round or of a query, ends the process.
\<close>

datatype phase = Starting | Serving | Failed | Stopped | Crashed

definition after_error :: "error \<Rightarrow> phase \<Rightarrow> phase" where
  "after_error e p = (case e of ErrPanic _ \<Rightarrow> Crashed | _ \<Rightarrow> if p = Starting then Failed else Stopped)"

text \<open>What a step is about: a round, a request of a connection, or its departure. A request may subscribe, only read, or panic.\<close>

datatype action = Round | Asks u32 | Leaves u32

inductive service_step :: "crypto \<Rightarrow> node \<Rightarrow> action \<Rightarrow> phase \<times> W \<Rightarrow> phase \<times> W \<Rightarrow> bool" for C N where
  round_ok: "p \<in> {Starting, Serving} \<Longrightarrow> syncRound C N fuel s = Some (Inr u, s') \<Longrightarrow> service_step C N Round (p, s) (Serving, s')"
| round_err: "p \<in> {Starting, Serving} \<Longrightarrow> syncRound C N fuel s = Some (Inl e, s') \<Longrightarrow> service_step C N Round (p, s) (after_error e p, s')"
| sub_headers: "p \<in> {Serving, Stopped} \<Longrightarrow> service_step C N (Asks cid) (p, s) (p, HeadersSubscribe cid cb s)"
| sub_script: "p \<in> {Serving, Stopped} \<Longrightarrow> service_step C N (Asks cid) (p, s) (p, ScriptHashSubscribe cid sh cb s)"
| leave: "p \<in> {Serving, Stopped} \<Longrightarrow> service_step C N (Leaves cid) (p, s) (p, UnsubscribeAll cid s)"
| query: "p \<in> {Serving, Stopped} \<Longrightarrow> service_step C N (Asks cid) (p, s) (p, s)"
| query_panic: "p \<in> {Serving, Stopped} \<Longrightarrow> service_step C N (Asks cid) (p, s) (Crashed, s)"

inductive service_reach :: "crypto \<Rightarrow> node \<Rightarrow> W \<Rightarrow> action list \<Rightarrow> phase \<times> W \<Rightarrow> bool" for C N s0 where
  start: "service_reach C N s0 [] (Starting, s0)"
| step: "service_reach C N s0 ls a \<Longrightarrow> service_step C N l a b \<Longrightarrow> service_reach C N s0 (ls @ [l]) b"

inductive_cases service_stepE: "service_step C N l (p, s) b"

end
