(* ===== verification/SyncFacts.thy ===== *)
theory SyncFacts
  imports Sync
begin

text \<open>
  What the synchronisation keeps: the table of headers is a chain (\<open>chain_inv\<close>: heights 1, 2, \<dots>, each header
  naming the hash of the one before it, the first one the genesis block) and the best header is its last one
  (\<open>at_tip\<close>). This holds after every outcome of every loop, whatever the peer answers.
\<close>

section \<open>Chains of headers\<close>

definition prevOf :: "bytes \<Rightarrow> hash32" where
  "prevOf ser = take 32 (drop 4 ser)"

fun linked :: "hash32 \<Rightarrow> int \<Rightarrow> blockHeaderData list \<Rightarrow> bool" where
  "linked h i [] = True"
| "linked h i (b # bs) =
     (bh_Height b = i + 1 \<and> length (bh_Serialized b) = 80 \<and> prevOf (bh_Serialized b) = h
      \<and> bh_Hash b = Sum256 (Sum256 (bh_Serialized b)) \<and> linked (bh_Hash b) (i + 1) bs)"

definition tip :: "hash32 \<Rightarrow> blockHeaderData list \<Rightarrow> hash32" where
  "tip h bs = (if bs = [] then h else bh_Hash (last bs))"

definition genesisHash :: "'z W_scheme \<Rightarrow> hash32" where
  "genesisHash s = bh_Hash (genesisBlockData (net s))"

definition chain_inv :: "'z W_scheme \<Rightarrow> bool" where
  "chain_inv s \<longleftrightarrow> linked (genesisHash s) 0 (blockheader_tbl (db s))"

definition at_tip :: "'z W_scheme \<Rightarrow> bool" where
  "at_tip s \<longleftrightarrow> bestHeader s = int (length (blockheader_tbl (db s)))
     \<and> bestHeaderHash s = tip (genesisHash s) (blockheader_tbl (db s))"

lemma tip_Cons: "tip h (b # bs) = tip (bh_Hash b) bs"
  by (simp add: tip_def)

lemma linked_append:
  "linked h i (bs @ cs) \<longleftrightarrow> linked h i bs \<and> linked (tip h bs) (i + int (length bs)) cs"
  by (induction bs arbitrary: h i) (auto simp: tip_Cons tip_def [of _ "[]"] algebra_simps)

lemma linked_nth:
  "linked h i bs \<Longrightarrow> n < length bs \<Longrightarrow>
   bh_Height (bs ! n) = i + int n + 1 \<and> length (bh_Serialized (bs ! n)) = 80
   \<and> bh_Hash (bs ! n) = Sum256 (Sum256 (bh_Serialized (bs ! n)))
   \<and> prevOf (bh_Serialized (bs ! n)) = (if n = 0 then h else bh_Hash (bs ! (n - 1)))"
proof (induction bs arbitrary: h i n)
  case (Cons b bs)
  show ?case
  proof (cases n)
    case (Suc m)
    with Cons.prems have "linked (bh_Hash b) (i + 1) bs" "m < length bs" unfolding linked.simps by (blast, simp)
    from Cons.IH [OF this] Suc show ?thesis by (cases m) auto
  qed (use Cons.prems in simp)
qed simp

lemma linked_take: "linked h i bs \<Longrightarrow> linked h i (take n bs)"
  using linked_append [of h i "take n bs" "drop n bs"] by simp

lemma linked_hash_length: "linked h i bs \<Longrightarrow> b \<in> set bs \<Longrightarrow> length (bh_Hash b) = 32"
  using linked_nth by (fastforce simp: in_set_conv_nth)

text \<open>What the queries need: the rows are numbered from 1 on and have hashes of 32 bytes.\<close>

definition numbered :: "blockHeaderData list \<Rightarrow> bool" where
  "numbered bs \<longleftrightarrow> map bh_Height bs = map (\<lambda>n. int n + 1) [0..<length bs] \<and> (\<forall>b\<in>set bs. length (bh_Hash b) = 32)"

lemma linked_numbered: "linked h 0 bs \<Longrightarrow> numbered bs"
  unfolding numbered_def
proof (intro conjI nth_equalityI)
  assume l: "linked h 0 bs"
  show "\<And>i. i < length (map bh_Height bs) \<Longrightarrow> map bh_Height bs ! i = map (\<lambda>n. int n + 1) [0..<length bs] ! i"
    using linked_nth [OF l] by simp
  show "\<forall>b\<in>set bs. length (bh_Hash b) = 32" using linked_hash_length [OF l] by blast
qed simp

lemma numbered_nth: "numbered bs \<Longrightarrow> n < length bs \<Longrightarrow> bh_Height (bs ! n) = int n + 1"
  unfolding numbered_def by (metis (no_types, lifting) add_0 diff_zero length_upt nth_map nth_upt)

lemma numbered_sorted: "numbered bs \<Longrightarrow> sorted (map bh_Height bs)"
  by (simp add: numbered_def sorted_map sorted_wrt_iff_nth_less)

lemma numbered_distinct: "numbered bs \<Longrightarrow> distinct (map bh_Height bs)"
  by (simp add: numbered_def distinct_map inj_on_def)

lemma numbered_filter_ge:
  assumes "numbered bs" "0 < k"
  shows "filter (\<lambda>b. bh_Height b \<ge> k) bs = drop (nat (k - 1)) bs"
proof -
  have a: "filter (\<lambda>b. bh_Height b \<ge> k) (take (nat (k - 1)) bs) = []"
    using numbered_nth [OF assms(1)] by (auto simp: filter_empty_conv in_set_conv_nth)
  have b: "filter (\<lambda>b. bh_Height b \<ge> k) (drop (nat (k - 1)) bs) = drop (nat (k - 1)) bs"
    using numbered_nth [OF assms(1)] assms(2) by (auto simp: filter_id_conv in_set_conv_nth)
  have "filter (\<lambda>b. bh_Height b \<ge> k) bs = filter (\<lambda>b. bh_Height b \<ge> k) (take (nat (k - 1)) bs @ drop (nat (k - 1)) bs)" by simp
  then show ?thesis by (simp only: filter_append a b append_Nil)
qed

lemma numbered_filter_le:
  assumes "numbered bs"
  shows "filter (\<lambda>b. \<not> bh_Height b > k) bs = take (nat k) bs"
proof -
  have a: "filter (\<lambda>b. \<not> bh_Height b > k) (take (nat k) bs) = take (nat k) bs"
    using numbered_nth [OF assms] by (auto simp: filter_id_conv in_set_conv_nth)
  have b: "filter (\<lambda>b. \<not> bh_Height b > k) (drop (nat k) bs) = []"
    using numbered_nth [OF assms] by (auto simp: filter_empty_conv in_set_conv_nth)
  have "filter (\<lambda>b. \<not> bh_Height b > k) bs = filter (\<lambda>b. \<not> bh_Height b > k) (take (nat k) bs @ drop (nat k) bs)" by simp
  then show ?thesis by (simp only: filter_append a b append_Nil2)
qed

lemma numbered_has_height:
  assumes "numbered bs"
  shows "list_ex (\<lambda>q. bh_Height q = k) bs \<longleftrightarrow> 1 \<le> k \<and> k \<le> int (length bs)"
proof
  assume k: "1 \<le> k \<and> k \<le> int (length bs)"
  then have n: "nat (k - 1) < length bs" by linarith
  with numbered_nth [OF assms this] k show "list_ex (\<lambda>q. bh_Height q = k) bs"
    by (auto simp: list_ex_iff intro!: bexI [of _ "bs ! nat (k - 1)"])
next
  assume "list_ex (\<lambda>q. bh_Height q = k) bs"
  then obtain n where "n < length bs" "bh_Height (bs ! n) = k" by (auto simp: list_ex_iff in_set_conv_nth)
  with numbered_nth [OF assms] show "1 \<le> k \<and> k \<le> int (length bs)" by force
qed

section \<open>Queries on a chain\<close>

lemma headers_asc_numbered: "numbered (blockheader_tbl (db s)) \<Longrightarrow> headers_asc s = blockheader_tbl (db s)"
  unfolding headers_asc_def using numbered_sorted sorted_sort_id sort_key_id_if_sorted by blast

lemma headers_desc_numbered:
  assumes n: "numbered (blockheader_tbl (db s))"
  shows "headers_desc s = rev (blockheader_tbl (db s))"
  unfolding headers_desc_def
proof (rule properties_for_sort_key)
  let ?t = "blockheader_tbl (db s)"
  show "mset (rev ?t) = mset ?t" by simp
  show "filter (\<lambda>x. - bh_Height k = - bh_Height x) (rev ?t) = filter (\<lambda>x. - bh_Height k = - bh_Height x) ?t" if "k \<in> set (rev ?t)" for k
  proof -
    have "filter (\<lambda>x. bh_Height x = bh_Height k) ?t = [k]"
      using filter_unique [OF numbered_distinct [OF n], of k] that by simp
    then have "filter (\<lambda>x. - bh_Height k = - bh_Height x) ?t = [k]" by (simp add: eq_commute)
    then show ?thesis by (metis rev_filter rev_singleton_conv)
  qed
  show "sorted (map (\<lambda>r. - bh_Height r) (rev ?t))"
    using numbered_sorted [OF n] by (simp add: sorted_map sorted_wrt_rev)
qed

lemma blockHashes_numbered:
  assumes n: "numbered (blockheader_tbl (db s))"
  shows "selectBlockHashesAtHeight s height limit = Inr (sql_limit limit
    (if 1 \<le> height \<and> height \<le> int (length (blockheader_tbl (db s)))
     then map bh_Hash (drop (nat (height - 1)) (blockheader_tbl (db s))) else []))"
proof -
  let ?t = "blockheader_tbl (db s)"
  let ?rows = "if 1 \<le> height \<and> height \<le> int (length ?t) then drop (nat (height - 1)) ?t else []"
  have rows: "filter (\<lambda>r. list_ex (\<lambda>q. bh_Height q = height) ?t \<and> bh_Height r \<ge> height) (headers_asc s) = ?rows"
    using numbered_has_height [OF n, of height] numbered_filter_ge [OF n, of height]
    by (cases "1 \<le> height \<and> height \<le> int (length ?t)") (auto simp: headers_asc_numbered [OF n] filter_empty_conv)
  have "\<forall>r\<in>set (sql_limit limit ?rows). length (bh_Hash r) = 32"
    using n in_set_dropD in_set_takeD by (fastforce simp: numbered_def sql_limit_def split: if_splits)
  then have "selectBlockHashesAtHeight s height limit = Inr (map bh_Hash (sql_limit limit ?rows))"
    unfolding selectBlockHashesAtHeight_def rows by (intro scanRows_ok) (simp add: list_all_iff)
  then show ?thesis by (simp add: sql_limit_def take_map)
qed

lemma chain_numbered: "chain_inv s \<Longrightarrow> numbered (blockheader_tbl (db s))"
  by (simp add: chain_inv_def linked_numbered)

lemmas blockHashes_chain = blockHashes_numbered [OF chain_numbered]
lemmas headers_desc_chain = headers_desc_numbered [OF chain_numbered]

lemma storedTip_chain:
  assumes "chain_inv s"
  shows "\<exists>b. storedTip s = Inr b \<and> bh_Height b = int (length (blockheader_tbl (db s)))
    \<and> bh_Hash b = tip (genesisHash s) (blockheader_tbl (db s))"
proof (cases "blockheader_tbl (db s) = []")
  case True
  then show ?thesis
    by (cases "net s") (simp_all add: storedTip_def selectLastBlockHeaderData_def headers_desc_chain [OF assms] tip_def genesisHash_def)
next
  case False
  let ?t = "blockheader_tbl (db s)"
  have l: "linked (genesisHash s) 0 ?t" using assms by (simp add: chain_inv_def)
  have n: "length ?t - 1 < length ?t" using False by simp
  have h: "bh_Height (last ?t) = int (length ?t)" using linked_nth [OF l n] False n by (simp add: last_conv_nth of_nat_diff Suc_leI)
  have "rev ?t = last ?t # rev (butlast ?t)" using False by (metis append_butlast_last_id rev.simps(2) rev_rev_ident rev_append append_Nil append_Cons)
  moreover have "length (bh_Hash (last ?t)) = 32" using linked_hash_length [OF l] False by simp
  ultimately have "selectLastBlockHeaderData s = Inr (last ?t)"
    unfolding selectLastBlockHeaderData_def headers_desc_chain [OF assms] by (metis (mono_tags, lifting)
      blockHeaderData.surjective old.unit.exhaust bufWrapper_Scan_width queryRow_simps(2) rbind_simps(2))
  with h show ?thesis by (simp add: storedTip_def tip_def False)
qed

section \<open>Adding headers\<close>

definition hdr_frame :: "'z W_scheme \<Rightarrow> 'z W_scheme \<Rightarrow> bool" where
  "hdr_frame s s' \<longleftrightarrow> (db s')\<lparr>blockheader_tbl := []\<rparr> = (db s)\<lparr>blockheader_tbl := []\<rparr> \<and> utxoIndex s' = utxoIndex s
     \<and> wallets s' = wallets s \<and> scriptPubkeys s' = scriptPubkeys s \<and> shSubs s' = shSubs s \<and> hSubs s' = hSubs s \<and> net s' = net s"

lemma hdr_frame_refl [simp]: "hdr_frame s s"
  by (simp add: hdr_frame_def)

lemma hdr_frame_trans: "hdr_frame s t \<Longrightarrow> hdr_frame t u \<Longrightarrow> hdr_frame s u"
  by (simp add: hdr_frame_def)

lemma hdr_frame_tables:
  assumes "hdr_frame s s'"
  shows "wallet_tbl (db s') = wallet_tbl (db s)" "unspent_tbl (db s') = unspent_tbl (db s)" "tx_tbl (db s') = tx_tbl (db s)"
    "stx_tbl (db s') = stx_tbl (db s)" "spent_tbl (db s') = spent_tbl (db s)"
proof -
  have "f ((db s')\<lparr>blockheader_tbl := []\<rparr>) = f ((db s)\<lparr>blockheader_tbl := []\<rparr>)" for f :: "database \<Rightarrow> 'x"
    using assms by (simp add: hdr_frame_def)
  from this [of wallet_tbl] this [of unspent_tbl] this [of tx_tbl] this [of stx_tbl] this [of spent_tbl]
  show "wallet_tbl (db s') = wallet_tbl (db s)" "unspent_tbl (db s') = unspent_tbl (db s)" "tx_tbl (db s') = tx_tbl (db s)"
    "stx_tbl (db s') = stx_tbl (db s)" "spent_tbl (db s') = spent_tbl (db s)" by simp_all
qed

text \<open>One turn of the loop of \<open>checkReorg\<close>.\<close>

lemma checkReorg_from_cases:
  assumes "checkReorg_from N h s = (r, s')"
  obtains (panic) m where "r = Inl (ErrPanic m)" "s' = s"
  | (query) e where "selectBlockHashesAtHeight s (h - 1) 1 = Inl e" "r = Inl e" "s' = s"
  | (peer) bh e where "nd_headers N (calls s) [bh] = Inl e" "r = Inl e" "s' = s\<lparr>calls := Suc (calls s)\<rparr>" "bestHeader s - (h - 1) \<le> 6"
  | (found) bh bhs headers where "selectBlockHashesAtHeight s (h - 1) 1 = Inr (bh # bhs)" "nd_headers N (calls s) [bh] = Inr headers"
      "headers = [] \<or> h_PreviousBlock (hd headers) = bh" "r = Inl (ErrReorg (h - 1))" "s' = s\<lparr>calls := Suc (calls s)\<rparr>"
      "bestHeader s - (h - 1) \<le> 6"
  | (deeper) bh bhs headers where "selectBlockHashesAtHeight s (h - 1) 1 = Inr (bh # bhs)" "nd_headers N (calls s) [bh] = Inr headers"
      "headers \<noteq> []" "h_PreviousBlock (hd headers) \<noteq> bh"
      "checkReorg_from N (h - 1) (s\<lparr>calls := Suc (calls s)\<rparr>) = (r, s')" "bestHeader s - (h - 1) \<le> 6"
proof (cases "bestHeader s - (h - 1) > 6")
  case True
  with assms show thesis by (subst (asm) checkReorg_from.simps) (auto intro: panic)
next
  case le: False
  note run = assms [unfolded checkReorg_from.simps [of N h s], simplified le if_False]
  show thesis
  proof (cases "selectBlockHashesAtHeight s (h - 1) 1")
    case (Inl e)
    with run show thesis by (auto intro: query simp: ereads_def)
  next
    case q: (Inr hs)
    show thesis
    proof (cases hs)
      case Nil
      with run q show thesis by (auto intro: panic simp: ereads_def)
    next
      case (Cons bh bhs)
      show thesis
      proof (cases "nd_headers N (calls s) [bh]")
        case (Inl e)
        with run q Cons le show thesis by (auto intro: peer simp: GetHeaders_def)
      next
        case (Inr headers)
        with run q Cons le show thesis
          by (cases "headers = [] \<or> h_PreviousBlock (hd headers) = bh") (auto simp: GetHeaders_def intro: found deeper)
      qed
    qed
  qed
qed

text \<open>\<open>checkReorg\<close> makes at most six queries, changes nothing else, and never reports that there is no reorganisation.\<close>

lemma checkReorg_from_frame:
  assumes "checkReorg_from N h s = (r, s')"
  shows "\<exists>n. s' = s\<lparr>calls := n\<rparr> \<and> calls s \<le> n \<and> int n \<le> int (calls s) + max 0 (h - bestHeader s + 6) \<and> isl r"
  using assms
proof (induction N h s arbitrary: r s' rule: checkReorg_from.induct)
  case (1 N h s)
  from 1(2) show ?case
  proof (cases rule: checkReorg_from_cases)
    case (deeper bh bhs headers)
    have "\<exists>n. s' = s\<lparr>calls := Suc (calls s), calls := n\<rparr> \<and> calls (s\<lparr>calls := Suc (calls s)\<rparr>) \<le> n
        \<and> int n \<le> int (calls (s\<lparr>calls := Suc (calls s)\<rparr>)) + max 0 (h - 1 - bestHeader (s\<lparr>calls := Suc (calls s)\<rparr>) + 6) \<and> isl r"
      by (rule 1(1) [of "bh # bhs" s bh bhs headers]) (use deeper in \<open>simp_all add: GetHeaders_def\<close>)
    then obtain n where n: "s' = s\<lparr>calls := n\<rparr>" "Suc (calls s) \<le> n" "int n \<le> int (Suc (calls s)) + max 0 (h - 1 - bestHeader s + 6)" "isl r"
      by auto
    have "int n \<le> int (calls s) + max 0 (h - bestHeader s + 6)" using n(3) deeper(6) by (auto simp: max_def split: if_splits)
    with n show ?thesis by auto
  next
    case panic
    then show ?thesis by (auto intro: exI [of _ "calls s"])
  next
    case query
    then show ?thesis by (auto intro: exI [of _ "calls s"])
  qed (auto intro!: exI [of _ "Suc (calls s)"])
qed


lemma checkReorg_frame:
  assumes "checkReorg N s = (r, s')"
  shows "\<exists>n. s' = s\<lparr>calls := n\<rparr> \<and> calls s \<le> n \<and> n \<le> calls s + 6 \<and> (bestHeader s \<noteq> 0 \<longrightarrow> isl r)"
proof (cases "bestHeader s = 0")
  case True
  with assms show ?thesis by (auto simp: checkReorg_def intro: exI [of _ "calls s"])
next
  case False
  with assms checkReorg_from_frame [of N "bestHeader s" s r s'] show ?thesis by (auto simp: checkReorg_def)
qed

text \<open>The block \<open>checkReorg\<close> rolls back to is below the best header, at most six below, and stored.\<close>

lemma checkReorg_from_ErrReorg:
  assumes "checkReorg_from N h s = (Inl (ErrReorg k), s')" "\<forall>n hs k'. nd_headers N n hs \<noteq> Inl (ErrReorg k')" "chain_inv s"
    "h \<le> bestHeader s"
  shows "1 \<le> k \<and> k < bestHeader s \<and> bestHeader s - 6 \<le> k \<and> k \<le> int (length (blockheader_tbl (db s)))"
  using assms
proof (induction N h s arbitrary: s' rule: checkReorg_from.induct)
  case (1 N h s)
  note hashes = blockHashes_chain [OF 1(4)]
  from 1(2) show ?case
  proof (cases rule: checkReorg_from_cases)
    case (peer bh e)
    with 1(3) show ?thesis by auto
  next
    case (found bh bhs headers)
    with hashes [of "h - 1" 1] 1(5) show ?thesis by (auto simp: sql_limit_def split: if_splits)
  next
    case (deeper bh bhs headers)
    have "chain_inv (s\<lparr>calls := Suc (calls s)\<rparr>)" using 1(4) by (simp add: chain_inv_def genesisHash_def)
    with 1(1) [of "bh # bhs" s bh bhs headers "s\<lparr>calls := Suc (calls s)\<rparr>"] deeper 1(3,5) show ?thesis
      by (simp add: GetHeaders_def)
  qed (use hashes in auto)
qed

lemma prevOf_header: "wf_Header h \<Longrightarrow> prevOf (Header_bytes80 h) = h_PreviousBlock h"
  by (simp add: prevOf_def Header_bytes80_def wf_Header_def uint32SerializeLE_def)

definition headerRow :: "int \<Rightarrow> Header \<Rightarrow> blockHeaderData" where
  "headerRow k h = \<lparr>bh_Hash = Header_Hash h, bh_Height = k, bh_Serialized = Header_bytes80 h\<rparr>"

lemma addHeader_chain:
  assumes "chain_inv s" "at_tip s" "wf_Header h" "h_PreviousBlock h = bestHeaderHash s"
    and "insertBlockHeader (Header_Hash h) (bestHeader s + 1) (Header_Serialize h) s = (Inr (), s')"
  shows "s' = s\<lparr>db := (db s)\<lparr>blockheader_tbl := blockheader_tbl (db s) @ [headerRow (bestHeader s + 1) h]\<rparr>\<rparr>"
    and "chain_inv (s'\<lparr>bestHeader := bestHeader s + 1, bestHeaderHash := Header_Hash h\<rparr>)"
    and "at_tip (s'\<lparr>bestHeader := bestHeader s + 1, bestHeaderHash := Header_Hash h\<rparr>)"
proof -
  have len: "length (Header_bytes80 h) = 80" using assms(3) by (rule length_Header_bytes80)
  then show s': "s' = s\<lparr>db := (db s)\<lparr>blockheader_tbl := blockheader_tbl (db s) @ [headerRow (bestHeader s + 1) h]\<rparr>\<rparr>"
    using assms(5) by (auto simp: insertBlockHeader_def Header_Serialize_def headerRow_def split: if_splits)
  have new: "Header_Hash h \<notin> bh_Hash ` set (blockheader_tbl (db s))"
    using assms(5) by (auto simp: insertBlockHeader_def split: if_splits)
  show "chain_inv (s'\<lparr>bestHeader := bestHeader s + 1, bestHeaderHash := Header_Hash h\<rparr>)"
    using assms(1,2,4) new len prevOf_header [OF assms(3)]
    by (simp add: s' chain_inv_def at_tip_def linked_append headerRow_def genesisHash_def Header_Hash_def)
  show "at_tip (s'\<lparr>bestHeader := bestHeader s + 1, bestHeaderHash := Header_Hash h\<rparr>)"
    using assms(2) by (simp add: s' at_tip_def tip_def headerRow_def)
qed

lemma notifyHeader_frame:
  "notifyHeaderSubscribers k buf s = s\<lparr>sent := sent (notifyHeaderSubscribers k buf s)\<rparr>"
  by (simp add: notifyHeaderSubscribers_def)

lemma chain_inv_cong:
  "chain_inv s \<Longrightarrow> net s' = net s \<Longrightarrow> blockheader_tbl (db s') = blockheader_tbl (db s) \<Longrightarrow> chain_inv s'"
  by (simp add: chain_inv_def genesisHash_def)

lemma at_tip_cong:
  "at_tip s \<Longrightarrow> net s' = net s \<Longrightarrow> blockheader_tbl (db s') = blockheader_tbl (db s) \<Longrightarrow> bestHeader s' = bestHeader s \<Longrightarrow>
   bestHeaderHash s' = bestHeaderHash s \<Longrightarrow> at_tip s'"
  by (simp add: at_tip_def genesisHash_def)

text \<open>Whatever the outcome, the table grows to a longer chain and the best header is its tip.\<close>

lemma addHeaders_steps:
  assumes "chain_inv s" "at_tip s" "list_all wf_Header hdrs" "addHeaders N hdrs s = (r, s')"
  shows "chain_inv s' \<and> at_tip s' \<and> hdr_frame s s' \<and> (\<exists>rows. blockheader_tbl (db s') = blockheader_tbl (db s) @ rows)
    \<and> (r = Inr () \<longrightarrow> bestHeader s' = bestHeader s + int (length hdrs))"
  using assms
proof (induction hdrs arbitrary: s)
  case (Cons h hdrs)
  show ?case
  proof (cases "h_PreviousBlock h = bestHeaderHash s")
    case False
    obtain q s1 where c: "checkReorg N s = (q, s1)" by force
    from checkReorg_frame [OF c] obtain n where s1: "s1 = s\<lparr>calls := n\<rparr>" by blast
    have "s' = s1" "r \<noteq> Inr ()" using Cons.prems(4) False c by (cases q; auto)+
    with s1 Cons.prems(1,2) show ?thesis
      by (auto simp: hdr_frame_def intro: chain_inv_cong at_tip_cong)
  next
    case True
    define s1 where "s1 = notifyHeaderSubscribers (bestHeader s + 1) (Header_Serialize h) s"
    have f: "net s1 = net s" "db s1 = db s" "bestHeader s1 = bestHeader s" "bestHeaderHash s1 = bestHeaderHash s" "hdr_frame s s1"
      by (simp_all add: s1_def notifyHeaderSubscribers_def hdr_frame_def)
    have c1: "chain_inv s1" "at_tip s1" using Cons.prems(1,2) f by (auto intro: chain_inv_cong at_tip_cong)
    obtain q s2 where i: "insertBlockHeader (Header_Hash h) (bestHeader s1 + 1) (Header_Serialize h) s1 = (q, s2)" by force
    have step: "addHeaders N (h # hdrs) s = ebind (q, s2) (\<lambda>_ s. addHeaders N hdrs
        (s\<lparr>bestHeader := bestHeader s + 1, bestHeaderHash := Header_Hash h\<rparr>))"
      using True by (simp add: Let_def flip: s1_def i)
    show ?thesis
    proof (cases q)
      case (Inl e)
      then have "s2 = s1" using i by (auto simp: insertBlockHeader_def split: if_splits)
      with Cons.prems(4) Inl have "s' = s1" "r \<noteq> Inr ()" by (auto simp: step simp del: addHeaders.simps)
      with c1 f show ?thesis by auto
    next
      case (Inr u)
      have wf: "wf_Header h" "list_all wf_Header hdrs" using Cons.prems(3) by simp_all
      let ?s3 = "s2\<lparr>bestHeader := bestHeader s1 + 1, bestHeaderHash := Header_Hash h\<rparr>"
      note a = addHeader_chain [OF c1 wf(1)]
      have p: "h_PreviousBlock h = bestHeaderHash s1" using True f by simp
      have i': "insertBlockHeader (Header_Hash h) (bestHeader s1 + 1) (Header_Serialize h) s1 = (Inr (), s2)" using i Inr by simp
      note a = a [OF p i']
      have "bestHeader s2 = bestHeader s1" using a(1) by simp
      with Cons.prems(4) Inr have run: "addHeaders N hdrs ?s3 = (r, s')" by (simp add: step del: addHeaders.simps)
      have fr: "hdr_frame s ?s3" using f(5) a(1) by (simp add: hdr_frame_def)
      from Cons.IH [OF a(2,3) wf(2) run] fr a(1) f(2) f(3) show ?thesis by (auto intro: hdr_frame_trans)
    qed
  qed
qed auto


section \<open>Synchronising headers\<close>

definition wf_node :: "node \<Rightarrow> bool" where
  "wf_node N \<longleftrightarrow> (\<forall>n hs hdrs. nd_headers N n hs = Inr hdrs \<longrightarrow> list_all wf_Header hdrs)
     \<and> (\<forall>n hs k. nd_headers N n hs \<noteq> Inl (ErrReorg k)) \<and> (\<forall>n h k. nd_block N n h \<noteq> Inl (ErrReorg k))"

definition hdr_step :: "'z W_scheme \<Rightarrow> 'z W_scheme \<Rightarrow> bool" where
  "hdr_step s s' \<longleftrightarrow> chain_inv s' \<and> at_tip s' \<and> hdr_frame s s' \<and> (\<exists>rows. blockheader_tbl (db s') = blockheader_tbl (db s) @ rows)"

lemma hdr_step_trans: "hdr_step s t \<Longrightarrow> hdr_step t u \<Longrightarrow> hdr_step s u"
  by (auto simp: hdr_step_def intro: hdr_frame_trans)

lemma GetHeaders_step:
  assumes "GetHeaders N hs s = (q, s')"
  shows "s' = s\<lparr>calls := Suc (calls s)\<rparr>" "nd_headers N (calls s) hs = q"
  using assms by (auto simp: GetHeaders_def)

lemma hdr_step_calls: "chain_inv s \<Longrightarrow> at_tip s \<Longrightarrow> hdr_step s (s\<lparr>calls := n\<rparr>)"
  by (auto simp: hdr_step_def hdr_frame_def intro: chain_inv_cong at_tip_cong)

lemma syncHeaders_loop_steps:
  assumes "wf_node N"
  shows "chain_inv s \<Longrightarrow> at_tip s \<Longrightarrow> syncHeaders_loop N fuel s = Some (r, s') \<Longrightarrow> hdr_step s s'"
proof (induction fuel arbitrary: s)
  case (Suc fuel)
  show ?case
  proof (cases "nd_cancelled N (calls s)")
    case True
    with Suc.prems show ?thesis by (auto simp: hdr_step_def)
  next
    case False
    obtain q s1 where g: "GetHeaders N [bestHeaderHash s] s = (q, s1)" by force
    note s1 = GetHeaders_step [OF g]
    have st: "hdr_step s s1" using hdr_step_calls [OF Suc.prems(1,2)] s1(1) by simp
    show ?thesis
    proof (cases q)
      case (Inl e)
      with Suc.prems(3) False g st show ?thesis by auto
    next
      case (Inr hdrs)
      show ?thesis
      proof (cases "hdrs = []")
        case True
        with Suc.prems(3) False g st Inr show ?thesis by auto
      next
        case ne: False
        obtain q2 s2 where a: "addHeaders N hdrs s1 = (q2, s2)" by force
        have "list_all wf_Header hdrs" using assms s1(2) Inr by (auto simp: wf_node_def)
        moreover have "chain_inv s1" "at_tip s1" using st by (simp_all add: hdr_step_def)
        ultimately have st2: "hdr_step s1 s2" using addHeaders_steps a unfolding hdr_step_def by blast
        show ?thesis
        proof (cases q2)
          case (Inl e)
          with Suc.prems(3) False g Inr ne a st st2 show ?thesis by (auto intro: hdr_step_trans)
        next
          case q2: (Inr u)
          then have "syncHeaders_loop N fuel s2 = Some (r, s')" using Suc.prems(3) False g Inr ne a by simp
          moreover have "chain_inv s2" "at_tip s2" using st2 by (simp_all add: hdr_step_def)
          ultimately have "hdr_step s2 s'" using Suc.IH by blast
          with st st2 show ?thesis by (blast intro: hdr_step_trans)
        qed
      qed
    qed
  qed
qed simp

lemma syncHeaders_start:
  assumes "chain_inv s"
  shows "\<exists>s1. syncHeaders N fuel s = syncHeaders_loop N fuel s1 \<and> hdr_step s s1 \<and> s1 = s\<lparr>bestHeader := bestHeader s1, bestHeaderHash := bestHeaderHash s1\<rparr>"
proof -
  from storedTip_chain [OF assms] obtain b where b: "storedTip s = Inr b" "bh_Height b = int (length (blockheader_tbl (db s)))"
      "bh_Hash b = tip (genesisHash s) (blockheader_tbl (db s))" by blast
  let ?s1 = "s\<lparr>bestHeader := bh_Height b, bestHeaderHash := bh_Hash b\<rparr>"
  have "hdr_step s ?s1" using assms b by (auto simp: hdr_step_def hdr_frame_def chain_inv_def at_tip_def genesisHash_def)
  with b(1) show ?thesis by (intro exI [of _ ?s1]) (simp add: syncHeaders_def)
qed

lemma syncHeaders_steps:
  assumes "wf_node N" "chain_inv s" "syncHeaders N fuel s = Some (r, s')"
  shows "hdr_step s s'"
proof -
  from syncHeaders_start [OF assms(2), of N fuel] obtain s1 where s1: "syncHeaders N fuel s = syncHeaders_loop N fuel s1" "hdr_step s s1" by blast
  moreover have "chain_inv s1" "at_tip s1" using s1(2) by (simp_all add: hdr_step_def)
  ultimately have "hdr_step s1 s'" using syncHeaders_loop_steps [OF assms(1)] assms(3) by metis
  with s1(2) show ?thesis by (rule hdr_step_trans)
qed

section \<open>Rolling the chain back\<close>

lemma deleteAllSinceBlock_headers:
  assumes "deleteAllSinceBlock k s = (r, s')"
  shows "s' = s\<lparr>db := db s'\<rparr>" "r = Inr () \<Longrightarrow> blockheader_tbl (db s') = filter (\<lambda>b. \<not> bh_Height b > k) (blockheader_tbl (db s))"
    "r \<noteq> Inr () \<Longrightarrow> db s' = db s"
  using assms by (auto simp: deleteAllSinceBlock_def Let_def split: if_splits)

lemma reloadCaches_frame:
  assumes "reloadCaches s = (r, s')"
  shows "s' = s\<lparr>utxoIndex := utxoIndex s'\<rparr>"
proof (cases "selectAllUtxos (s\<lparr>utxoIndex := []\<rparr>)")
  case (Inl e)
  with assms show ?thesis by (auto simp: reloadCaches_def loadUtxoIndex_def)
next
  case (Inr a)
  with assms show ?thesis by (auto simp: reloadCaches_def loadUtxoIndex_def)
qed

lemma sql_limit_one: "sql_limit 1 xs = (case xs of [] \<Rightarrow> [] | x # _ \<Rightarrow> [x])"
  by (cases xs) (simp_all add: sql_limit_def)

lemma processReorg_steps:
  assumes "chain_inv s" "at_tip s" "1 \<le> k" "k \<le> bestHeader s" "processReorg k s = (r, s')"
  shows "chain_inv s' \<and> net s' = net s \<and> (r = Inr () \<longrightarrow> at_tip s' \<and> bestHeader s' = k \<and> blockheader_tbl (db s') = take (nat k) (blockheader_tbl (db s)))"
proof -
  let ?t = "blockheader_tbl (db s)"
  have l: "linked (genesisHash s) 0 ?t" using assms(1) by (simp add: chain_inv_def)
  have n: "nat (k - 1) < length ?t" using assms(2-4) by (simp add: at_tip_def)
  then have "drop (nat (k - 1)) ?t = ?t ! nat (k - 1) # drop (Suc (nat (k - 1))) ?t" by (simp add: Cons_nth_drop_Suc)
  then have q: "selectBlockHashesAtHeight s k 1 = Inr [bh_Hash (?t ! nat (k - 1))]"
    using blockHashes_chain [OF assms(1), of k 1] assms(2-4) by (simp add: sql_limit_one at_tip_def)
  obtain p s1 where d: "deleteAllSinceBlock k s = (p, s1)" by force
  note dd = deleteAllSinceBlock_headers [OF d]
  have n1: "net s1 = net s" by (subst dd(1)) simp
  show ?thesis
  proof (cases p)
    case (Inl e)
    with assms(5) q d have "s' = s1" "r \<noteq> Inr ()" by (auto simp: processReorg_def)
    with dd(3) Inl assms(1) n1 show ?thesis by (auto intro: chain_inv_cong)
  next
    case (Inr u)
    then have t1: "blockheader_tbl (db s1) = take (nat k) ?t" using dd(2) numbered_filter_le [OF linked_numbered [OF l], of k] by simp
    have c1: "chain_inv s1"
      using assms(1) n1 linked_take [OF l, of "nat k"] by (simp add: chain_inv_def t1 genesisHash_def)
    obtain p2 s2 where rl: "reloadCaches s1 = (p2, s2)" by force
    note f = reloadCaches_frame [OF rl]
    have n2: "net s2 = net s" "db s2 = db s1" using n1 by (subst f, simp)+
    have c2: "chain_inv s2" using c1 n1 n2 by (auto intro: chain_inv_cong)
    show ?thesis
    proof (cases p2)
      case (Inl e)
      with assms(5) q d Inr rl have "s' = s2" "r \<noteq> Inr ()" by (auto simp: processReorg_def)
      with c2 n2 show ?thesis by auto
    next
      case p2: (Inr v)
      let ?w = "map (\<lambda>w. w\<lparr>wl_height := min k (wl_height w)\<rparr>) (wallets s2)"
      have s': "s' = s2\<lparr>wallets := ?w, bestHeader := k, bestHeaderHash := bh_Hash (?t ! nat (k - 1))\<rparr>"
        using assms(5) q d Inr rl p2 by (auto simp: processReorg_def)
      have "nat k = Suc (nat (k - 1))" using assms(3) by simp
      then have "take (nat k) ?t = take (nat (k - 1)) ?t @ [?t ! nat (k - 1)]" using n by (simp add: take_Suc_conv_app_nth)
      then have "take (nat k) ?t \<noteq> []" "last (take (nat k) ?t) = ?t ! nat (k - 1)" by simp_all
      moreover have "int (length (take (nat k) ?t)) = k" using n assms(3) by auto
      ultimately have "at_tip s'" using n2 t1 by (simp add: s' at_tip_def tip_def)
      moreover have "chain_inv s'" using c2 by (auto simp: s' intro: chain_inv_cong)
      ultimately show ?thesis using n2 t1 by (simp add: s')
    qed
  qed
qed

end
