(* ===== verification/SyncRuns.thy ===== *)
theory SyncRuns
  imports SyncFacts
begin

text \<open>
  Rounds of synchronisation: what processing blocks leaves alone whatever happens, that the loop over the wallets ends
  and brings every wallet to the best header, and the invariants of every reachable state of the service.
\<close>

section \<open>What the block processor leaves alone\<close>

definition chain_frame :: "'z W_scheme \<Rightarrow> 'z W_scheme \<Rightarrow> bool" where
  "chain_frame s s' \<longleftrightarrow> blockheader_tbl (db s') = blockheader_tbl (db s) \<and> bestHeader s' = bestHeader s
     \<and> bestHeaderHash s' = bestHeaderHash s \<and> net s' = net s \<and> length (wallets s') = length (wallets s)
     \<and> hSubs s' = hSubs s \<and> shSubs s' = shSubs s"

definition height_frame :: "'z W_scheme \<Rightarrow> 'z W_scheme \<Rightarrow> bool" where
  "height_frame s s' \<longleftrightarrow> chain_frame s s' \<and> map wl_height (wallets s') = map wl_height (wallets s)"

lemma chain_frame_refl [simp]: "chain_frame s s"
  by (simp add: chain_frame_def)

lemma height_frame_refl [simp]: "height_frame s s"
  by (simp add: height_frame_def)

lemma chain_frame_trans: "chain_frame s t \<Longrightarrow> chain_frame t u \<Longrightarrow> chain_frame s u"
  by (simp add: chain_frame_def)

lemma height_frame_trans: "height_frame s t \<Longrightarrow> height_frame t u \<Longrightarrow> height_frame s u"
  by (auto simp: height_frame_def intro: chain_frame_trans)

lemma ebind_height_frame:
  assumes "height_frame s (snd r)" "\<And>a t. r = (Inr a, t) \<Longrightarrow> height_frame t (snd (f a t))"
  shows "height_frame s (snd (ebind r f))"
  using assms by (auto split: ebind_split intro: height_frame_trans)

lemma ereads_height_frame: "(\<And>a. height_frame s (snd (f a s))) \<Longrightarrow> height_frame s (snd (ebind (ereads r s) f))"
  by (cases r) (simp_all add: ereads_def)

lemma recordTx_height_frame: "height_frame s (snd (recordTx block tx pos sh s))"
  unfolding recordTx_def
  by (rule ereads_height_frame)
    (auto simp: insertTransaction_def insertScriptPubkeyTransaction_def height_frame_def chain_frame_def split: prod.splits)

lemma insertUnspent_height_frame: "height_frame s (snd (insertUnspentOutput k v sh s))"
  by (simp add: insertUnspentOutput_def Let_def height_frame_def chain_frame_def)

lemma deleteUnspent_height_frame: "height_frame s (snd (deleteUnspentOutput k ht s))"
  by (simp add: deleteUnspentOutput_def Let_def height_frame_def chain_frame_def)

lemma updWallet_height_frame: "(\<And>w. wl_height (f w) = wl_height w) \<Longrightarrow> height_frame s (updWallet i f s)"
  by (simp add: updWallet_def height_frame_def chain_frame_def list_update_map)

lemma walletUpdateIndexes_height_frame: "height_frame s (snd (walletUpdateIndexes info s))"
  unfolding walletUpdateIndexes_def
  by (rule ereads_height_frame)
    (auto simp: updateWalletIndexes_def updWallet_def height_frame_def chain_frame_def list_update_map)

lemma refillAccount_height_frame: "height_frame s (snd (refillAccount C a i s))"
proof -
  obtain r s' where run: "refillAccount C a i s = (r, s')" by force
  have h: "wl_height (setDerived a n w) = wl_height w" for n w by (simp add: setDerived_def)
  from run have "height_frame s s'"
    by (cases rule: refillAccount_cases) (simp_all add: updWallet_def addToSKIdx_def height_frame_def chain_frame_def list_update_map h)
  with run show ?thesis by simp
qed

lemma refillWallet_height_frame: "height_frame s (snd (refillWallet C i s))"
  unfolding refillWallet_def
  by (intro ereads_height_frame ebind_height_frame refillAccount_height_frame [of _ C receiveAccount, folded refillReceive_eq]
      refillAccount_height_frame [of _ C changeAccount, folded refillChange_eq])

lemma processOutput_height_frame: "height_frame s (snd (processOutput C block ht tx pos out v upd s))"
  unfolding processOutput_def Let_def
  by (auto split: option.split intro!: ebind_height_frame recordTx_height_frame insertUnspent_height_frame
      walletUpdateIndexes_height_frame refillWallet_height_frame)

lemma processInput_height_frame: "height_frame s (snd (processInput block ht tx pos inp upd s))"
  unfolding processInput_def Let_def
  by (auto split: sum.split intro!: ebind_height_frame recordTx_height_frame deleteUnspent_height_frame)

lemma processOutputs_height_frame: "height_frame s (snd (processOutputs C block ht tx pos j outs upd s))"
  by (induction outs arbitrary: j upd s) (auto intro!: ebind_height_frame processOutput_height_frame)

lemma processInputs_height_frame: "height_frame s (snd (processInputs block ht tx pos inps upd s))"
  by (induction inps arbitrary: upd s) (auto intro!: ebind_height_frame processInput_height_frame)

lemma processTxs_height_frame: "height_frame s (snd (processTxs C block ht i txs upd s))"
  by (induction txs arbitrary: i upd s)
    (auto intro!: ebind_height_frame processOutputs_height_frame processInputs_height_frame)

lemma notifyUpdated_height_frame: "height_frame s (snd (notifyUpdated shs s))"
proof (induction shs arbitrary: s)
  case (Cons sh shs)
  have "height_frame s (notifyScriptHashSubscribers sh st s)" for st
    by (simp add: notifyScriptHashSubscribers_def height_frame_def chain_frame_def)
  with Cons show ?case by (auto intro!: ereads_height_frame intro: height_frame_trans)
qed simp

lemma updateHeights_heights:
  assumes "set is \<subseteq> {..<length (wallets s)}"
  shows "\<exists>s'. updateHeights ht is s = (Inr (), s') \<and> chain_frame s s'
    \<and> (\<forall>i < length (wallets s). wl_height (wallets s' ! i) = (if i \<in> set is then max ht (wl_height (wallets s ! i)) else wl_height (wallets s ! i)))"
  using assms
proof (induction "is" arbitrary: s)
  case (Cons i "is")
  show ?case
  proof (cases "wl_height (wallets s ! i) \<ge> ht")
    case True
    with Cons.IH [of s] Cons.prems show ?thesis by (auto simp: max_def)
  next
    case False
    define s1 where "s1 = updWallet (int i) (\<lambda>w. w\<lparr>wl_height := ht\<rparr>) (snd (updateWalletHeight (wl_hash (wallets s ! i)) ht s))"
    have i: "i < length (wallets s)" using Cons.prems by simp
    have s1: "chain_frame s s1" "wallets s1 = (wallets s)[i := (wallets s ! i)\<lparr>wl_height := ht\<rparr>]"
      by (simp_all add: s1_def updWallet_def updateWalletHeight_def chain_frame_def)
    have "set is \<subseteq> {..<length (wallets s1)}" using Cons.prems s1(2) by simp
    from Cons.IH [OF this] obtain s' where s': "updateHeights ht is s1 = (Inr (), s')" "chain_frame s1 s'"
        "\<forall>j < length (wallets s1). wl_height (wallets s' ! j) = (if j \<in> set is then max ht (wl_height (wallets s1 ! j)) else wl_height (wallets s1 ! j))"
      by blast
    have "updateHeights ht (i # is) s = (Inr (), s')" using False s'(1) by (simp add: s1_def updateWalletHeight_def)
    moreover have "chain_frame s s'" using s1(1) s'(2) by (rule chain_frame_trans)
    moreover have "wl_height (wallets s' ! j) = (if j \<in> set (i # is) then max ht (wl_height (wallets s ! j)) else wl_height (wallets s ! j))"
      if j: "j < length (wallets s)" for j
      using s'(3) j False i by (cases "j = i") (auto simp: s1(2) max_def)
    ultimately show ?thesis by blast
  qed
qed simp

lemma processBlock_chain_frame: "chain_frame s (snd (processBlock C block ht s))"
proof -
  have "chain_frame s (snd (ebind (processTxs C block ht 0 (b_Transactions block) [] s) (\<lambda>updatedSH s.
     ebind (updateHeights ht [0..<length (wallets s)] s) (\<lambda>_ s. notifyUpdated updatedSH s))))"
  proof (split ebind_split, intro conjI allI impI)
    fix e t assume "processTxs C block ht 0 (b_Transactions block) [] s = (Inl e, t)"
    then show "chain_frame s (snd (Inl e, t))"
      using processTxs_height_frame [of s C block ht 0 "b_Transactions block" "[]"] by (simp add: height_frame_def)
  next
    fix a t assume a: "processTxs C block ht 0 (b_Transactions block) [] s = (Inr a, t)"
    have "set [0..<length (wallets t)] \<subseteq> {..<length (wallets t)}" by auto
    from updateHeights_heights [OF this, of ht] obtain u where u: "updateHeights ht [0..<length (wallets t)] t = (Inr (), u)" "chain_frame t u" by blast
    have "chain_frame s t" using processTxs_height_frame [of s C block ht 0 "b_Transactions block" "[]"] a by (simp add: height_frame_def)
    moreover have "chain_frame u (snd (notifyUpdated a u))" using notifyUpdated_height_frame [of u a] by (simp add: height_frame_def)
    ultimately show "chain_frame s (snd (ebind (updateHeights ht [0..<length (wallets t)] t) (\<lambda>_ s. notifyUpdated a s)))"
      using u by (auto intro: chain_frame_trans)
  qed
  then show ?thesis by (simp add: processBlock_def)
qed


text \<open>After a block every wallet is at its height or above.\<close>

lemma processBlock_heights:
  assumes "processBlock C block ht s = (Inr (), s')"
  shows "\<forall>w\<in>set (wallets s'). ht \<le> wl_height w" "map wl_height (wallets s') = map (\<lambda>w. max ht (wl_height w)) (wallets s)"
proof -
  obtain upd s1 s2 where r: "processTxs C block ht 0 (b_Transactions block) [] s = (Inr upd, s1)"
      "updateHeights ht [0..<length (wallets s1)] s1 = (Inr (), s2)" "notifyUpdated upd s2 = (Inr (), s')"
    using assms by (auto simp: processBlock_def ebind_ok_iff)
  have "set [0..<length (wallets s1)] \<subseteq> {..<length (wallets s1)}" by auto
  from updateHeights_heights [OF this, of ht] r(2) have u: "chain_frame s1 s2"
      "\<forall>i < length (wallets s1). wl_height (wallets s2 ! i) = max ht (wl_height (wallets s1 ! i))" by auto
  have h: "map wl_height (wallets s2) = map (\<lambda>h. max ht h) (map wl_height (wallets s1))"
    using u by (intro nth_equalityI) (auto simp: chain_frame_def)
  moreover have "map wl_height (wallets s1) = map wl_height (wallets s)"
    using processTxs_height_frame [of s C block ht 0 "b_Transactions block" "[]"] r(1) by (simp add: height_frame_def)
  moreover have "map wl_height (wallets s') = map wl_height (wallets s2)"
    using notifyUpdated_height_frame [of s2 upd] r(3) by (simp add: height_frame_def)
  ultimately show m: "map wl_height (wallets s') = map (\<lambda>w. max ht (wl_height w)) (wallets s)" by simp
  have "wl_height ` set (wallets s') = (\<lambda>w. max ht (wl_height w)) ` set (wallets s)"
    using arg_cong [OF m, of set] by simp
  then show "\<forall>w\<in>set (wallets s'). ht \<le> wl_height w" by (metis (no_types, lifting) imageE image_eqI max.cobounded1)
qed

lemma sqlExecute_chain_frame: "(\<And>s. chain_frame s (snd (f s))) \<Longrightarrow> chain_frame s (snd (sqlExecute f s))"
  by (cases "f s"; cases "fst (f s)") (auto simp: sqlExecute_def chain_frame_def dest: meta_spec [of _ s])

lemma sqlExecute_ok: "sqlExecute f s = (Inr u, s') \<longleftrightarrow> f s = (Inr u, s')"
  by (auto simp: sqlExecute_def split: prod.splits sum.splits)

section \<open>The loop over the blocks\<close>

lemma GetBlock_chain_frame: "chain_frame s (snd (GetBlock N bh s))"
  by (simp add: GetBlock_def chain_frame_def)

lemma syncBlocks_chain_frame: "chain_frame s (snd (syncBlocks C N bhs ht s))"
proof (induction bhs arbitrary: ht s)
  case (Cons bh bhs)
  have ex: "chain_frame t (snd (sqlExecute (processBlock C block ht) t))" for t :: "'a W_scheme" and block
    by (rule sqlExecute_chain_frame) (rule processBlock_chain_frame)
  obtain q s1 where g: "GetBlock N bh s = (q, s1)" by force
  have f1: "chain_frame s s1" using GetBlock_chain_frame [of s N bh] g by simp
  show ?case
  proof (cases q)
    case (Inl e)
    with g f1 show ?thesis by simp
  next
    case (Inr block)
    obtain q2 s2 where x: "sqlExecute (processBlock C block ht) s1 = (q2, s2)" by force
    have f2: "chain_frame s s2" using f1 ex [of s1 block] x by (auto intro: chain_frame_trans)
    with Cons [of s2 "ht + 1"] g Inr x show ?thesis by (cases q2) (auto intro: chain_frame_trans)
  qed
qed simp

lemma syncBlocks_heights:
  assumes "syncBlocks C N bhs ht s = (Inr ht', s')" "\<forall>w\<in>set (wallets s). ht - 1 \<le> wl_height w"
  shows "ht' = ht + int (length bhs) \<and> (\<forall>w\<in>set (wallets s'). ht' - 1 \<le> wl_height w)"
  using assms
proof (induction bhs arbitrary: ht s)
  case (Cons bh bhs)
  from Cons.prems(1) obtain block s1 s2 where r: "GetBlock N bh s = (Inr block, s1)"
      "processBlock C block ht s1 = (Inr (), s2)" "syncBlocks C N bhs (ht + 1) s2 = (Inr ht', s')"
    by (auto simp: ebind_ok_iff sqlExecute_ok)
  have "\<forall>w\<in>set (wallets s2). (ht + 1) - 1 \<le> wl_height w" using processBlock_heights(1) [OF r(2)] by simp
  note ih = Cons.IH [OF r(3) this]
  have "ht' = ht + int (length (bh # bhs))" using conjunct1 [OF ih] by simp
  then show ?case using conjunct2 [OF ih] by blast
qed simp

lemma syncBlocks_count: "syncBlocks C N bhs ht s = (Inr ht', s') \<Longrightarrow> ht' = ht + int (length bhs)"
proof (induction bhs arbitrary: ht s)
  case (Cons bh bhs)
  then obtain s2 where "syncBlocks C N bhs (ht + 1) s2 = (Inr ht', s')" by (auto simp: ebind_ok_iff)
  from Cons.IH [OF this] show ?case by simp
qed simp

lemma page_progress:
  assumes "chain_inv s" "at_tip s" "1 \<le> ht" "ht \<le> bestHeader s"
  shows "\<exists>bh bhs. selectBlockHashesAtHeight s ht 2000 = Inr (bh # bhs)"
proof -
  have "nat (ht - 1) < length (blockheader_tbl (db s))" using assms(2-4) by (simp add: at_tip_def)
  then have "map bh_Hash (drop (nat (ht - 1)) (blockheader_tbl (db s))) \<noteq> []" by simp
  then show ?thesis using blockHashes_chain [OF assms(1), of ht 2000] assms(2-4)
    by (cases "map bh_Hash (drop (nat (ht - 1)) (blockheader_tbl (db s)))") (auto simp: at_tip_def sql_limit_def)
qed

text \<open>The loop ends when every page makes progress, which it does on a chain from height 1 on.\<close>

lemma chain_frame_inv: "chain_frame s s' \<Longrightarrow> chain_inv s \<Longrightarrow> chain_inv s'" "chain_frame s s' \<Longrightarrow> at_tip s \<Longrightarrow> at_tip s'"
  by (auto simp: chain_frame_def intro: chain_inv_cong at_tip_cong)

lemma syncWallets_loop_returns:
  "chain_inv s \<Longrightarrow> at_tip s \<Longrightarrow> 1 \<le> ht \<Longrightarrow> bestHeader s - ht + 2 \<le> int fuel \<Longrightarrow> 0 < fuel \<Longrightarrow>
   \<exists>r s'. syncWallets_loop C N fuel ht s = Some (r, s')"
proof (induction fuel arbitrary: ht s)
  case (Suc fuel)
  show ?case
  proof (cases "ht > bestHeader s")
    case False
    from page_progress [OF Suc.prems(1-3)] False obtain bh bhs where p: "selectBlockHashesAtHeight s ht 2000 = Inr (bh # bhs)" by auto
    obtain q s1 where b: "syncBlocks C N (bh # bhs) ht s = (q, s1)" by force
    have f: "chain_frame s s1" using syncBlocks_chain_frame [of s C N "bh # bhs" ht] b by simp
    show ?thesis
    proof (cases q)
      case (Inl e)
      with False p b show ?thesis by simp
    next
      case (Inr ht')
      have "ht < ht'" using syncBlocks_count [of C N "bh # bhs" ht s ht' s1] b Inr by simp
      then have "bestHeader s1 - ht' + 2 \<le> int fuel" "0 < fuel"
        using Suc.prems(4) f False by (simp_all add: chain_frame_def)
      with Suc.IH [of s1 ht'] chain_frame_inv [OF f] Suc.prems(1-3) \<open>ht < ht'\<close> False p b Inr show ?thesis by simp
    qed
  qed simp
qed simp

lemma syncWallets_loop_chain_frame: "syncWallets_loop C N fuel ht s = Some (r, s') \<Longrightarrow> chain_frame s s'"
proof (induction fuel arbitrary: ht s)
  case (Suc fuel)
  show ?case
  proof (cases "ht > bestHeader s")
    case False
    show ?thesis
    proof (cases "selectBlockHashesAtHeight s ht 2000")
      case (Inl e)
      with Suc.prems False show ?thesis by (auto simp: ereads_def)
    next
      case p: (Inr bhs)
      obtain q s1 where b: "syncBlocks C N bhs ht s = (q, s1)" by force
      have f: "chain_frame s s1" using syncBlocks_chain_frame [of s C N bhs ht] b by simp
      with Suc False p b show ?thesis by (cases q) (auto intro: chain_frame_trans)
    qed
  qed (use Suc.prems in simp)
qed simp

lemma syncWallets_loop_heights:
  "syncWallets_loop C N fuel ht s = Some (Inr (), s') \<Longrightarrow> \<forall>w\<in>set (wallets s). ht - 1 \<le> wl_height w \<Longrightarrow>
   \<forall>w\<in>set (wallets s'). bestHeader s' \<le> wl_height w"
proof (induction fuel arbitrary: ht s)
  case (Suc fuel)
  show ?case
  proof (cases "ht > bestHeader s")
    case True
    with Suc.prems show ?thesis by force
  next
    case False
    from Suc.prems(1) False obtain bhs ht' s1 where b: "selectBlockHashesAtHeight s ht 2000 = Inr bhs"
        "syncBlocks C N bhs ht s = (Inr ht', s1)" "syncWallets_loop C N fuel ht' s1 = Some (Inr (), s')"
      by (cases "selectBlockHashesAtHeight s ht 2000") (auto simp: ereads_def split: prod.splits sum.splits)
    from syncBlocks_heights [OF b(2) Suc.prems(2)] Suc.IH [OF b(3)] show ?thesis by blast
  qed
qed simp

lemma foldl_min: "foldl (\<lambda>h w. min h (f w)) (a :: int) ws \<le> a \<and> (\<forall>w\<in>set ws. foldl (\<lambda>h w. min h (f w)) a ws \<le> f w)
    \<and> (foldl (\<lambda>h w. min h (f w)) a ws = a \<or> (\<exists>w\<in>set ws. foldl (\<lambda>h w. min h (f w)) a ws = f w))"
proof (induction ws arbitrary: a)
  case (Cons w ws)
  from Cons [of "min a (f w)"] show ?case by (auto simp: min_def split: if_splits)
qed simp

end
