(* ===== verification/Service.thy ===== *)
theory Service
  imports SyncRuns
begin

text \<open>
  The service as a whole: rounds of synchronisation between which clients subscribe and leave. Properties of every
  reachable state, the ends of the loops, and how headers and reorganisations are found.
\<close>

section \<open>A round keeps the chain\<close>

lemma addHeaders_ErrReorg:
  assumes "chain_inv s" "at_tip s" "list_all wf_Header hdrs" "wf_node N" "addHeaders N hdrs s = (Inl (ErrReorg k), s')"
  shows "1 \<le> k \<and> k < bestHeader s' \<and> bestHeader s' - 6 \<le> k"
  using assms
proof (induction hdrs arbitrary: s)
  case (Cons h hdrs)
  show ?case
  proof (cases "h_PreviousBlock h = bestHeaderHash s")
    case False
    obtain q s1 where c: "checkReorg N s = (q, s1)" by force
    with Cons.prems(5) False have q: "q = Inl (ErrReorg k)" "s' = s1" by (cases q; auto)+
    then have nz: "bestHeader s \<noteq> 0" using c by (auto simp: checkReorg_def)
    with c q have "checkReorg_from N (bestHeader s) s = (Inl (ErrReorg k), s1)" by (simp add: checkReorg_def)
    from checkReorg_from_ErrReorg [OF this _ Cons.prems(1)] Cons.prems(4) checkReorg_frame [OF c] q(2)
    show ?thesis by (auto simp: wf_node_def)
  next
    case True
    define s1 where "s1 = notifyHeaderSubscribers (bestHeader s + 1) (Header_Serialize h) s"
    have f: "net s1 = net s" "db s1 = db s" "bestHeader s1 = bestHeader s" "bestHeaderHash s1 = bestHeaderHash s"
      by (simp_all add: s1_def notifyHeaderSubscribers_def)
    have c1: "chain_inv s1" "at_tip s1" using Cons.prems(1,2) f by (auto intro: chain_inv_cong at_tip_cong)
    obtain q s2 where i: "insertBlockHeader (Header_Hash h) (bestHeader s1 + 1) (Header_Serialize h) s1 = (q, s2)" by force
    have step: "addHeaders N (h # hdrs) s = ebind (q, s2) (\<lambda>_ s. addHeaders N hdrs
        (s\<lparr>bestHeader := bestHeader s + 1, bestHeaderHash := Header_Hash h\<rparr>))"
      using True by (simp add: Let_def flip: s1_def i)
    show ?thesis
    proof (cases q)
      case (Inl e)
      then have "e \<noteq> ErrReorg k" using i by (auto simp: insertBlockHeader_def split: if_splits)
      with Cons.prems(5) Inl show ?thesis by (simp add: step del: addHeaders.simps)
    next
      case (Inr u)
      have wf: "wf_Header h" "list_all wf_Header hdrs" using Cons.prems(3) by simp_all
      have i': "insertBlockHeader (Header_Hash h) (bestHeader s1 + 1) (Header_Serialize h) s1 = (Inr (), s2)" using i Inr by simp
      have p: "h_PreviousBlock h = bestHeaderHash s1" using True f by simp
      note a = addHeader_chain [OF c1 wf(1) p i']
      have "bestHeader s2 = bestHeader s1" using a(1) by simp
      with Cons.prems(5) Inr have run: "addHeaders N hdrs (s2\<lparr>bestHeader := bestHeader s1 + 1, bestHeaderHash := Header_Hash h\<rparr>) = (Inl (ErrReorg k), s')"
        by (simp add: step del: addHeaders.simps)
      from Cons.IH [OF a(2,3) wf(2) Cons.prems(4) run] show ?thesis .
    qed
  qed
qed simp

lemma syncHeaders_loop_ErrReorg:
  assumes "wf_node N"
  shows "chain_inv s \<Longrightarrow> at_tip s \<Longrightarrow> syncHeaders_loop N fuel s = Some (Inl (ErrReorg k), s') \<Longrightarrow>
    1 \<le> k \<and> k < bestHeader s' \<and> bestHeader s' - 6 \<le> k"
proof (induction fuel arbitrary: s)
  case (Suc fuel)
  have c: "\<not> nd_cancelled N (calls s)" using Suc.prems(3) by auto
  obtain q s1 where g: "GetHeaders N [bestHeaderHash s] s = (q, s1)" by force
  note s1 = GetHeaders_step [OF g]
  have c1: "chain_inv s1" "at_tip s1" using hdr_step_calls [OF Suc.prems(1,2)] s1(1) by (simp_all add: hdr_step_def)
  from s1(2) assms Suc.prems(3) c g obtain hdrs where q: "q = Inr hdrs" "hdrs \<noteq> []" "list_all wf_Header hdrs"
    by (cases q) (auto simp: wf_node_def split: if_splits)
  obtain q2 s2 where a: "addHeaders N hdrs s1 = (q2, s2)" by force
  show ?case
  proof (cases q2)
    case (Inl e)
    with Suc.prems(3) c g q a have "addHeaders N hdrs s1 = (Inl (ErrReorg k), s')" by simp
    from addHeaders_ErrReorg [OF c1 q(3) assms this] show ?thesis .
  next
    case (Inr u)
    with Suc.prems(3) c g q a have "syncHeaders_loop N fuel s2 = Some (Inl (ErrReorg k), s')" by simp
    with Suc.IH addHeaders_steps [OF c1 q(3) a] show ?thesis by blast
  qed
qed simp

lemma syncWallets_cases:
  assumes "syncWallets C N fuel s = Some (r, s')"
  shows "chain_frame s s' \<and> (r = Inr () \<longrightarrow> (\<forall>w\<in>set (wallets s'). bestHeader s' \<le> wl_height w))"
proof (cases "wallets s")
  case Nil
  with assms show ?thesis by (simp add: syncWallets_def)
next
  case (Cons w ws)
  let ?h = "foldl (\<lambda>h w. min h (wl_height w)) (wl_height w) (wallets s)"
  have lo: "\<forall>w\<in>set (wallets s). ?h \<le> wl_height w" using foldl_min [of wl_height "wl_height w" "wallets s"] by blast
  show ?thesis
  proof (cases "?h \<ge> bestHeader s")
    case True
    with assms Cons lo show ?thesis by (force simp: syncWallets_def Let_def)
  next
    case False
    then have run: "syncWallets_loop C N fuel (?h + 1) s = Some (r, s')" using assms Cons by (simp add: syncWallets_def Let_def)
    have "\<forall>w\<in>set (wallets s'). bestHeader s' \<le> wl_height w" if "r = Inr ()"
      by (rule syncWallets_loop_heights [of C N fuel "?h + 1" s]) (use run that lo in auto)
    with syncWallets_loop_chain_frame [OF run] show ?thesis by blast
  qed
qed

lemma syncRound_steps:
  assumes "wf_node N" "chain_inv s" "syncRound C N fuel s = Some (r, s')"
  shows "chain_inv s' \<and> (r = Inr () \<longrightarrow> at_tip s' \<and> (\<forall>w\<in>set (wallets s'). bestHeader s' \<le> wl_height w))"
proof -
  from assms(3) obtain q s1 where h: "syncHeaders N fuel s = Some (q, s1)"
    by (cases "syncHeaders N fuel s") (auto simp: syncRound_def)
  have st: "hdr_step s s1" by (rule syncHeaders_steps [OF assms(1,2) h])
  then have c1: "chain_inv s1" "at_tip s1" by (simp_all add: hdr_step_def)
  have wal: "chain_inv s' \<and> (r = Inr () \<longrightarrow> at_tip s' \<and> (\<forall>w\<in>set (wallets s'). bestHeader s' \<le> wl_height w))"
    if "chain_inv t" "at_tip t" "syncWallets C N fuel t = Some (r, s')" for t
    using syncWallets_cases [OF that(3)] chain_frame_inv that(1,2) by blast
  consider "q = Inr ()" | k where "q = Inl (ErrReorg k)" | e where "q = Inl e" "\<nexists>k. e = ErrReorg k" by (cases q) auto
  then show ?thesis
  proof cases
    case 1
    then show ?thesis using wal [OF c1] assms(3) h by (simp add: syncRound_def)
  next
    case (2 k)
    from syncHeaders_start [OF assms(2), of N fuel] obtain s2 where s2: "syncHeaders N fuel s = syncHeaders_loop N fuel s2" "hdr_step s s2" by blast
    then have "chain_inv s2" "at_tip s2" by (simp_all add: hdr_step_def)
    from syncHeaders_loop_ErrReorg [OF assms(1) this, of fuel k s1] have b: "1 \<le> k" "k < bestHeader s1"
      using h 2 s2(1) by auto
    obtain p s3 where p: "processReorg k s1 = (p, s3)" by force
    have st3: "chain_inv s3 \<and> net s3 = net s1 \<and> (p = Inr () \<longrightarrow> at_tip s3 \<and> bestHeader s3 = k \<and>
        blockheader_tbl (db s3) = take (nat k) (blockheader_tbl (db s1)))"
      using processReorg_steps [OF c1 b(1) _ p] b(2) by simp
    show ?thesis
    proof (cases p)
      case (Inl e)
      with assms(3) h 2 p have "r = Inl e" "s' = s3" by (auto simp: syncRound_def)
      with st3 show ?thesis by simp
    next
      case (Inr u)
      with assms(3) h 2 p have "syncWallets C N fuel s3 = Some (r, s')" by (simp add: syncRound_def)
      moreover have "chain_inv s3" "at_tip s3" using st3 Inr by simp_all
      ultimately show ?thesis using wal by blast
    qed
  next
    case (3 e)
    with assms(3) h have "r = Inl e" "s' = s1" by (auto simp: syncRound_def split: error.splits)
    with c1 show ?thesis by simp
  qed
qed

text \<open>Subscribing and leaving change nothing of the chain and the wallets.\<close>

definition tip_frame :: "'z W_scheme \<Rightarrow> 'z W_scheme \<Rightarrow> bool" where
  "tip_frame s s' \<longleftrightarrow> db s' = db s \<and> bestHeader s' = bestHeader s \<and> bestHeaderHash s' = bestHeaderHash s \<and> net s' = net s
     \<and> wallets s' = wallets s"

lemma subs_tip_frame:
  "tip_frame s (HeadersSubscribe cid cb s)" "tip_frame s (ScriptHashSubscribe cid sh cb s)" "tip_frame s (UnsubscribeAll cid s)"
  by (simp_all add: tip_frame_def HeadersSubscribe_def ScriptHashSubscribe_def UnsubscribeAll_def)

text \<open>A round leaves the subscriptions and the network alone.\<close>

definition subs_frame :: "'z W_scheme \<Rightarrow> 'z W_scheme \<Rightarrow> bool" where
  "subs_frame s s' \<longleftrightarrow> hSubs s' = hSubs s \<and> shSubs s' = shSubs s \<and> net s' = net s"

lemma processReorg_subs:
  assumes "processReorg k s = (r, s')"
  shows "subs_frame s s'"
proof -
  obtain p s1 where d: "deleteAllSinceBlock k s = (p, s1)" by force
  obtain p2 s2 where rl: "reloadCaches s1 = (p2, s2)" by force
  have "subs_frame s s1" 
    using arg_cong [OF deleteAllSinceBlock_headers(1) [OF d], of hSubs] arg_cong [OF deleteAllSinceBlock_headers(1) [OF d], of shSubs]
      arg_cong [OF deleteAllSinceBlock_headers(1) [OF d], of net]
    by (simp add: subs_frame_def)
  moreover have "subs_frame s1 s2" 
    using arg_cong [OF reloadCaches_frame [OF rl], of hSubs] arg_cong [OF reloadCaches_frame [OF rl], of shSubs]
      arg_cong [OF reloadCaches_frame [OF rl], of net]
    by (simp add: subs_frame_def)
  ultimately have f: "subs_frame s s1" "subs_frame s s2" by (simp_all add: subs_frame_def)
  show ?thesis
  proof (cases "selectBlockHashesAtHeight s k 1")
    case (Inr hs)
    then show ?thesis
      using assms d rl f by (cases hs; cases p; cases p2) (auto simp: processReorg_def subs_frame_def)
  qed (use assms in \<open>simp add: processReorg_def subs_frame_def\<close>)
qed

lemma syncRound_subs:
  assumes "wf_node N" "chain_inv s" "syncRound C N fuel s = Some (r, s')"
  shows "subs_frame s s'"
proof -
  from assms(3) obtain q s1 where h: "syncHeaders N fuel s = Some (q, s1)"
    by (cases "syncHeaders N fuel s") (auto simp: syncRound_def)
  have f1: "subs_frame s s1" using syncHeaders_steps [OF assms(1,2) h] by (simp add: hdr_step_def hdr_frame_def subs_frame_def)
  have w: "subs_frame s s'" if "subs_frame s t" "syncWallets C N fuel t = Some (r, s')" for t
    using syncWallets_cases [OF that(2)] that(1) by (simp add: chain_frame_def subs_frame_def)
  consider "q = Inr ()" | k where "q = Inl (ErrReorg k)" | e where "q = Inl e" "\<nexists>k. e = ErrReorg k" by (cases q) auto
  then show ?thesis
  proof cases
    case 1
    then show ?thesis using w [OF f1] assms(3) h by (simp add: syncRound_def)
  next
    case (2 k)
    obtain p s3 where p: "processReorg k s1 = (p, s3)" by force
    have "subs_frame s s3" using processReorg_subs [OF p] f1 by (simp add: subs_frame_def)
    with w [OF this] assms(3) h 2 p show ?thesis by (cases p) (auto simp: syncRound_def)
  next
    case (3 e)
    with assms(3) h f1 show ?thesis by (auto simp: syncRound_def split: error.splits)
  qed
qed

definition synced :: "'z W_scheme \<Rightarrow> bool" where
  "synced s \<longleftrightarrow> at_tip s \<and> (\<forall>w\<in>set (wallets s). bestHeader s \<le> wl_height w)"

lemma tip_frame_keeps:
  assumes "tip_frame s s'"
  shows "chain_inv s \<Longrightarrow> chain_inv s'" "synced s \<Longrightarrow> synced s'"
  using assms by (auto simp: tip_frame_def synced_def intro: chain_inv_cong at_tip_cong)

lemma service_inv:
  assumes "wf_node N" "chain_inv s0" "service_reach C N s0 ls a"
  shows "chain_inv (snd a) \<and> (fst a = Serving \<longrightarrow> synced (snd a))"
  using assms(3)
proof (induction rule: service_reach.induct)
  case start
  with assms(2) show ?case by simp
next
  case (step ls a l b)
  note keep = tip_frame_keeps [OF subs_tip_frame(1)] tip_frame_keeps [OF subs_tip_frame(2)] tip_frame_keeps [OF subs_tip_frame(3)]
  from step.hyps(2) show ?case
  proof (cases rule: service_step.cases)
    case (round_ok p fuel s u s')
    with step.IH syncRound_steps [OF assms(1), of s C fuel "Inr u" s'] show ?thesis by (simp add: synced_def)
  next
    case (round_err p fuel s e s')
    have "after_error e p \<noteq> Serving" by (simp add: after_error_def split: error.split)
    with round_err step.IH syncRound_steps [OF assms(1), of s C fuel "Inl e" s'] show ?thesis by simp
  next
    case (sub_headers p s cid cb)
    with step.IH show ?thesis using keep(1,2) by auto
  next
    case (sub_script p s cid sh cb)
    with step.IH show ?thesis using keep(3,4) by auto
  next
    case (leave p s cid)
    with step.IH show ?thesis using keep(5,6) by auto
  next
    case (query p s cid)
    with step.IH show ?thesis by auto
  next
    case (query_panic p s cid)
    with step.IH show ?thesis by auto
  qed
qed

lemma service_net:
  assumes "wf_node N" "chain_inv s0" "service_reach C N s0 ls a"
  shows "net (snd a) = net s0"
  using assms(3)
proof (induction rule: service_reach.induct)
  case (step ls a l b)
  have "chain_inv (snd a)" using service_inv [OF assms(1,2) step.hyps(1)] by simp
  from step.hyps(2) show ?case
  proof (cases rule: service_step.cases)
    case (round_ok p fuel s u s')
    with step.IH \<open>chain_inv (snd a)\<close> syncRound_subs [OF assms(1), of s C fuel "Inr u" s'] show ?thesis by (simp add: subs_frame_def)
  next
    case (round_err p fuel s e s')
    with step.IH \<open>chain_inv (snd a)\<close> syncRound_subs [OF assms(1), of s C fuel "Inl e" s'] show ?thesis by (simp add: subs_frame_def)
  qed (use step.IH in \<open>simp_all add: subs_tip_frame [unfolded tip_frame_def]\<close>)
qed simp

section \<open>The loop over the wallets\<close>

lemma syncWallets_returns:
  assumes "chain_inv s" "at_tip s" "\<forall>w\<in>set (wallets s). 0 \<le> wl_height w" "bestHeader s + 2 \<le> int fuel"
  shows "\<exists>r s'. syncWallets C N fuel s = Some (r, s')"
proof (cases "wallets s")
  case (Cons w ws)
  let ?h = "foldl (\<lambda>h w. min h (wl_height w)) (wl_height w) (wallets s)"
  have "?h = wl_height w \<or> (\<exists>w'\<in>set (wallets s). ?h = wl_height w')" using foldl_min [of wl_height "wl_height w" "wallets s"] by blast
  then have "0 \<le> ?h" using assms(3) Cons by auto
  moreover have "0 < fuel" using assms(2,4) by (simp add: at_tip_def)
  ultimately have "\<exists>r s'. syncWallets_loop C N fuel (?h + 1) s = Some (r, s')"
    using assms by (intro syncWallets_loop_returns) auto
  then show ?thesis using Cons by (auto simp: syncWallets_def Let_def)
qed (simp add: syncWallets_def)

lemma syncWallets_loop_stuck:
  assumes "chain_inv s" "ht \<le> 0" "0 \<le> bestHeader s"
  shows "syncWallets_loop C N fuel ht s = None"
proof (induction fuel)
  case (Suc fuel)
  have "selectBlockHashesAtHeight s ht 2000 = Inr []"
    using blockHashes_chain [OF assms(1), of ht 2000] assms(2) by (simp add: sql_limit_def)
  with Suc assms(2,3) show ?case by simp
qed simp

section \<open>Headers from a peer that serves a chain\<close>

definition hashAt :: "hash32 \<Rightarrow> Header list \<Rightarrow> nat \<Rightarrow> hash32" where
  "hashAt g ch j = (if j = 0 then g else Header_Hash (ch ! (j - 1)))"

definition rowsOf :: "Header list \<Rightarrow> blockHeaderData list" where
  "rowsOf ch = map (\<lambda>i. headerRow (int i + 1) (ch ! i)) [0..<length ch]"

text \<open>The peer has the chain \<open>ch\<close> on top of the genesis block \<open>g\<close>; it serves it in pages of \<open>m\<close> headers, from
  position \<open>j\<close> on, to the calls from the \<open>c\<close>-th on.\<close>

definition serves :: "node \<Rightarrow> hash32 \<Rightarrow> Header list \<Rightarrow> nat \<Rightarrow> nat \<Rightarrow> nat \<Rightarrow> bool" where
  "serves N g ch m c j \<longleftrightarrow> 0 < m \<and> list_all wf_Header ch \<and> distinct (map Header_Hash ch)
     \<and> (\<forall>i < length ch. h_PreviousBlock (ch ! i) = hashAt g ch i) \<and> (\<forall>n. \<not> nd_cancelled N n)
     \<and> (\<forall>i. nd_headers N (c + i) [hashAt g ch (min (j + i * m) (length ch))] = Inr (take m (drop (j + i * m) ch)))"

lemma rowsOf_take: "j \<le> length ch \<Longrightarrow> rowsOf (take j ch) = take j (rowsOf ch)"
  by (auto simp: rowsOf_def take_map intro!: nth_equalityI)

lemma rowsOf_take_Suc: "j < length ch \<Longrightarrow> rowsOf (take (Suc j) ch) = rowsOf (take j ch) @ [headerRow (int j + 1) (ch ! j)]"
  by (simp add: rowsOf_def)

lemma bh_Hash_rowsOf: "map bh_Hash (rowsOf ch) = map Header_Hash ch"
  by (auto simp: rowsOf_def headerRow_def intro: nth_equalityI)

definition has_chain :: "hash32 \<Rightarrow> Header list \<Rightarrow> nat \<Rightarrow> 'z W_scheme \<Rightarrow> bool" where
  "has_chain g ch j s \<longleftrightarrow> genesisHash s = g \<and> blockheader_tbl (db s) = rowsOf (take j ch)
     \<and> bestHeader s = int j \<and> bestHeaderHash s = hashAt g ch j"

lemma addHeaders_serves:
  assumes "serves N g ch m c j0"
  shows "has_chain g ch j s \<Longrightarrow> j + k \<le> length ch \<Longrightarrow>
    \<exists>s'. addHeaders N (take k (drop j ch)) s = (Inr (), s') \<and> has_chain g ch (j + k) s' \<and> calls s' = calls s"
proof (induction k arbitrary: j s)
  case (Suc k)
  have j: "j < length ch" using Suc.prems(2) by simp
  then have dr: "take (Suc k) (drop j ch) = ch ! j # take k (drop (Suc j) ch)" by (simp add: Cons_nth_drop_Suc [symmetric])
  have wf: "wf_Header (ch ! j)" and prev: "h_PreviousBlock (ch ! j) = bestHeaderHash s"
    using assms j Suc.prems(1) by (auto simp: serves_def list_all_length has_chain_def)
  define s1 where "s1 = notifyHeaderSubscribers (bestHeader s + 1) (Header_Serialize (ch ! j)) s"
  have f: "db s1 = db s" "bestHeader s1 = bestHeader s" "genesisHash s1 = genesisHash s" "calls s1 = calls s"
    by (simp_all add: s1_def notifyHeaderSubscribers_def genesisHash_def)
  have len: "length (Header_bytes80 (ch ! j)) = 80" using wf by (rule length_Header_bytes80)
  have "Header_Hash (ch ! j) \<notin> Header_Hash ` set (take j ch)"
  proof
    assume "Header_Hash (ch ! j) \<in> Header_Hash ` set (take j ch)"
    then obtain i where "i < j" "Header_Hash (ch ! j) = Header_Hash (ch ! i)" by (auto simp: in_set_conv_nth)
    with assms j show False by (auto simp: serves_def distinct_conv_nth)
  qed
  moreover have "bh_Hash ` set (blockheader_tbl (db s1)) = Header_Hash ` set (take j ch)"
    using Suc.prems(1) f(1) arg_cong [OF bh_Hash_rowsOf [of "take j ch"], of set] by (simp add: has_chain_def)
  ultimately have i: "insertBlockHeader (Header_Hash (ch ! j)) (bestHeader s1 + 1) (Header_Serialize (ch ! j)) s1 =
      (Inr (), s1\<lparr>db := (db s1)\<lparr>blockheader_tbl := blockheader_tbl (db s1) @ [headerRow (bestHeader s1 + 1) (ch ! j)]\<rparr>\<rparr>)"
    using len by (simp add: insertBlockHeader_def Header_Serialize_def headerRow_def)
  let ?s2 = "s1\<lparr>db := (db s1)\<lparr>blockheader_tbl := blockheader_tbl (db s1) @ [headerRow (bestHeader s1 + 1) (ch ! j)]\<rparr>,
      bestHeader := bestHeader s1 + 1, bestHeaderHash := Header_Hash (ch ! j)\<rparr>"
  have "has_chain g ch (Suc j) ?s2"
    using Suc.prems(1) j f by (simp add: has_chain_def rowsOf_take_Suc hashAt_def genesisHash_def)
  from Suc.IH [OF this] Suc.prems(2) obtain s' where "addHeaders N (take k (drop (Suc j) ch)) ?s2 = (Inr (), s')" "has_chain g ch (j + Suc k) s'" "calls s' = calls s"
    using f(4) by auto
  moreover have "addHeaders N (take (Suc k) (drop j ch)) s = addHeaders N (take k (drop (Suc j) ch)) ?s2"
    using prev by (simp add: dr Let_def i flip: s1_def)
  ultimately show ?case by auto
qed auto

lemma syncHeaders_loop_serves:
  assumes sv: "serves N g ch m c j"
  shows "has_chain g ch (min (j + i * m) (length ch)) s \<Longrightarrow> calls s = c + i \<Longrightarrow> length ch - (j + i * m) < fuel \<Longrightarrow>
    \<exists>s'. syncHeaders_loop N fuel s = Some (Inr (), s') \<and> has_chain g ch (length ch) s'"
proof (induction fuel arbitrary: i s)
  case (Suc fuel)
  let ?s1 = "s\<lparr>calls := Suc (calls s)\<rparr>" and ?j = "j + i * m"
  have q: "GetHeaders N [bestHeaderHash s] s = (Inr (take m (drop ?j ch)), ?s1)" and nc: "\<not> nd_cancelled N (calls s)"
    using sv Suc.prems(1,2) by (simp_all add: GetHeaders_def serves_def has_chain_def)
  have h1: "has_chain g ch (min ?j (length ch)) ?s1" using Suc.prems(1) by (simp add: has_chain_def genesisHash_def)
  have m: "0 < m" using sv by (simp add: serves_def)
  show ?case
  proof (cases "length ch \<le> ?j")
    case True
    then have "min ?j (length ch) = length ch" by simp
    with q nc h1 True show ?thesis by simp
  next
    case False
    define k where "k = min m (length ch - ?j)"
    have k: "0 < k" "?j + k \<le> length ch" "?j + k = min (j + Suc i * m) (length ch)"
      using m False by (auto simp: k_def)
    have tk: "take m (drop ?j ch) = take k (drop ?j ch)" by (simp add: k_def min_def)
    have ne: "take k (drop ?j ch) \<noteq> []" using k by simp
    have "has_chain g ch ?j ?s1" using h1 False by (simp add: min_def)
    from addHeaders_serves [OF sv this k(2)] obtain s2 where a: "addHeaders N (take k (drop ?j ch)) ?s1 = (Inr (), s2)"
        "has_chain g ch (?j + k) s2" "calls s2 = Suc (calls s)" by auto
    have "has_chain g ch (min (j + Suc i * m) (length ch)) s2" using a(2) k(3) by simp
    moreover have "calls s2 = c + Suc i" "length ch - (j + Suc i * m) < fuel" using a(3) Suc.prems(2,3) m False by auto
    ultimately show ?thesis using Suc.IH [of "Suc i" s2] q nc ne a(1) by (simp add: tk)
  qed
qed simp

section \<open>Finding the fork\<close>

text \<open>The peer follows a chain that shares the first \<open>f\<close> headers with ours and leaves it there: a hash it has is answered
  with what follows it, another hash with headers that do not follow it.\<close>

definition forks :: "node \<Rightarrow> 'z W_scheme \<Rightarrow> nat \<Rightarrow> bool" where
  "forks N s f \<longleftrightarrow>
     (\<forall>i < length (blockheader_tbl (db s)). \<forall>n. \<exists>hdrs. nd_headers N n [bh_Hash (blockheader_tbl (db s) ! i)] = Inr hdrs
        \<and> (i < f \<longleftrightarrow> hdrs = [] \<or> h_PreviousBlock (hd hdrs) = bh_Hash (blockheader_tbl (db s) ! i)))"

lemma checkReorg_from_fork:
  assumes "numbered (blockheader_tbl (db s))" "forks N s f" "1 \<le> f" "bestHeader s - 6 \<le> int f"
  shows "int f < h \<Longrightarrow> h \<le> int (length (blockheader_tbl (db s))) + 1 \<Longrightarrow>
    \<exists>n. checkReorg_from N h (s\<lparr>calls := c\<rparr>) = (Inl (ErrReorg (int f)), s\<lparr>calls := n\<rparr>)"
proof (induction "nat (h - int f)" arbitrary: h c rule: less_induct)
  case less
  let ?t = "blockheader_tbl (db s)" and ?s = "s\<lparr>calls := c\<rparr>" and ?i = "nat (h - 2)"
  have i: "?i < length ?t" using less.prems assms(3) by linarith
  have ci: "numbered (blockheader_tbl (db ?s))" using assms(1) by simp
  have "drop ?i ?t = ?t ! ?i # drop (Suc ?i) ?t" using i by (simp add: Cons_nth_drop_Suc)
  moreover have "nat (h - 1 - 1) = ?i" by simp
  ultimately have q: "selectBlockHashesAtHeight ?s (h - 1) 1 = Inr [bh_Hash (?t ! ?i)]"
    using blockHashes_numbered [OF ci, of "h - 1" 1] less.prems assms(3) by (simp add: sql_limit_one)
  from assms(2) i obtain hdrs where hdrs: "nd_headers N c [bh_Hash (?t ! ?i)] = Inr hdrs"
      "?i < f \<longleftrightarrow> hdrs = [] \<or> h_PreviousBlock (hd hdrs) = bh_Hash (?t ! ?i)"
    unfolding forks_def by blast
  have d: "\<not> bestHeader ?s - (h - 1) > 6" using assms(4) less.prems(1) by simp
  show ?case
  proof (cases "?i < f")
    case True
    then have "h - 1 = int f" using less.prems(1) assms(3) by linarith
    with hdrs True q d show ?thesis
      by (subst checkReorg_from.simps) (auto simp: GetHeaders_def intro: exI [of _ "Suc c"])
  next
    case False
    have "int f < h - 1" using False assms(3) by linarith
    moreover from this have "nat (h - 1 - int f) < nat (h - int f)" by linarith
    ultimately obtain n where "checkReorg_from N (h - 1) (s\<lparr>calls := Suc c\<rparr>) = (Inl (ErrReorg (int f)), s\<lparr>calls := n\<rparr>)"
      using less.hyps [of "h - 1" "Suc c"] less.prems(2) by auto
    with False show ?thesis using q d hdrs by (subst checkReorg_from.simps) (auto simp: GetHeaders_def)
  qed
qed

end
