(* ===== verification/Reorg.thy ===== *)
theory Reorg
  imports Service
begin

text \<open>
  A reorganisation undoes exactly what was done above the block it returns to.

  \<open>advance C V r s0 s\<close> is the history of a wallet manager since \<open>s0\<close>: headers above the height \<open>r\<close> were inserted
  and their blocks processed. \<open>processReorg r\<close> then restores the tables of \<open>s0\<close> and a cache that
  agrees with them.
\<close>

inductive advance :: "crypto \<Rightarrow> utxos \<Rightarrow> int \<Rightarrow> 'z W_scheme \<Rightarrow> 'z W_scheme \<Rightarrow> bool" for C V r s0 where
  none: "advance C V r s0 s0"
| header: "advance C V r s0 s \<Longrightarrow> r < ht \<Longrightarrow> length hash = 32 \<Longrightarrow> insertBlockHeader hash ht ser s = (Inr (), s1) \<Longrightarrow>
    advance C V r s0 (s1\<lparr>bestHeader := ht, bestHeaderHash := hash\<rparr>)"
| block: "advance C V r s0 s \<Longrightarrow> r < ht \<Longrightarrow> new_block (db s0) (db s) block \<Longrightarrow> distinct (TXIDs block) \<Longrightarrow> block_outputs V block \<Longrightarrow>
    \<forall>tx\<in>set (b_Transactions block). Txid tx \<notin> td_Txid ` set (tx_tbl (db s)) \<Longrightarrow>
    processBlock C block ht s = (Inr (), s1) \<Longrightarrow> advance C V r s0 s1"

lemma insertBlockHeader_inv:
  assumes "wm_inv C V s" "length hash = 32" "insertBlockHeader hash ht ser s = (Inr (), s1)"
  shows "wm_inv C V (s1\<lparr>bestHeader := bh, bestHeaderHash := bhh\<rparr>)"
proof -
  have s1: "s1 = s\<lparr>db := (db s)\<lparr>blockheader_tbl := blockheader_tbl (db s) @ [\<lparr>bh_Hash = hash, bh_Height = ht, bh_Serialized = take 80 ser\<rparr>]\<rparr>\<rparr>"
      "80 \<le> length ser" "hash \<notin> bh_Hash ` set (blockheader_tbl (db s))"
    using assms(3) by (auto simp: insertBlockHeader_def split: if_splits)
  have "db_inv (db s)" using assms(1) by (simp add: wm_inv_def)
  then have "db_inv (db s1)"
    using s1(2,3) assms(2) by (auto simp: s1(1) db_inv_def pk_inv_def width_inv_def ref_inv_def list_all_iff)
  with assms(1) show ?thesis by (simp add: s1(1) wm_inv_def cache_inv_def unspent_map_def spk_inv_def)
qed

lemma new_block_header: "new_block d0 (db s) block \<Longrightarrow> has_header block (db s)"
  by (auto simp: new_block_def has_header_def)

lemma advance_inv:
  assumes "wm_inv C V s0" "spent_inv (db s0)" "advance C V r s0 s"
  shows "wm_inv C V s \<and> rolls r (db s0) s"
  using assms(3)
proof (induction rule: advance.induct)
  case none
  with assms(1,2) show ?case by (simp add: rolls_def)
next
  case (header s ht hash ser s1)
  have "spent_tbl (db s1) = spent_tbl (db s)" "unspent_tbl (db s1) = unspent_tbl (db s)"
    using header.hyps(4) by (auto simp: insertBlockHeader_def split: if_splits)
  then have "spent_inv (db s1)" using header.IH by (auto simp: rolls_def intro: spent_inv_cong)
  moreover have "extends r (db s0) (db s1)"
    using extends_insertBlockHeader [OF _ header.hyps(2,4)] header.IH by (simp add: rolls_def)
  moreover have "wm_inv C V (s1\<lparr>bestHeader := ht, bestHeaderHash := hash\<rparr>)"
    using insertBlockHeader_inv [OF _ header.hyps(3,4)] header.IH by blast
  ultimately show ?case by (simp add: rolls_def)
next
  case (block s ht b s1)
  have inv: "wm_inv C V s" "has_header b (db s)" using block.IH block.hyps(3) new_block_header by auto
  have d0: "db_inv (db s0)" using assms(1) by (simp add: wm_inv_def)
  have r: "rolls r (db s0) s" using block.IH by blast
  have "wm_inv C V s1" using processBlock_steps [OF inv block.hyps(4,5,7)] by blast
  with processBlock_rolls [OF inv block.hyps(4,5,7) r d0 block.hyps(3,2,6)] show ?case by blast
qed

lemma unspent_map_mset:
  assumes "distinct (map u_TxidVout a)" "mset b = mset a"
  shows "utxo_map b = utxo_map a"
proof -
  let ?f = "\<lambda>r. (u_TxidVout r, utxo2 r)"
  have k: "map fst (map ?f xs) = map u_TxidVout xs" for xs by simp
  have "distinct (map u_TxidVout b)" using assms by (metis mset_eq_imp_distinct_iff mset_map)
  then have d: "distinct (map fst (map ?f a))" "distinct (map fst (map ?f b))" using assms(1) by (simp_all only: k)
  have "set (map ?f b) = set (map ?f a)" using mset_eq_setD [OF assms(2)] by simp
  then show ?thesis unfolding utxo_map_def using map_of_inject_set [OF d(2,1)] by blast
qed

text \<open>The database that \<open>processReorg r\<close> returns to need not have been a state of the program: it is any settled one that the
  present database extends.\<close>

lemma processReorg_to:
  assumes d0: "db_inv d0" "settled r d0" "1 \<le> r" "r = int (length (blockheader_tbl d0))"
    and e: "rolls r d0 s" and d: "db_inv (db s)" and c: "numbered (blockheader_tbl (db s))"
  shows "\<exists>s'. processReorg r s = (Inr (), s') \<and> blockheader_tbl (db s') = blockheader_tbl d0 \<and> tx_tbl (db s') = tx_tbl d0
    \<and> stx_tbl (db s') = stx_tbl d0 \<and> spent_tbl (db s') = spent_tbl d0 \<and> mset (unspent_tbl (db s')) = mset (unspent_tbl d0)
    \<and> map wd_Hash (wallet_tbl (db s')) = map wd_Hash (wallet_tbl (db s)) \<and> cache_inv s' \<and> bestHeader s' = r
    \<and> bestHeaderHash s' = bh_Hash (last (blockheader_tbl d0)) \<and> net s' = net s
    \<and> wallets s' = map (\<lambda>w. w\<lparr>wl_height := min r (wl_height w)\<rparr>) (wallets s) \<and> scriptPubkeys s' = scriptPubkeys s"
proof -
  from e obtain hs where tbl: "blockheader_tbl (db s) = blockheader_tbl d0 @ hs"
    by (auto simp: rolls_def extends_def extends_by_def)
  let ?t = "blockheader_tbl d0"
  have ne: "?t \<noteq> []" using d0(3,4) by auto
  have n: "nat (r - 1) = length ?t - 1" using d0(3,4) by linarith
  have "drop (nat (r - 1)) (blockheader_tbl (db s)) = last ?t # hs"
    using arg_cong [OF append_butlast_last_id [OF ne], of "\<lambda>xs. drop (length ?t - 1) (xs @ hs)"] by (simp add: tbl n)
  then have q: "selectBlockHashesAtHeight s r 1 = Inr [bh_Hash (last ?t)]"
    using blockHashes_numbered [OF c, of r 1] d0(3,4) by (simp add: sql_limit_one tbl)
  from deleteAllSinceBlock_restores [OF e d0(1,2) d] obtain s1 where s1: "deleteAllSinceBlock r s = (Inr (), s1)" "s1 = s\<lparr>db := db s1\<rparr>"
      "blockheader_tbl (db s1) = ?t" "tx_tbl (db s1) = tx_tbl d0" "stx_tbl (db s1) = stx_tbl d0" "spent_tbl (db s1) = spent_tbl d0"
      "mset (unspent_tbl (db s1)) = mset (unspent_tbl d0)"
      "wallet_tbl (db s1) = map (\<lambda>w. if wd_Height w > r then w\<lparr>wd_Height := r\<rparr> else w) (wallet_tbl (db s))" by blast
  have du: "distinct (map u_TxidVout (unspent_tbl d0))" using d0(1) by (simp add: db_inv_def pk_inv_def)
  have wh: "map wd_Hash (wallet_tbl (db s1)) = map wd_Hash (wallet_tbl (db s))" unfolding s1(8) by simp
  moreover have "distinct (map u_TxidVout (unspent_tbl (db s1)))" using du s1(7) by (metis mset_eq_imp_distinct_iff mset_map)
  ultimately have pk: "pk_inv (db s1)" using d0(1) d s1(3-6) by (auto simp: db_inv_def pk_inv_def)
  have "set (unspent_tbl (db s1)) = set (unspent_tbl d0)" using s1(7) by (metis mset_eq_setD)
  then have wd: "width_inv (db s1)" using d0(1) s1(3-6) by (simp add: db_inv_def width_inv_def list_all_iff)
  from reloadCaches_ok [OF pk wd] obtain s2 where s2: "reloadCaches s1 = (Inr (), s2)" "db s2 = db s1" "store_inv s2" "s2 = s1\<lparr>utxoIndex := utxoIndex s2\<rparr>" by blast
  let ?s' = "s2\<lparr>wallets := map (\<lambda>w. w\<lparr>wl_height := min r (wl_height w)\<rparr>) (wallets s2), bestHeader := r, bestHeaderHash := bh_Hash (last ?t)\<rparr>"
  have "processReorg r s = (Inr (), ?s')" by (simp add: processReorg_def q s1(1) s2(1))
  moreover have "cache_inv ?s'" using s2(3) by (simp add: store_inv_def cache_inv_def unspent_map_def)
  moreover have "scriptPubkeys s2 = scriptPubkeys s" "wallets s2 = wallets s" "net s2 = net s"
    by (subst s2(4), simp, subst s1(2), simp)+
  ultimately show ?thesis using s1(3-7) s2(2) wh by (intro exI [of _ ?s']) simp
qed

lemma processReorg_restores:
  assumes inv: "wm_inv C V s0" "spent_inv (db s0)" "settled r (db s0)" "1 \<le> r" "r = int (length (blockheader_tbl (db s0)))"
    and adv: "advance C V r s0 s" and c: "numbered (blockheader_tbl (db s))"
  shows "\<exists>s'. processReorg r s = (Inr (), s') \<and> blockheader_tbl (db s') = blockheader_tbl (db s0) \<and> tx_tbl (db s') = tx_tbl (db s0)
    \<and> stx_tbl (db s') = stx_tbl (db s0) \<and> spent_tbl (db s') = spent_tbl (db s0) \<and> mset (unspent_tbl (db s')) = mset (unspent_tbl (db s0))
    \<and> unspent_map s' = unspent_map s0 \<and> cache_inv s' \<and> bestHeader s' = r \<and> bestHeaderHash s' = bh_Hash (last (blockheader_tbl (db s0)))
    \<and> (\<forall>w\<in>set (wallets s'). wl_height w \<le> r) \<and> scriptPubkeys s' = scriptPubkeys s"
proof -
  from advance_inv [OF inv(1,2) adv] have w: "wm_inv C V s" and e: "rolls r (db s0) s" by blast+
  have d0: "db_inv (db s0)" "db_inv (db s)" using inv(1) w by (simp_all add: wm_inv_def)
  from processReorg_to [OF d0(1) inv(3-5) e d0(2) c] obtain s' where s': "processReorg r s = (Inr (), s')"
      "blockheader_tbl (db s') = blockheader_tbl (db s0)" "tx_tbl (db s') = tx_tbl (db s0)" "stx_tbl (db s') = stx_tbl (db s0)"
      "spent_tbl (db s') = spent_tbl (db s0)" "mset (unspent_tbl (db s')) = mset (unspent_tbl (db s0))" "cache_inv s'" "bestHeader s' = r"
      "bestHeaderHash s' = bh_Hash (last (blockheader_tbl (db s0)))"
      "wallets s' = map (\<lambda>w. w\<lparr>wl_height := min r (wl_height w)\<rparr>) (wallets s)" "scriptPubkeys s' = scriptPubkeys s" by blast
  have "distinct (map u_TxidVout (unspent_tbl (db s0)))" using d0(1) by (simp add: db_inv_def pk_inv_def)
  then have "unspent_map s' = unspent_map s0" unfolding unspent_map_def by (rule unspent_map_mset [OF _ s'(6)])
  moreover have "\<forall>w\<in>set (wallets s'). wl_height w \<le> r" by (simp add: s'(10))
  ultimately show ?thesis using s'(1-9,11) by blast
qed

end
