(* ===== verification/SyncProperties.thy ===== *)
theory SyncProperties
  imports Reorg
begin

text \<open>
  The properties of the synchronisation: the chain of headers in every reachable state of the service, catching up with
  an honest peer, the loop over the wallets, finding the point where the peer's chain leaves ours, and the rollback.
  The witnesses run the model on small peers.
\<close>

section \<open>Sample peers and states\<close>

definition fresh_W :: "Network \<Rightarrow> W" where
  "fresh_W n = \<lparr>db = empty_database, utxoIndex = [], net = n, bestHeader = 0, bestHeaderHash = replicate 32 0,
     wallets = [], scriptPubkeys = Map.empty, shSubs = [], hSubs = [], sent = [], calls = 0\<rparr>"

definition sample_header :: "hash32 \<Rightarrow> Header" where
  "sample_header prev = \<lparr>h_BlockVersion = 1, h_PreviousBlock = prev, h_MerkleRoot = replicate 32 7, h_Timestamp = 5,
     h_NBits = 6, h_Nonce = 8\<rparr>"

text \<open>A peer that gives one header on top of the block \<open>prev\<close> and then nothing more, and has no blocks.\<close>

definition one_header_node :: "hash32 \<Rightarrow> node" where
  "one_header_node prev = \<lparr>nd_headers = (\<lambda>n hs. if n = 0 then Inr [sample_header prev] else Inr []),
     nd_block = (\<lambda>n h. Inl (Err ''not found'')), nd_cancelled = (\<lambda>n. False)\<rparr>"

lemma wf_one_header_node: "length prev = 32 \<Longrightarrow> wf_node (one_header_node prev)"
  by (auto simp: wf_node_def one_header_node_def wf_Header_def sample_header_def)

lemma genesis_length: "length (bh_Hash (genesisBlockData n)) = 32"
  by (cases n) simp_all

lemma fresh_chain: "chain_inv (fresh_W n)" "at_tip (fresh_W Testnet)" "has_chain (bh_Hash (genesisBlockData n)) ch 0 ((fresh_W n)\<lparr>bestHeaderHash := bh_Hash (genesisBlockData n)\<rparr>)"
  by (simp_all add: chain_inv_def at_tip_def has_chain_def fresh_W_def empty_database_def genesisHash_def tip_def rowsOf_def hashAt_def)

lemma one_header_serves:
  assumes "length prev = 32"
  shows "serves (one_header_node prev) prev [sample_header prev] 1 0 0"
  unfolding serves_def
proof (intro conjI allI)
  fix i
  show "nd_headers (one_header_node prev) (0 + i) [hashAt prev [sample_header prev] (min (0 + i * 1) (length [sample_header prev]))]
      = Inr (take 1 (drop (0 + i * 1) [sample_header prev]))"
    by (cases i) (simp_all add: one_header_node_def)
qed (use assms in \<open>simp_all add: one_header_node_def wf_Header_def sample_header_def hashAt_def\<close>)

abbreviation genesis_node :: "Network \<Rightarrow> node" where
  "genesis_node n \<equiv> one_header_node (bh_Hash (genesisBlockData n))"

lemma fresh_headers:
  "\<exists>s. syncHeaders (genesis_node n) 2 (fresh_W n) = Some (Inr (), s)
     \<and> has_chain (bh_Hash (genesisBlockData n)) [sample_header (bh_Hash (genesisBlockData n))] 1 s \<and> wallets s = []"
proof -
  let ?g = "bh_Hash (genesisBlockData n)"
  let ?s0 = "(fresh_W n)\<lparr>bestHeaderHash := ?g\<rparr>"
  have "bh_Height (genesisBlockData n) = 0" by (cases n) simp_all
  then have run: "syncHeaders (genesis_node n) 2 (fresh_W n) = syncHeaders_loop (genesis_node n) 2 ?s0"
    by (simp add: syncHeaders_def storedTip_def selectLastBlockHeaderData_def headers_desc_def queryRow_def fresh_W_def empty_database_def
        del: genesisBlockData.simps syncHeaders_loop.simps)
  obtain s where s: "syncHeaders_loop (genesis_node n) 2 ?s0 = Some (Inr (), s)" "has_chain ?g [sample_header ?g] 1 s"
    using syncHeaders_loop_serves [OF one_header_serves [OF genesis_length], of n 0 ?s0 2] fresh_chain(3) [of n "[sample_header ?g]"]
    by (auto simp: fresh_W_def)
  have "hdr_frame (fresh_W n) s"
    using syncHeaders_steps [OF wf_one_header_node [OF genesis_length] fresh_chain(1), of n 2 n] s(1) run by (auto simp: hdr_step_def)
  then have "wallets s = []" by (simp add: hdr_frame_def fresh_W_def)
  with s run show ?thesis by auto
qed

section \<open>Properties\<close>

text \<open>C10. In every state the service can reach, whatever the peer answers, the stored headers form one chain from the
  genesis block (heights 1, 2, \<dots>, each header naming the hash of the one before it and hashing to its own key), and
  whenever clients are served after a round, the best header is the last one stored and every wallet has been scanned up to it.\<close>

theorem service_chain:
  assumes "wf_node N" "chain_inv s0" "service_reach C N s0 ls (p, s)"
  shows "linked (genesisHash s) 0 (blockheader_tbl (db s))
    \<and> (p = Serving \<longrightarrow> bestHeader s = int (length (blockheader_tbl (db s)))
      \<and> bestHeaderHash s = tip (genesisHash s) (blockheader_tbl (db s)) \<and> (\<forall>w\<in>set (wallets s). bestHeader s \<le> wl_height w))"
  using service_inv [OF assms] unfolding chain_inv_def synced_def at_tip_def fst_conv snd_conv by blast

theorem service_chain_witness:
  "\<exists>s. service_reach xor_crypto (genesis_node Mainnet) (fresh_W Mainnet) [Round] (Serving, s)
     \<and> length (blockheader_tbl (db s)) = 1 \<and> linked (genesisHash s) 0 (blockheader_tbl (db s)) \<and> bestHeader s = 1"
proof -
  obtain s where s: "syncHeaders (genesis_node Mainnet) 2 (fresh_W Mainnet) = Some (Inr (), s)" "wallets s = []"
      "has_chain (bh_Hash (genesisBlockData Mainnet)) [sample_header (bh_Hash (genesisBlockData Mainnet))] 1 s"
    using fresh_headers by blast
  then have "syncRound xor_crypto (genesis_node Mainnet) 2 (fresh_W Mainnet) = Some (Inr (), s)"
    by (simp add: syncRound_def syncWallets_def)
  then have r: "service_reach xor_crypto (genesis_node Mainnet) (fresh_W Mainnet) [Round] (Serving, s)"
    using service_reach.step [OF service_reach.start round_ok [of Starting xor_crypto "genesis_node Mainnet" 2 "fresh_W Mainnet" "()" s]] by simp
  have "length (blockheader_tbl (db s)) = 1" "bestHeader s = 1" using s(3) by (simp_all add: has_chain_def rowsOf_def)
  moreover have "linked (genesisHash s) 0 (blockheader_tbl (db s))"
    by (rule conjunct1 [OF service_chain [OF wf_one_header_node [OF genesis_length] fresh_chain(1) r]])
  ultimately show ?thesis using r by (intro exI [of _ s] conjI)
qed

text \<open>C13. Catching up: a node that has any chain of headers on top of what is stored, and serves it page by page, is
  followed to the end: \<open>syncHeaders\<close> returns without error, and the table then holds exactly that chain.\<close>

theorem syncHeaders_catches_up:
  assumes "serves N (genesisHash s) ch m (calls s) j" "j \<le> length ch" "blockheader_tbl (db s) = rowsOf (take j ch)"
    and "length ch - j < fuel" "chain_inv s"
  shows "\<exists>s'. syncHeaders N fuel s = Some (Inr (), s') \<and> blockheader_tbl (db s') = rowsOf ch \<and> bestHeader s' = int (length ch)
    \<and> bestHeaderHash s' = hashAt (genesisHash s) ch (length ch)"
proof -
  obtain s1 a b where s1: "syncHeaders N fuel s = syncHeaders_loop N fuel s1" "hdr_step s s1" "s1 = s\<lparr>bestHeader := a, bestHeaderHash := b\<rparr>"
    using syncHeaders_start [OF assms(5)] by blast
  have f: "db s1 = db s" "calls s1 = calls s" "genesisHash s1 = genesisHash s" unfolding s1(3) by (simp_all add: genesisHash_def)
  have "at_tip s1" using s1(2) by (simp add: hdr_step_def)
  have len: "length (rowsOf (take j ch)) = j" using assms(2) by (simp add: rowsOf_def)
  have "tip (genesisHash s) (rowsOf (take j ch)) = hashAt (genesisHash s) ch j"
    using assms(2) len by (cases j) (auto simp: tip_def hashAt_def rowsOf_def headerRow_def last_map)
  then have "has_chain (genesisHash s) ch j s1"
    using f assms(3) len \<open>at_tip s1\<close> by (simp add: has_chain_def at_tip_def)
  then have "\<exists>s'. syncHeaders_loop N fuel s1 = Some (Inr (), s') \<and> has_chain (genesisHash s) ch (length ch) s'"
    using syncHeaders_loop_serves [OF assms(1), of 0 s1 fuel] f(2) assms(2,4) by (simp add: min_def)
  then show ?thesis using s1(1) by (auto simp: has_chain_def)
qed

theorem syncHeaders_catches_up_witness:
  "\<exists>s. syncHeaders (genesis_node Regtest) 2 (fresh_W Regtest) = Some (Inr (), s) \<and> bestHeader s = 1"
  using syncHeaders_catches_up [of "genesis_node Regtest" "fresh_W Regtest" "[sample_header (bh_Hash (genesisBlockData Regtest))]" 1 0 2]
    one_header_serves [OF genesis_length, of Regtest] fresh_chain(1) [of Regtest]
  by (auto simp: fresh_W_def genesisHash_def rowsOf_def empty_database_def simp del: genesisBlockData.simps)

text \<open>C16. The scan of the wallets ends: when no wallet's height is negative, \<open>syncWallets\<close> returns within
  \<open>bestHeader + 2\<close> pages whatever blocks the peer sends, and when it returns without error every wallet has
  been scanned up to the best header.\<close>

theorem syncWallets_terminates:
  assumes "chain_inv s" "at_tip s" "\<forall>w\<in>set (wallets s). 0 \<le> wl_height w" "bestHeader s + 2 \<le> int fuel"
  shows "\<exists>r s'. syncWallets C N fuel s = Some (r, s') \<and> (r = Inr () \<longrightarrow> (\<forall>w\<in>set (wallets s'). bestHeader s' \<le> wl_height w))"
proof -
  obtain r s' where "syncWallets C N fuel s = Some (r, s')" using syncWallets_returns [OF assms] by blast
  with syncWallets_cases [OF this] show ?thesis by blast
qed

theorem syncWallets_terminates_witness:
  "\<exists>(s :: W) r s'. bestHeader s = 1 \<and> wallets s = [zero_wallet] \<and> syncWallets xor_crypto (genesis_node Regtest) 3 s = Some (r, s')"
proof -
  let ?g = "bh_Hash (genesisBlockData Regtest)"
  obtain s where s: "hdr_step (fresh_W Regtest) s" "has_chain ?g [sample_header ?g] 1 s"
    using fresh_headers [of Regtest] syncHeaders_steps [OF wf_one_header_node [OF genesis_length] fresh_chain(1)] by blast
  define t where "t = s\<lparr>wallets := [zero_wallet]\<rparr>"
  have "chain_inv s" "at_tip s" "bestHeader s = 1" using s by (simp_all only: hdr_step_def has_chain_def of_nat_1)
  then have "chain_inv t" "at_tip t" "bestHeader t = 1" "wallets t = [zero_wallet]"
    unfolding t_def by (auto intro: chain_inv_cong at_tip_cong)
  with syncWallets_terminates [of t 3 xor_crypto "genesis_node Regtest"] show ?thesis by (auto simp: zero_wallet_def)
qed

text \<open>A configured height below zero hangs the service: the row before the genesis block does not exist, the page of
  hashes is empty, and the loop of \<open>syncWallets\<close> never advances and never returns.\<close>

theorem syncWallets_negative_height_hangs:
  assumes "chain_inv s" "w \<in> set (wallets s)" "wl_height w < 0" "0 \<le> bestHeader s"
  shows "syncWallets C N fuel s = None"
proof -
  from assms(2) obtain w0 ws where ws: "wallets s = w0 # ws" by (cases "wallets s") auto
  let ?h = "foldl (\<lambda>h w. min h (wl_height w)) (wl_height w0) (wallets s)"
  have "?h \<le> wl_height w" using foldl_min [of wl_height "wl_height w0" "wallets s"] assms(2) by blast
  then have "?h + 1 \<le> 0" "\<not> bestHeader s \<le> ?h" using assms(3,4) by linarith+
  with syncWallets_loop_stuck [OF assms(1) _ assms(4)] show ?thesis by (simp add: syncWallets_def Let_def ws del: foldl_Cons)
qed

theorem syncWallets_negative_height_hangs_witness:
  "\<forall>fuel. syncWallets xor_crypto (genesis_node Regtest) fuel ((fresh_W Regtest)\<lparr>wallets := [zero_wallet\<lparr>wl_height := - 1\<rparr>]\<rparr>) = None"
  using syncWallets_negative_height_hangs [of "(fresh_W Regtest)\<lparr>wallets := [zero_wallet\<lparr>wl_height := - 1\<rparr>]\<rparr>"
      "zero_wallet\<lparr>wl_height := - 1\<rparr>" xor_crypto "genesis_node Regtest"] fresh_chain(1) [of Regtest]
  by (simp add: chain_inv_def genesisHash_def fresh_W_def)

text \<open>C15. Finding the fork: when the peer shares exactly the first \<open>f\<close> stored headers and has left our chain at most
  six blocks below the best header, \<open>checkReorg\<close> reports the height \<open>f\<close>, after at most six requests.\<close>

theorem checkReorg_finds_fork:
  assumes "numbered (blockheader_tbl (db s))" "forks N s f" "1 \<le> f" "bestHeader s - 6 \<le> int f" "int f < bestHeader s"
    and "bestHeader s \<le> int (length (blockheader_tbl (db s)))"
  shows "\<exists>n. checkReorg N s = (Inl (ErrReorg (int f)), s\<lparr>calls := n\<rparr>) \<and> n \<le> calls s + 6"
proof -
  have "bestHeader s \<noteq> 0" using assms(3,5) by simp
  then obtain n where n: "checkReorg N s = (Inl (ErrReorg (int f)), s\<lparr>calls := n\<rparr>)"
    using checkReorg_from_fork [OF assms(1-5), of "calls s"] assms(6) by (auto simp: checkReorg_def)
  from checkReorg_frame [OF n] obtain m where "s\<lparr>calls := n\<rparr> = s\<lparr>calls := m\<rparr>" "m \<le> calls s + 6" by blast
  then have "n \<le> calls s + 6" by (metis W.select_convs(9) W.surjective W.update_convs(9))
  with n show ?thesis by blast
qed

text \<open>A peer that knows only the first row of \<open>sample_W\<close>, and has something else on top of any other hash.\<close>

definition fork_node :: node where
  "fork_node = \<lparr>nd_headers = (\<lambda>n hs. if hs = [replicate 32 1] then Inr [] else Inr [sample_header (replicate 32 9)]),
     nd_block = (\<lambda>n h. Inl (Err ''not found'')), nd_cancelled = (\<lambda>n. False)\<rparr>"

theorem checkReorg_finds_fork_witness:
  "\<exists>n. checkReorg fork_node sample_W = (Inl (ErrReorg 1), sample_W\<lparr>calls := n\<rparr>) \<and> n \<le> 6"
proof -
  have "numbered (blockheader_tbl (db sample_W))"
    by (simp add: numbered_def sample_W_def sample_row_def upt_rec)
  moreover have "forks fork_node sample_W 1"
  proof -
    have "\<forall>i<3. \<forall>n. \<exists>hdrs. nd_headers fork_node n [bh_Hash ([sample_row 1 1, sample_row 2 2, sample_row 3 3] ! i)] = Inr hdrs
        \<and> (i < 1 \<longleftrightarrow> hdrs = [] \<or> h_PreviousBlock (hd hdrs) = bh_Hash ([sample_row 1 1, sample_row 2 2, sample_row 3 3] ! i))"
      by (simp add: less_Suc_eq numeral_3_eq_3 fork_node_def sample_row_def sample_header_def)
    then show ?thesis unfolding forks_def by (simp add: sample_W_def)
  qed
  ultimately show ?thesis using checkReorg_finds_fork [of sample_W fork_node 1] by (simp add: sample_W_def)
qed

lemma sample_reorg:
  "\<exists>(s0 :: W) s p. wm_inv xor_crypto (sample_V p) s0 \<and> spent_inv (db s0) \<and> settled 1 (db s0) \<and> length (blockheader_tbl (db s0)) = 1
     \<and> advance xor_crypto (sample_V p) 1 s0 s \<and> numbered (blockheader_tbl (db s)) \<and> length (blockheader_tbl (db s)) = 2"
proof -
  obtain t :: W and p where t: "wm_inv xor_crypto (sample_V p) t" "ready xor_crypto 1 t" "stx_tbl (db t) = []" "tx_tbl (db t) = []"
      "spent_tbl (db t) = []" "unspent_tbl (db t) = []"
    using sample_state by blast
  let ?b = "sample_pay_block p"
  obtain x where x: "Block_Hash ?b \<noteq> replicate 32 (x :: byte)"
  proof (cases "Block_Hash ?b = replicate 32 0")
    case True
    then have "Block_Hash ?b \<noteq> replicate 32 1" by simp
    then show ?thesis using that by blast
  qed (use that in blast)
  define s0 where "s0 = t\<lparr>db := (db t)\<lparr>blockheader_tbl := [\<lparr>bh_Hash = replicate 32 x, bh_Height = 1, bh_Serialized = replicate 80 0\<rparr>]\<rparr>\<rparr>"
  have i0: "wm_inv xor_crypto (sample_V p) s0"
    using t by (simp add: s0_def wm_inv_def db_inv_def pk_inv_def width_inv_def ref_inv_def cache_inv_def unspent_map_def spk_inv_def)
  have z: "spent_inv (db s0)" "settled 1 (db s0)" "ready xor_crypto 1 s0" using t by (simp_all add: s0_def spent_inv_def settled_def ready_def)
  let ?row = "\<lparr>bh_Hash = Block_Hash ?b, bh_Height = 2, bh_Serialized = replicate 80 0\<rparr>"
  define s1 where "s1 = s0\<lparr>db := (db s0)\<lparr>blockheader_tbl := blockheader_tbl (db s0) @ [?row]\<rparr>\<rparr>"
  define s2 where "s2 = s1\<lparr>bestHeader := 2, bestHeaderHash := Block_Hash ?b\<rparr>"
  have ins: "insertBlockHeader (Block_Hash ?b) 2 (replicate 80 0) s0 = (Inr (), s1)"
    using x by (simp add: insertBlockHeader_def s1_def s0_def)
  have a2: "advance xor_crypto (sample_V p) 1 s0 s2"
    unfolding s2_def by (rule advance.header [OF advance.none _ _ ins]) simp_all
  have i2: "wm_inv xor_crypto (sample_V p) s2" unfolding s2_def by (rule insertBlockHeader_inv [OF i0 _ ins]) simp
  have tb: "blockheader_tbl (db s2) = [\<lparr>bh_Hash = replicate 32 x, bh_Height = 1, bh_Serialized = replicate 80 0\<rparr>, ?row]" "tx_tbl (db s2) = []"
    using t(4) by (simp_all add: s2_def s1_def s0_def)
  have nb: "new_block (db s0) (db s2) ?b" using tb x by (auto simp: new_block_def s0_def)
  have "ready xor_crypto (outputCount (b_Transactions ?b)) s2"
    using z(3) by (simp add: sample_block_facts(7) ready_def s2_def s1_def)
  then obtain s where s: "processBlock xor_crypto ?b 2 s2 = (Inr (), s)"
    using processBlock_progress [OF i2 new_block_header [OF nb] sample_block_facts(1,2,8)] by blast
  have "advance xor_crypto (sample_V p) 1 s0 s"
    by (rule advance.block [OF a2 _ nb sample_block_facts(1,2) _ s]) (simp_all add: tb)
  moreover have "blockheader_tbl (db s) = blockheader_tbl (db s2)"
    using processBlock_chain_frame [of s2 xor_crypto ?b 2] s by (simp add: chain_frame_def)
  ultimately show ?thesis using i0 z by (intro exI [of _ s0] exI [of _ s] exI [of _ p]) (simp add: tb numbered_def s0_def)
qed

text \<open>C14. A reorganisation undoes exactly what was done above the block it returns to: after any number of headers and
  blocks above the height \<open>r\<close>, \<open>processReorg r\<close> restores the tables of headers, transactions, histories, spent and
  unspent outputs of the earlier state, and the cache agrees with them.\<close>

theorem processReorg_undoes:
  assumes "wm_inv C V s0" "spent_inv (db s0)" "settled r (db s0)" "1 \<le> r" "r = int (length (blockheader_tbl (db s0)))"
    and "advance C V r s0 s" "numbered (blockheader_tbl (db s))"
  shows "\<exists>s'. processReorg r s = (Inr (), s') \<and> blockheader_tbl (db s') = blockheader_tbl (db s0) \<and> tx_tbl (db s') = tx_tbl (db s0)
    \<and> stx_tbl (db s') = stx_tbl (db s0) \<and> spent_tbl (db s') = spent_tbl (db s0) \<and> mset (unspent_tbl (db s')) = mset (unspent_tbl (db s0))
    \<and> unspent_map s' = unspent_map s0 \<and> cache_inv s' \<and> bestHeader s' = r \<and> bestHeaderHash s' = bh_Hash (last (blockheader_tbl (db s0)))
    \<and> (\<forall>w\<in>set (wallets s'). wl_height w \<le> r) \<and> scriptPubkeys s' = scriptPubkeys s"
  by (rule processReorg_restores [OF assms])

theorem processReorg_undoes_witness:
  "\<exists>(s0 :: W) (s :: W) s'. length (blockheader_tbl (db s0)) = 1 \<and> length (blockheader_tbl (db s)) = 2
     \<and> processReorg 1 s = (Inr (), s') \<and> blockheader_tbl (db s') = blockheader_tbl (db s0)"
proof -
  obtain s0 :: W and s p where s: "wm_inv xor_crypto (sample_V p) s0" "spent_inv (db s0)" "settled 1 (db s0)"
      "length (blockheader_tbl (db s0)) = 1" "advance xor_crypto (sample_V p) 1 s0 s" "numbered (blockheader_tbl (db s))"
      "length (blockheader_tbl (db s)) = 2"
    using sample_reorg by blast
  have "1 = int (length (blockheader_tbl (db s0)))" using s(4) by simp
  from processReorg_undoes [OF s(1-3) order_refl this s(5,6)] s(4,7) show ?thesis by blast
qed

text \<open>On the test network nothing is ever synchronised: its genesis block is left out of the table
  \<open>genesisBlockData\<close>, so its hash is zero, and the first header of a peer, which names the hash of the real genesis
  block, is refused as an unexpected block.\<close>

theorem syncHeaders_testnet_fails:
  assumes "net s = Testnet" "blockheader_tbl (db s) = []" "\<not> nd_cancelled N (calls s)"
    and "nd_headers N (calls s) [replicate 32 0] = Inr (h # hs)" "h_PreviousBlock h \<noteq> replicate 32 0"
  shows "\<exists>s'. syncHeaders N (Suc fuel) s = Some (Inl (Err ''unexpected block''), s') \<and> db s' = db s"
  using assms by (simp add: syncHeaders_def storedTip_def selectLastBlockHeaderData_def headers_desc_def queryRow_def GetHeaders_def
      checkReorg_def)

theorem syncHeaders_testnet_fails_witness:
  "\<exists>s'. syncHeaders (one_header_node (replicate 32 5)) 9 (fresh_W Testnet) = Some (Inl (Err ''unexpected block''), s') \<and> db s' = empty_database"
  using syncHeaders_testnet_fails [of "fresh_W Testnet" "one_header_node (replicate 32 5)" "sample_header (replicate 32 5)" "[]" 8]
  by (simp add: fresh_W_def empty_database_def one_header_node_def sample_header_def del: syncHeaders_loop.simps)

end
