(* ===== verification/Handlers.thy ===== *)
theory Handlers
  imports Jsonrpc SyncProperties
begin

text \<open>
  \<open>electrum/electrum.go\<close> and \<open>electrum/handlers.go\<close>: the methods of the Electrum protocol, from the bytes of a
  request's parameters to the bytes of its result.

  The state \<open>mux\<close> is the wallet manager with the callbacks that were handed to it: a callback is the number of a
  \<open>closure\<close>, which records what the Go closure captured. The handlers are run after the first round of synchronisation, which
  every call of the wallet manager waits for. The node is a parameter: \<open>bc\<close> is the outcome of broadcasting a transaction.

  A handler is one atomic function of the state. The code locks the wallet manager once for each call of it, so the two handlers
  that first read and then subscribe (\<open>headersSubscribeHandler\<close>, \<open>scriptHashSubscribeHandler\<close>) have two critical sections, between
  which a round of synchronisation can run; the response then holds the tip or the status from before the round. Nothing below
  says that a response is fresh.

  The callbacks here make a notification; what \<open>Notify\<close> does with it, and when it fails, is in \<open>Server\<close> (\<open>runCallback\<close>).
\<close>

section \<open>State and callbacks\<close>

datatype closure = HeadersCb u32 | StatusCb u32 hash32

record mux =
  mx_w :: W
  closures :: "closure list"

definition hexStr :: "bytes \<Rightarrow> bytes" where
  "hexStr b = quoted (hexEncode b)"

text \<open>The notification a callback sends, and the connection it sends it to.\<close>

definition headersNote :: "u32 \<Rightarrow> int \<Rightarrow> bytes \<Rightarrow> u32 \<times> Notification" where
  "headersNote cid height header =
     (cid, \<lparr>nt_JsonRPC = None, nt_Method = Some (quoted (ascii ''blockchain.headers.subscribe'')),
        nt_Params = Some (jarray [jobject [jfield ''height'' (decEncode height), jfield ''hex'' (hexStr header)]])\<rparr>)"

definition statusNote :: "u32 \<Rightarrow> hash32 \<Rightarrow> hash32 \<Rightarrow> u32 \<times> Notification" where
  "statusNote cid sh status =
     (cid, \<lparr>nt_JsonRPC = None, nt_Method = Some (quoted (ascii ''blockchain.scripthash.subscribe'')),
        nt_Params = Some (jarray [hexStr (rev sh), hexStr status])\<rparr>)"

text \<open>Calling a callback; a number that is no callback of the right kind cannot occur (\<open>cb_inv\<close>).\<close>

definition callback :: "mux \<Rightarrow> event \<Rightarrow> (u32 \<times> Notification) option" where
  "callback s ev = (case ev of
       HeaderEvent n height header \<Rightarrow>
         if n < length (closures s) then (case closures s ! n of HeadersCb cid \<Rightarrow> Some (headersNote cid height header) | _ \<Rightarrow> None) else None
     | StatusEvent n status \<Rightarrow>
         if n < length (closures s) then (case closures s ! n of StatusCb cid sh \<Rightarrow> Some (statusNote cid sh status) | _ \<Rightarrow> None) else None)"

section \<open>Parameters\<close>

abbreviation params :: "Request \<Rightarrow> bytes" where
  "params rq \<equiv> msgBytes (rq_Params rq)"

text \<open>\<open>copy(x[:], b)\<close> into a zero array of 32 bytes.\<close>

definition copy32 :: "bytes \<Rightarrow> hash32" where
  "copy32 b = take 32 (b @ replicate 32 0)"

definition parseScriptHash :: "Request \<Rightarrow> hash32 result" where
  "parseScriptHash rq =
     rbind (jsonOk (unmarshalStrings (params rq))) (\<lambda>ps.
     if ps = [] \<or> length (hd ps) \<noteq> 64 then Inl (Err ''protocol violation'')
     else rbind (hexDecode (hd ps)) (\<lambda>shs. Inr (copy32 (rev shs))))"

text \<open>Decoding into a slice of pointers \<open>[]any{&a, &b, \<dots>}\<close>: element \<open>i\<close> of the array decodes into the \<open>i\<close>-th pointer, and into an
  empty interface beyond them; the slice ends with as many elements as the array has.\<close>

definition elemAt :: "json list \<Rightarrow> nat \<Rightarrow> json" where
  "elemAt vs i = (if i < length vs then vs ! i else JNull)"

definition unmarshalElems :: "bytes \<Rightarrow> (json list) result" where
  "unmarshalElems data = (case parseJson data of
       Some (JArr t vs) \<Rightarrow> Inr vs | Some JNull \<Rightarrow> Inr [] | _ \<Rightarrow> Inl (Err ''json''))"

text \<open>An error that is overwritten before it is looked at leaves the zero value; a panic is not an error.\<close>

definition ignoreErr :: "'a \<Rightarrow> 'a result \<Rightarrow> 'a result" where
  "ignoreErr d r = (case r of Inr x \<Rightarrow> Inr x | Inl (ErrPanic p) \<Rightarrow> Inl (ErrPanic p) | Inl _ \<Rightarrow> Inr d)"

type_synonym handler = "u32 \<Rightarrow> Request \<Rightarrow> mux \<Rightarrow> (bytes, mux) outcome"

section \<open>Handlers of headers\<close>

definition blockHeaderHandler :: handler where
  "blockHeaderHandler cid rq s = ereads
     (rbind (jsonOk (unmarshalInts (params rq))) (\<lambda>ps.
      if ps = [] then Inl (Err ''bad params'')
      else rbind (GetBlockHeader (mx_w s) (hd ps)) (\<lambda>header. Inr (hexStr header)))) s"

text \<open>The error of \<open>Unmarshal\<close> is overwritten before it is looked at.\<close>

definition blockHeadersHandler :: handler where
  "blockHeadersHandler cid rq s = ereads
     (let ps = fst (unmarshalInts (params rq)) in
      if length ps < 2 then Inl (Err ''protocol violation'')
      else rbind (GetBlockHeaders (mx_w s) (ps ! 0) (min (ps ! 1) 2016)) (\<lambda>headers.
           Inr (jobject [jfield ''hex'' (hexStr (concat headers)), jfield ''count'' (decEncode (int (length headers))),
                         jfield ''max'' (decEncode 2016)]))) s"

definition estimateFeeHandler :: handler where
  "estimateFeeHandler cid rq s = (Inr (ascii ''0.0001''), s)"

definition headersSubscribeHandler :: handler where
  "headersSubscribeHandler cid rq s =
     ebind (ereads (GetTipHeader (mx_w s)) s) (\<lambda>(height, h) s.
     let s = \<lparr>mx_w = HeadersSubscribe cid (length (closures s)) (mx_w s), closures = closures s @ [HeadersCb cid]\<rparr>
     in (Inr (jobject [jfield ''hex'' (hexStr h), jfield ''height'' (decEncode height)]), s))"

section \<open>Handlers of script hashes\<close>

definition scriptHashGetBalanceHandler :: handler where
  "scriptHashGetBalanceHandler cid rq s = ereads
     (rbind (parseScriptHash rq) (\<lambda>sh.
      let (conf, unconf) = GetScriptHashBalance (mx_w s) sh in
      Inr (jobject [jfield ''confirmed'' (decEncode (uint conf)), jfield ''unconfirmed'' (decEncode (uint unconf))]))) s"

text \<open>A nil slice is written as \<open>null\<close>.\<close>

definition scriptHashGetHistoryHandler :: handler where
  "scriptHashGetHistoryHandler cid rq s = ereads
     (rbind (parseScriptHash rq) (\<lambda>sh.
      rbind (GetScriptHashHistory (mx_w s) sh) (\<lambda>hist.
      Inr (if hist = [] then lit_null
           else jarray (map (\<lambda>t. jobject [jfield ''tx_hash'' (hexStr (rev (hd_Txid t))), jfield ''height'' (decEncode (hd_Height t))]) hist)))) ) s"

definition scriptHashGetMempoolHandler :: handler where
  "scriptHashGetMempoolHandler cid rq s = (Inr (ascii ''[]''), s)"

text \<open>The error of \<open>GetScriptHashUnspent\<close> is overwritten: the list is then nil.\<close>

definition scriptHashListUnspentHandler :: handler where
  "scriptHashListUnspentHandler cid rq s = ereads
     (rbind (parseScriptHash rq) (\<lambda>sh.
      rbind (ignoreErr [] (GetScriptHashUnspent (mx_w s) sh)) (\<lambda>utxos.
      Inr (jarray (map (\<lambda>u. jobject [jfield ''height'' (decEncode (ud_Height u)), jfield ''tx_pos'' (decEncode (ud_TxPos u)),
             jfield ''tx_hash'' (hexStr (rev (ud_Txid u))), jfield ''value'' (decEncode (uint (ud_Satoshi u)))]) utxos))))) s"

definition scriptHashSubscribeHandler :: handler where
  "scriptHashSubscribeHandler cid rq s =
     ebind (ereads (parseScriptHash rq) s) (\<lambda>sh s.
     ebind (ereads (GetScriptHashStatus (mx_w s) sh) s) (\<lambda>status s.
     let s = \<lparr>mx_w = ScriptHashSubscribe cid sh (length (closures s)) (mx_w s), closures = closures s @ [StatusCb cid sh]\<rparr>
     in (Inr (case status of None \<Rightarrow> lit_null | Some st \<Rightarrow> hexStr st), s)))"

definition scriptHashUnsubscribeHandler :: handler where
  "scriptHashUnsubscribeHandler cid rq s = (Inr lit_false, s)"

section \<open>Handlers of transactions\<close>

text \<open>\<open>W.BroadcastTX\<close>; trailing bytes after the transaction are not looked at.\<close>

definition BroadcastTX :: "(bytes \<Rightarrow> unit result) \<Rightarrow> bytes \<Rightarrow> hash32 result" where
  "BroadcastTX bc rawTx =
     rbind (fst (Transaction_Deserialize rawTx)) (\<lambda>tx.
     rbind (bc rawTx) (\<lambda>_. Inr (Txid tx)))"

definition transactionBroadcastHandler :: "(bytes \<Rightarrow> unit result) \<Rightarrow> handler" where
  "transactionBroadcastHandler bc cid rq s = ereads
     (rbind (jsonOk (unmarshalStrings (params rq))) (\<lambda>ps.
      if ps = [] then Inl (Err ''bad param len'')
      else rbind (hexDecode (hd ps)) (\<lambda>rawTx.
           rbind (BroadcastTX bc rawTx) (\<lambda>txid. Inr (hexStr (rev txid)))))) s"

text \<open>The text of a transaction identifier: a raw value of 66 bytes that is a string of hexadecimal digits.\<close>

definition parseTxid :: "bytes \<Rightarrow> hash32 result" where
  "parseTxid p =
     rbind (jsonOk (unmarshalString p)) (\<lambda>str.
     rbind (hexDecode str) (\<lambda>b. Inr (copy32 (rev b))))"

definition transactionGetHandler :: handler where
  "transactionGetHandler cid rq s = ereads
     (rbind (jsonOk (unmarshalRaws (params rq))) (\<lambda>ps.
      if ps = [] \<or> length (hd ps) \<noteq> 66 then Inl (Err ''bad param len'')
      else rbind (parseTxid (hd ps)) (\<lambda>txid.
           rbind (GetRawTx (mx_w s) txid) (\<lambda>rawTx. Inr (hexStr rawTx))))) s"

text \<open>Here the height is decoded before the hexadecimal digits, and the error of \<open>GetTransactionMerkle\<close> is overwritten: the branch is
  then empty and the position zero.\<close>

definition transactionGetMerkleHandler :: handler where
  "transactionGetMerkleHandler cid rq s = ereads
     (rbind (jsonOk (unmarshalRaws (params rq))) (\<lambda>ps.
      if length ps < 2 \<or> length (ps ! 0) \<noteq> 66 then Inl (Err ''bad params'')
      else rbind (jsonOk (unmarshalString (ps ! 0))) (\<lambda>txHash.
           rbind (jsonOk (unmarshalInt (ps ! 1))) (\<lambda>height.
           rbind (hexDecode txHash) (\<lambda>txidB.
           rbind (ignoreErr \<lparr>md_Merkle = [], md_Pos = 0\<rparr> (GetTransactionMerkle (mx_w s) (copy32 (rev txidB)))) (\<lambda>merkle.
           Inr (jobject [jfield ''block_height'' (decEncode height), jfield ''pos'' (decEncode (md_Pos merkle)),
                            jfield ''merkle'' (jarray (map (\<lambda>h. hexStr (rev h)) (md_Merkle merkle)))]))))))) s"

definition transactionIdFromPosHandler :: handler where
  "transactionIdFromPosHandler cid rq s = ereads
     (rbind (unmarshalElems (params rq)) (\<lambda>vs.
      rbind (jsonOk (decodeInt 0 (elemAt vs 0))) (\<lambda>height.
      rbind (jsonOk (decodeInt 0 (elemAt vs 1))) (\<lambda>txpos.
      rbind (jsonOk (decodeBool False (elemAt vs 2))) (\<lambda>merkle.
      if \<not> list_all anyOk (drop 3 vs) then Inl (Err ''json'')
      else if length vs < 2 then Inl (Err ''bad params'')
      else rbind (GetTransactionMerkleFromPos (mx_w s) height txpos) (\<lambda>mrk.
           if \<not> merkle then Inr (hexStr (rev (mp_Txid mrk)))
           else Inr (jobject [jfield ''tx_hash'' (hexStr (rev (mp_Txid mrk))),
                              jfield ''merkle'' (jarray (map (\<lambda>h. hexStr (rev h)) (mp_Merkle mrk)))]))))))) s"

section \<open>Handlers with fixed answers\<close>

definition blockchainRelayFeeHandler :: handler where
  "blockchainRelayFeeHandler cid rq s = (Inr (ascii ''0.00001000''), s)"

definition mempoolGetFeeHistogramHandler :: handler where
  "mempoolGetFeeHistogramHandler cid rq s = (Inr (jarray []), s)"

definition mempoolGetInfo :: handler where
  "mempoolGetInfo cid rq s =
     (Inr (jobject [jfield ''mempoolminfee'' (ascii ''0.00001''), jfield ''minrelaytxfee'' (ascii ''0.00001''),
                    jfield ''incrementalrelayfee'' (ascii ''0.00001'')]), s)"

definition serverBannerHandler :: handler where
  "serverBannerHandler cid rq s = (Inr (quoted (ascii ''eps-go'')), s)"

definition serverDonationAddressHandler :: handler where
  "serverDonationAddressHandler cid rq s = (Inr (quoted (ascii ''none'')), s)"

definition serverPeersSubscribeHandler :: handler where
  "serverPeersSubscribeHandler cid rq s = (Inr (ascii ''[]''), s)"

definition pingHandler :: handler where
  "pingHandler cid rq s = (Inr lit_null, s)"

definition serverVersionHandler :: handler where
  "serverVersionHandler cid rq s = ereads
     (rbind (unmarshalElems (params rq)) (\<lambda>vs.
      rbind (jsonOk (decodeString [] (elemAt vs 0))) (\<lambda>clientName.
      rbind (jsonOk (decodeString [] (elemAt vs 1))) (\<lambda>protoVersion.
      if \<not> list_all anyOk (drop 2 vs) then Inl (Err ''json'')
      else if protoVersion \<noteq> ascii ''1.4'' then Inl (Err ''bad client version'')
      else Inr (0x5b # quoted (ascii ''eps-go'') @ [0x2c, 0x20] @ quoted (ascii ''1.4'') @ [0x5d]))))) s"

section \<open>Dispatch\<close>

definition defaultHandlers :: "(bytes \<Rightarrow> unit result) \<Rightarrow> (bytes \<times> handler) list" where
  "defaultHandlers bc =
    [(ascii ''blockchain.block.header'', blockHeaderHandler),
     (ascii ''blockchain.block.headers'', blockHeadersHandler),
     (ascii ''blockchain.estimatefee'', estimateFeeHandler),
     (ascii ''blockchain.headers.subscribe'', headersSubscribeHandler),
     (ascii ''blockchain.scripthash.get_balance'', scriptHashGetBalanceHandler),
     (ascii ''blockchain.scripthash.get_history'', scriptHashGetHistoryHandler),
     (ascii ''blockchain.scripthash.get_mempool'', scriptHashGetMempoolHandler),
     (ascii ''blockchain.scripthash.listunspent'', scriptHashListUnspentHandler),
     (ascii ''blockchain.scripthash.subscribe'', scriptHashSubscribeHandler),
     (ascii ''blockchain.scripthash.unsubscribe'', scriptHashUnsubscribeHandler),
     (ascii ''blockchain.transaction.broadcast'', transactionBroadcastHandler bc),
     (ascii ''blockchain.transaction.get'', transactionGetHandler),
     (ascii ''blockchain.transaction.get_merkle'', transactionGetMerkleHandler),
     (ascii ''blockchain.transaction.id_from_pos'', transactionIdFromPosHandler),
     (ascii ''blockchain.relayfee'', blockchainRelayFeeHandler),
     (ascii ''mempool.get_fee_histogram'', mempoolGetFeeHistogramHandler),
     (ascii ''mempool.get_info'', mempoolGetInfo),
     (ascii ''server.banner'', serverBannerHandler),
     (ascii ''server.donation_address'', serverDonationAddressHandler),
     (ascii ''server.peers.subscribe'', serverPeersSubscribeHandler),
     (ascii ''server.ping'', pingHandler),
     (ascii ''server.version'', serverVersionHandler)]"

definition OnRequest :: "(bytes \<Rightarrow> unit result) \<Rightarrow> handler" where
  "OnRequest bc cid rq s =
     ebind (ereads (jsonOk (unmarshalString (msgBytes (rq_Method rq)))) s) (\<lambda>m s.
     case map_of (defaultHandlers bc) m of
       None \<Rightarrow> (Inl (Err ''unknown method''), s)
     | Some h \<Rightarrow> h cid rq s)"

definition OnConnect :: "u32 \<Rightarrow> mux \<Rightarrow> mux" where
  "OnConnect cid s = s"

definition OnDisconnect :: "u32 \<Rightarrow> mux \<Rightarrow> mux" where
  "OnDisconnect cid s = s\<lparr>mx_w := UnsubscribeAll cid (mx_w s)\<rparr>"

end
