(* ===== verification/HandlerFacts.thy ===== *)
theory HandlerFacts
  imports Handlers
begin

text \<open>
  What holds of the handlers: every result is valid JSON, a request changes nothing but the subscriptions of its own connection,
  each callback is registered for the connection and the script hash it notifies, and script hashes are read as they are written.
\<close>

section \<open>Texts\<close>

text \<open>Bytes a string literal holds as they are.\<close>

definition plain :: "bytes \<Rightarrow> bool" where
  "plain s \<longleftrightarrow> list_all (\<lambda>c. 0x20 \<le> c \<and> c < 0x80 \<and> c \<noteq> 0x22 \<and> c \<noteq> 0x5c) s"

lemma plain_strText: "plain s \<Longrightarrow> strText s"
  unfolding strText_def by (induction s) (auto simp: plain_def consTo_def not_less [symmetric])

lemma plain_unquote: "plain s \<Longrightarrow> unquote s = s"
  by (induction s) (auto simp: plain_def unquote.simps)

lemma hexDigit_table: "list_all (\<lambda>k. hexVal (hexDigit (of_nat k)) = Some (of_nat k) \<and> plain [hexDigit (of_nat k)]) [0..<16]"
  by code_simp

lemma hexDigit_facts:
  assumes "x < 16"
  shows "hexVal (hexDigit x) = Some x" "plain [hexDigit x]"
proof -
  have "unat x \<in> set [0..<16]" using assms by (simp add: word_less_nat_alt)
  with hexDigit_table have "hexVal (hexDigit (of_nat (unat x))) = Some (of_nat (unat x)) \<and> plain [hexDigit (of_nat (unat x))]"
    unfolding list_all_iff by blast
  then show "hexVal (hexDigit x) = Some x" "plain [hexDigit x]" by simp_all
qed

lemma plain_append [simp]: "plain (xs @ ys) \<longleftrightarrow> plain xs \<and> plain ys"
  by (simp add: plain_def)

lemma hexEncode_Cons: "hexEncode (b # bs) = hexDigit (drop_bit 4 b) # hexDigit (b AND 0x0f) # hexEncode bs"
  by (simp add: hexEncode_def)

lemma plain_hexEncode: "plain (hexEncode b)"
proof (induction b)
  case (Cons x b)
  have "plain ([hexDigit (drop_bit 4 x)] @ [hexDigit (x AND 0x0f)] @ hexEncode b)"
    using Cons hexDigit_facts(2) [OF nibbles_small(1)] hexDigit_facts(2) [OF nibbles_small(2)] by (simp only: plain_append)
  then show ?case by (simp add: hexEncode_Cons)
qed (simp add: hexEncode_def plain_def)

lemma byte_nibbles: "push_bit 4 (drop_bit 4 b) OR (b AND 0x0f) = (b :: byte)"
proof -
  have "b AND 0x0f = take_bit 4 b" by (simp add: take_bit_eq_mask mask_eq_exp_minus_1)
  moreover have "push_bit 4 (drop_bit 4 b) OR take_bit 4 b = b"
    by (rule bit_eqI) (auto simp: bit_simps)
  ultimately show ?thesis by simp
qed

lemma hexDecode_hexEncode: "hexDecode (hexEncode b) = Inr b"
proof (induction b)
  case (Cons x b)
  then show ?case
    using hexDigit_facts(1) [OF nibbles_small(1)] hexDigit_facts(1) [OF nibbles_small(2)]
    by (simp add: hexEncode_Cons byte_nibbles)
qed (simp add: hexEncode_def)

section \<open>Printed values\<close>

definition isJson :: "int \<Rightarrow> bytes \<Rightarrow> bool" where
  "isJson d b \<longleftrightarrow> (\<exists>v. wf_json d v \<and> render v = b)"

definition isField :: "int \<Rightarrow> bytes \<Rightarrow> bool" where
  "isField d b \<longleftrightarrow> (\<exists>k v. strText k \<and> wf_json d v \<and> quoted k @ 0x3a # render v = b)"

lemma isJson_lits: "isJson d lit_null" "isJson d lit_true" "isJson d lit_false"
  unfolding isJson_def using wf_json.simps(5,6) [of d] render.simps(1,2) by (metis (full_types))+

lemma isJson_quoted: "strText s \<Longrightarrow> isJson d (quoted s)"
  unfolding isJson_def using wf_json.simps(2) [of d s] render.simps(4) [of s] by blast

lemma isJson_hexStr: "isJson d (hexStr b)"
  unfolding hexStr_def by (rule isJson_quoted [OF plain_strText [OF plain_hexEncode]])

lemma isJson_number: "numText t \<Longrightarrow> isJson d t"
  unfolding isJson_def using wf_json.simps(1) [of d t] render.simps(3) [of t] by blast

lemma isDigit_range: "list_all isDigit (decDigits n)"
  using decDigits_range [of _ n] by (auto simp: list_all_iff isDigit_def)

lemma decDigits_start: "decDigits n \<noteq> [] \<and> (hd (decDigits n) = 0x30 \<longrightarrow> n = 0)"
proof (induction n rule: decDigits.induct)
  case (1 n)
  show ?case
  proof (cases "n < 10")
    case True
    have "n = 0" if "(0x30 :: byte) + of_nat n = 0x30"
    proof -
      have "(of_nat n :: byte) = 0" using that by simp
      then have "unat (of_nat n :: byte) = 0" by simp
      then show ?thesis using True by (simp add: unat_of_nat_small)
    qed
    then show ?thesis using True by (subst (1 2) decDigits.simps) simp
  next
    case False
    have "n div 10 \<noteq> 0" using False by auto
    then show ?thesis using 1 [OF False] False by (subst (1 2) decDigits.simps) (auto simp: hd_append)
  qed
qed

lemma scanInt_decDigits: "scanInt (decDigits n) = Some (decDigits n, [])"
proof -
  obtain c cs where c: "decDigits n = c # cs" "c = 0x30 \<longrightarrow> n = 0" using decDigits_start [of n] by (cases "decDigits n") auto
  have d: "isDigit c" "list_all isDigit cs" using isDigit_range [of n] c(1) by simp_all
  have "takeWhile isDigit cs = cs" "dropWhile isDigit cs = []" using d(2) by (auto simp: list_all_iff)
  moreover have "cs = []" if "c = 0x30"
  proof -
    have "decDigits n = [0x30]" using c(2) that by (simp add: decDigits.simps)
    then show ?thesis using c(1) by simp
  qed
  ultimately show ?thesis using d(1) by (auto simp: scanInt_def c(1))
qed

lemma numText_decEncode: "numText (decEncode i)"
proof -
  have "scanFrac [] = Some ([], [])" "scanExp [] = Some ([], [])" by (simp_all add: scanFrac_def scanExp_def)
  moreover have "hd (decDigits n) \<noteq> 0x2d" for n
    using decDigits_start [of n] isDigit_range [of n] by (cases "decDigits n") (auto simp: isDigit_def)
  moreover have "decDigits n \<noteq> []" for n using decDigits_start [of n] by blast
  ultimately show ?thesis by (simp add: numText_def scanNumber_def decEncode_def scanInt_decDigits)
qed

lemma isJson_dec: "isJson d (decEncode i)"
  by (rule isJson_number [OF numText_decEncode])

lemma isJson_jarray:
  assumes "0 < d" "\<forall>x\<in>set xs. isJson (d - 1) x"
  shows "isJson d (jarray xs)"
proof -
  from assms(2) have "\<exists>f. \<forall>x\<in>set xs. wf_json (d - 1) (f x) \<and> render (f x) = x" unfolding isJson_def by (rule bchoice)
  then obtain f where f: "\<forall>x\<in>set xs. wf_json (d - 1) (f x) \<and> render (f x) = x" by blast
  have m: "map (render \<circ> f) xs = xs" using f by (simp add: map_idI)
  have "render (JArr (jarray xs) (map f xs)) = jarray xs" using m by (simp add: jarray_def)
  moreover from this have "wf_json d (JArr (jarray xs) (map f xs))" using assms(1) f by (simp add: list_all_iff)
  ultimately show ?thesis unfolding isJson_def by blast
qed

lemma isJson_jobject:
  assumes "0 < d" "\<forall>x\<in>set xs. isField (d - 1) x"
  shows "isJson d (jobject xs)"
proof -
  from assms(2) have "\<forall>x\<in>set xs. \<exists>m. strText (fst m) \<and> wf_json (d - 1) (snd m) \<and> quoted (fst m) @ 0x3a # render (snd m) = x"
    unfolding isField_def by (metis fst_conv snd_conv)
  from bchoice [OF this] obtain f where f: "\<forall>x\<in>set xs. strText (fst (f x)) \<and> wf_json (d - 1) (snd (f x)) \<and> quoted (fst (f x)) @ 0x3a # render (snd (f x)) = x"
    by blast
  have m: "map ((\<lambda>(k, v). quoted k @ 0x3a # render v) \<circ> f) xs = xs" using f by (intro map_idI) (simp add: case_prod_unfold)
  have "render (JObj (jobject xs) (map f xs)) = jobject xs" using m by (simp add: jobject_def)
  moreover from this have "wf_json d (JObj (jobject xs) (map f xs))" using assms(1) f by (simp add: list_all_iff case_prod_unfold)
  ultimately show ?thesis unfolding isJson_def by blast
qed

lemma isField_jfield: "plain (ascii name) \<Longrightarrow> isJson d v \<Longrightarrow> isField d (jfield name v)"
  unfolding isField_def isJson_def jfield_def using plain_strText by blast

lemmas isJson_intros = isJson_lits isJson_hexStr isJson_dec isJson_jarray isJson_jobject isField_jfield

section \<open>Results\<close>

lemma isJson_parse: "isJson maxNestingDepth b \<Longrightarrow> parseJson b \<noteq> None"
  unfolding isJson_def using parse_render by force

definition valid_handler :: "handler \<Rightarrow> bool" where
  "valid_handler h \<longleftrightarrow> (\<forall>cid rq s res s'. h cid rq s = (Inr res, s') \<longrightarrow> parseJson res \<noteq> None)"

lemma valid_handlerI:
  "(\<And>cid rq s res s'. h cid rq s = (Inr res, s') \<Longrightarrow> isJson maxNestingDepth res) \<Longrightarrow> valid_handler h"
  unfolding valid_handler_def using isJson_parse by blast

lemma depth_pos [simp]: "0 < maxNestingDepth" "1 < maxNestingDepth" "2 < maxNestingDepth"
  by (simp_all add: maxNestingDepth_def)

lemma plain_names [simp]:
  "plain (ascii ''hex'')" "plain (ascii ''count'')" "plain (ascii ''max'')" "plain (ascii ''height'')" "plain (ascii ''confirmed'')"
  "plain (ascii ''unconfirmed'')" "plain (ascii ''tx_hash'')" "plain (ascii ''tx_pos'')" "plain (ascii ''value'')"
  "plain (ascii ''block_height'')" "plain (ascii ''pos'')" "plain (ascii ''merkle'')" "plain (ascii ''mempoolminfee'')"
  "plain (ascii ''minrelaytxfee'')" "plain (ascii ''incrementalrelayfee'')" "plain (ascii ''eps-go'')" "plain (ascii ''none'')"
  by code_simp+

lemma fixed_numbers: "numText (ascii ''0.0001'')" "numText (ascii ''0.00001000'')" "numText (ascii ''0.00001'')"
  by code_simp+

lemma fixed_texts:
  "parseJson (ascii ''[]'') \<noteq> None" "parseJson (0x5b # quoted (ascii ''eps-go'') @ [0x2c, 0x20] @ quoted (ascii ''1.4'') @ [0x5d]) \<noteq> None"
  by code_simp+

lemmas fixed_json = fixed_numbers [THEN isJson_number] plain_names(16,17) [THEN plain_strText, THEN isJson_quoted]

lemma valid_handlers: "list_all (\<lambda>(m, h). valid_handler h) (defaultHandlers bc)"
  unfolding defaultHandlers_def list.pred_inject prod.case
proof (intro conjI TrueI)
  show "valid_handler blockHeaderHandler"
    by (rule valid_handlerI) (auto simp: blockHeaderHandler_def rbind_ok_iff isJson_hexStr split: if_splits)
  show "valid_handler blockHeadersHandler"
    by (rule valid_handlerI) (auto simp: blockHeadersHandler_def Let_def rbind_ok_iff intro!: isJson_intros split: if_splits)
  show "valid_handler estimateFeeHandler"
    by (rule valid_handlerI) (auto simp: estimateFeeHandler_def fixed_json)
  show "valid_handler headersSubscribeHandler"
    by (rule valid_handlerI) (auto simp: headersSubscribeHandler_def Let_def ebind_ok_iff intro!: isJson_intros)
  show "valid_handler scriptHashGetBalanceHandler"
    by (rule valid_handlerI) (auto simp: scriptHashGetBalanceHandler_def Let_def case_prod_unfold rbind_ok_iff intro!: isJson_intros)
  show "valid_handler scriptHashGetHistoryHandler"
    by (rule valid_handlerI) (auto simp: scriptHashGetHistoryHandler_def rbind_ok_iff intro!: isJson_intros)
  show "valid_handler scriptHashGetMempoolHandler" "valid_handler serverPeersSubscribeHandler"
    using fixed_texts(1) by (auto simp: valid_handler_def scriptHashGetMempoolHandler_def serverPeersSubscribeHandler_def)
  show "valid_handler scriptHashListUnspentHandler"
    by (rule valid_handlerI) (auto simp: scriptHashListUnspentHandler_def Let_def rbind_ok_iff intro!: isJson_intros)
  show "valid_handler scriptHashSubscribeHandler"
    by (rule valid_handlerI) (auto simp: scriptHashSubscribeHandler_def Let_def ebind_ok_iff intro!: isJson_intros split: option.split)
  show "valid_handler scriptHashUnsubscribeHandler"
    by (rule valid_handlerI) (auto simp: scriptHashUnsubscribeHandler_def isJson_lits)
  show "valid_handler (transactionBroadcastHandler bc)"
    by (rule valid_handlerI) (auto simp: transactionBroadcastHandler_def rbind_ok_iff isJson_hexStr split: if_splits)
  show "valid_handler transactionGetHandler"
    by (rule valid_handlerI) (auto simp: transactionGetHandler_def rbind_ok_iff isJson_hexStr split: if_splits)
  show "valid_handler transactionGetMerkleHandler"
    by (rule valid_handlerI) (auto simp: transactionGetMerkleHandler_def Let_def rbind_ok_iff intro!: isJson_intros split: if_splits)
  show "valid_handler transactionIdFromPosHandler"
    by (rule valid_handlerI) (auto simp: transactionIdFromPosHandler_def rbind_ok_iff intro!: isJson_intros split: if_splits)
  show "valid_handler blockchainRelayFeeHandler"
    by (rule valid_handlerI) (auto simp: blockchainRelayFeeHandler_def fixed_json)
  show "valid_handler mempoolGetFeeHistogramHandler"
    by (rule valid_handlerI) (auto simp: mempoolGetFeeHistogramHandler_def intro!: isJson_intros)
  show "valid_handler mempoolGetInfo"
    by (rule valid_handlerI) (auto simp: mempoolGetInfo_def fixed_json intro!: isJson_intros)
  show "valid_handler serverBannerHandler"
    by (rule valid_handlerI) (auto simp: serverBannerHandler_def fixed_json)
  show "valid_handler serverDonationAddressHandler"
    by (rule valid_handlerI) (auto simp: serverDonationAddressHandler_def fixed_json)
  show "valid_handler pingHandler"
    by (rule valid_handlerI) (auto simp: pingHandler_def isJson_lits)
  show "valid_handler serverVersionHandler"
    unfolding valid_handler_def using fixed_texts(2) by (auto simp: serverVersionHandler_def rbind_ok_iff split: if_splits)
qed simp

section \<open>Effects\<close>

text \<open>The only effect of a request: subscriptions of its own connection, with new callbacks.\<close>

definition own_subs :: "u32 \<Rightarrow> mux \<Rightarrow> mux \<Rightarrow> bool" where
  "own_subs cid s s' \<longleftrightarrow> mx_w s' = (mx_w s)\<lparr>hSubs := hSubs (mx_w s'), shSubs := shSubs (mx_w s')\<rparr>
     \<and> (\<forall>c. c \<noteq> cid \<longrightarrow> map_of (hSubs (mx_w s')) c = map_of (hSubs (mx_w s)) c
          \<and> (\<forall>sh. map_of (shSubscribers sh (mx_w s')) c = map_of (shSubscribers sh (mx_w s)) c))"

text \<open>Every registered callback is a closure of its connection and topic.\<close>

definition cb_inv :: "mux \<Rightarrow> bool" where
  "cb_inv s \<longleftrightarrow> subs_inv (mx_w s)
     \<and> (\<forall>(c, n)\<in>set (hSubs (mx_w s)). n < length (closures s) \<and> closures s ! n = HeadersCb c)
     \<and> (\<forall>sh. \<forall>(c, n)\<in>set (shSubscribers sh (mx_w s)). n < length (closures s) \<and> closures s ! n = StatusCb c sh)"

definition add_headers_cb :: "u32 \<Rightarrow> mux \<Rightarrow> mux" where
  "add_headers_cb cid s = \<lparr>mx_w = HeadersSubscribe cid (length (closures s)) (mx_w s), closures = closures s @ [HeadersCb cid]\<rparr>"

definition add_status_cb :: "u32 \<Rightarrow> hash32 \<Rightarrow> mux \<Rightarrow> mux" where
  "add_status_cb cid sh s = \<lparr>mx_w = ScriptHashSubscribe cid sh (length (closures s)) (mx_w s), closures = closures s @ [StatusCb cid sh]\<rparr>"

definition sub_step :: "u32 \<Rightarrow> mux \<Rightarrow> mux \<Rightarrow> bool" where
  "sub_step cid s s' \<longleftrightarrow> s' = s \<or> s' = add_headers_cb cid s \<or> (\<exists>sh. s' = add_status_cb cid sh s)"

lemma own_subs_refl: "own_subs cid s s"
  by (simp add: own_subs_def)

lemma sub_step_refl [simp]: "sub_step cid s s"
  by (simp add: sub_step_def)

lemma add_headers_cb_good: "own_subs cid s (add_headers_cb cid s) \<and> (cb_inv s \<longrightarrow> cb_inv (add_headers_cb cid s))"
  unfolding add_headers_cb_def
proof (intro conjI impI)
  show "own_subs cid s \<lparr>mx_w = HeadersSubscribe cid (length (closures s)) (mx_w s), closures = closures s @ [HeadersCb cid]\<rparr>"
    by (simp add: own_subs_def HeadersSubscribe_def update_conv' shSubscribers_def)
  assume c: "cb_inv s"
  then have "subs_inv (HeadersSubscribe cid (length (closures s)) (mx_w s))" by (simp add: cb_inv_def hsub.inv_add)
  moreover have "n < length (closures s @ [HeadersCb cid]) \<and> (closures s @ [HeadersCb cid]) ! n = HeadersCb d"
    if "(d, n) \<in> set (AList.update cid (length (closures s)) (hSubs (mx_w s)))" for d n
    using set_update_cases [OF that] c by (auto simp: cb_inv_def nth_append)
  moreover have "shSubscribers sh (HeadersSubscribe cid (length (closures s)) (mx_w s)) = shSubscribers sh (mx_w s)" for sh
    by (simp add: HeadersSubscribe_def shSubscribers_def)
  ultimately show "cb_inv \<lparr>mx_w = HeadersSubscribe cid (length (closures s)) (mx_w s), closures = closures s @ [HeadersCb cid]\<rparr>"
    using c by (fastforce simp: cb_inv_def nth_append HeadersSubscribe_def)
qed

lemma add_status_cb_good: "own_subs cid s (add_status_cb cid sh s) \<and> (cb_inv s \<longrightarrow> cb_inv (add_status_cb cid sh s))"
  unfolding add_status_cb_def
proof (intro conjI impI)
  let ?w = "ScriptHashSubscribe cid sh (length (closures s)) (mx_w s)"
  have sub: "shSubscribers k ?w = (if k = sh then AList.update cid (length (closures s)) (shSubscribers sh (mx_w s)) else shSubscribers k (mx_w s))" for k
    by (rule shsub.subs_add)
  then have "c \<noteq> cid \<Longrightarrow> map_of (shSubscribers k ?w) c = map_of (shSubscribers k (mx_w s)) c" for k c
    by (simp add: update_conv')
  then show "own_subs cid s \<lparr>mx_w = ?w, closures = closures s @ [StatusCb cid sh]\<rparr>"
    by (simp add: own_subs_def) (simp add: ScriptHashSubscribe_def)
  assume c: "cb_inv s"
  then have "subs_inv ?w" by (simp add: cb_inv_def shsub.inv_add)
  moreover have "n < length (closures s @ [StatusCb cid sh]) \<and> (closures s @ [StatusCb cid sh]) ! n = StatusCb d k"
    if "(d, n) \<in> set (shSubscribers k ?w)" for d n k
  proof (cases "k = sh")
    case True
    then have "(d, n) = (cid, length (closures s)) \<or> (d, n) \<in> set (shSubscribers sh (mx_w s))"
      using that set_update_cases [of "(d, n)"] by (auto simp: sub)
    then show ?thesis using c True by (auto simp: cb_inv_def nth_append)
  next
    case False
    then show ?thesis using that c by (auto simp: sub cb_inv_def nth_append)
  qed
  moreover have "hSubs ?w = hSubs (mx_w s)" by (simp add: ScriptHashSubscribe_def)
  ultimately show "cb_inv \<lparr>mx_w = ?w, closures = closures s @ [StatusCb cid sh]\<rparr>"
    using c by (fastforce simp: cb_inv_def nth_append)
qed

lemma sub_step_good: "sub_step cid s s' \<Longrightarrow> own_subs cid s s' \<and> (cb_inv s \<longrightarrow> cb_inv s')"
  using add_headers_cb_good add_status_cb_good own_subs_refl by (auto simp: sub_step_def)

definition good_handler :: "handler \<Rightarrow> bool" where
  "good_handler h \<longleftrightarrow> (\<forall>cid rq s. sub_step cid s (snd (h cid rq s)))"

lemma good_handlers: "list_all (\<lambda>(m, h). good_handler h) (defaultHandlers bc)"
  unfolding defaultHandlers_def list.pred_inject prod.case
proof (intro conjI TrueI)
  show "good_handler headersSubscribeHandler"
    by (auto simp: good_handler_def headersSubscribeHandler_def ereads_def Let_def sub_step_def add_headers_cb_def split: ebind_split)
  show "good_handler scriptHashSubscribeHandler"
    by (auto simp: good_handler_def scriptHashSubscribeHandler_def ereads_def Let_def sub_step_def add_status_cb_def split: ebind_split)
qed (simp_all add: good_handler_def sub_step_def blockHeaderHandler_def blockHeadersHandler_def estimateFeeHandler_def scriptHashGetBalanceHandler_def
    scriptHashGetHistoryHandler_def scriptHashGetMempoolHandler_def scriptHashListUnspentHandler_def scriptHashUnsubscribeHandler_def
    transactionBroadcastHandler_def transactionGetHandler_def transactionGetMerkleHandler_def transactionIdFromPosHandler_def
    blockchainRelayFeeHandler_def mempoolGetFeeHistogramHandler_def mempoolGetInfo_def serverBannerHandler_def
    serverDonationAddressHandler_def serverPeersSubscribeHandler_def pingHandler_def serverVersionHandler_def Let_def)

lemma OnRequest_cases:
  "(\<exists>e. OnRequest bc cid rq s = (Inl e, s)) \<or> (\<exists>m h. (m, h) \<in> set (defaultHandlers bc) \<and> OnRequest bc cid rq s = h cid rq s)"
proof (cases "jsonOk (unmarshalString (msgBytes (rq_Method rq)))")
  case (Inr m)
  show ?thesis
  proof (cases "map_of (defaultHandlers bc) m")
    case (Some h)
    with Inr map_of_SomeD [OF Some] show ?thesis by (auto simp: OnRequest_def)
  qed (use Inr in \<open>simp add: OnRequest_def\<close>)
qed (simp add: OnRequest_def)

lemma OnRequest_sub_step: "sub_step cid s (snd (OnRequest bc cid rq s))"
  using OnRequest_cases [of bc cid rq s] good_handlers [of bc] by (fastforce simp: list_all_iff good_handler_def)

lemma OnDisconnect_cb_inv:
  assumes "cb_inv s"
  shows "cb_inv (OnDisconnect cid s)"
proof -
  have inv: "subs_inv (mx_w s)" using assms by (simp add: cb_inv_def)
  have sub: "set (AList.delete cid xs) \<subseteq> set xs" for xs :: "(u32 \<times> nat) list" by (auto simp: AList.delete_eq)
  have "hSubs (UnsubscribeAll cid (mx_w s)) = AList.delete cid (hSubs (mx_w s))" by (simp add: UnsubscribeAll_def)
  moreover have "shSubscribers sh (UnsubscribeAll cid (mx_w s)) = AList.delete cid (shSubscribers sh (mx_w s))" for sh
    by (rule shSubscribers_UnsubscribeAll [OF inv])
  ultimately show ?thesis
    using assms subs_inv_UnsubscribeAll [OF inv] sub by (fastforce simp: cb_inv_def OnDisconnect_def)
qed

end
