(* ===== verification/Clients.thy ===== *)
theory Clients
  imports HandlerFacts
begin

text \<open>
  The service with its clients: rounds of synchronisation between which the requests of any number of connections are
  handled, and connections leave. This refines the abstract service of \<open>Sync\<close>, whose steps are rounds, subscriptions and
  departures; the properties of the handlers follow.
\<close>

section \<open>The system\<close>

text \<open>A request may find any outcome of a broadcast; a panic in a handler ends the process.\<close>

inductive system_step :: "crypto \<Rightarrow> node \<Rightarrow> action \<Rightarrow> phase \<times> mux \<Rightarrow> phase \<times> mux \<Rightarrow> bool" for C N where
  round_ok: "p \<in> {Starting, Serving} \<Longrightarrow> syncRound C N fuel (mx_w s) = Some (Inr u, w') \<Longrightarrow> system_step C N Round (p, s) (Serving, s\<lparr>mx_w := w'\<rparr>)"
| round_err: "p \<in> {Starting, Serving} \<Longrightarrow> syncRound C N fuel (mx_w s) = Some (Inl e, w') \<Longrightarrow> system_step C N Round (p, s) (after_error e p, s\<lparr>mx_w := w'\<rparr>)"
| request: "p \<in> {Serving, Stopped} \<Longrightarrow> OnRequest bc cid rq s = (r, s') \<Longrightarrow> \<forall>m. r \<noteq> Inl (ErrPanic m) \<Longrightarrow> system_step C N (Asks cid) (p, s) (p, s')"
| request_panic: "p \<in> {Serving, Stopped} \<Longrightarrow> OnRequest bc cid rq s = (Inl (ErrPanic m), s') \<Longrightarrow> system_step C N (Asks cid) (p, s) (Crashed, s)"
| leave: "p \<in> {Serving, Stopped} \<Longrightarrow> system_step C N (Leaves cid) (p, s) (p, OnDisconnect cid s)"

inductive system_reach :: "crypto \<Rightarrow> node \<Rightarrow> mux \<Rightarrow> action list \<Rightarrow> phase \<times> mux \<Rightarrow> bool" for C N s0 where
  start: "system_reach C N s0 [] (Starting, s0)"
| step: "system_reach C N s0 ls a \<Longrightarrow> system_step C N l a b \<Longrightarrow> system_reach C N s0 (ls @ [l]) b"

lemma sub_step_service:
  assumes "p \<in> {Serving, Stopped}" "sub_step cid s s'"
  shows "service_step C N (Asks cid) (p, mx_w s) (p, mx_w s')"
  using assms service_step.sub_headers [of p C N cid "mx_w s"] service_step.sub_script [of p C N cid "mx_w s"] service_step.query [of p C N cid "mx_w s"]
  by (auto simp: sub_step_def add_headers_cb_def add_status_cb_def)

lemma system_step_projects:
  assumes "system_step C N l (p, s) (p', s')"
  shows "service_step C N l (p, mx_w s) (p', mx_w s')"
  using assms
proof (cases rule: system_step.cases)
  case (round_ok fuel u w')
  then show ?thesis using service_step.round_ok [of p C N fuel "mx_w s" u w'] by simp
next
  case (round_err fuel e w')
  then show ?thesis using service_step.round_err [of p C N fuel "mx_w s" e w'] by simp
next
  case (request bc cid rq r)
  have "sub_step cid s s'" using OnRequest_sub_step [of cid s bc rq] request by simp
  with sub_step_service [of p cid s s' C N] request show ?thesis by auto
next
  case (request_panic bc cid rq m)
  then show ?thesis using service_step.query_panic by auto
next
  case (leave cid)
  then show ?thesis using service_step.leave [of p C N cid "mx_w s"] by (simp add: OnDisconnect_def)
qed

lemma system_projects:
  assumes "system_reach C N s0 ls a"
  shows "service_reach C N (mx_w s0) ls (fst a, mx_w (snd a))"
  using assms
proof (induction rule: system_reach.induct)
  case start
  then show ?case by (simp add: service_reach.start)
next
  case (step ls a l b)
  obtain p s p' s' where ab: "a = (p, s)" "b = (p', s')" by force
  from system_step_projects [of C N l p s p' s'] step.hyps(2) ab
  have "service_step C N l (p, mx_w s) (p', mx_w s')" by simp
  with step.IH ab show ?case by (auto intro: service_reach.step)
qed

lemma cb_inv_round:
  assumes "cb_inv s" "subs_frame (mx_w s) w'"
  shows "cb_inv (s\<lparr>mx_w := w'\<rparr>)"
  using assms by (simp add: cb_inv_def subs_frame_def subs_inv_def shSubscribers_def)

lemma system_inv:
  assumes "wf_node N" "chain_inv (mx_w s0)" "cb_inv s0" "system_reach C N s0 ls a"
  shows "cb_inv (snd a)"
  using assms(4)
proof (induction rule: system_reach.induct)
  case start
  with assms(3) show ?case by simp
next
  case (step ls a l b)
  obtain p s p' s' where ab: "a = (p, s)" "b = (p', s')" by force
  have ch: "chain_inv (mx_w s)" using service_inv [OF assms(1,2) system_projects [OF step.hyps(1)]] ab by simp
  have cb: "cb_inv s" using step.IH ab by simp
  from step.hyps(2) [unfolded ab] have "cb_inv s'"
  proof (cases rule: system_step.cases)
    case (round_ok fuel u w')
    with cb cb_inv_round syncRound_subs [OF assms(1) ch] show ?thesis by blast
  next
    case (round_err fuel e w')
    with cb cb_inv_round syncRound_subs [OF assms(1) ch] show ?thesis by blast
  next
    case (request bc cid rq r)
    then show ?thesis using cb sub_step_good [OF OnRequest_sub_step [of cid s bc rq]] by simp
  next
    case (request_panic bc cid rq m)
    then show ?thesis using cb by simp
  next
    case (leave cid)
    then show ?thesis using cb OnDisconnect_cb_inv by simp
  qed
  then show ?case using ab by simp
qed

section \<open>Requests as clients write them\<close>

definition clientRequest :: "bytes \<Rightarrow> bytes list \<Rightarrow> Request" where
  "clientRequest meth ps = \<lparr>rq_JsonRPC = Some (quoted (ascii ''2.0'')), rq_Id = Some (ascii ''1''), rq_Method = Some (quoted meth),
     rq_Params = Some (jarray ps)\<rparr>"

lemma parse_strings:
  assumes "list_all plain xs"
  shows "parseJson (jarray (map quoted xs)) = Some (JArr (jarray (map quoted xs)) (map JStr xs))"
proof -
  let ?v = "JArr (jarray (map quoted xs)) (map JStr xs)"
  have "render ?v = jarray (map quoted xs)" by (simp add: jarray_def comp_def)
  moreover from this have "wf_json maxNestingDepth ?v" using assms plain_strText by (auto simp: list_all_iff)
  ultimately show ?thesis using parse_render [of ?v] by simp
qed

lemma unmarshalStrings_quoted:
  assumes "list_all plain xs"
  shows "unmarshalStrings (jarray (map quoted xs)) = (xs, True)"
proof -
  have "map (\<lambda>x. unquote x) xs = xs" using assms by (intro map_idI) (auto simp: list_all_iff plain_unquote)
  then show ?thesis
    by (simp add: unmarshalStrings_def unmarshal_def parse_strings [OF assms] decodeSlice_def decodeString_def comp_def list_all_iff)
qed

lemma copy32_length: "length b = 32 \<Longrightarrow> copy32 b = b"
  by (simp add: copy32_def)

end
