(* ===== verification/ClientProperties.thy ===== *)
theory ClientProperties
  imports Clients
begin

text \<open>
  The properties of the Electrum handlers and of the service with its clients.
\<close>

definition sample_mux :: mux where
  "sample_mux = \<lparr>mx_w = fresh_W Regtest, closures = []\<rparr>"

lemma cb_inv_fresh: "hSubs w = [] \<Longrightarrow> shSubs w = [] \<Longrightarrow> cb_inv \<lparr>mx_w = w, closures = cs\<rparr>"
  by (simp add: cb_inv_def subs_inv_def shSubscribers_def)

lemma cb_inv_sample: "cb_inv sample_mux"
  unfolding sample_mux_def by (rule cb_inv_fresh) (simp_all add: fresh_W_def)

section \<open>Properties\<close>

text \<open>C23. Whatever a request is, its handler answers with valid JSON or with an error, so that the response can be encoded.\<close>

theorem OnRequest_result_valid:
  assumes "OnRequest bc cid rq s = (Inr res, s')"
  shows "\<exists>v. parseJson res = Some v"
proof -
  from OnRequest_cases [of bc cid rq s] assms obtain m h where h: "(m, h) \<in> set (defaultHandlers bc)" "h cid rq s = (Inr res, s')" by auto
  have "valid_handler h" using valid_handlers [of bc] h(1) by (auto simp: list_all_iff)
  with h(2) have "parseJson res \<noteq> None" unfolding valid_handler_def by blast
  then show ?thesis by blast
qed

lemma OnRequest_ping:
  assumes "rq_Method rq = Some (quoted (ascii ''server.ping''))"
  shows "OnRequest bc cid rq s = (Inr lit_null, s)"
proof -
  have "unmarshalString (quoted (ascii ''server.ping'')) = (ascii ''server.ping'', True)" by code_simp
  then show ?thesis
    by (simp add: OnRequest_def assms msgBytes_def jsonOk_def defaultHandlers_def ascii_def pingHandler_def)
qed

theorem OnRequest_result_valid_witness:
  "\<exists>res v. OnRequest (\<lambda>_. Inr ()) 1 (clientRequest (ascii ''server.ping'') []) sample_mux = (Inr res, sample_mux) \<and> parseJson res = Some v"
proof -
  have "OnRequest (\<lambda>_. Inr ()) 1 (clientRequest (ascii ''server.ping'') []) sample_mux = (Inr lit_null, sample_mux)"
    by (rule OnRequest_ping) (simp add: clientRequest_def)
  with OnRequest_result_valid [OF this] show ?thesis by blast
qed

text \<open>C17. Isolation: whatever a request is, its handler leaves the database, the wallets, the script index and the headers as they are,
  and changes no subscription of another connection.\<close>

theorem OnRequest_isolated:
  "own_subs cid s (snd (OnRequest bc cid rq s))"
  using sub_step_good [OF OnRequest_sub_step] by blast

text \<open>Script hashes are read as they are written: the text by which a notification names a script hash is read back by every
  handler as that script hash.\<close>

theorem scriptHash_text_roundtrip:
  assumes "length sh = 32"
  shows "nt_Params (snd (statusNote cid sh status)) = Some (jarray [hexStr (rev sh), hexStr status])
    \<and> parseScriptHash (clientRequest meth [hexStr (rev sh)]) = Inr sh"
proof -
  have "unmarshalStrings (jarray [hexStr (rev sh)]) = ([hexEncode (rev sh)], True)"
    using unmarshalStrings_quoted [of "[hexEncode (rev sh)]"] by (simp add: hexStr_def plain_hexEncode)
  then show ?thesis
    using assms by (simp add: statusNote_def parseScriptHash_def clientRequest_def msgBytes_def jsonOk_def length_hexEncode hexDecode_hexEncode copy32_length)
qed

theorem scriptHash_text_roundtrip_witness:
  "parseScriptHash (clientRequest (ascii ''blockchain.scripthash.subscribe'') [hexStr (rev (replicate 32 7))]) = Inr (replicate 32 7)"
  using scriptHash_text_roundtrip [of "replicate 32 7"] by simp

text \<open>C6. The detailed system of rounds, requests and departures of all connections refines the abstract service, action by action: every
  sequence of rounds, requests and departures is one of the abstract service to the same state without the callbacks, in which a request
  at most subscribes its connection and a departure removes exactly the subscriptions of its connection.\<close>

theorem system_refines_service:
  assumes "system_reach C N s0 ls (p, s)"
  shows "service_reach C N (mx_w s0) ls (p, mx_w s)"
  using system_projects [OF assms] by simp

theorem system_refines_service_witness:
  "\<exists>s. system_reach xor_crypto (genesis_node Regtest) sample_mux [Round] (Serving, s) \<and> bestHeader (mx_w s) = 1
     \<and> service_reach xor_crypto (genesis_node Regtest) (fresh_W Regtest) [Round] (Serving, mx_w s)"
proof -
  obtain w where w: "syncHeaders (genesis_node Regtest) 2 (fresh_W Regtest) = Some (Inr (), w)" "wallets w = []"
      "has_chain (bh_Hash (genesisBlockData Regtest)) [sample_header (bh_Hash (genesisBlockData Regtest))] 1 w"
    using fresh_headers by blast
  then have "syncRound xor_crypto (genesis_node Regtest) 2 (mx_w sample_mux) = Some (Inr (), w)"
    by (simp add: syncRound_def syncWallets_def sample_mux_def)
  then have r: "system_reach xor_crypto (genesis_node Regtest) sample_mux [Round] (Serving, sample_mux\<lparr>mx_w := w\<rparr>)"
    using system_reach.step [OF system_reach.start system_step.round_ok [of Starting xor_crypto "genesis_node Regtest" 2 sample_mux "()" w]] by simp
  from system_refines_service [OF r] have "service_reach xor_crypto (genesis_node Regtest) (fresh_W Regtest) [Round] (Serving, w)"
    by (simp add: sample_mux_def del: genesisBlockData.simps)
  moreover have "bestHeader w = 1" using w(3) by (simp add: has_chain_def)
  ultimately show ?thesis using r by (intro exI [of _ "sample_mux\<lparr>mx_w := w\<rparr>"]) (simp del: genesisBlockData.simps)
qed

text \<open>C22. Callbacks are never mixed up: in every state the system reaches, the callback registered for a connection and a topic is the
  one that connection registered for that topic, so that calling it notifies that connection and names that topic.\<close>

theorem system_callbacks_routed:
  assumes "wf_node N" "chain_inv (mx_w s0)" "cb_inv s0" "system_reach C N s0 ls (p, s)"
  shows "(\<forall>(cid, n)\<in>set (hSubs (mx_w s)). \<forall>ht hdr. callback s (HeaderEvent n ht hdr) = Some (headersNote cid ht hdr))
    \<and> (\<forall>sh. \<forall>(cid, n)\<in>set (shSubscribers sh (mx_w s)). \<forall>st. callback s (StatusEvent n st) = Some (statusNote cid sh st))"
  using system_inv [OF assms] by (fastforce simp: cb_inv_def callback_def)

theorem system_callbacks_routed_witness:
  "\<exists>s. system_reach xor_crypto (genesis_node Regtest) (add_headers_cb 3 sample_mux) [] (Starting, s)
     \<and> callback s (HeaderEvent 0 5 []) = Some (headersNote 3 5 [])"
proof -
  have w: "mx_w (add_headers_cb 3 sample_mux) = HeadersSubscribe 3 0 (fresh_W Regtest)" "hSubs (HeadersSubscribe 3 0 (fresh_W Regtest)) = [(3, 0)]"
    by (simp_all add: add_headers_cb_def sample_mux_def HeadersSubscribe_def fresh_W_def)
  have c: "chain_inv (mx_w (add_headers_cb 3 sample_mux))"
    unfolding w(1) by (rule tip_frame_keeps(1) [OF subs_tip_frame(1) fresh_chain(1)])
  have "cb_inv (add_headers_cb 3 sample_mux)" using add_headers_cb_good cb_inv_sample by blast
  from system_callbacks_routed [OF wf_one_header_node [OF genesis_length] c this system_reach.start] w
  show ?thesis by (auto intro: system_reach.start)
qed

lemma transaction_count_panics:
  assumes "length ver = 4" "2 ^ 48 < 80 * uint n"
  shows "fst (Transaction_Deserialize (ver @ compactSizeSerialize n @ rest)) = Inl (ErrPanic ''makeslice: len out of range'')"
proof -
  have "n \<noteq> 0" using assms(2) by auto
  then show ?thesis
    using assms by (simp add: Transaction_Deserialize_def uint32ReadLE_def readAll_append csize.dec_enc Transaction_Deserialize_body_def makeSlice_def)
qed

text \<open>C18. One request ends the process: a client that broadcasts bytes in which the number of inputs of a transaction is so large that no
  slice of them can exist makes \<open>Deserialize\<close> panic, in every state, before the transaction is looked at any further.\<close>

theorem broadcast_ends_process:
  assumes "length ver = 4" "2 ^ 48 < 80 * uint n" "p \<in> {Serving, Stopped}"
  shows "system_step C N (Asks cid) (p, s) (Crashed, s)
    \<and> OnRequest bc cid (clientRequest (ascii ''blockchain.transaction.broadcast'') [hexStr (ver @ compactSizeSerialize n @ rest)]) s
      = (Inl (ErrPanic ''makeslice: len out of range''), s)"
proof -
  let ?raw = "ver @ compactSizeSerialize n @ rest"
  have m: "unmarshalString (quoted (ascii ''blockchain.transaction.broadcast'')) = (ascii ''blockchain.transaction.broadcast'', True)" by code_simp
  have u: "unmarshalStrings (jarray [hexStr ?raw]) = ([hexEncode ?raw], True)"
    using unmarshalStrings_quoted [of "[hexEncode ?raw]"] by (simp add: hexStr_def plain_hexEncode)
  have r: "OnRequest bc cid (clientRequest (ascii ''blockchain.transaction.broadcast'') [hexStr ?raw]) s
      = (Inl (ErrPanic ''makeslice: len out of range''), s)" for bc
  proof -
    have "OnRequest bc cid (clientRequest (ascii ''blockchain.transaction.broadcast'') [hexStr ?raw]) s
        = transactionBroadcastHandler bc cid (clientRequest (ascii ''blockchain.transaction.broadcast'') [hexStr ?raw]) s"
      using m by (simp add: OnRequest_def clientRequest_def msgBytes_def jsonOk_def defaultHandlers_def ascii_def)
    also have "\<dots> = (Inl (ErrPanic ''makeslice: len out of range''), s)"
      by (simp add: transactionBroadcastHandler_def clientRequest_def msgBytes_def jsonOk_def u hexDecode_hexEncode BroadcastTX_def
          transaction_count_panics [OF assms(1,2)] rbind_def ereads_def)
    finally show ?thesis .
  qed
  from request_panic [OF assms(3) r [of "\<lambda>_. Inr ()"]] r show ?thesis by blast
qed

theorem broadcast_ends_process_witness:
  "system_step xor_crypto (genesis_node Regtest) (Asks 1) (Serving, sample_mux) (Crashed, sample_mux)"
  using broadcast_ends_process [of "[2, 0, 0, 0]" "2 ^ 63" Serving] by simp

end
