(* ===== verification/Server.thy ===== *)
theory Server
  imports ClientProperties "HOL-Library.Sublist"
begin

text \<open>
  The goroutines of \<open>jsonrpc/server.go\<close>: the accept loop \<open>run\<close>, and for each connection \<open>connHandler\<close> with its reader, its
  writer and its \<open>rpcLoop\<close>, as an interleaving of atomic steps.

  Channels of capacity one are options; a goroutine that sends to a full channel outside a \<open>select\<close> is blocked in a state of its
  own. The input of a connection is the byte stream its peer sends in all; that data has not arrived yet is a step not taken
  yet. A network failure may end a reader or a writer at any time. The test of the context at the head of a loop is not a step: once
  the context is cancelled a goroutine may stop at its next turn or, as one that passed the test before, take that turn. Waiting for the goroutines and closing the listener, which
  change no modelled state, are left out.

  A round that fails and a handler that panics are not steps here: they are the ends of the process in \<open>Clients\<close>
  (\<open>system_step\<close>). A connection accepted after the shutdown starts with a live context, where in the code it inherits the
  cancelled one: the model has these runs besides those of the code.
\<close>

section \<open>State\<close>

datatype outgoing = MsgResponse Response | MsgNotification Notification

datatype rstate = RRun | RSend Request | RDone       \<comment> \<open>\<open>RSend\<close>: at \<open>reqC <- r\<close>\<close>
datatype pstate = PWait | PSend Response | PDone     \<comment> \<open>\<open>PSend\<close>: at \<open>resC <- c.Response\<close>\<close>

record conn =
  cn_bytes :: bytes                  \<comment> \<open>all that the peer sends\<close>
  cn_in :: "Request list"            \<comment> \<open>requests not decoded yet\<close>
  cn_id :: "u32 option"              \<comment> \<open>the argument \<open>connId\<close>, once the goroutine has started\<close>
  cn_rd :: rstate
  cn_rpc :: pstate
  cn_wr :: bool                      \<comment> \<open>the writer runs\<close>
  cn_live :: bool                    \<comment> \<open>\<open>connHandler\<close> is at its first \<open>select\<close>\<close>
  cn_reqC :: "Request option"
  cn_resC :: "Response option"
  cn_notC :: "Notification option"
  cn_errC :: "error option"
  cn_ctx :: bool                     \<comment> \<open>the context is cancelled\<close>
  cn_out :: "outgoing list"           \<comment> \<open>what has been written\<close>

record server =
  sv_mux :: mux
  sv_conns :: "conn list"
  sv_connId :: u32                   \<comment> \<open>the variable of \<open>run\<close> that its closures share\<close>
  sv_connections :: "u32 \<rightharpoonup> nat"
  sv_pending :: "event list"         \<comment> \<open>callbacks of the wallet manager still to be called\<close>

definition trySend :: "'a option \<Rightarrow> 'a \<Rightarrow> 'a option \<times> bool" where
  "trySend c v = (case c of None \<Rightarrow> (Some v, True) | Some x \<Rightarrow> (Some x, False))"

definition newConn :: "bytes \<Rightarrow> conn" where
  "newConn inp = \<lparr>cn_bytes = inp, cn_in = fst (readRequests inp), cn_id = None, cn_rd = RRun, cn_rpc = PWait, cn_wr = True, cn_live = False,
     cn_reqC = None, cn_resC = None, cn_notC = None, cn_errC = None, cn_ctx = False, cn_out = []\<rparr>"

definition fails :: "error \<Rightarrow> conn \<Rightarrow> conn" where
  "fails e c = c\<lparr>cn_errC := fst (trySend (cn_errC c) e)\<rparr>"

section \<open>Notify\<close>

definition updConn :: "nat \<Rightarrow> (conn \<Rightarrow> conn) \<Rightarrow> server \<Rightarrow> server" where
  "updConn i f s = s\<lparr>sv_conns := (sv_conns s)[i := f (sv_conns s ! i)]\<rparr>"

definition withVersion :: "Notification \<Rightarrow> Notification" where
  "withVersion n = (if nt_JsonRPC n = None then n\<lparr>nt_JsonRPC := Some (quoted (ascii ''2.0''))\<rparr> else n)"

definition Notify :: "u32 \<Rightarrow> Notification \<Rightarrow> server \<Rightarrow> (unit, server) outcome" where
  "Notify cid n s =
     (case sv_connections s cid of
        None \<Rightarrow> (Inl (Err ''no resource associated with connId''), s)
      | Some i \<Rightarrow>
          (let (notC, ok) = trySend (cn_notC (sv_conns s ! i)) (withVersion n) in
           if ok then (Inr (), updConn i (\<lambda>c. c\<lparr>cn_notC := notC\<rparr>) s)
           else (Inl (Err ''sending notification would block''), s)))"

text \<open>Calling a callback; the error of \<open>Notify\<close> is only logged.\<close>

definition runCallback :: "event \<Rightarrow> server \<Rightarrow> server" where
  "runCallback ev s = (case callback (sv_mux s) ev of None \<Rightarrow> s | Some (cid, n) \<Rightarrow> snd (Notify cid n s))"

section \<open>The goroutines of a connection\<close>

text \<open>The reader and the writer.\<close>

inductive conn_step :: "conn \<Rightarrow> conn \<Rightarrow> bool" where
  decode: "cn_rd c = RRun \<Longrightarrow> cn_in c = rq # rqs \<Longrightarrow> conn_step c (c\<lparr>cn_in := rqs, cn_rd := RSend rq\<rparr>)"
| put_req: "cn_rd c = RSend rq \<Longrightarrow> cn_reqC c = None \<Longrightarrow> conn_step c (c\<lparr>cn_rd := RRun, cn_reqC := Some rq\<rparr>)"
| read_end: "cn_rd c = RRun \<Longrightarrow> conn_step c (fails e (c\<lparr>cn_rd := RDone\<rparr>))"
| read_stop: "cn_rd c = RRun \<Longrightarrow> cn_ctx c \<Longrightarrow> conn_step c (c\<lparr>cn_rd := RDone\<rparr>)"
| write_res: "cn_wr c \<Longrightarrow> cn_resC c = Some r \<Longrightarrow> encodeResponse r = Inr b \<Longrightarrow>
    conn_step c (c\<lparr>cn_resC := None, cn_out := cn_out c @ [MsgResponse r]\<rparr>)"
| write_res_fail: "cn_wr c \<Longrightarrow> cn_resC c = Some r \<Longrightarrow> conn_step c (fails e (c\<lparr>cn_resC := None, cn_wr := False\<rparr>))"
| write_not: "cn_wr c \<Longrightarrow> cn_notC c = Some n \<Longrightarrow> encodeNotification n = Inr b \<Longrightarrow>
    conn_step c (c\<lparr>cn_notC := None, cn_out := cn_out c @ [MsgNotification n]\<rparr>)"
| write_not_fail: "cn_wr c \<Longrightarrow> cn_notC c = Some n \<Longrightarrow> conn_step c (fails e (c\<lparr>cn_notC := None, cn_wr := False\<rparr>))"
| write_stop: "cn_wr c \<Longrightarrow> cn_ctx c \<Longrightarrow> conn_step c (c\<lparr>cn_wr := False\<rparr>)"

text \<open>\<open>rpcLoop\<close> of the connection with the number \<open>cid\<close>: it takes a request and calls its handler, sends the response, ends at an
  error of a handler, and ends when it sees the context cancelled; at its end it calls \<open>OnDisconnect\<close>.\<close>

definition response :: "Request \<Rightarrow> bytes \<Rightarrow> Response" where
  "response rq res = \<lparr>rs_JsonRPC = Some (quoted (ascii ''2.0'')), rs_Id = rq_Id rq, rs_Result = Some res, rs_Error = None\<rparr>"

inductive rpc_step :: "u32 \<Rightarrow> conn \<times> mux \<Rightarrow> conn \<times> mux \<Rightarrow> bool" for cid where
  handle: "cn_rpc c = PWait \<Longrightarrow> cn_reqC c = Some rq \<Longrightarrow> OnRequest bc cid rq m = (Inr res, m') \<Longrightarrow>
    rpc_step cid (c, m) (c\<lparr>cn_reqC := None, cn_rpc := PSend (response rq res)\<rparr>, m')"
| put_res: "cn_rpc c = PSend r \<Longrightarrow> cn_resC c = None \<Longrightarrow> rpc_step cid (c, m) (c\<lparr>cn_rpc := PWait, cn_resC := Some r\<rparr>, m)"
| handle_err: "cn_rpc c = PWait \<Longrightarrow> cn_reqC c = Some rq \<Longrightarrow> OnRequest bc cid rq m = (Inl e, m') \<Longrightarrow> \<forall>p. e \<noteq> ErrPanic p \<Longrightarrow>
    rpc_step cid (c, m) (fails e (c\<lparr>cn_reqC := None, cn_rpc := PDone\<rparr>), OnDisconnect cid m')"
| rpc_stop: "cn_rpc c = PWait \<Longrightarrow> cn_ctx c \<Longrightarrow> rpc_step cid (c, m) (c\<lparr>cn_rpc := PDone\<rparr>, OnDisconnect cid m)"

section \<open>The server\<close>

text \<open>
  \<open>accept\<close>: the accept loop starts a goroutine for the connection and increments \<open>connId\<close>; \<open>begin_conn\<close>: the goroutine reads
  \<open>connId\<close> and enters itself in \<open>connections\<close>; \<open>conn_end\<close>: \<open>connHandler\<close> receives the first error, cancels the context and leaves \<open>connections\<close>;
  \<open>conn_drain\<close>: it leaves after the context was cancelled and the goroutines have ended; \<open>shutdown\<close>: the context of the server is cancelled; \<open>round\<close>: a round of synchronisation, whose callbacks are called one by
  one (\<open>notify\<close>).
\<close>

inductive server_step :: "crypto \<Rightarrow> node \<Rightarrow> server \<Rightarrow> server \<Rightarrow> bool" for C N where
  accept: "server_step C N s (s\<lparr>sv_conns := sv_conns s @ [newConn inp], sv_connId := sv_connId s + 1\<rparr>)"
| begin_conn: "i < length (sv_conns s) \<Longrightarrow> cn_id (sv_conns s ! i) = None \<Longrightarrow>
    server_step C N s (updConn i (\<lambda>c. c\<lparr>cn_id := Some (sv_connId s), cn_live := True\<rparr>) (s\<lparr>sv_connections := (sv_connections s)(sv_connId s \<mapsto> i)\<rparr>))"
| local: "i < length (sv_conns s) \<Longrightarrow> cn_id (sv_conns s ! i) \<noteq> None \<Longrightarrow> conn_step (sv_conns s ! i) c' \<Longrightarrow> server_step C N s (updConn i (\<lambda>_. c') s)"
| rpc: "i < length (sv_conns s) \<Longrightarrow> cn_id (sv_conns s ! i) = Some cid \<Longrightarrow> rpc_step cid (sv_conns s ! i, sv_mux s) (c', m') \<Longrightarrow>
    server_step C N s (updConn i (\<lambda>_. c') (s\<lparr>sv_mux := m'\<rparr>))"
| conn_end: "i < length (sv_conns s) \<Longrightarrow> cn_id (sv_conns s ! i) = Some cid \<Longrightarrow> cn_live (sv_conns s ! i) \<Longrightarrow> cn_errC (sv_conns s ! i) = Some e \<Longrightarrow>
    server_step C N s (updConn i (\<lambda>c. c\<lparr>cn_errC := None, cn_ctx := True, cn_live := False\<rparr>) (s\<lparr>sv_connections := (sv_connections s)(cid := None)\<rparr>))"
| conn_drain: "i < length (sv_conns s) \<Longrightarrow> cn_id (sv_conns s ! i) = Some cid \<Longrightarrow> cn_live (sv_conns s ! i) \<Longrightarrow> cn_ctx (sv_conns s ! i) \<Longrightarrow>
    cn_rd (sv_conns s ! i) = RDone \<Longrightarrow> cn_rpc (sv_conns s ! i) = PDone \<Longrightarrow> \<not> cn_wr (sv_conns s ! i) \<Longrightarrow>
    server_step C N s (updConn i (\<lambda>c. c\<lparr>cn_live := False\<rparr>) (s\<lparr>sv_connections := (sv_connections s)(cid := None)\<rparr>))"
| shutdown: "server_step C N s (s\<lparr>sv_conns := map (\<lambda>c. c\<lparr>cn_ctx := True\<rparr>) (sv_conns s)\<rparr>)"
| round: "syncRound C N fuel (mx_w (sv_mux s)) = Some (Inr u, w') \<Longrightarrow>
    server_step C N s (s\<lparr>sv_mux := (sv_mux s)\<lparr>mx_w := w'\<rparr>, sv_pending := sv_pending s @ drop (length (sent (mx_w (sv_mux s)))) (sent w')\<rparr>)"
| notify: "sv_pending s = ev # evs \<Longrightarrow> server_step C N s (runCallback ev (s\<lparr>sv_pending := evs\<rparr>))"

inductive server_reach :: "crypto \<Rightarrow> node \<Rightarrow> server \<Rightarrow> server \<Rightarrow> bool" for C N s0 where
  start: "server_reach C N s0 s0"
| step: "server_reach C N s0 s \<Longrightarrow> server_step C N s s' \<Longrightarrow> server_reach C N s0 s'"

definition newServer :: "mux \<Rightarrow> server" where
  "newServer m = \<lparr>sv_mux = m, sv_conns = [], sv_connId = 0, sv_connections = Map.empty, sv_pending = []\<rparr>"

end
