(* ===== verification/ServerProperties.thy ===== *)
theory ServerProperties
  imports Server
begin

text \<open>
  What the goroutines of the server guarantee: responses go out in the order of the requests, notifications never block and a
  block leaves one for each connection concerned (a second may be dropped), and two defects, a number that two connections can share and goroutines that can be blocked for ever.
\<close>

section \<open>Order of the responses\<close>

definition optl :: "'a option \<Rightarrow> 'a list" where
  "optl x = (case x of None \<Rightarrow> [] | Some v \<Rightarrow> [v])"

definition responses :: "outgoing list \<Rightarrow> Response list" where
  "responses ms = concat (map (\<lambda>m. case m of MsgResponse r \<Rightarrow> [r] | MsgNotification n \<Rightarrow> []) ms)"

definition sending :: "pstate \<Rightarrow> Response list" where
  "sending p = (case p of PSend r \<Rightarrow> [r] | _ \<Rightarrow> [])"

definition reading :: "rstate \<Rightarrow> Request list" where
  "reading p = (case p of RSend r \<Rightarrow> [r] | _ \<Rightarrow> [])"

text \<open>The identifiers of what has been written, and of what is still under way.\<close>

definition sentIds :: "conn \<Rightarrow> bytes option list" where
  "sentIds c = map rs_Id (responses (cn_out c))"

definition dueIds :: "conn \<Rightarrow> bytes option list" where
  "dueIds c = map rs_Id (optl (cn_resC c))"

definition restIds :: "conn \<Rightarrow> bytes option list" where
  "restIds c = map rs_Id (sending (cn_rpc c)) @ map rq_Id (optl (cn_reqC c) @ reading (cn_rd c) @ cn_in c)"

definition allIds :: "conn \<Rightarrow> bytes option list" where
  "allIds c = map rq_Id (fst (readRequests (cn_bytes c)))"

text \<open>While the writer runs nothing is lost before \<open>resC\<close>, and while \<open>rpcLoop\<close> runs nothing is lost at all.\<close>

definition ordered :: "conn \<Rightarrow> bool" where
  "ordered c \<longleftrightarrow> prefix (sentIds c) (allIds c) \<and> (cn_wr c \<longrightarrow> prefix (sentIds c @ dueIds c) (allIds c))
     \<and> (cn_wr c \<longrightarrow> cn_rpc c \<noteq> PDone \<longrightarrow> cn_rd c \<noteq> RDone \<longrightarrow> sentIds c @ dueIds c @ restIds c = allIds c)
     \<and> (cn_wr c \<longrightarrow> cn_rpc c \<noteq> PDone \<longrightarrow> prefix (sentIds c @ dueIds c @ map rs_Id (sending (cn_rpc c)) @ map rq_Id (optl (cn_reqC c))) (allIds c))"

lemma responses_snoc [simp]:
  "responses (ms @ [MsgResponse r]) = responses ms @ [r]" "responses (ms @ [MsgNotification n]) = responses ms"
  by (simp_all add: responses_def)

lemmas order_defs = ordered_def sentIds_def dueIds_def restIds_def allIds_def optl_def sending_def reading_def

lemma ordered_newConn: "ordered (newConn inp)"
  by (simp add: order_defs newConn_def responses_def)

lemma ordered_cong:
  assumes "cn_bytes c' = cn_bytes c" "cn_in c' = cn_in c" "cn_rd c' = cn_rd c" "cn_rpc c' = cn_rpc c" "cn_wr c' = cn_wr c"
    "cn_reqC c' = cn_reqC c" "cn_resC c' = cn_resC c" "cn_out c' = cn_out c"
  shows "ordered c' = ordered c"
  by (simp add: order_defs assms)

lemma prefix_drop_right: "prefix (xs @ ys) zs \<Longrightarrow> prefix xs zs"
  by (auto simp: prefix_def)

lemma eq_prefix: "xs @ ys = zs \<Longrightarrow> prefix xs zs"
  by (auto simp: prefix_def)

lemma ordered_conn_step:
  assumes "conn_step c c'" "ordered c"
  shows "ordered c'"
  using assms(1)
proof cases
  case (decode rq rqs)
  then show ?thesis using assms(2) by (auto simp: order_defs)
next
  case (put_req rq)
  then have "prefix (sentIds c @ dueIds c @ map rs_Id (sending (cn_rpc c)) @ [rq_Id rq]) (allIds c)" if "cn_wr c" "cn_rpc c \<noteq> PDone"
    using assms(2) that by (intro eq_prefix [of _ "map rq_Id (cn_in c)"]) (simp add: order_defs)
  then show ?thesis using assms(2) put_req by (auto simp: order_defs)
next
  case (write_res r b)
  then show ?thesis using assms(2) by (auto simp: order_defs)
qed (use assms(2) in \<open>auto simp: order_defs fails_def dest: prefix_drop_right\<close>)

section \<open>Moves of a connection\<close>

text \<open>All that a step of the server can do to a connection that exists.\<close>

inductive conn_move :: "conn \<Rightarrow> conn \<Rightarrow> bool" where
  same: "conn_move c c"
| local: "conn_step c c' \<Longrightarrow> conn_move c c'"
| begin_conn: "conn_move c (c\<lparr>cn_id := k, cn_live := True\<rparr>)"
| put_res: "cn_rpc c = PSend r \<Longrightarrow> cn_resC c = None \<Longrightarrow> conn_move c (c\<lparr>cn_rpc := PWait, cn_resC := Some r\<rparr>)"
| handle: "cn_rpc c = PWait \<Longrightarrow> cn_reqC c = Some rq \<Longrightarrow> conn_move c (c\<lparr>cn_reqC := None, cn_rpc := PSend (response rq res)\<rparr>)"
| handle_err: "cn_rpc c = PWait \<Longrightarrow> conn_move c (fails e (c\<lparr>cn_reqC := None, cn_rpc := PDone\<rparr>))"
| rpc_stop: "cn_rpc c = PWait \<Longrightarrow> conn_move c (c\<lparr>cn_rpc := PDone\<rparr>)"
| ended: "conn_move c (c\<lparr>cn_errC := None, cn_ctx := True, cn_live := False\<rparr>)"
| drained: "conn_move c (c\<lparr>cn_live := False\<rparr>)"
| shutdown: "conn_move c (c\<lparr>cn_ctx := True\<rparr>)"
| notified: "conn_move c (c\<lparr>cn_notC := n\<rparr>)"

lemma conns_updConn: "sv_conns (updConn i f s) = (sv_conns s)[i := f (sv_conns s ! i)]"
  by (simp add: updConn_def)

lemma runCallback_conns:
  "sv_conns (runCallback ev s) = sv_conns s \<or> (\<exists>i n. sv_conns (runCallback ev s) = (sv_conns s)[i := (sv_conns s ! i)\<lparr>cn_notC := n\<rparr>])"
  by (auto simp: runCallback_def Notify_def trySend_def conns_updConn split: option.split prod.split)

text \<open>The number of connections never shrinks, a new one is fresh, and the others move.\<close>

lemma move_updated:
  assumes "conn_move (cs ! j) d" "i < length cs"
  shows "conn_move (cs ! i) (cs[j := d] ! i)"
  using assms by (cases "i = j") (auto intro: conn_move.same)

definition moved :: "server \<Rightarrow> server \<Rightarrow> bool" where
  "moved s s' \<longleftrightarrow> length (sv_conns s') = length (sv_conns s) \<and> (\<forall>i < length (sv_conns s). conn_move (sv_conns s ! i) (sv_conns s' ! i))"

lemma moved_upd: "sv_conns t = sv_conns s \<Longrightarrow> conn_move (sv_conns s ! j) (f (sv_conns s ! j)) \<Longrightarrow> moved s (updConn j f t)"
  by (simp add: moved_def conns_updConn move_updated)

lemma moved_same: "sv_conns s' = sv_conns s \<Longrightarrow> moved s s'"
  by (simp add: moved_def conn_move.same)

lemma server_step_conns:
  assumes "server_step C N s s'"
  shows "(\<exists>inp. sv_conns s' = sv_conns s @ [newConn inp]) \<or> moved s s'"
  using assms
proof cases
  case (accept inp)
  then show ?thesis by auto
next
  case (begin_conn i)
  then show ?thesis by (auto intro!: moved_upd conn_move.begin_conn)
next
  case (local i c')
  then show ?thesis by (auto intro!: moved_upd conn_move.local)
next
  case (rpc i cid c' m')
  from rpc(4) have "conn_move (sv_conns s ! i) c'"
    by cases (auto intro: conn_move.intros)
  with rpc(1) show ?thesis by (auto intro!: moved_upd)
next
  case (conn_end i cid e)
  then show ?thesis by (auto intro!: moved_upd conn_move.ended)
next
  case (conn_drain i cid)
  then show ?thesis by (auto intro!: moved_upd conn_move.drained)
next
  case shutdown
  then show ?thesis by (simp add: moved_def conn_move.shutdown)
next
  case (round fuel u w')
  then show ?thesis by (simp add: moved_same)
next
  case (notify ev evs)
  let ?t = "s\<lparr>sv_pending := evs\<rparr>"
  have "moved ?t (runCallback ev ?t)"
    using runCallback_conns [of ev ?t] by (auto simp: moved_def conn_move.same move_updated conn_move.notified)
  then have "moved s s'" using notify by (simp add: moved_def)
  then show ?thesis by simp
qed

text \<open>What every move keeps is kept by every run.\<close>

locale conn_invariant =
  fixes P :: "conn \<Rightarrow> bool"
  assumes move: "conn_move c c' \<Longrightarrow> P c \<Longrightarrow> P c'"
begin

lemma keeps:
  assumes "server_reach C N s s'" "i < length (sv_conns s)" "P (sv_conns s ! i)"
  shows "i < length (sv_conns s') \<and> P (sv_conns s' ! i)"
  using assms(1)
proof (induction rule: server_reach.induct)
  case start
  with assms(2,3) show ?case by simp
next
  case (step t t')
  then show ?case using server_step_conns [OF step.hyps(2)] move by (auto simp: nth_append moved_def)
qed

lemma everywhere:
  assumes "server_reach C N s s'" "\<forall>c\<in>set (sv_conns s). P c" "\<And>inp. P (newConn inp)"
  shows "\<forall>c\<in>set (sv_conns s'). P c"
  using assms(1)
proof (induction rule: server_reach.induct)
  case start
  with assms(2) show ?case by simp
next
  case (step t t')
  from server_step_conns [OF step.hyps(2)] show ?case
  proof
    assume "\<exists>inp. sv_conns t' = sv_conns t @ [newConn inp]"
    then show ?thesis using step.IH assms(3) by auto
  next
    assume "moved t t'"
    then show ?thesis using step.IH move unfolding moved_def by (metis in_set_conv_nth)
  qed
qed

end

interpretation order: conn_invariant ordered
proof
  fix c c' assume "conn_move c c'" "ordered c"
  then show "ordered c'"
  proof (cases rule: conn_move.cases)
    case local
    then show ?thesis using ordered_conn_step \<open>ordered c\<close> by blast
  next
    case (put_res r)
    then show ?thesis using \<open>ordered c\<close> by (auto simp: order_defs prefix_drop_right dest: prefix_drop_right)
  next
    case (handle rq res)
    then show ?thesis using \<open>ordered c\<close> by (auto simp: order_defs response_def)
  qed (auto simp: order_defs fails_def)
qed

section \<open>Goroutines blocked for ever\<close>

definition rpc_blocked :: "conn \<Rightarrow> bool" where
  "rpc_blocked c \<longleftrightarrow> \<not> cn_wr c \<and> cn_resC c \<noteq> None \<and> (\<exists>r. cn_rpc c = PSend r)"

definition reader_blocked :: "conn \<Rightarrow> bool" where
  "reader_blocked c \<longleftrightarrow> cn_rpc c = PDone \<and> cn_reqC c \<noteq> None \<and> (\<exists>rq. cn_rd c = RSend rq)"

interpretation rpc_leak: conn_invariant rpc_blocked
proof
  fix c c' assume "conn_move c c'" "rpc_blocked c"
  then show "rpc_blocked c'"
    by (cases rule: conn_move.cases) (auto simp: rpc_blocked_def fails_def elim!: conn_step.cases)
qed

interpretation reader_leak: conn_invariant reader_blocked
proof
  fix c c' assume "conn_move c c'" "reader_blocked c"
  then show "reader_blocked c'"
    by (cases rule: conn_move.cases) (auto simp: reader_blocked_def fails_def elim!: conn_step.cases)
qed

section \<open>Runs of one connection\<close>

lemma one_local:
  assumes "server_reach C N s0 (s\<lparr>sv_conns := [c]\<rparr>)" "cn_id c \<noteq> None" "conn_step c c'"
  shows "server_reach C N s0 (s\<lparr>sv_conns := [c']\<rparr>)"
  using server_reach.step [OF assms(1) server_step.local [of 0 _ c']] assms(2,3) by (simp add: updConn_def)

lemma one_rpc:
  assumes "server_reach C N s0 (s\<lparr>sv_conns := [c]\<rparr>)" "cn_id c = Some cid" "rpc_step cid (c, sv_mux s) (c', m')"
  shows "server_reach C N s0 (s\<lparr>sv_mux := m', sv_conns := [c']\<rparr>)"
  using server_reach.step [OF assms(1) server_step.rpc [of 0 _ cid c' m']] assms(2,3) by (simp add: updConn_def)

text \<open>A client that sends three messages without a method: the first ends \<open>rpcLoop\<close>, the second waits in \<open>reqC\<close>, and the reader is blocked at the third.\<close>

definition three_nulls :: bytes where
  "three_nulls = ascii ''null null null ''"

lemma three_nulls_requests: "fst (readRequests three_nulls) = [empty_Request, empty_Request, empty_Request]"
  by code_simp

lemma empty_request_fails: "OnRequest bc cid empty_Request m = (Inl (Err ''json''), m)"
proof -
  have "unmarshalString [] = ([], False)" by code_simp
  then show ?thesis by (simp add: OnRequest_def empty_Request_def msgBytes_def jsonOk_def)
qed

lemma reader_blocked_reachable:
  "\<exists>s. server_reach C N (newServer m) s \<and> length (sv_conns s) = 1 \<and> reader_blocked (sv_conns s ! 0)"
proof -
  define c0 where "c0 = (newConn three_nulls)\<lparr>cn_id := Some 1, cn_live := True\<rparr>"
  define S where "S = (newServer m)\<lparr>sv_connId := 1, sv_connections := [1 \<mapsto> 0]\<rparr>"
  have f: "cn_id c0 = Some 1" "cn_rd c0 = RRun" "\<not> cn_ctx c0" "cn_in c0 = [empty_Request, empty_Request, empty_Request]" "cn_reqC c0 = None" "cn_rpc c0 = PWait"
    by (simp_all add: c0_def newConn_def three_nulls_requests)
  have "server_reach C N (newServer m) ((newServer m)\<lparr>sv_conns := [newConn three_nulls], sv_connId := 1\<rparr>)"
    using server_reach.step [OF server_reach.start server_step.accept [of C N "newServer m" three_nulls]] by (simp add: newServer_def)
  from server_reach.step [OF this server_step.begin_conn [of 0]]
  have r0: "server_reach C N (newServer m) (S\<lparr>sv_conns := [c0]\<rparr>)"
    by (simp add: S_def c0_def updConn_def newServer_def newConn_def)
  define c1 where "c1 = c0\<lparr>cn_in := [empty_Request, empty_Request], cn_rd := RSend empty_Request\<rparr>"
  have r1: "server_reach C N (newServer m) (S\<lparr>sv_conns := [c1]\<rparr>)"
    unfolding c1_def by (rule one_local [OF r0 _ conn_step.decode]) (simp_all add: f)
  define c2 where "c2 = c1\<lparr>cn_rd := RRun, cn_reqC := Some empty_Request\<rparr>"
  have r2: "server_reach C N (newServer m) (S\<lparr>sv_conns := [c2]\<rparr>)"
    unfolding c2_def by (rule one_local [OF r1 _ conn_step.put_req]) (simp_all add: f c1_def)
  define c3 where "c3 = fails (Err ''json'') (c2\<lparr>cn_reqC := None, cn_rpc := PDone\<rparr>)"
  define S' where "S' = S\<lparr>sv_mux := OnDisconnect 1 m\<rparr>"
  have "rpc_step 1 (c2, sv_mux S) (c3, OnDisconnect 1 m)"
    using rpc_step.handle_err [of c2 empty_Request "\<lambda>_. Inr ()" 1 "sv_mux S" "Err ''json''" "sv_mux S"]
    by (simp add: f c1_def c2_def c3_def S_def newServer_def empty_request_fails)
  from one_rpc [OF r2 _ this] have r3: "server_reach C N (newServer m) (S'\<lparr>sv_conns := [c3]\<rparr>)"
    by (simp add: f c2_def c1_def S'_def)
  define c4 where "c4 = c3\<lparr>cn_in := [empty_Request], cn_rd := RSend empty_Request\<rparr>"
  have r4: "server_reach C N (newServer m) (S'\<lparr>sv_conns := [c4]\<rparr>)"
    unfolding c4_def by (rule one_local [OF r3 _ conn_step.decode]) (simp_all add: f c3_def c2_def c1_def fails_def)
  define c5 where "c5 = c4\<lparr>cn_rd := RRun, cn_reqC := Some empty_Request\<rparr>"
  have r5: "server_reach C N (newServer m) (S'\<lparr>sv_conns := [c5]\<rparr>)"
    unfolding c5_def by (rule one_local [OF r4 _ conn_step.put_req]) (simp_all add: f c4_def c3_def c2_def c1_def fails_def)
  define c6 where "c6 = c5\<lparr>cn_in := [], cn_rd := RSend empty_Request\<rparr>"
  have r6: "server_reach C N (newServer m) (S'\<lparr>sv_conns := [c6]\<rparr>)"
    unfolding c6_def by (rule one_local [OF r5 _ conn_step.decode]) (simp_all add: f c5_def c4_def c3_def c2_def c1_def fails_def)
  have "reader_blocked c6" by (simp add: reader_blocked_def c6_def c5_def c4_def c3_def fails_def)
  with r6 show ?thesis by (intro exI [of _ "S'\<lparr>sv_conns := [c6]\<rparr>"]) simp
qed

text \<open>A client that pings: its response is written.\<close>

definition ping_bytes :: bytes where
  "ping_bytes = jobject [jfield ''jsonrpc'' lit_null, jfield ''id'' [0x37], jfield ''method'' (quoted (ascii ''server.ping'')), jfield ''params'' lit_null] @ [0x0a]"

definition ping_request :: Request where
  "ping_request = \<lparr>rq_JsonRPC = Some lit_null, rq_Id = Some [0x37], rq_Method = Some (quoted (ascii ''server.ping'')), rq_Params = Some lit_null\<rparr>"

lemma ping_requests: "fst (readRequests ping_bytes) = [ping_request]"
  by code_simp

lemma ping_encoded: "encodeResponse (response ping_request lit_null) = Inr (ascii ''{'' @ quoted (ascii ''jsonrpc'') @ ascii '':'' @ quoted (ascii ''2.0'')
    @ ascii '','' @ quoted (ascii ''id'') @ ascii '':7,'' @ quoted (ascii ''result'') @ ascii '':null}'' @ [0x0a])"
  by code_simp

lemma ping_handled: "OnRequest bc cid ping_request m = (Inr lit_null, m)"
  by (rule OnRequest_ping) (simp add: ping_request_def)

lemma ping_run:
  "\<exists>s. server_reach C N (newServer m) s \<and> length (sv_conns s) = 1 \<and> cn_bytes (sv_conns s ! 0) = ping_bytes
     \<and> cn_out (sv_conns s ! 0) = [MsgResponse (response ping_request lit_null)]"
proof -
  define c0 where "c0 = (newConn ping_bytes)\<lparr>cn_id := Some 1, cn_live := True\<rparr>"
  define S where "S = (newServer m)\<lparr>sv_connId := 1, sv_connections := [1 \<mapsto> 0]\<rparr>"
  have f: "cn_id c0 = Some 1" "cn_rd c0 = RRun" "\<not> cn_ctx c0" "cn_in c0 = [ping_request]" "cn_reqC c0 = None" "cn_rpc c0 = PWait"
      "cn_resC c0 = None" "cn_wr c0" "cn_out c0 = []" "cn_bytes c0 = ping_bytes"
    by (simp_all add: c0_def newConn_def ping_requests)
  have "server_reach C N (newServer m) ((newServer m)\<lparr>sv_conns := [newConn ping_bytes], sv_connId := 1\<rparr>)"
    using server_reach.step [OF server_reach.start server_step.accept [of C N "newServer m" ping_bytes]] by (simp add: newServer_def)
  from server_reach.step [OF this server_step.begin_conn [of 0]]
  have r0: "server_reach C N (newServer m) (S\<lparr>sv_conns := [c0]\<rparr>)"
    by (simp add: S_def c0_def updConn_def newServer_def newConn_def)
  define c1 where "c1 = c0\<lparr>cn_in := [], cn_rd := RSend ping_request\<rparr>"
  have r1: "server_reach C N (newServer m) (S\<lparr>sv_conns := [c1]\<rparr>)"
    unfolding c1_def by (rule one_local [OF r0 _ conn_step.decode]) (simp_all add: f)
  define c2 where "c2 = c1\<lparr>cn_rd := RRun, cn_reqC := Some ping_request\<rparr>"
  have r2: "server_reach C N (newServer m) (S\<lparr>sv_conns := [c2]\<rparr>)"
    unfolding c2_def by (rule one_local [OF r1 _ conn_step.put_req]) (simp_all add: f c1_def)
  define c3 where "c3 = c2\<lparr>cn_reqC := None, cn_rpc := PSend (response ping_request lit_null)\<rparr>"
  have "rpc_step 1 (c2, sv_mux S) (c3, sv_mux S)"
    using rpc_step.handle [of c2 ping_request "\<lambda>_. Inr ()" 1 "sv_mux S" lit_null "sv_mux S"]
    by (simp add: f c1_def c2_def c3_def ping_handled)
  from one_rpc [OF r2 _ this] have r3: "server_reach C N (newServer m) (S\<lparr>sv_conns := [c3]\<rparr>)"
    by (simp add: f c2_def c1_def)
  define c4 where "c4 = c3\<lparr>cn_rpc := PWait, cn_resC := Some (response ping_request lit_null)\<rparr>"
  have r4: "server_reach C N (newServer m) (S\<lparr>sv_conns := [c4]\<rparr>)"
    using one_rpc [OF r3 _ rpc_step.put_res, of 1] by (simp add: f c4_def c3_def c2_def c1_def)
  define c5 where "c5 = c4\<lparr>cn_resC := None, cn_out := cn_out c4 @ [MsgResponse (response ping_request lit_null)]\<rparr>"
  have r5: "server_reach C N (newServer m) (S\<lparr>sv_conns := [c5]\<rparr>)"
    unfolding c5_def by (rule one_local [OF r4 _ conn_step.write_res [OF _ _ ping_encoded]]) (simp_all add: f c4_def c3_def c2_def c1_def)
  show ?thesis using r5 by (intro exI [of _ "S\<lparr>sv_conns := [c5]\<rparr>"]) (simp add: c5_def c4_def c3_def c2_def c1_def f)
qed

section \<open>From a block to a connection\<close>

text \<open>A connection is entered in \<open>connections\<close> under its own number only.\<close>

definition registered :: "server \<Rightarrow> bool" where
  "registered s \<longleftrightarrow> (\<forall>cid i. sv_connections s cid = Some i \<longrightarrow> i < length (sv_conns s) \<and> cn_id (sv_conns s ! i) = Some cid)"

lemma nth_upd: "xs[i := v] ! j = (if i = j \<and> j < length xs then v else xs ! j)"
  by (cases "i < length xs") (auto simp: nth_list_update list_update_beyond)

lemma conn_step_id: "conn_step c c' \<Longrightarrow> cn_id c' = cn_id c"
  by (induction rule: conn_step.induct) (simp_all add: fails_def)

lemma rpc_step_id: "rpc_step cid (c, m) (c', m') \<Longrightarrow> cn_id c' = cn_id c"
  by (erule rpc_step.cases) (simp_all add: fails_def)

lemma runCallback_frame:
  "sv_connections (runCallback ev s) = sv_connections s" "sv_mux (runCallback ev s) = sv_mux s"
  "length (sv_conns (runCallback ev s)) = length (sv_conns s)"
  "cn_id (sv_conns (runCallback ev s) ! i) = cn_id (sv_conns s ! i)"
  by (auto simp: runCallback_def Notify_def updConn_def trySend_def Let_def nth_upd split: option.splits)

lemma registered_step:
  assumes "server_step C N s s'" "registered s"
  shows "registered s'"
  using assms
proof cases
  case (accept inp)
  with assms(2) show ?thesis by (auto simp: registered_def nth_append intro: less_SucI)
next
  case (begin_conn i)
  with assms(2) show ?thesis by (auto simp: registered_def updConn_def nth_upd)
next
  case (local i c')
  with assms(2) show ?thesis by (auto simp: registered_def updConn_def nth_upd dest!: conn_step_id)
next
  case (rpc i cid c' m')
  with assms(2) show ?thesis by (auto simp: registered_def updConn_def nth_upd dest!: rpc_step_id)
next
  case (conn_end i cid e)
  with assms(2) show ?thesis by (auto simp: registered_def updConn_def nth_upd)
next
  case (conn_drain i cid)
  with assms(2) show ?thesis by (auto simp: registered_def updConn_def nth_upd)
next
  case shutdown
  with assms(2) show ?thesis by (auto simp: registered_def)
next
  case (round fuel u w')
  with assms(2) show ?thesis by (auto simp: registered_def)
next
  case (notify ev evs)
  with assms(2) show ?thesis by (simp add: registered_def runCallback_frame)
qed

lemma registered_reach: "server_reach C N (newServer m) s \<Longrightarrow> registered s"
  by (induction rule: server_reach.induct) (auto simp: registered_def newServer_def dest: registered_step [unfolded registered_def])

text \<open>The notifications that a list of callbacks has for a connection, and what a run of the callbacks leaves in its channel when
  the writer takes nothing meanwhile: the notification that was there, else the first.\<close>

definition notesFor :: "mux \<Rightarrow> u32 \<Rightarrow> event list \<Rightarrow> Notification list" where
  "notesFor m cid evs = List.map_filter (\<lambda>ev. case callback m ev of Some (c, n) \<Rightarrow> (if c = cid then Some n else None) | None \<Rightarrow> None) evs"

lemma runCallback_notC:
  assumes "sv_connections s cid = Some i" "registered s"
  shows "cn_notC (sv_conns (runCallback ev s) ! i) =
    (case cn_notC (sv_conns s ! i) of Some n \<Rightarrow> Some n
     | None \<Rightarrow> (case notesFor (sv_mux s) cid [ev] of [] \<Rightarrow> None | n # ns \<Rightarrow> Some (withVersion n)))"
proof -
  have i: "i < length (sv_conns s)" and u: "sv_connections s c = Some i \<Longrightarrow> c = cid" for c
    using assms unfolding registered_def by (blast, metis option.inject)
  show ?thesis
  proof (cases "callback (sv_mux s) ev")
    case None
    then show ?thesis by (simp add: runCallback_def notesFor_def List.map_filter_simps split: option.split)
  next
    case (Some p)
    obtain c n where p: "p = (c, n)" by (cases p)
    have nf: "notesFor (sv_mux s) cid [ev] = (if c = cid then [n] else [])"
      by (simp add: notesFor_def List.map_filter_simps Some p)
    have r: "runCallback ev s = snd (Notify c n s)" by (simp add: runCallback_def Some p)
    show ?thesis
    proof (cases "c = cid")
      case True
      then show ?thesis using i assms(1) unfolding r nf
        by (cases "cn_notC (sv_conns s ! i)") (simp_all add: Notify_def updConn_def trySend_def)
    next
      case False
      then have "sv_connections s c \<noteq> Some i" using u by blast
      then show ?thesis using False unfolding r nf
        by (cases "sv_connections s c") (auto simp: Notify_def updConn_def trySend_def nth_upd split: option.split)
    qed
  qed
qed

lemma registered_runCallback: "registered s \<Longrightarrow> registered (runCallback ev s)"
  by (simp add: registered_def runCallback_frame)

lemma notesFor_Cons: "notesFor m cid (ev # evs) = notesFor m cid [ev] @ notesFor m cid evs"
  by (simp add: notesFor_def List.map_filter_simps split: option.split)

lemma fold_runCallback_notC:
  assumes "sv_connections s cid = Some i" "registered s"
  shows "cn_notC (sv_conns (fold runCallback evs s) ! i) =
    (case cn_notC (sv_conns s ! i) of Some n \<Rightarrow> Some n
     | None \<Rightarrow> (case notesFor (sv_mux s) cid evs of [] \<Rightarrow> None | n # ns \<Rightarrow> Some (withVersion n)))"
  using assms
proof (induction evs arbitrary: s)
  case Nil
  then show ?case by (simp add: notesFor_def List.map_filter_simps split: option.split)
next
  case (Cons ev evs)
  have "sv_connections (runCallback ev s) cid = Some i" using Cons.prems(1) by (simp add: runCallback_frame)
  from Cons.IH [OF this registered_runCallback [OF Cons.prems(2)]] runCallback_notC [OF Cons.prems, of ev]
  show ?case by (subst notesFor_Cons) (auto simp: runCallback_frame split: option.splits list.splits)
qed

text \<open>The notification of a script hash with the status it has in a state of the wallet manager.\<close>

definition statusOf :: "W \<Rightarrow> hash32 \<Rightarrow> hash32" where
  "statusOf w sh = (case GetScriptHashStatus w sh of Inr (Some h) \<Rightarrow> h | _ \<Rightarrow> replicate 32 0)"

definition statusNotice :: "W \<Rightarrow> u32 \<Rightarrow> hash32 \<Rightarrow> Notification" where
  "statusNotice w cid sh = snd (statusNote cid sh (statusOf w sh))"

definition subscribed :: "W \<Rightarrow> u32 \<Rightarrow> hash32 \<Rightarrow> bool" where
  "subscribed w cid sh \<longleftrightarrow> cid \<in> fst ` set (shSubscribers sh w)"

definition blockEvents :: "W \<Rightarrow> W \<Rightarrow> event list" where
  "blockEvents w w' = drop (length (sent w)) (sent w')"

text \<open>Every callback of a block is one of a subscriber, for the status the script hash has after the block.\<close>

lemma blockEvents_callback:
  assumes "cb_inv m" "wm_inv C V (mx_w m)" "has_header block (db (mx_w m))" "distinct (TXIDs block)" "block_outputs V block"
    and "processBlock C block ht (mx_w m) = (Inr (), w')" "ev \<in> set (blockEvents (mx_w m) w')"
  obtains cid sh n where "subscribed (mx_w m) cid sh" "ev = StatusEvent n (statusOf w' sh)"
    "n < length (closures m)" "closures m ! n = StatusCb cid sh"
proof -
  from processBlock_steps [OF assms(2-6)] obtain upd where u: "shSubs w' = shSubs (mx_w m)"
      "sent w' = sent (mx_w m) @ concat (map (statusEvents w') upd)" by blast
  with assms(7) obtain sh where sh: "ev \<in> set (statusEvents w' sh)" by (auto simp: blockEvents_def)
  have subs: "shSubscribers sh w' = shSubscribers sh (mx_w m)" using u(1) by (simp add: shSubscribers_def)
  then obtain st where st: "GetScriptHashStatus w' sh = Inr st"
    using sh by (cases "GetScriptHashStatus w' sh") (simp_all add: statusEvents_def)
  with sh obtain cid n where n: "(cid, n) \<in> set (shSubscribers sh (mx_w m))"
      "ev = StatusEvent n (case st of None \<Rightarrow> replicate 32 0 | Some h \<Rightarrow> h)"
    unfolding statusEvents_def subs by auto
  have "(case st of None \<Rightarrow> replicate 32 0 | Some h \<Rightarrow> h) = statusOf w' sh" using st by (simp add: statusOf_def split: option.split)
  moreover have "n < length (closures m) \<and> closures m ! n = StatusCb cid sh" using assms(1) n(1) by (auto simp: cb_inv_def)
  ultimately show thesis using that [of cid sh n] n by (force simp: subscribed_def)
qed

lemma block_event_for:
  assumes "cb_inv m" "wm_inv C V (mx_w m)" "has_header block (db (mx_w m))" "distinct (TXIDs block)" "block_outputs V block"
    and "processBlock C block ht (mx_w m) = (Inr (), w')"
    and "(sh, txid) \<in> set (stx_tbl (db w'))" "(sh, txid) \<notin> set (stx_tbl (db (mx_w m)))" "subscribed (mx_w m) cid sh"
  obtains n where "StatusEvent n (statusOf w' sh) \<in> set (blockEvents (mx_w m) w')" "n < length (closures m)" "closures m ! n = StatusCb cid sh"
proof -
  obtain n where n: "(cid, n) \<in> set (shSubscribers sh (mx_w m))" using assms(9) by (auto simp: subscribed_def)
  obtain st where st: "GetScriptHashStatus w' sh = Inr st"
      "StatusEvent n (case st of None \<Rightarrow> replicate 32 0 | Some h \<Rightarrow> h) \<in> set (blockEvents (mx_w m) w')"
    using processBlock_notifies [OF assms(2-8) n] unfolding blockEvents_def by blast
  have "(case st of None \<Rightarrow> replicate 32 0 | Some h \<Rightarrow> h) = statusOf w' sh" using st(1) by (simp add: statusOf_def split: option.split)
  moreover have "n < length (closures m) \<and> closures m ! n = StatusCb cid sh" using assms(1) n by (auto simp: cb_inv_def)
  ultimately show thesis using that [of n] st(2) by simp
qed

lemma notesFor_status:
  assumes "n < length (closures m)" "closures m ! n = StatusCb cid sh"
  shows "notesFor m cid' [StatusEvent n st] = (if cid = cid' then [snd (statusNote cid sh st)] else [])"
  using assms by (simp add: notesFor_def List.map_filter_simps callback_def statusNote_def)

lemma statusNote_fst: "fst (statusNote cid sh st) = cid"
  by (simp add: statusNote_def)

lemma notesFor_in: "n \<in> set (notesFor m cid evs) \<longleftrightarrow> (\<exists>ev\<in>set evs. n \<in> set (notesFor m cid [ev]))"
  by (induction evs) (simp_all add: notesFor_Cons [of m cid _ "_ # _"] notesFor_Cons [of m cid _ evs] notesFor_def List.map_filter_simps split: option.split)

section \<open>Properties\<close>

text \<open>C8. Responses are written in the order of the requests: in every reachable state of the server, however its goroutines
  interleave, the identifiers of the responses written to a connection are those of its first requests, in their order.\<close>

theorem responses_in_order:
  assumes "server_reach C N (newServer m) s" "c \<in> set (sv_conns s)"
  shows "prefix (map rs_Id (responses (cn_out c))) (map rq_Id (fst (readRequests (cn_bytes c))))"
proof -
  have "ordered c" using order.everywhere [OF assms(1) _ ordered_newConn] assms(2) by (simp add: newServer_def)
  then show ?thesis by (simp add: ordered_def sentIds_def allIds_def)
qed

theorem responses_in_order_witness:
  "\<exists>s c. server_reach xor_crypto (genesis_node Regtest) (newServer sample_mux) s \<and> c \<in> set (sv_conns s) \<and> cn_bytes c = ping_bytes
     \<and> map rs_Id (responses (cn_out c)) = [Some [0x37]]
     \<and> prefix (map rs_Id (responses (cn_out c))) (map rq_Id (fst (readRequests (cn_bytes c))))"
proof -
  obtain s where s: "server_reach xor_crypto (genesis_node Regtest) (newServer sample_mux) s" "length (sv_conns s) = 1"
      "cn_bytes (sv_conns s ! 0) = ping_bytes" "cn_out (sv_conns s ! 0) = [MsgResponse (response ping_request lit_null)]"
    using ping_run by blast
  then have c: "sv_conns s ! 0 \<in> set (sv_conns s)" by simp
  have "map rs_Id (responses (cn_out (sv_conns s ! 0))) = [Some [0x37]]"
    by (simp add: s(4) responses_def response_def ping_request_def)
  with responses_in_order [OF s(1) c] s(1,3) c show ?thesis by (intro exI [of _ s] exI [of _ "sv_conns s ! 0"] conjI)
qed

text \<open>Sending a notification never waits: it succeeds exactly when the connection is known and has no notification waiting to be
  written, which it then has; otherwise it fails and the notification is dropped.\<close>

theorem Notify_exact:
  "Notify cid n s = (Inr (), s') \<longleftrightarrow>
     (\<exists>i. sv_connections s cid = Some i \<and> cn_notC (sv_conns s ! i) = None \<and> s' = updConn i (\<lambda>c. c\<lparr>cn_notC := Some (withVersion n)\<rparr>) s)"
  by (auto simp: Notify_def trySend_def split: option.split prod.split)

text \<open>C24. A blocked goroutine stays blocked: once the writer has ended with a response waiting and \<open>rpcLoop\<close> sends another, or
  \<open>rpcLoop\<close> has ended with a request waiting and the reader sends another, no step of the server, not even its shutdown, ever
  changes that. The goroutines of the connection are leaked and, in the first case, \<open>OnDisconnect\<close> is never called. A client
  causes it with three messages.\<close>

theorem goroutines_blocked_forever:
  assumes "server_reach C N s s'" "i < length (sv_conns s)" "rpc_blocked (sv_conns s ! i) \<or> reader_blocked (sv_conns s ! i)"
  shows "rpc_blocked (sv_conns s' ! i) \<or> reader_blocked (sv_conns s' ! i)"
  using assms(3) rpc_leak.keeps [OF assms(1,2)] reader_leak.keeps [OF assms(1,2)] by blast

theorem goroutines_blocked_forever_witness:
  "\<exists>s s'. server_reach xor_crypto (genesis_node Regtest) (newServer sample_mux) s \<and> server_reach xor_crypto (genesis_node Regtest) s s'
     \<and> cn_ctx (sv_conns s' ! 0) \<and> (rpc_blocked (sv_conns s' ! 0) \<or> reader_blocked (sv_conns s' ! 0))"
proof -
  obtain s where s: "server_reach xor_crypto (genesis_node Regtest) (newServer sample_mux) s" "length (sv_conns s) = 1" "reader_blocked (sv_conns s ! 0)"
    using reader_blocked_reachable by blast
  let ?s' = "s\<lparr>sv_conns := map (\<lambda>c. c\<lparr>cn_ctx := True\<rparr>) (sv_conns s)\<rparr>"
  have r: "server_reach xor_crypto (genesis_node Regtest) s ?s'"
    by (rule server_reach.step [OF server_reach.start server_step.shutdown])
  have "0 < length (sv_conns s)" using s(2) by simp
  from goroutines_blocked_forever [OF r this disjI2 [OF s(3)]] s(1,2) r show ?thesis by (intro exI [of _ s] exI [of _ ?s']) simp
qed

text \<open>C25. Two live connections can have one number, because the goroutines of \<open>run\<close> share the variable \<open>connId\<close>: after two
  connections are accepted before their goroutines start, both are number 2, and every notification for it goes to the second.\<close>

theorem connId_shared:
  "\<exists>s. server_reach C N (newServer m) s \<and> length (sv_conns s) = 2 \<and> cn_live (sv_conns s ! 0) \<and> cn_live (sv_conns s ! 1)
     \<and> cn_id (sv_conns s ! 0) = Some 2 \<and> cn_id (sv_conns s ! 1) = Some 2
     \<and> (\<forall>n. cn_notC (sv_conns (snd (Notify 2 n s)) ! 0) = None \<and> cn_notC (sv_conns (snd (Notify 2 n s)) ! 1) = Some (withVersion n))"
proof -
  let ?c = "newConn []" and ?d = "(newConn [])\<lparr>cn_id := Some 2, cn_live := True\<rparr>"
  have "server_reach C N (newServer m) ((newServer m)\<lparr>sv_conns := [?c], sv_connId := 1\<rparr>)"
    using server_reach.step [OF server_reach.start server_step.accept [of C N "newServer m" "[]"]] by (simp add: newServer_def)
  from server_reach.step [OF this server_step.accept [of _ _ _ "[]"]]
  have "server_reach C N (newServer m) ((newServer m)\<lparr>sv_conns := [?c, ?c], sv_connId := 2\<rparr>)" by simp
  from server_reach.step [OF this server_step.begin_conn [of 0]]
  have "server_reach C N (newServer m) ((newServer m)\<lparr>sv_conns := [?d, ?c], sv_connId := 2, sv_connections := [2 \<mapsto> 0]\<rparr>)"
    by (simp add: updConn_def newServer_def newConn_def)
  from server_reach.step [OF this server_step.begin_conn [of 1]]
  have "server_reach C N (newServer m) ((newServer m)\<lparr>sv_conns := [?d, ?d], sv_connId := 2, sv_connections := [2 \<mapsto> 1]\<rparr>)"
    by (simp add: updConn_def newServer_def newConn_def)
  then show ?thesis
    by (intro exI [of _ "(newServer m)\<lparr>sv_conns := [?d, ?d], sv_connId := 2, sv_connections := [2 \<mapsto> 1]\<rparr>"])
      (simp add: Notify_def trySend_def updConn_def newConn_def)
qed

text \<open>C5. Notifications from the block to the connection. When a block that is processed without error adds to the history of a
  script hash, then for every registered connection that is subscribed to it one of the callbacks of the block names the script
  hash and its status after the block, and calling it, whatever the goroutines did in between, puts that notification into the
  channel of the connection if no other waits there; if one waits, it stays and the new one is dropped (\<open>Notify\<close>, which does
  not wait). So when all callbacks of the block are called and the writer takes nothing meanwhile, a connection that had nothing
  waiting is left with a notification of a script hash it is subscribed to, with its status after the block: the one of this
  script hash if it has no other subscription, and else perhaps only another one that the block touched.\<close>

theorem block_notifies_clients:
  assumes "server_reach C N (newServer m0) s" "sv_connections s cid = Some i"
    and "cb_inv (sv_mux s)" "wm_inv C V (mx_w (sv_mux s))" "has_header block (db (mx_w (sv_mux s)))" "distinct (TXIDs block)"
    and "block_outputs V block" "processBlock C block ht (mx_w (sv_mux s)) = (Inr (), w')"
    and "(sh, txid) \<in> set (stx_tbl (db w'))" "(sh, txid) \<notin> set (stx_tbl (db (mx_w (sv_mux s))))"
    and "subscribed (mx_w (sv_mux s)) cid sh"
  shows "(\<exists>ev\<in>set (blockEvents (mx_w (sv_mux s)) w').
      \<forall>t. registered t \<and> prefix (closures (sv_mux s)) (closures (sv_mux t)) \<and> sv_connections t cid = Some i \<longrightarrow>
        cn_notC (sv_conns (runCallback ev t) ! i) =
          Some (case cn_notC (sv_conns t ! i) of None \<Rightarrow> withVersion (statusNotice w' cid sh) | Some n \<Rightarrow> n))
    \<and> (cn_notC (sv_conns s ! i) = None \<longrightarrow>
        (\<exists>sh'. subscribed (mx_w (sv_mux s)) cid sh' \<and>
          cn_notC (sv_conns (fold runCallback (blockEvents (mx_w (sv_mux s)) w') (s\<lparr>sv_mux := (sv_mux s)\<lparr>mx_w := w'\<rparr>\<rparr>)) ! i) =
            Some (withVersion (statusNotice w' cid sh'))))"
proof -
  let ?m = "sv_mux s" and ?evs = "blockEvents (mx_w (sv_mux s)) w'"
  let ?s' = "s\<lparr>sv_mux := (sv_mux s)\<lparr>mx_w := w'\<rparr>\<rparr>"
  have reg: "registered s" by (rule registered_reach [OF assms(1)])
  obtain n where n: "StatusEvent n (statusOf w' sh) \<in> set ?evs" "n < length (closures ?m)" "closures ?m ! n = StatusCb cid sh"
    by (rule block_event_for [OF assms(3-11)])
  have "cn_notC (sv_conns (runCallback (StatusEvent n (statusOf w' sh)) t) ! i) =
      Some (case cn_notC (sv_conns t ! i) of None \<Rightarrow> withVersion (statusNotice w' cid sh) | Some n \<Rightarrow> n)"
    if t: "registered t" "prefix (closures ?m) (closures (sv_mux t))" "sv_connections t cid = Some i" for t
  proof -
    from t(2) n(2,3) have "n < length (closures (sv_mux t))" "closures (sv_mux t) ! n = StatusCb cid sh"
      by (auto simp: prefix_def nth_append)
    from notesFor_status [OF this] show ?thesis
      using runCallback_notC [OF t(3,1)] by (simp add: statusNotice_def split: option.split)
  qed
  moreover have "\<exists>sh'. subscribed (mx_w ?m) cid sh' \<and>
      cn_notC (sv_conns (fold runCallback ?evs ?s') ! i) = Some (withVersion (statusNotice w' cid sh'))"
    if "cn_notC (sv_conns s ! i) = None"
  proof -
    let ?m' = "?m\<lparr>mx_w := w'\<rparr>"
    have "callback ?m' = callback ?m" by (rule ext) (simp add: callback_def split: event.split)
    then have nf: "notesFor ?m' cid' evs = notesFor ?m cid' evs" for cid' evs by (simp only: notesFor_def)
    have "snd (statusNote cid sh (statusOf w' sh)) \<in> set (notesFor ?m' cid ?evs)"
      unfolding nf notesFor_in [of _ _ _ ?evs] using notesFor_status [OF n(2,3), of cid] by (intro bexI [OF _ n(1)]) simp
    then obtain x xs where x: "notesFor ?m' cid ?evs = x # xs" by (cases "notesFor ?m' cid ?evs") auto
    then have "x \<in> set (notesFor ?m' cid ?evs)" by simp
    then obtain ev where ev: "ev \<in> set ?evs" "x \<in> set (notesFor ?m cid [ev])" unfolding nf notesFor_in [of _ _ _ ?evs] by blast
    obtain cid' sh' k where e: "subscribed (mx_w ?m) cid' sh'" "ev = StatusEvent k (statusOf w' sh')" "k < length (closures ?m)"
        "closures ?m ! k = StatusCb cid' sh'"
      by (rule blockEvents_callback [OF assms(3-8) ev(1)])
    with ev(2) have "cid' = cid" "x = statusNotice w' cid sh'"
      using notesFor_status [OF e(3,4), of cid] by (auto simp: statusNotice_def split: if_splits)
    moreover have "cn_notC (sv_conns (fold runCallback ?evs ?s') ! i) = Some (withVersion x)"
      using fold_runCallback_notC [of ?s' cid i ?evs] reg assms(2) that x by (simp add: registered_def)
    ultimately show ?thesis using e(1) by blast
  qed
  ultimately show ?thesis using n(1) by blast
qed

text \<open>Connection number 1, with nothing waiting, is subscribed to the script that the sample block pays: after the callbacks of the
  block its channel holds the notification of that script.\<close>

theorem block_notifies_clients_witness:
  "\<exists>s p w'. server_reach xor_crypto (genesis_node Regtest) (newServer (sv_mux s)) s \<and> sv_connections s 1 = Some 0
     \<and> processBlock xor_crypto (sample_pay_block p) 11 (mx_w (sv_mux s)) = (Inr (), w')
     \<and> cn_notC (sv_conns (fold runCallback (blockEvents (mx_w (sv_mux s)) w') (s\<lparr>sv_mux := (sv_mux s)\<lparr>mx_w := w'\<rparr>\<rparr>)) ! 0)
       = Some (withVersion (statusNotice w' 1 (Sum256 p)))"
proof -
  obtain w0 :: W and p where w0: "wm_inv xor_crypto (sample_V p) w0" "Sum256 p \<in> dom (scriptPubkeys w0)" "ready xor_crypto 1 w0"
      "stx_tbl (db w0) = []"
      "blockheader_tbl (db w0) = [\<lparr>bh_Hash = Block_Hash (sample_pay_block p), bh_Height = 11, bh_Serialized = Block_bytes80 (sample_pay_block p)\<rparr>]"
    using sample_state by blast
  define m where "m = add_status_cb 1 (Sum256 p) \<lparr>mx_w = w0\<lparr>hSubs := [], shSubs := []\<rparr>, closures = []\<rparr>"
  have m: "wm_inv xor_crypto (sample_V p) (mx_w m)" "ready xor_crypto 1 (mx_w m)" "stx_tbl (db (mx_w m)) = []"
      "shSubs (mx_w m) = [(Sum256 p, [(1, 0)])]"
      "blockheader_tbl (db (mx_w m)) = [\<lparr>bh_Hash = Block_Hash (sample_pay_block p), bh_Height = 11, bh_Serialized = Block_bytes80 (sample_pay_block p)\<rparr>]"
      "Sum256 p \<in> dom (scriptPubkeys (mx_w m))"
    using w0 by (simp_all add: m_def add_status_cb_def ScriptHashSubscribe_def shSubscribers_def wm_inv_def ready_def cache_inv_def unspent_map_def spk_inv_def)
  have only: "subscribed (mx_w m) 1 h \<longleftrightarrow> h = Sum256 p" for h
    by (simp add: subscribed_def shSubscribers_def m(4))
  have cb: "cb_inv m" unfolding m_def using add_status_cb_good cb_inv_fresh [of "w0\<lparr>hSubs := [], shSubs := []\<rparr>" "[]"] by simp
  obtain w' where w': "processBlock xor_crypto (sample_pay_block p) 11 (mx_w m) = (Inr (), w')"
    using sample_processed(2) [OF m(1,2,5)] by blast
  have link: "(Sum256 p, Txid (sample_pay_tx p)) \<in> set (stx_tbl (db w'))"
    using conjunct1 [OF processBlock_history_steps [OF m(1) sample_processed(1) [OF m(1,2,5)] sample_block_facts(1,2) w']] m(6)
    by (simp add: sample_block_facts(3,4,6) ball_simps)
  define s where "s = (newServer m)\<lparr>sv_conns := [(newConn [])\<lparr>cn_id := Some 1, cn_live := True\<rparr>], sv_connId := 1, sv_connections := [1 \<mapsto> 0]\<rparr>"
  have "server_reach xor_crypto (genesis_node Regtest) (newServer m) ((newServer m)\<lparr>sv_conns := [newConn []], sv_connId := 1\<rparr>)"
    using server_reach.step [OF server_reach.start server_step.accept [of _ _ "newServer m" "[]"]] by (simp add: newServer_def)
  from server_reach.step [OF this server_step.begin_conn [of 0]]
  have reach: "server_reach xor_crypto (genesis_node Regtest) (newServer m) s"
    by (simp add: s_def updConn_def newServer_def newConn_def)
  have s: "sv_mux s = m" "sv_connections s 1 = Some 0" "cn_notC (sv_conns s ! 0) = None"
    by (simp_all add: s_def newServer_def newConn_def)
  from block_notifies_clients [OF reach s(2), unfolded s(1), OF cb m(1) sample_processed(1) [OF m(1,2,5)] sample_block_facts(1,2) w' link]
  have "cn_notC (sv_conns (fold runCallback (blockEvents (mx_w m) w') (s\<lparr>sv_mux := m\<lparr>mx_w := w'\<rparr>\<rparr>)) ! 0)
       = Some (withVersion (statusNotice w' 1 (Sum256 p)))"
    using only s(3) m(3) by auto
  then show ?thesis using reach s(1,2) w' by blast
qed

end
