(* ===== verification/JsonWire.thy ===== *)
theory JsonWire
  imports Jsonrpc
begin

text \<open>
  What is written can be read: whatever valid value the encoder compacts, the scanner reads back, so a message that one side writes
  is the message the other side reads, its raw fields compacted.
\<close>

section \<open>What the scanner accepts\<close>

text \<open>Values with at most \<open>d\<close> levels whose literals are well formed; the texts of arrays and objects may have spaces.\<close>

fun wf_value :: "int \<Rightarrow> json \<Rightarrow> bool" where
  "wf_value d (JNum t) = numText t"
| "wf_value d (JStr s) = strText s"
| "wf_value d (JArr t vs) = (0 < d \<and> list_all (wf_value (d - 1)) vs)"
| "wf_value d (JObj t ms) = (0 < d \<and> list_all (\<lambda>(k, v). strText k \<and> wf_value (d - 1) v) ms)"
| "wf_value d _ = True"

lemma scanString_truncate: "scanString st s = Some (x, r) \<Longrightarrow> scanString st (x @ [0x22]) = Some (x, [])"
proof (induction st s arbitrary: x r rule: scanString.induct)
  case (2 c cs)
  consider "c = 0x22" | "c = 0x5c" | "c \<noteq> 0x22" "c \<noteq> 0x5c" by blast
  then show ?case
  proof cases
    case 1
    with 2(3) show ?thesis by simp
  next
    case c: 2
    with 2(3) obtain xs where "scanString InEsc cs = Some (xs, r)" "x = c # xs" by (auto simp: consTo_Some_iff)
    with 2(1) c show ?thesis by (simp add: consTo_def)
  next
    case c: 3
    with 2(3) have n: "\<not> c < 0x20" by auto
    with 2(3) c obtain xs where "scanString InString cs = Some (xs, r)" "x = c # xs" by (auto simp: consTo_Some_iff)
    with 2(2) c n show ?thesis by (simp add: consTo_def)
  qed
next
  case (3 c cs)
  show ?case
  proof (cases "isEscape c")
    case True
    with 3(3) obtain xs where "scanString InString cs = Some (xs, r)" "x = c # xs" by (auto simp: consTo_Some_iff)
    with 3(1) True show ?thesis by (simp add: consTo_def)
  next
    case False
    then have "c = 0x75" using 3(3) by (auto split: if_splits)
    with 3(3) False obtain xs where "scanString (InEscU 3) cs = Some (xs, r)" "x = c # xs" by (auto simp: consTo_Some_iff)
    with 3(2) False \<open>c = 0x75\<close> show ?thesis by (simp add: consTo_def)
  qed
next
  case (4 n c cs)
  then have h: "isHex c" by (auto split: if_splits)
  with 4(2) obtain xs where "scanString (if n = 0 then InString else InEscU (n - 1)) cs = Some (xs, r)" "x = c # xs" by (auto simp: consTo_Some_iff)
  with 4(1) h show ?case by (simp add: consTo_def)
qed simp

lemma takeWhile_truncate: "takeWhile P (i @ q @ r) = i \<Longrightarrow> takeWhile P (i @ q) = i"
proof (induction i)
  case Nil
  then show ?case by (cases q) (simp_all split: if_splits)
next
  case (Cons a i)
  then have "P a" by (metis append_Cons list.simps(3) takeWhile.simps(2))
  with Cons show ?case by simp
qed

lemma scanInt_truncate: "scanInt (u @ r) = Some (i, q @ r) \<Longrightarrow> scanInt u = Some (i, q)"
proof -
  assume a: "scanInt (u @ r) = Some (i, q @ r)"
  then have u: "u = i @ q" "i \<noteq> []" using scanInt_text by force+
  then obtain c cs where i: "i = c # cs" by (cases i) auto
  show ?thesis
  proof (cases "c = 0x30")
    case True
    with a u i show ?thesis by (auto simp: scanInt_def split: if_splits)
  next
    case False
    with a u i have t: "isDigit c" "takeWhile isDigit (i @ q @ r) = i" by (auto simp: scanInt_def split: if_splits)
    from takeWhile_truncate [OF t(2)] have "takeWhile isDigit (i @ q) = i" .
    moreover from this have "dropWhile isDigit (i @ q) = q" by (metis append_eq_append_conv takeWhile_dropWhile_id)
    ultimately show ?thesis using False t(1) u i by (simp add: scanInt_def)
  qed
qed

lemma scanFrac_truncate: "scanFrac (u @ r) = Some (f, q @ r) \<Longrightarrow> scanFrac u = Some (f, q)"
proof -
  assume a: "scanFrac (u @ r) = Some (f, q @ r)"
  then have u: "u = f @ q" using scanFrac_text by force
  show ?thesis
  proof (cases f)
    case Nil
    with a u show ?thesis by (cases q) (auto simp: scanFrac_def split: if_splits list.splits)
  next
    case (Cons c cs)
    with a u have t: "c = 0x2e" "takeWhile isDigit (cs @ q @ r) = cs" "cs \<noteq> []" by (auto simp: scanFrac_def split: if_splits)
    from takeWhile_truncate [OF t(2)] have "takeWhile isDigit (cs @ q) = cs" .
    moreover from this have "dropWhile isDigit (cs @ q) = q" by (metis append_eq_append_conv takeWhile_dropWhile_id)
    ultimately show ?thesis using t u Cons by (simp add: scanFrac_def)
  qed
qed

lemma scanExp_truncate: "scanExp (u @ r) = Some (x, r) \<Longrightarrow> scanExp u = Some (x, [])"
proof -
  assume a: "scanExp (u @ r) = Some (x, r)"
  then have u: "u = x" using scanExp_text by force
  show ?thesis
  proof (cases x)
    case Nil
    with u show ?thesis by (simp add: scanExp_def)
  next
    case (Cons c cs)
    define sg where "sg cs = (if cs \<noteq> [] \<and> (hd cs = 0x2b \<or> hd cs = 0x2d) then [hd cs] else [])" for cs :: bytes
    have c: "c = 0x65 \<or> c = 0x45" using a u Cons by (auto simp: scanExp_def split: if_splits)
    then have "scanExp (c # cs @ r) = (let r' = drop (length (sg (cs @ r))) (cs @ r) in if takeWhile isDigit r' = [] then None
        else Some (c # sg (cs @ r) @ takeWhile isDigit r', dropWhile isDigit r'))"
      by (auto simp: scanExp_def sg_def Let_def)
    with a u Cons have e: "cs = sg (cs @ r) @ takeWhile isDigit (drop (length (sg (cs @ r))) (cs @ r))"
        "takeWhile isDigit (drop (length (sg (cs @ r))) (cs @ r)) \<noteq> []"
      by (auto simp: Let_def split: if_splits)
    then have "cs \<noteq> []" by auto
    then have s: "sg (cs @ r) = sg cs" by (cases cs) (auto simp: sg_def)
    have le: "length (sg cs) \<le> length cs" by (cases cs) (auto simp: sg_def)
    let ?ds = "drop (length (sg cs)) cs"
    have sp: "cs = sg cs @ ?ds" by (cases cs) (auto simp: sg_def)
    with e s le have "?ds = takeWhile isDigit (?ds @ r)" "?ds \<noteq> []" by (metis append_same_eq same_append_eq drop_append diff_is_0_eq drop_0)+
    then have "takeWhile isDigit ?ds = ?ds" using takeWhile_truncate [of isDigit ?ds "[]" r] by simp
    moreover from this have "dropWhile isDigit ?ds = []" by (metis append_self_conv takeWhile_dropWhile_id)
    moreover have "scanExp (c # cs) = (if takeWhile isDigit ?ds = [] then None else Some (c # sg cs @ takeWhile isDigit ?ds, dropWhile isDigit ?ds))"
      using c by (auto simp: scanExp_def sg_def Let_def)
    ultimately show ?thesis unfolding u Cons using sp \<open>?ds \<noteq> []\<close> by metis
  qed
qed


lemma scanNumber_truncate:
  assumes "scanNumber s = Some (t, r)"
  shows "numText t"
proof -
  define sg where "sg s = (if s \<noteq> [] \<and> hd s = 0x2d then [0x2d :: byte] else [])" for s :: bytes
  have sn: "scanNumber u = (case scanInt (drop (length (sg u)) u) of None \<Rightarrow> None | Some (i, r) \<Rightarrow> (case scanFrac r of None \<Rightarrow> None
      | Some (f, r) \<Rightarrow> (case scanExp r of None \<Rightarrow> None | Some (e, r) \<Rightarrow> Some (sg u @ i @ f @ e, r))))" for u
    by (simp only: scanNumber_def sg_def Let_def)
  from assms obtain i r1 f r2 e where p: "scanInt (drop (length (sg s)) s) = Some (i, r1)" "scanFrac r1 = Some (f, r2)" "scanExp r2 = Some (e, r)" "t = sg s @ i @ f @ e"
    unfolding sn by (auto split: option.splits)
  have q: "drop (length (sg s)) s = i @ r1" "r1 = f @ r2" "r2 = e @ r" "i \<noteq> []"
    using scanInt_text [OF p(1)] scanFrac_text [OF p(2)] scanExp_text [OF p(3)] by simp_all
  have "hd i \<noteq> 0x2d" if "sg s = []"
    using that q(1,4) by (cases s; cases i) (auto simp: sg_def split: if_splits)
  then have s: "sg t = sg s" "drop (length (sg t)) t = i @ f @ e"
    using p(4) q(4) by (cases "sg s = []"; auto simp: sg_def hd_append split: if_splits)+
  have "scanInt (i @ f @ e) = Some (i, f @ e)" using scanInt_truncate [of "i @ f @ e" r i "f @ e"] p(1) q by simp
  moreover have "scanFrac (f @ e) = Some (f, e)" using scanFrac_truncate [of "f @ e" r f e] p(2) q by simp
  moreover have "scanExp e = Some (e, [])" using scanExp_truncate [of e r e] p(3) q by simp
  ultimately show ?thesis using p(4) s unfolding numText_def sn by simp
qed

lemma parse_wf:
  "parseValue n d s = Some (v, r) \<Longrightarrow> wf_value d v"
  "parseElems n d s = Some (vs, r) \<Longrightarrow> list_all (wf_value d) vs"
  "parseMembers n d s = Some (ms, r) \<Longrightarrow> list_all (\<lambda>(k, v). strText k \<and> wf_value d v) ms"
proof (induction n d s and n d s and n d s arbitrary: v r and vs r and ms r rule: parseValue_parseElems_parseMembers.induct)
  case (2 n d s)
  then obtain c cs where s: "s = c # cs" by (cases s) auto
  consider "c = 0x22" | "c = 0x5b" | "c = 0x7b" | "c = 0x6e \<or> c = 0x74 \<or> c = 0x66"
    | "c \<notin> {0x22, 0x5b, 0x7b, 0x6e, 0x74, 0x66}" by blast
  then show ?case
  proof cases
    case 1
    with 2(3) s show ?thesis by (auto simp: strText_def dest: scanString_truncate)
  next
    case c: 2
    with 2(3) s obtain c' cs' where sk: "0 < d" "skipSpace cs = c' # cs'" by (auto split: if_splits list.splits)
    show ?thesis
    proof (cases "c' = 0x5d")
      case False
      with 2(3) s c sk obtain vs where e: "parseElems n (d - 1) (c' # cs') = Some (vs, r)" "v = JArr (consumed s r) vs" by auto
      with 2(1) [OF s _ c _ sk(2) False] c sk have "list_all (wf_value (d - 1)) vs" by simp
      with e(2) sk(1) show ?thesis by simp
    qed (use 2(3) s c sk in auto)
  next
    case c: 3
    with 2(3) s obtain c' cs' where sk: "0 < d" "skipSpace cs = c' # cs'" by (auto split: if_splits list.splits)
    show ?thesis
    proof (cases "c' = 0x7d")
      case False
      with 2(3) s c sk obtain ms where e: "parseMembers n (d - 1) (c' # cs') = Some (ms, r)" "v = JObj (consumed s r) ms" by auto
      with 2(2) [OF s _ _ c _ sk(2) False] c sk have "list_all (\<lambda>(k, v). strText k \<and> wf_value (d - 1) v) ms" by simp
      with e(2) sk(1) show ?thesis by simp
    qed (use 2(3) s c sk in auto)
  next
    case 4
    with 2(3) s show ?thesis by (auto dest!: scanLit_text)
  next
    case 5
    with 2(3) s show ?thesis by (auto dest: scanNumber_truncate)
  qed
next
  case (4 n d s)
  then obtain v r1 c cs where p: "parseValue n d s = Some (v, r1)" "skipSpace r1 = c # cs" by (auto split: option.splits list.splits)
  from 4(1) [OF p(1)] have v: "wf_value d v" .
  show ?case
  proof (cases "c = 0x2c")
    case True
    with 4(3) p obtain vs' where e: "parseElems n d (skipSpace cs) = Some (vs', r)" "vs = v # vs'" by (auto simp: consTo_Some_iff)
    from 4(2) [OF p(1) _ p(2) True e(1)] v e(2) show ?thesis by simp
  qed (use 4(3) p v in \<open>auto split: if_splits\<close>)
next
  case (6 n d s)
  then obtain cs k r1 c1 cs1 v r2 c2 cs2 where p: "s = 0x22 # cs" "scanString InString cs = Some (k, r1)" "skipSpace r1 = c1 # cs1" "c1 = 0x3a"
      "parseValue n d (skipSpace cs1) = Some (v, r2)" "skipSpace r2 = c2 # cs2"
    by (auto split: option.splits list.splits if_splits)
  have v: "wf_value d v" using 6(1) [OF p(1) _ p(2) _ p(3) _ p(5)] p(4) by simp
  have k: "strText k" using scanString_truncate [OF p(2)] by (simp add: strText_def)
  show ?case
  proof (cases "c2 = 0x2c")
    case True
    with 6(3) p obtain ms' where e: "parseMembers n d (skipSpace cs2) = Some (ms', r)" "ms = (k, v) # ms'" by (auto simp: consTo_Some_iff)
    from 6(2) [OF p(1) _ p(2) _ p(3) _ p(5) _ p(6) True e(1)] p(4) e(2) v k show ?thesis by simp
  qed (use 6(3) p v k in \<open>auto split: if_splits\<close>)
qed simp_all

section \<open>Compacted values\<close>

text \<open>What the encoder makes of a value: the texts of its strings escaped for HTML, no spaces.\<close>

fun wire :: "json \<Rightarrow> json" where
  "wire (JStr s) = JStr (escapeHTML s)"
| "wire (JArr t vs) = JArr (render (JArr [] (map wire vs))) (map wire vs)"
| "wire (JObj t ms) = JObj (render (JObj [] (map (\<lambda>(k, v). (escapeHTML k, wire v)) ms))) (map (\<lambda>(k, v). (escapeHTML k, wire v)) ms)"
| "wire v = v"

definition plainStart :: "bytes \<Rightarrow> bool" where
  "plainStart s \<longleftrightarrow> s = [] \<or> hd s < 0x80"

lemma escapeHTML_append: "plainStart b \<Longrightarrow> escapeHTML (a @ b) = escapeHTML a @ escapeHTML b"
proof (induction a rule: escapeHTML.induct)
  case (2 c cs)
  have n: "b = [] \<or> b ! 0 \<noteq> 0x80 \<and> b ! 0 \<noteq> 0xA8 \<and> b ! 0 \<noteq> 0xA9"
    using 2(4) by (cases b) (auto simp: plainStart_def word_less_nat_alt)
  consider "c = 0x3c \<or> c = 0x3e \<or> c = 0x26" | "c \<notin> {0x3c, 0x3e, 0x26}" "c = 0xE2" | "c \<notin> {0x3c, 0x3e, 0x26, 0xE2}" by blast
  then show ?case
  proof cases
    case c: 2
    show ?thesis
    proof (cases "2 \<le> length cs \<and> cs ! 0 = 0x80 \<and> (cs ! 1 = 0xA8 \<or> cs ! 1 = 0xA9)")
      case True
      then obtain x y zs where "cs = x # y # zs" by (cases cs rule: remdups_adj.cases) auto
      with 2(2) 2(4) True c show ?thesis by simp
    next
      case False
      with n have "\<not> (2 \<le> length (cs @ b) \<and> (cs @ b) ! 0 = 0x80 \<and> ((cs @ b) ! 1 = 0xA8 \<or> (cs @ b) ! 1 = 0xA9))"
        by (cases cs rule: remdups_adj.cases) (auto simp: nth_append Suc_le_eq split: if_splits)
      with 2 c False show ?thesis by simp
    qed
  qed (use 2 in auto)
qed simp

lemma escapeHTML_plain: "list_all (\<lambda>c. c \<noteq> 0x3c \<and> c \<noteq> 0x3e \<and> c \<noteq> 0x26 \<and> c \<noteq> 0xE2) s \<Longrightarrow> escapeHTML s = s"
  by (induction s) auto

lemma numText_chars:
  assumes "numText t"
  shows "list_all (\<lambda>c. isDigit c \<or> c \<in> {0x2b, 0x2d, 0x2e, 0x45, 0x65}) t"
proof -
  define ok where "ok c \<longleftrightarrow> isDigit c \<or> c \<in> {0x2b, 0x2d, 0x2e, 0x45, 0x65 :: byte}" for c
  have d: "list_all ok (takeWhile isDigit u)" for u
    using set_takeWhileD by (fastforce simp: list_all_iff ok_def)
  define sg where "sg s = (if s \<noteq> [] \<and> hd s = 0x2d then [0x2d :: byte] else [])" for s :: bytes
  from assms obtain i r1 f r2 e where p: "scanInt (drop (length (sg t)) t) = Some (i, r1)" "scanFrac r1 = Some (f, r2)" "scanExp r2 = Some (e, [])" "t = sg t @ i @ f @ e"
    by (auto simp: numText_def scanNumber_def Let_def simp flip: sg_def split: option.splits)
  have "list_all ok i" using p(1) d by (auto simp: scanInt_def isDigit_def ok_def split: list.splits if_splits)
  moreover have "list_all ok f" using p(2) d by (auto simp: scanFrac_def ok_def split: list.splits if_splits)
  moreover have "list_all ok e" using p(3) d by (auto simp: scanExp_def ok_def Let_def split: list.splits if_splits)
  moreover have "list_all ok (sg t)" by (simp add: sg_def ok_def)
  ultimately have "list_all ok (sg t @ i @ f @ e)" by simp
  then show ?thesis using p(4) by (simp add: ok_def [abs_def])
qed

lemma escapeHTML_number: "numText t \<Longrightarrow> escapeHTML t = t"
  by (rule escapeHTML_plain, drule numText_chars) (auto simp: list_all_iff isDigit_def)

lemma escapeHTML_commas:
  assumes "\<forall>x\<in>set xs. plainStart x"
  shows "escapeHTML (commas xs) = commas (map escapeHTML xs)"
  using assms
proof (induction xs rule: commas.induct)
  case (3 x y xs)
  then show ?case by (simp add: escapeHTML_append plainStart_def)
qed simp_all

lemma plainStart_render: "wf_value d v \<Longrightarrow> plainStart (render v)"
proof (cases v)
  case (JNum t)
  assume "wf_value d v"
  with JNum numText_start [of t] show ?thesis by (auto simp: plainStart_def isDigit_def word_less_nat_alt word_le_nat_alt)
qed (auto simp: plainStart_def quoted_def lit_null_def lit_true_def lit_false_def)

lemma escapeHTML_quoted: "escapeHTML (quoted s) = quoted (escapeHTML s)"
  using escapeHTML_append [of "[0x22]" s] by (simp add: quoted_def plainStart_def)

lemma render_wire: "wf_value d v \<Longrightarrow> render (wire v) = escapeHTML (render v)"
proof (induction v arbitrary: d)
  case (JNum t)
  then show ?case by (simp add: escapeHTML_number)
next
  case (JStr s)
  then show ?case by (simp add: escapeHTML_quoted)
next
  case (JArr t vs)
  have m: "map (\<lambda>v. render (wire v)) vs = map (\<lambda>v. escapeHTML (render v)) vs"
    using JArr by (auto simp: list_all_iff)
  have "\<forall>x\<in>set (map render vs). plainStart x" using JArr.prems plainStart_render by (auto simp: list_all_iff)
  from escapeHTML_commas [OF this] m show ?case
    by (simp add: escapeHTML_append plainStart_def comp_def del: map_eq_conv)
next
  case (JObj t ms)
  have m: "map (member \<circ> (\<lambda>(k, v). (escapeHTML k, wire v))) ms = map (escapeHTML \<circ> member) ms"
  proof (rule map_cong [OF refl])
    fix m assume "m \<in> set ms"
    obtain k v where kv: "m = (k, v)" by force
    with \<open>m \<in> set ms\<close> JObj have "render (wire v) = escapeHTML (render v)" "plainStart (render v)"
      using plainStart_render by (fastforce simp: list_all_iff)+
    then show "(member \<circ> (\<lambda>(k, v). (escapeHTML k, wire v))) m = (escapeHTML \<circ> member) m"
      using kv escapeHTML_append [of "0x3a # render v" "quoted k"] by (simp add: escapeHTML_append escapeHTML_quoted plainStart_def)
  qed
  have "\<forall>x\<in>set (map member ms). plainStart x" by (auto simp: plainStart_def quoted_def)
  from escapeHTML_commas [OF this] m show ?case
    by (simp add: escapeHTML_append plainStart_def del: map_eq_conv)
qed (auto simp: lit_null_def lit_true_def lit_false_def)

lemma lowerHex_isHex: "n < 16 \<Longrightarrow> isHex (lowerHex n)"
proof -
  have "list_all (\<lambda>n. isHex (lowerHex n)) [0..<16]" by code_simp
  then show "n < 16 \<Longrightarrow> isHex (lowerHex n)" by (simp add: list_all_iff)
qed

text \<open>Escaping changes nothing the scanner looks at: only characters inside a string.\<close>

definition strNext :: "strState \<Rightarrow> byte \<Rightarrow> strState option" where
  "strNext st c = (case st of
       InString \<Rightarrow> if c = 0x22 then None else if c = 0x5c then Some InEsc else if c < 0x20 then None else Some InString
     | InEsc \<Rightarrow> if isEscape c then Some InString else if c = 0x75 then Some (InEscU 3) else None
     | InEscU n \<Rightarrow> if isHex c then Some (if n = 0 then InString else InEscU (n - 1)) else None)"

lemma scanString_Cons:
  "scanString st (c # s) = (if st = InString \<and> c = 0x22 then Some ([], s)
     else case strNext st c of None \<Rightarrow> None | Some st' \<Rightarrow> consTo c (scanString st' s))"
  by (cases st) (simp_all add: strNext_def)

definition accepted :: "strState \<Rightarrow> bytes \<Rightarrow> bool" where
  "accepted st x \<longleftrightarrow> scanString st (x @ [0x22]) = Some (x, [])"

lemma accepted_Cons: "accepted st (c # x) \<longleftrightarrow> (\<exists>st'. strNext st c = Some st' \<and> accepted st' x)"
  by (auto simp: accepted_def scanString_Cons [of st c] consTo_Some_iff strNext_def [of InString] split: option.splits)

lemma strNext_special:
  assumes "c \<in> {0x3c, 0x3e, 0x26, 0xE2, 0x80, 0xA8, 0xA9}"
  shows "strNext st c = Some st' \<longleftrightarrow> st = InString \<and> st' = InString"
proof -
  have "list_all (\<lambda>c. \<not> isEscape c \<and> c \<noteq> 0x75 \<and> \<not> isHex c \<and> c \<noteq> 0x22 \<and> c \<noteq> 0x5c \<and> \<not> c < 0x20) [0x3c, 0x3e, 0x26, 0xE2, 0x80, 0xA8, 0xA9]"
    by code_simp
  with assms have "\<not> isEscape c \<and> c \<noteq> 0x75 \<and> \<not> isHex c \<and> c \<noteq> 0x22 \<and> c \<noteq> 0x5c \<and> \<not> c < 0x20"
    unfolding list_all_iff by (simp only: set_simps) blast
  then show ?thesis by (cases st) (auto simp: strNext_def)
qed

lemma strNext_esc:
  "strNext InString 0x5c = Some InEsc" "strNext InEsc 0x75 = Some (InEscU 3)"
  "isHex c \<Longrightarrow> strNext (InEscU n) c = Some (if n = 0 then InString else InEscU (n - 1))"
  by (simp_all add: strNext_def isEscape_def)

lemma accepted_esc: "isHex a \<Longrightarrow> isHex b \<Longrightarrow> isHex c \<Longrightarrow> isHex d \<Longrightarrow> accepted InString x \<Longrightarrow> accepted InString (0x5c # 0x75 # a # b # c # d # x)"
  by (simp add: accepted_Cons strNext_esc)

lemma accepted_escapeHTML: "accepted st x \<Longrightarrow> accepted st (escapeHTML x)"
proof (induction x arbitrary: st rule: escapeHTML.induct)
  case (2 c cs)
  from 2(4) obtain st' where s: "strNext st c = Some st'" "accepted st' cs" by (auto simp: accepted_Cons)
  have h: "isHex 0x30" "isHex 0x32" by (simp_all add: isHex_def hexVal_def)
  have l: "isHex (lowerHex (unat d mod 16))" "isHex (lowerHex (unat d div 16))" for d :: byte
    using unsigned_less [of d, where 'a = nat] by (intro lowerHex_isHex; simp)+
  consider "c = 0x3c \<or> c = 0x3e \<or> c = 0x26"
    | "c = 0xE2" "2 \<le> length cs" "cs ! 0 = 0x80" "cs ! 1 = 0xA8 \<or> cs ! 1 = 0xA9"
    | "\<not> (c = 0x3c \<or> c = 0x3e \<or> c = 0x26)" "\<not> (c = 0xE2 \<and> 2 \<le> length cs \<and> cs ! 0 = 0x80 \<and> (cs ! 1 = 0xA8 \<or> cs ! 1 = 0xA9))"
    by blast
  then show ?case
  proof cases
    case c: 1
    then have st: "st = InString" "st' = InString" using strNext_special [of c st st'] s(1) by blast+
    have "accepted InString (escapeHTML cs)" using 2(1) [OF c] s(2) st(2) by simp
    from accepted_esc [OF h(1) h(1) l(2) l(1) this] c st(1) show ?thesis by simp
  next
    case c: 2
    then obtain y ds where cs: "cs = 0x80 # y # ds" "y = 0xA8 \<or> y = 0xA9" by (cases cs rule: remdups_adj.cases) auto
    have st: "st = InString" "st' = InString" using strNext_special [of c st st'] s(1) c(1) by blast+
    with s(2) cs(1) obtain s1 s2 where a: "strNext InString 0x80 = Some s1" "strNext s1 y = Some s2" "accepted s2 ds" by (auto simp: accepted_Cons)
    have "s2 = InString" using strNext_special [of y s1 s2] cs(2) a(2) by blast
    moreover have nc: "\<not> (c = 0x3c \<or> c = 0x3e \<or> c = 0x26)" using c(1) by simp
    ultimately have "accepted InString (escapeHTML (drop 2 cs))" using 2(2) [OF nc] c a(3) cs(1) by simp
    from accepted_esc [OF h(2) h(1) h(2) l(1) this] nc c st(1) show ?thesis by simp
  next
    case c: 3
    have "accepted st' (escapeHTML cs)" using 2(3) c s(2) by blast
    moreover have "escapeHTML (c # cs) = c # escapeHTML cs" using c by simp
    ultimately show ?thesis using s(1) by (simp add: accepted_Cons)
  qed
qed simp

lemma strText_escapeHTML: "strText s \<Longrightarrow> strText (escapeHTML s)"
  using accepted_escapeHTML [of InString s] by (simp add: strText_def accepted_def)

lemma wf_wire: "wf_value d v \<Longrightarrow> wf_json d (wire v)"
proof (induction v arbitrary: d)
  case (JStr s)
  then show ?case by (simp add: strText_escapeHTML)
next
  case (JArr t vs)
  then show ?case by (auto simp: list_all_iff)
next
  case (JObj t ms)
  have "strText (escapeHTML k) \<and> wf_json (d - 1) (wire v)" if "(k, v) \<in> set ms" for k v
    using JObj that strText_escapeHTML [of k] by (fastforce simp: list_all_iff)
  then show ?case using JObj.prems by (auto simp: list_all_iff)
qed simp_all


section \<open>Raw fields\<close>

text \<open>How many levels a value has.\<close>

fun levels :: "json \<Rightarrow> int" where
  "levels (JArr t vs) = 1 + foldr max (map levels vs) 0"
| "levels (JObj t ms) = 1 + foldr max (map (\<lambda>(k, v). levels v) ms) 0"
| "levels v = 0"

lemma foldr_max_le: "foldr max xs (0 :: int) \<le> d \<longleftrightarrow> 0 \<le> d \<and> (\<forall>x\<in>set xs. x \<le> d)"
  by (induction xs) auto

lemma wf_value_levels: "wf_value d v \<Longrightarrow> levels v \<le> d' \<Longrightarrow> wf_value d' v"
proof (induction v arbitrary: d d')
  case (JArr t vs)
  have l: "0 \<le> d' - 1" "\<forall>v\<in>set vs. levels v \<le> d' - 1" using JArr.prems(2) foldr_max_le [of "map levels vs" "d' - 1"] by auto
  then show ?case using JArr by (auto simp: list_all_iff)
next
  case (JObj t ms)
  have l: "0 \<le> d' - 1" "\<forall>(k, v)\<in>set ms. levels v \<le> d' - 1"
    using JObj.prems(2) foldr_max_le [of "map (\<lambda>(k, v). levels v) ms" "d' - 1"] by auto
  have "wf_value (d' - 1) v \<and> strText k" if "(k, v) \<in> set ms" for k v
    using JObj that l(2) by (fastforce simp: list_all_iff)
  then show ?case using l(1) by (auto simp: list_all_iff)
qed simp_all

text \<open>A raw message that fits as a field of an object: one level below the limit of the decoder.\<close>

definition shallow :: "bytes option \<Rightarrow> bool" where
  "shallow m = (case m of None \<Rightarrow> True | Some t \<Rightarrow> (case parseJson t of None \<Rightarrow> True | Some v \<Rightarrow> levels v < maxNestingDepth))"

definition compacted :: "bytes option \<Rightarrow> bytes option" where
  "compacted m = (case compactRaw m of Inl e \<Rightarrow> None | Inr u \<Rightarrow> Some u)"

lemma wf_json_raw: "wf_json d v \<Longrightarrow> raw v = render v"
  by (cases v) simp_all

lemma parseJson_wf: "parseJson t = Some v \<Longrightarrow> wf_value maxNestingDepth v"
proof -
  assume "parseJson t = Some v"
  then obtain r where "parsePrefix t = Some (v, r)" by (auto simp: parseJson_def split: option.splits if_splits)
  then show ?thesis using parse_wf(1) unfolding parsePrefix_def by blast
qed

lemma compactRaw_value:
  assumes "compactRaw m = Inr u" "shallow m"
  obtains v where "wf_json (maxNestingDepth - 1) v" "render v = u" "raw v = u"
proof (cases m)
  case None
  then have "wf_json (maxNestingDepth - 1) JNull" "render JNull = u" "raw JNull = u" using assms(1) by (simp_all add: compactRaw_def)
  then show ?thesis by (rule that)
next
  case (Some t)
  then obtain v where v: "parseJson t = Some v" "u = escapeHTML (render v)"
    using assms(1) by (auto simp: compactRaw_def split: option.splits)
  have w: "wf_value maxNestingDepth v" using parseJson_wf [OF v(1)] .
  have "wf_value (maxNestingDepth - 1) v" using wf_value_levels [OF w] assms(2) Some v(1) by (simp add: shallow_def)
  then have "wf_json (maxNestingDepth - 1) (wire v)" "render (wire v) = u" using wf_wire render_wire v(2) by auto
  then show ?thesis using that wf_json_raw by metis
qed

section \<open>Lines\<close>

lemma parsePrefix_line:
  assumes "wf_json maxNestingDepth v"
  shows "parsePrefix (render v @ 0x0a # r) = Some (v, 0x0a # r)"
proof -
  have "stops (0x0a # r)" by (simp add: stops_def isDigit_def)
  moreover have "2 * length (render v @ 0x0a # r) \<le> 2 * length (render v @ 0x0a # r) + 1" by simp
  ultimately show ?thesis
    using render_reads [of v] assms unfolding reads_def parsePrefix_def skipSpace_render [OF assms] by blast
qed

lemma skipSpace_nl: "skipSpace (0x0a # r) = skipSpace r"
  by (simp add: skipSpace_def isSpace_def)

lemma parsePrefix_nl: "parsePrefix (0x0a # r) = parsePrefix r"
proof (cases "parsePrefix (0x0a # r)")
  case None
  have "parsePrefix r \<noteq> Some x" for x
  proof
    assume "parsePrefix r = Some x"
    then have "parsePrefix (0x0a # r) = Some x"
      unfolding parsePrefix_def [of r] by (intro parse_fuel [of "2 * length r + 1"]) (simp add: skipSpace_nl)
    with None show False by simp
  qed
  with None show ?thesis by (cases "parsePrefix r") auto
next
  case (Some x)
  then have "parsePrefix r = Some x"
    unfolding parsePrefix_def [of "0x0a # r"] skipSpace_nl by (rule parse_fuel)
  with Some show ?thesis by simp
qed

lemma render_nonspace: "wf_json d v \<Longrightarrow> skipSpace (render v @ r) \<noteq> []"
  using render_start [of d v] skipSpace_render [of d v r] by auto

lemma readRequests_nl: "readRequests (0x0a # r) = readRequests r"
  unfolding readRequests.simps [of "0x0a # r"] readRequests.simps [of r] skipSpace_nl parsePrefix_nl ..

section \<open>Requests\<close>

definition compactRequest :: "Request \<Rightarrow> Request" where
  "compactRequest r = \<lparr>rq_JsonRPC = compacted (rq_JsonRPC r), rq_Id = compacted (rq_Id r), rq_Method = compacted (rq_Method r),
     rq_Params = compacted (rq_Params r)\<rparr>"

definition shallowRequest :: "Request \<Rightarrow> bool" where
  "shallowRequest r \<longleftrightarrow> shallow (rq_JsonRPC r) \<and> shallow (rq_Id r) \<and> shallow (rq_Method r) \<and> shallow (rq_Params r)"

text \<open>An object whose fields have plain names.\<close>

definition fields :: "(string \<times> json) list \<Rightarrow> json" where
  "fields fs = (let ms = map (\<lambda>(n, v). (ascii n, v)) fs in JObj (render (JObj [] ms)) ms)"

definition fieldName :: "string \<Rightarrow> bool" where
  "fieldName n \<longleftrightarrow> n \<in> {''jsonrpc'', ''id'', ''method'', ''params'', ''result'', ''error''}"

lemma fieldName_text: "fieldName n \<Longrightarrow> strText (ascii n)"
proof -
  have "list_all (\<lambda>n. strText (ascii n)) [''jsonrpc'', ''id'', ''method'', ''params'', ''result'', ''error'']" by code_simp
  then show "fieldName n \<Longrightarrow> strText (ascii n)" by (auto simp: fieldName_def)
qed

lemma isKey_fields: "fieldName n \<Longrightarrow> fieldName k \<Longrightarrow> isKey (ascii n) k \<longleftrightarrow> n = k"
proof -
  have "list_all (\<lambda>n. list_all (\<lambda>k. isKey (ascii n) k \<longleftrightarrow> n = k) [''jsonrpc'', ''id'', ''method'', ''params'', ''result'', ''error''])
      [''jsonrpc'', ''id'', ''method'', ''params'', ''result'', ''error'']" by code_simp
  then show "fieldName n \<Longrightarrow> fieldName k \<Longrightarrow> isKey (ascii n) k \<longleftrightarrow> n = k" unfolding fieldName_def list_all_iff by auto
qed

lemma wf_fields: "list_all (\<lambda>(n, v). fieldName n \<and> wf_json (maxNestingDepth - 1) v) fs \<Longrightarrow> wf_json maxNestingDepth (fields fs)"
  using fieldName_text by (auto simp: fields_def Let_def list_all_iff maxNestingDepth_def)

lemma render_fields: "render (fields fs) = jobject (map (\<lambda>(n, v). jfield n (render v)) fs)"
  by (simp add: fields_def Let_def jobject_def jfield_def comp_def case_prod_unfold)

text \<open>A request on the wire: whatever follows it, the server reads the request with its fields compacted.\<close>

lemma request_line:
  assumes "encodeRequest rq = Inr b" "shallowRequest rq"
  shows "readRequests (b @ r) = (compactRequest rq # fst (readRequests r), snd (readRequests r))"
proof -
  from assms(1) obtain j i m p where c: "compactRaw (rq_JsonRPC rq) = Inr j" "compactRaw (rq_Id rq) = Inr i"
      "compactRaw (rq_Method rq) = Inr m" "compactRaw (rq_Params rq) = Inr p"
    and b: "b = jobject [jfield ''jsonrpc'' j, jfield ''id'' i, jfield ''method'' m, jfield ''params'' p] @ [0x0a]"
    by (auto simp: encodeRequest_def rbind_ok_iff)
  have s: "shallow (rq_JsonRPC rq)" "shallow (rq_Id rq)" "shallow (rq_Method rq)" "shallow (rq_Params rq)"
    using assms(2) by (simp_all add: shallowRequest_def)
  obtain vj where vj: "wf_json (maxNestingDepth - 1) vj" "render vj = j" "raw vj = j" using compactRaw_value [OF c(1) s(1)] .
  obtain vi where vi: "wf_json (maxNestingDepth - 1) vi" "render vi = i" "raw vi = i" using compactRaw_value [OF c(2) s(2)] .
  obtain vm where vm: "wf_json (maxNestingDepth - 1) vm" "render vm = m" "raw vm = m" using compactRaw_value [OF c(3) s(3)] .
  obtain vp where vp: "wf_json (maxNestingDepth - 1) vp" "render vp = p" "raw vp = p" using compactRaw_value [OF c(4) s(4)] .
  let ?o = "fields [(''jsonrpc'', vj), (''id'', vi), (''method'', vm), (''params'', vp)]"
  have wf: "wf_json maxNestingDepth ?o" by (rule wf_fields) (simp add: vj vi vm vp fieldName_def)
  have b': "b @ r = render ?o @ 0x0a # r" by (simp add: b render_fields vj vi vm vp)
  have "decodeRequest ?o = Inr (compactRequest rq)"
    by (simp add: decodeRequest_def fields_def Let_def setRequestField_def isKey_fields fieldName_def vj vi vm vp empty_Request_def compactRequest_def compacted_def c)
  then have "readRequests (b @ r) = (let (rqs, e) = readRequests (0x0a # r) in (compactRequest rq # rqs, e))"
    unfolding b' readRequests.simps [of "render ?o @ 0x0a # r"] using render_nonspace [OF wf] parsePrefix_line [OF wf] by simp
  then show ?thesis by (simp add: readRequests_nl case_prod_unfold Let_def)
qed

text \<open>All the requests written to a connection.\<close>

fun encodeAll :: "('m \<Rightarrow> bytes result) \<Rightarrow> 'm list \<Rightarrow> bytes result" where
  "encodeAll enc [] = Inr []"
| "encodeAll enc (m # ms) = rbind (enc m) (\<lambda>b. rbind (encodeAll enc ms) (\<lambda>bs. Inr (b @ bs)))"

lemma requests_stream:
  assumes "encodeAll encodeRequest rqs = Inr s" "list_all shallowRequest rqs"
  shows "fst (readRequests s) = map compactRequest rqs"
  using assms
proof (induction rqs arbitrary: s)
  case Nil
  then show ?case by (simp add: readRequests.simps [of "[]"] skipSpace_def)
next
  case (Cons rq rqs)
  then obtain b bs where "encodeRequest rq = Inr b" "encodeAll encodeRequest rqs = Inr bs" "s = b @ bs" by (auto simp: rbind_ok_iff)
  with Cons request_line [of rq b bs] show ?case by simp
qed

section \<open>What the client reads\<close>

text \<open>\<open>Client.read\<close> on all the bytes the server sends: responses and notifications, and the error that ends the reader.\<close>

function readInbound :: "bytes \<Rightarrow> inbound list \<times> error" where
  "readInbound s =
     (if skipSpace s = [] then ([], ErrEOF)
      else case parsePrefix s of
        None \<Rightarrow> ([], Err ''json'')
      | Some (v, r) \<Rightarrow>
          (case classify v of
             Inl e \<Rightarrow> ([], e)
           | Inr m \<Rightarrow> (let (ms, e) = readInbound r in (m # ms, e))))"
  by pat_completeness auto
termination by (relation "measure length") (auto dest: parsePrefix_length)

declare readInbound.simps [simp del]

lemma readInbound_nl: "readInbound (0x0a # r) = readInbound r"
  unfolding readInbound.simps [of "0x0a # r"] readInbound.simps [of r] skipSpace_nl parsePrefix_nl ..

definition omitempty :: "bytes option \<Rightarrow> bytes option" where
  "omitempty m = (if msgBytes m = [] then None else compacted m)"

definition compactResponse :: "Response \<Rightarrow> Response" where
  "compactResponse r = \<lparr>rs_JsonRPC = compacted (rs_JsonRPC r), rs_Id = compacted (rs_Id r), rs_Result = omitempty (rs_Result r),
     rs_Error = omitempty (rs_Error r)\<rparr>"

definition compactNotification :: "Notification \<Rightarrow> Notification" where
  "compactNotification n = \<lparr>nt_JsonRPC = compacted (nt_JsonRPC n), nt_Method = compacted (nt_Method n), nt_Params = compacted (nt_Params n)\<rparr>"

definition shallowResponse :: "Response \<Rightarrow> bool" where
  "shallowResponse r \<longleftrightarrow> shallow (rs_JsonRPC r) \<and> shallow (rs_Id r) \<and> shallow (rs_Result r) \<and> shallow (rs_Error r)"

definition shallowNotification :: "Notification \<Rightarrow> bool" where
  "shallowNotification n \<longleftrightarrow> shallow (nt_JsonRPC n) \<and> shallow (nt_Method n) \<and> shallow (nt_Params n)"

lemma inbound_line:
  assumes "wf_json maxNestingDepth v" "classify v = Inr m"
  shows "readInbound (render v @ 0x0a # r) = (m # fst (readInbound r), snd (readInbound r))"
  unfolding readInbound.simps [of "render v @ 0x0a # r"]
  using render_nonspace [OF assms(1)] parsePrefix_line [OF assms(1)] assms(2) by (simp add: readInbound_nl case_prod_unfold Let_def)

lemma optField_value:
  assumes "optField n m = Inr fs" "shallow m"
  obtains vs where "fs = map (\<lambda>v. jfield n (render v)) vs" "list_all (wf_json (maxNestingDepth - 1)) vs"
    "omitempty m = (if vs = [] then None else Some (raw (hd vs)))" "length vs \<le> 1"
proof (cases "msgBytes m = []")
  case True
  then show ?thesis using assms(1) that [of "[]"] by (simp add: optField_def omitempty_def)
next
  case False
  with assms(1) obtain u where u: "compactRaw m = Inr u" "fs = [jfield n u]" by (auto simp: optField_def rbind_ok_iff)
  obtain v where "wf_json (maxNestingDepth - 1) v" "render v = u" "raw v = u" using compactRaw_value [OF u(1) assms(2)] .
  then show ?thesis using that [of "[v]"] u False by (simp add: omitempty_def compacted_def)
qed

lemma response_line:
  assumes "encodeResponse rs = Inr b" "shallowResponse rs"
  shows "readInbound (b @ r) = (InResponse (compactResponse rs) # fst (readInbound r), snd (readInbound r))"
proof -
  from assms(1) obtain j i res err where c: "compactRaw (rs_JsonRPC rs) = Inr j" "compactRaw (rs_Id rs) = Inr i"
      "optField ''result'' (rs_Result rs) = Inr res" "optField ''error'' (rs_Error rs) = Inr err"
    and b: "b = jobject ([jfield ''jsonrpc'' j, jfield ''id'' i] @ res @ err) @ [0x0a]"
    by (auto simp: encodeResponse_def rbind_ok_iff)
  have s: "shallow (rs_JsonRPC rs)" "shallow (rs_Id rs)" "shallow (rs_Result rs)" "shallow (rs_Error rs)"
    using assms(2) by (simp_all add: shallowResponse_def)
  obtain vj where vj: "wf_json (maxNestingDepth - 1) vj" "render vj = j" "raw vj = j" using compactRaw_value [OF c(1) s(1)] .
  obtain vi where vi: "wf_json (maxNestingDepth - 1) vi" "render vi = i" "raw vi = i" using compactRaw_value [OF c(2) s(2)] .
  obtain vr where vr: "res = map (\<lambda>v. jfield ''result'' (render v)) vr" "list_all (wf_json (maxNestingDepth - 1)) vr"
      "omitempty (rs_Result rs) = (if vr = [] then None else Some (raw (hd vr)))" "length vr \<le> 1" using optField_value [OF c(3) s(3)] .
  obtain ve where ve: "err = map (\<lambda>v. jfield ''error'' (render v)) ve" "list_all (wf_json (maxNestingDepth - 1)) ve"
      "omitempty (rs_Error rs) = (if ve = [] then None else Some (raw (hd ve)))" "length ve \<le> 1" using optField_value [OF c(4) s(4)] .
  let ?fs = "[(''jsonrpc'', vj), (''id'', vi)] @ map (\<lambda>v. (''result'', v)) vr @ map (\<lambda>v. (''error'', v)) ve"
  have wf: "wf_json maxNestingDepth (fields ?fs)"
    using vr(2) ve(2) by (intro wf_fields) (auto simp: vj vi fieldName_def list_all_iff)
  have b': "b @ r = render (fields ?fs) @ 0x0a # r" by (simp add: b render_fields vj vi vr(1) ve(1) comp_def)
  have "classify (fields ?fs) = Inr (InResponse (compactResponse rs))"
    using vr(3,4) ve(3,4)
    by (cases vr; cases ve) (simp_all add: classify_def fields_def Let_def setResponseField_def isKey_fields fieldName_def vj vi empty_Response_def
        compactResponse_def compacted_def c)
  from inbound_line [OF wf this] b' show ?thesis by simp
qed

lemma notification_line:
  assumes "encodeNotification nt = Inr b" "shallowNotification nt"
  shows "readInbound (b @ r) = (InNotification (compactNotification nt) # fst (readInbound r), snd (readInbound r))"
proof -
  from assms(1) obtain j m p where c: "compactRaw (nt_JsonRPC nt) = Inr j" "compactRaw (nt_Method nt) = Inr m" "compactRaw (nt_Params nt) = Inr p"
    and b: "b = jobject [jfield ''jsonrpc'' j, jfield ''method'' m, jfield ''params'' p] @ [0x0a]"
    by (auto simp: encodeNotification_def rbind_ok_iff)
  have s: "shallow (nt_JsonRPC nt)" "shallow (nt_Method nt)" "shallow (nt_Params nt)" using assms(2) by (simp_all add: shallowNotification_def)
  obtain vj where vj: "wf_json (maxNestingDepth - 1) vj" "render vj = j" "raw vj = j" using compactRaw_value [OF c(1) s(1)] .
  obtain vm where vm: "wf_json (maxNestingDepth - 1) vm" "render vm = m" "raw vm = m" using compactRaw_value [OF c(2) s(2)] .
  obtain vp where vp: "wf_json (maxNestingDepth - 1) vp" "render vp = p" "raw vp = p" using compactRaw_value [OF c(3) s(3)] .
  let ?o = "fields [(''jsonrpc'', vj), (''method'', vm), (''params'', vp)]"
  have wf: "wf_json maxNestingDepth ?o" by (rule wf_fields) (simp add: vj vm vp fieldName_def)
  have b': "b @ r = render ?o @ 0x0a # r" by (simp add: b render_fields vj vm vp)
  have "classify ?o = Inr (InNotification (compactNotification nt))"
    by (simp add: classify_def fields_def Let_def setResponseField_def setNotificationField_def isKey_fields fieldName_def vj vm vp empty_Response_def
        empty_Notification_def compactNotification_def compacted_def c)
  from inbound_line [OF wf this] b' show ?thesis by simp
qed

end
