(* ===== verification/RpcClient.thy ===== *)
theory RpcClient
  imports ServerProperties JsonWire
begin

text \<open>
  \<open>jsonrpc/client.go\<close>: the goroutines of a client (\<open>run\<close>, \<open>write\<close>, \<open>read\<close>, \<open>notify\<close>) and its callers of \<open>Send\<close> and \<open>Close\<close>, as an
  interleaving of atomic steps, in the manner of \<open>Server\<close>. The input is the byte stream the server sends in all. \<open>cl_got\<close> records
  the responses that callers have received, in order. Before, the transport that the flags of \<open>NewClient\<close> choose.
\<close>

section \<open>The transport\<close>

text \<open>The connection under the client, from its flags: in the clear, or TLS with or without a check of the certificate.\<close>

type_synonym clientFlags = "8 word"

definition TLS :: clientFlags where
  "TLS = push_bit 0 1"

definition TLSNoVerify :: clientFlags where
  "TLSNoVerify = push_bit 1 1"

datatype transport = Tcp | Tls bool   \<comment> \<open>\<open>InsecureSkipVerify\<close>\<close>

definition transport_of :: "clientFlags \<Rightarrow> transport" where
  "transport_of flags =
     (if flags AND (TLS OR TLSNoVerify) = (TLS OR TLSNoVerify) then Tls True
      else if flags AND TLS \<noteq> 0 then Tls False else Tcp)"

lemma TLS_bits: "bit (TLS OR TLSNoVerify) n \<longleftrightarrow> n = 0 \<or> n = 1" "bit TLS n \<longleftrightarrow> n = 0"
  by (auto simp only: TLS_def TLSNoVerify_def bit_or_iff bit_push_bit_iff bit_1_iff) auto

text \<open>\<open>TLSNoVerify\<close> without \<open>TLS\<close> is a connection in the clear.\<close>

lemma flag_eq_iff: "x = y \<longleftrightarrow> (\<forall>n < 8. bit x n = bit y n)" for x y :: clientFlags
  by (auto intro: bit_word_eqI)

lemma transport_of_eq: "transport_of flags = (if bit flags 0 then Tls (bit flags 1) else Tcp)"
proof -
  have m: "flags AND (TLS OR TLSNoVerify) = (TLS OR TLSNoVerify) \<longleftrightarrow> bit flags 0 \<and> bit flags 1"
    unfolding flag_eq_iff bit_and_iff TLS_bits by (metis one_less_numeral_iff semiring_norm(76) zero_less_numeral)
  have "flags AND TLS \<noteq> 0 \<longleftrightarrow> bit flags 0"
    unfolding flag_eq_iff bit_and_iff TLS_bits bit_0_eq bot_apply bot_bool_def by auto
  with m show ?thesis by (simp add: transport_of_def)
qed

section \<open>State\<close>

datatype crstate = CRun | CPutRes Response | CPutNot Notification | CDone   \<comment> \<open>at \<open>resC <- res\<close>, at \<open>notC <- not\<close>\<close>

datatype caller = ToSend Request | ToReceive Request | Returned "Response result"

record client =
  cl_bytes :: bytes                    \<comment> \<open>all that the server sends\<close>
  cl_in :: "inbound list"              \<comment> \<open>messages not decoded yet\<close>
  cl_rd :: crstate
  cl_wr :: bool                        \<comment> \<open>the writer runs\<close>
  cl_nt :: bool                        \<comment> \<open>\<open>notify\<close> runs\<close>
  cl_run :: bool                       \<comment> \<open>\<open>run\<close> is at its \<open>select\<close>\<close>
  cl_ctx :: bool                       \<comment> \<open>the context is cancelled\<close>
  cl_done :: bool                      \<comment> \<open>the channel \<open>done\<close> is closed\<close>
  cl_reqC :: "Request option"
  cl_resC :: "Response option"
  cl_notC :: "Notification option"
  cl_errC :: "error option"
  cl_out :: "Request list"             \<comment> \<open>what has been written\<close>
  cl_handled :: "Notification list"    \<comment> \<open>the calls of the handler of notifications\<close>
  cl_callers :: "caller list"
  cl_got :: "Response list"

definition newClient :: "bytes \<Rightarrow> client" where
  "newClient inp = \<lparr>cl_bytes = inp, cl_in = fst (readInbound inp), cl_rd = CRun, cl_wr = True, cl_nt = True, cl_run = True, cl_ctx = False,
     cl_done = False, cl_reqC = None, cl_resC = None, cl_notC = None, cl_errC = None, cl_out = [], cl_handled = [], cl_callers = [], cl_got = []\<rparr>"

definition cfails :: "error \<Rightarrow> client \<Rightarrow> client" where
  "cfails e c = c\<lparr>cl_errC := fst (trySend (cl_errC c) e)\<rparr>"

section \<open>Steps\<close>

text \<open>The callers of \<open>Send\<close>: two \<open>select\<close>s, each of which may see the client stopped.\<close>

inductive send_step :: "client \<Rightarrow> client \<Rightarrow> bool" where
  call: "send_step c (c\<lparr>cl_callers := cl_callers c @ [ToSend rq]\<rparr>)"
| put: "k < length (cl_callers c) \<Longrightarrow> cl_callers c ! k = ToSend rq \<Longrightarrow> cl_reqC c = None \<Longrightarrow>
    send_step c (c\<lparr>cl_reqC := Some rq, cl_callers := (cl_callers c)[k := ToReceive rq]\<rparr>)"
| put_stopped: "k < length (cl_callers c) \<Longrightarrow> cl_callers c ! k = ToSend rq \<Longrightarrow> cl_done c \<Longrightarrow>
    send_step c (c\<lparr>cl_callers := (cl_callers c)[k := Returned (Inl (Err ''jsonrpc client: stopped when sending''))]\<rparr>)"
| get: "k < length (cl_callers c) \<Longrightarrow> cl_callers c ! k = ToReceive rq \<Longrightarrow> cl_resC c = Some r \<Longrightarrow>
    send_step c (c\<lparr>cl_resC := None, cl_callers := (cl_callers c)[k := Returned (Inr r)], cl_got := cl_got c @ [r]\<rparr>)"
| get_stopped: "k < length (cl_callers c) \<Longrightarrow> cl_callers c ! k = ToReceive rq \<Longrightarrow> cl_done c \<Longrightarrow>
    send_step c (c\<lparr>cl_callers := (cl_callers c)[k := Returned (Inl (Err ''jsonrpc client: stopped when receiving''))]\<rparr>)"

inductive write_step :: "client \<Rightarrow> client \<Rightarrow> bool" where
  write_req: "cl_wr c \<Longrightarrow> cl_reqC c = Some rq \<Longrightarrow> encodeRequest rq = Inr b \<Longrightarrow>
    write_step c (c\<lparr>cl_reqC := None, cl_out := cl_out c @ [rq]\<rparr>)"
| write_fail: "cl_wr c \<Longrightarrow> cl_reqC c = Some rq \<Longrightarrow> write_step c (cfails e (c\<lparr>cl_reqC := None, cl_wr := False\<rparr>))"
| write_stop: "cl_wr c \<Longrightarrow> cl_ctx c \<Longrightarrow> write_step c (c\<lparr>cl_wr := False\<rparr>)"

inductive read_step :: "client \<Rightarrow> client \<Rightarrow> bool" where
  read: "cl_rd c = CRun \<Longrightarrow> cl_in c = m # ms \<Longrightarrow>
    read_step c (c\<lparr>cl_in := ms, cl_rd := (case m of InResponse r \<Rightarrow> CPutRes r | InNotification n \<Rightarrow> CPutNot n)\<rparr>)"
| put_res: "cl_rd c = CPutRes r \<Longrightarrow> cl_resC c = None \<Longrightarrow> read_step c (c\<lparr>cl_resC := Some r, cl_rd := CRun\<rparr>)"
| put_not: "cl_rd c = CPutNot n \<Longrightarrow> cl_notC c = None \<Longrightarrow> read_step c (c\<lparr>cl_notC := Some n, cl_rd := CRun\<rparr>)"
| read_end: "cl_rd c = CRun \<Longrightarrow> read_step c (cfails e (c\<lparr>cl_rd := CDone\<rparr>))"
| read_stop: "cl_rd c = CRun \<Longrightarrow> cl_ctx c \<Longrightarrow> read_step c (c\<lparr>cl_rd := CDone\<rparr>)"

inductive notify_step :: "client \<Rightarrow> client \<Rightarrow> bool" where
  handle: "cl_nt c \<Longrightarrow> cl_notC c = Some n \<Longrightarrow> notify_step c (c\<lparr>cl_notC := None, cl_handled := cl_handled c @ [n]\<rparr>)"
| notify_stop: "cl_nt c \<Longrightarrow> cl_ctx c \<Longrightarrow> notify_step c (c\<lparr>cl_nt := False\<rparr>)"

text \<open>\<open>run\<close>: it ends at the first error or when the context is cancelled, and waits for the three goroutines; then \<open>done\<close> is closed.\<close>

inductive run_step :: "client \<Rightarrow> client \<Rightarrow> bool" where
  run_err: "cl_run c \<Longrightarrow> cl_errC c = Some e \<Longrightarrow> run_step c (c\<lparr>cl_errC := None, cl_run := False, cl_ctx := True\<rparr>)"
| run_ctx: "cl_run c \<Longrightarrow> cl_ctx c \<Longrightarrow> run_step c (c\<lparr>cl_run := False\<rparr>)"
| finish: "\<not> cl_run c \<Longrightarrow> cl_rd c = CDone \<Longrightarrow> \<not> cl_wr c \<Longrightarrow> \<not> cl_nt c \<Longrightarrow> run_step c (c\<lparr>cl_done := True\<rparr>)"

text \<open>\<open>Close\<close> cancels the context of the client (\<open>Close\<close>) and then waits in a \<open>select\<close> (\<open>Close_select\<close>): the results it
  can return in a state, given whether the context of its caller has expired; while the list is empty it waits.\<close>

definition Close :: "client \<Rightarrow> client" where
  "Close c = c\<lparr>cl_ctx := True\<rparr>"

definition Close_select :: "bool \<Rightarrow> client \<Rightarrow> (unit result) list" where
  "Close_select expired c =
     (if expired then [Inl (Err ''jsonrpc client stop timeout reached'')] else []) @ (if cl_done c then [Inr ()] else [])"

inductive client_step :: "client \<Rightarrow> client \<Rightarrow> bool" where
  sends: "send_step c c' \<Longrightarrow> client_step c c'"
| writes: "write_step c c' \<Longrightarrow> client_step c c'"
| reads: "read_step c c' \<Longrightarrow> client_step c c'"
| notifies: "notify_step c c' \<Longrightarrow> client_step c c'"
| runs: "run_step c c' \<Longrightarrow> client_step c c'"
| closes: "client_step c (Close c)"

inductive client_reach :: "client \<Rightarrow> client \<Rightarrow> bool" for c0 where
  start: "client_reach c0 c0"
| step: "client_reach c0 c \<Longrightarrow> client_step c c' \<Longrightarrow> client_reach c0 c'"

section \<open>What callers and the handler get\<close>

definition inResponses :: "inbound list \<Rightarrow> Response list" where
  "inResponses ms = concat (map (\<lambda>m. case m of InResponse r \<Rightarrow> [r] | InNotification n \<Rightarrow> []) ms)"

definition inNotifications :: "inbound list \<Rightarrow> Notification list" where
  "inNotifications ms = concat (map (\<lambda>m. case m of InResponse r \<Rightarrow> [] | InNotification n \<Rightarrow> [n]) ms)"

lemma in_simps [simp]:
  "inResponses [] = []" "inResponses (InResponse r # ms) = r # inResponses ms" "inResponses (InNotification n # ms) = inResponses ms"
  "inNotifications [] = []" "inNotifications (InResponse r # ms) = inNotifications ms" "inNotifications (InNotification n # ms) = n # inNotifications ms"
  by (simp_all add: inResponses_def inNotifications_def)

text \<open>Nothing is lost or reordered between the stream, the channels and the callers; what the reader has not decoded stays in \<open>cl_in\<close>.\<close>

definition delivered :: "client \<Rightarrow> bool" where
  "delivered c \<longleftrightarrow>
     cl_got c @ optl (cl_resC c) @ (case cl_rd c of CPutRes r \<Rightarrow> [r] | _ \<Rightarrow> []) @ inResponses (cl_in c) = inResponses (fst (readInbound (cl_bytes c)))
   \<and> cl_handled c @ optl (cl_notC c) @ (case cl_rd c of CPutNot n \<Rightarrow> [n] | _ \<Rightarrow> []) @ inNotifications (cl_in c)
     = inNotifications (fst (readInbound (cl_bytes c)))"

lemma delivered_step: "client_step c c' \<Longrightarrow> delivered c \<Longrightarrow> delivered c'"
  by (elim client_step.cases send_step.cases write_step.cases read_step.cases notify_step.cases run_step.cases)
    (auto simp: delivered_def optl_def cfails_def Close_def split: inbound.splits)

lemma bytes_step: "client_step c c' \<Longrightarrow> cl_bytes c' = cl_bytes c"
  by (elim client_step.cases send_step.cases write_step.cases read_step.cases notify_step.cases run_step.cases) (auto simp: cfails_def Close_def)

lemma delivered_reach:
  assumes "client_reach (newClient inp) c"
  shows "delivered c \<and> cl_bytes c = inp"
  using assms
proof (induction rule: client_reach.induct)
  case start
  show ?case by (simp add: delivered_def newClient_def optl_def)
next
  case (step c c')
  then show ?case using delivered_step bytes_step by metis
qed

lemma delivered_prefix:
  assumes "client_reach (newClient inp) c"
  shows "prefix (cl_got c) (inResponses (fst (readInbound inp)))" "prefix (cl_handled c) (inNotifications (fst (readInbound inp)))"
proof -
  have d: "delivered c" "cl_bytes c = inp" using delivered_reach [OF assms] by simp_all
  show "prefix (cl_got c) (inResponses (fst (readInbound inp)))" "prefix (cl_handled c) (inNotifications (fst (readInbound inp)))"
    using d(1) unfolding delivered_def d(2) by (metis prefixI)+
qed

section \<open>A client that cannot be closed\<close>

definition stuck :: "client \<Rightarrow> bool" where
  "stuck c \<longleftrightarrow> \<not> cl_nt c \<and> cl_notC c \<noteq> None \<and> (\<exists>n. cl_rd c = CPutNot n) \<and> \<not> cl_done c"

lemma stuck_step: "client_step c c' \<Longrightarrow> stuck c \<Longrightarrow> stuck c'"
  by (elim client_step.cases send_step.cases write_step.cases read_step.cases notify_step.cases run_step.cases)
    (auto simp: stuck_def cfails_def Close_def)

lemma stuck_reach: "client_reach c0 c \<Longrightarrow> stuck c0 \<Longrightarrow> stuck c"
  by (induction rule: client_reach.induct) (auto intro: stuck_step)

section \<open>Compacting twice\<close>

lemma escapeHTML_head:
  assumes "2 \<le> length (escapeHTML s)" "escapeHTML s ! 0 = 0x80" "escapeHTML s ! 1 = 0xA8 \<or> escapeHTML s ! 1 = 0xA9"
  shows "2 \<le> length s \<and> s ! 0 = 0x80 \<and> (s ! 1 = 0xA8 \<or> s ! 1 = 0xA9)"
proof -
  obtain c cs where s: "s = c # cs" using assms(1) by (cases s) auto
  have e: "escapeHTML s = c # escapeHTML cs" "c = 0x80" using assms(2) s by (auto split: if_splits)
  obtain d ds where cs: "cs = d # ds" using assms(1) e by (cases cs) auto
  have "escapeHTML cs ! 0 = 0xA8 \<or> escapeHTML cs ! 0 = 0xA9" using assms(3) e by simp
  then have "d = 0xA8 \<or> d = 0xA9" using cs by (auto split: if_splits)
  then show ?thesis using s cs e by simp
qed

lemma escapeHTML_idem: "escapeHTML (escapeHTML s) = escapeHTML s"
proof (induction s rule: escapeHTML.induct)
  case (2 c cs)
  have h: "escapeHTML (lowerHex n # r) = lowerHex n # escapeHTML r" if "n < 16" for n r
  proof -
    have "list_all (\<lambda>n. lowerHex n \<notin> {0x3c, 0x3e, 0x26, 0xE2}) [0..<16]" by code_simp
    then have "lowerHex n \<notin> {0x3c, 0x3e, 0x26, 0xE2}" using that by (simp add: list_all_iff)
    then show ?thesis by simp
  qed
  have l: "unat d mod 16 < 16" "unat d div 16 < 16" for d :: byte
    using unsigned_less [of d, where 'a = nat] by simp_all
  have p: "escapeHTML (0x5c # r) = 0x5c # escapeHTML r" "escapeHTML (0x75 # r) = 0x75 # escapeHTML r"
      "escapeHTML (0x30 # r) = 0x30 # escapeHTML r" "escapeHTML (0x32 # r) = 0x32 # escapeHTML r" for r
    by simp_all
  consider "c = 0x3c \<or> c = 0x3e \<or> c = 0x26"
    | "c = 0xE2" "2 \<le> length cs" "cs ! 0 = 0x80" "cs ! 1 = 0xA8 \<or> cs ! 1 = 0xA9"
    | "\<not> (c = 0x3c \<or> c = 0x3e \<or> c = 0x26)" "\<not> (c = 0xE2 \<and> 2 \<le> length cs \<and> cs ! 0 = 0x80 \<and> (cs ! 1 = 0xA8 \<or> cs ! 1 = 0xA9))"
    by blast
  then show ?case
  proof cases
    case c: 1
    then have e: "escapeHTML (c # cs) = 0x5c # 0x75 # 0x30 # 0x30 # lowerHex (unat c div 16) # lowerHex (unat c mod 16) # escapeHTML cs" by simp
    show ?thesis unfolding e p h [OF l(2)] h [OF l(1)] 2(1) [OF c] ..
  next
    case c: 2
    then have nc: "\<not> (c = 0x3c \<or> c = 0x3e \<or> c = 0x26)" by simp
    have e: "escapeHTML (c # cs) = 0x5c # 0x75 # 0x32 # 0x30 # 0x32 # lowerHex (unat (cs ! 1) mod 16) # escapeHTML (drop 2 cs)" using c by simp
    have "escapeHTML (escapeHTML (drop 2 cs)) = escapeHTML (drop 2 cs)" using 2(2) [OF nc] c by blast
    then show ?thesis unfolding e p h [OF l(1)] by simp
  next
    case c: 3
    then have e: "escapeHTML (c # cs) = c # escapeHTML cs" by simp
    have "\<not> (c = 0xE2 \<and> 2 \<le> length (escapeHTML cs) \<and> escapeHTML cs ! 0 = 0x80 \<and> (escapeHTML cs ! 1 = 0xA8 \<or> escapeHTML cs ! 1 = 0xA9))"
      using c(2) escapeHTML_head [of cs] by blast
    then have "escapeHTML (c # escapeHTML cs) = c # escapeHTML (escapeHTML cs)" using c(1) by simp
    with e 2(3) c show ?thesis by metis
  qed
qed simp

lemma compacted_idem:
  assumes "compactRaw m = Inr u"
  shows "compacted (compacted m) = compacted m"
proof -
  have m: "compacted m = Some u" using assms by (simp add: compacted_def)
  obtain v where v: "wf_json maxNestingDepth v" "render v = u" "escapeHTML u = u"
  proof (cases m)
    case None
    then show ?thesis using that [of JNull] assms by (auto simp: compactRaw_def lit_null_def)
  next
    case (Some t)
    then obtain w where w: "parseJson t = Some w" "u = escapeHTML (render w)" using assms by (auto simp: compactRaw_def split: option.splits)
    from that [of "wire w"] show ?thesis
      using wf_wire [OF parseJson_wf [OF w(1)]] render_wire [OF parseJson_wf [OF w(1)]] w(2) by (simp add: escapeHTML_idem)
  qed
  then show ?thesis using parse_render [OF v(1)] m by (simp add: compacted_def compactRaw_def)
qed

section \<open>Both ends of a connection\<close>

definition encodeMessage :: "outgoing \<Rightarrow> bytes result" where
  "encodeMessage m = (case m of MsgResponse r \<Rightarrow> encodeResponse r | MsgNotification n \<Rightarrow> encodeNotification n)"

definition shallowMessage :: "outgoing \<Rightarrow> bool" where
  "shallowMessage m = (case m of MsgResponse r \<Rightarrow> shallowResponse r | MsgNotification n \<Rightarrow> shallowNotification n)"

definition asRead :: "outgoing \<Rightarrow> inbound" where
  "asRead m = (case m of MsgResponse r \<Rightarrow> InResponse (compactResponse r) | MsgNotification n \<Rightarrow> InNotification (compactNotification n))"

lemma inbound_stream:
  assumes "encodeAll encodeMessage ms = Inr s" "list_all shallowMessage ms"
  shows "fst (readInbound s) = map asRead ms"
  using assms
proof (induction ms arbitrary: s)
  case Nil
  then show ?case by (simp add: readInbound.simps [of "[]"] skipSpace_def)
next
  case (Cons m ms)
  then obtain b bs where e: "encodeMessage m = Inr b" "encodeAll encodeMessage ms = Inr bs" "s = b @ bs" by (auto simp: rbind_ok_iff)
  have "fst (readInbound (b @ bs)) = asRead m # fst (readInbound bs)"
    using e(1) Cons.prems(2) response_line [of _ b bs] notification_line [of _ b bs]
    by (cases m) (simp_all add: encodeMessage_def shallowMessage_def asRead_def)
  with Cons e show ?case by simp
qed

lemma inResponses_asRead: "inResponses (map asRead ms) = map compactResponse (responses ms)"
  by (induction ms) (auto simp: asRead_def responses_def split: outgoing.split)

lemma encodeAll_member: "encodeAll enc ms = Inr s \<Longrightarrow> m \<in> set ms \<Longrightarrow> \<exists>b. enc m = Inr b"
  by (induction ms arbitrary: s) (auto simp: rbind_ok_iff)

lemma compactRequest_id:
  assumes "encodeRequest rq = Inr b"
  shows "compacted (rq_Id (compactRequest rq)) = compacted (rq_Id rq)"
  using assms compacted_idem by (auto simp: encodeRequest_def rbind_ok_iff compactRequest_def)

section \<open>Sample runs\<close>

definition seven :: Request where
  "seven = \<lparr>rq_JsonRPC = None, rq_Id = Some [0x37], rq_Method = Some (quoted (ascii ''server.ping'')), rq_Params = None\<rparr>"

definition answer :: "byte \<Rightarrow> Response" where
  "answer d = \<lparr>rs_JsonRPC = Some (quoted (ascii ''2.0'')), rs_Id = Some [d], rs_Result = Some lit_null, rs_Error = None\<rparr>"

definition answer_bytes :: "byte \<Rightarrow> bytes" where
  "answer_bytes d = ascii ''{'' @ quoted (ascii ''jsonrpc'') @ ascii '':'' @ quoted (ascii ''2.0'') @ ascii '','' @ quoted (ascii ''id'') @ ascii '':'' @ [d]
     @ ascii '','' @ quoted (ascii ''result'') @ ascii '':null}'' @ [0x0a]"

lemma seven_encoded: "encodeRequest seven = Inr ping_bytes"
  by code_simp

lemma answer_read: "fst (readInbound (answer_bytes 0x37)) = [InResponse (answer 0x37)]"
  by code_simp

lemma answers_read: "fst (readInbound (answer_bytes 0x31 @ answer_bytes 0x32)) = [InResponse (answer 0x31), InResponse (answer 0x32)]"
  by code_simp

text \<open>One caller gets the response to its request.\<close>

lemma seven_run:
  "\<exists>k. client_reach (newClient (answer_bytes 0x37)) k \<and> cl_out k = [seven] \<and> cl_got k = [answer 0x37]"
proof -
  let ?R = "client_reach (newClient (answer_bytes 0x37))"
  define c0 where "c0 = newClient (answer_bytes 0x37)"
  have f: "cl_callers c0 = []" "cl_reqC c0 = None" "cl_wr c0" "cl_rd c0 = CRun" "cl_in c0 = [InResponse (answer 0x37)]" "cl_resC c0 = None"
      "cl_out c0 = []" "cl_got c0 = []"
    by (simp_all add: c0_def newClient_def answer_read)
  have r0: "?R c0" by (simp add: c0_def client_reach.start)
  define c1 where "c1 = c0\<lparr>cl_callers := [ToSend seven]\<rparr>"
  have "client_step c0 c1" using send_step.call [of c0 seven] by (auto simp: c1_def f intro: client_step.sends)
  with r0 have r1: "?R c1" by (rule client_reach.step)
  define c2 where "c2 = c1\<lparr>cl_reqC := Some seven, cl_callers := [ToReceive seven]\<rparr>"
  have "client_step c1 c2" using send_step.put [of 0 c1 seven] by (auto simp: c2_def c1_def f intro: client_step.sends)
  with r1 have r2: "?R c2" by (rule client_reach.step)
  define c3 where "c3 = c2\<lparr>cl_reqC := None, cl_out := [seven]\<rparr>"
  have "client_step c2 c3" using write_step.write_req [of c2 seven, OF _ _ seven_encoded] by (auto simp: c3_def c2_def c1_def f intro: client_step.writes)
  with r2 have r3: "?R c3" by (rule client_reach.step)
  define c4 where "c4 = c3\<lparr>cl_in := [], cl_rd := CPutRes (answer 0x37)\<rparr>"
  have "client_step c3 c4" using read_step.read [of c3 "InResponse (answer 0x37)" "[]"] by (auto simp: c4_def c3_def c2_def c1_def f intro: client_step.reads)
  with r3 have r4: "?R c4" by (rule client_reach.step)
  define c5 where "c5 = c4\<lparr>cl_resC := Some (answer 0x37), cl_rd := CRun\<rparr>"
  have "client_step c4 c5" using read_step.put_res [of c4 "answer 0x37"] by (auto simp: c5_def c4_def c3_def c2_def c1_def f intro: client_step.reads)
  with r4 have r5: "?R c5" by (rule client_reach.step)
  define c6 where "c6 = c5\<lparr>cl_resC := None, cl_callers := [Returned (Inr (answer 0x37))], cl_got := [answer 0x37]\<rparr>"
  have "client_step c5 c6" using send_step.get [of 0 c5 seven "answer 0x37"] by (auto simp: c6_def c5_def c4_def c3_def c2_def c1_def f intro: client_step.sends)
  with r5 have "?R c6" by (rule client_reach.step)
  then show ?thesis by (intro exI [of _ c6]) (simp add: c6_def c5_def c4_def c3_def c2_def c1_def f)
qed

definition two_requests :: "Request \<times> Request" where
  "two_requests = (seven\<lparr>rq_Id := Some [0x31]\<rparr>, seven\<lparr>rq_Id := Some [0x32]\<rparr>)"

definition two_notes :: bytes where
  "two_notes = ascii ''{}'' @ ascii ''{}'' @ [0x0a]"

lemma two_notes_read: "fst (readInbound two_notes) = [InNotification empty_Notification, InNotification empty_Notification]"
  by code_simp

text \<open>Two notifications arrive, and the client is closed before the handler has seen the first.\<close>

lemma stuck_reachable: "\<exists>c. client_reach (newClient two_notes) c \<and> cl_ctx c \<and> stuck c"
proof -
  let ?R = "client_reach (newClient two_notes)"
  let ?n = empty_Notification
  define c0 where "c0 = newClient two_notes"
  have f: "cl_nt c0" "cl_rd c0 = CRun" "cl_in c0 = [InNotification ?n, InNotification ?n]" "cl_notC c0 = None" "\<not> cl_done c0"
    by (simp_all add: c0_def newClient_def two_notes_read)
  have r0: "?R c0" by (simp add: c0_def client_reach.start)
  define c1 where "c1 = c0\<lparr>cl_in := [InNotification ?n], cl_rd := CPutNot ?n\<rparr>"
  have "client_step c0 c1" using read_step.read [of c0 "InNotification ?n"] by (auto simp: c1_def f intro: client_step.reads)
  with r0 have r1: "?R c1" by (rule client_reach.step)
  define c2 where "c2 = c1\<lparr>cl_notC := Some ?n, cl_rd := CRun\<rparr>"
  have "client_step c1 c2" using read_step.put_not [of c1 ?n] by (auto simp: c2_def c1_def f intro: client_step.reads)
  with r1 have r2: "?R c2" by (rule client_reach.step)
  define c3 where "c3 = c2\<lparr>cl_in := [], cl_rd := CPutNot ?n\<rparr>"
  have "client_step c2 c3" using read_step.read [of c2 "InNotification ?n"] by (auto simp: c3_def c2_def c1_def f intro: client_step.reads)
  with r2 have r3: "?R c3" by (rule client_reach.step)
  have r4: "?R (Close c3)" using r3 client_step.closes by (rule client_reach.step)
  define c5 where "c5 = (Close c3)\<lparr>cl_nt := False\<rparr>"
  have "client_step (Close c3) c5" using notify_step.notify_stop [of "Close c3"] by (auto simp: c5_def Close_def c3_def c2_def c1_def f intro: client_step.notifies)
  with r4 have "?R c5" by (rule client_reach.step)
  then show ?thesis by (intro exI [of _ c5]) (simp add: stuck_def c5_def Close_def c3_def c2_def c1_def f)
qed

section \<open>Properties\<close>

text \<open>The server reads what the client writes: the requests that the reader of a connection decodes from the bytes of any
  requests the client encodes are these requests, in order, with their raw fields compacted.\<close>

theorem requests_on_the_wire:
  assumes "encodeAll encodeRequest rqs = Inr s" "list_all shallowRequest rqs"
  shows "fst (readRequests s) = map compactRequest rqs"
  by (rule requests_stream) (rule assms)+

theorem requests_on_the_wire_witness:
  "fst (readRequests (ping_bytes @ ping_bytes)) = [ping_request, ping_request]"
proof -
  have e: "encodeAll encodeRequest [seven, seven] = Inr (ping_bytes @ ping_bytes)" by (simp add: seven_encoded)
  have s: "list_all shallowRequest [seven, seven]" "map compactRequest [seven, seven] = [ping_request, ping_request]" by code_simp+
  from requests_on_the_wire [OF e s(1)] s(2) show ?thesis by simp
qed

text \<open>The client reads what the server writes: responses as responses and notifications as notifications, in order, with their raw
  fields compacted.\<close>

theorem messages_on_the_wire:
  assumes "encodeAll encodeMessage ms = Inr s" "list_all shallowMessage ms"
  shows "fst (readInbound s) = map asRead ms"
  by (rule inbound_stream) (rule assms)+

definition sample_note :: Notification where
  "sample_note = \<lparr>nt_JsonRPC = Some (quoted (ascii ''2.0'')), nt_Method = Some (quoted (ascii ''x'')), nt_Params = Some (ascii ''[ 1]'')\<rparr>"

definition sample_messages :: "outgoing list" where
  "sample_messages = [MsgNotification sample_note, MsgResponse (answer 0x37)]"

definition sample_stream :: bytes where
  "sample_stream = (case encodeAll encodeMessage sample_messages of Inl e \<Rightarrow> [] | Inr s \<Rightarrow> s)"

lemma sample_stream_facts:
  "encodeAll encodeMessage sample_messages = Inr sample_stream" "list_all shallowMessage sample_messages"
  "map asRead sample_messages = [InNotification (sample_note\<lparr>nt_Params := Some (ascii ''[1]'')\<rparr>), InResponse (answer 0x37)]"
  by code_simp+

theorem messages_on_the_wire_witness:
  "fst (readInbound sample_stream) = [InNotification (sample_note\<lparr>nt_Params := Some (ascii ''[1]'')\<rparr>), InResponse (answer 0x37)]"
  using messages_on_the_wire [OF sample_stream_facts(1,2)] sample_stream_facts(3) by simp

text \<open>Callers of \<open>Send\<close> together receive the responses of the stream in its order, and the handler sees the notifications in
  theirs, however the goroutines of the client interleave.\<close>

theorem client_in_order:
  assumes "client_reach (newClient inp) c"
  shows "prefix (cl_got c) (inResponses (fst (readInbound inp))) \<and> prefix (cl_handled c) (inNotifications (fst (readInbound inp)))"
  using delivered_prefix [OF assms] by simp

theorem client_in_order_witness:
  "\<exists>c. client_reach (newClient (answer_bytes 0x37)) c \<and> cl_got c = [answer 0x37] \<and> prefix (cl_got c) (inResponses (fst (readInbound (answer_bytes 0x37))))"
  using seven_run client_in_order by blast

text \<open>C9. From end to end: when a client and the server are connected, so that each reads what the other writes, the responses that
  the callers of the client receive carry the identifiers of the first requests the client wrote, in their order, however the goroutines
  of both sides interleave.\<close>

theorem rpc_end_to_end:
  assumes "server_reach C N (newServer m) s" "c \<in> set (sv_conns s)" "client_reach (newClient inp) k"
    and "encodeAll encodeRequest (cl_out k) = Inr (cn_bytes c)" "list_all shallowRequest (cl_out k)"
    and "encodeAll encodeMessage (cn_out c) = Inr inp" "list_all shallowMessage (cn_out c)"
  shows "prefix (map rs_Id (cl_got k)) (map (compacted \<circ> rq_Id) (cl_out k))"
proof -
  have "ordered c" using order.everywhere [OF assms(1) _ ordered_newConn] assms(2) by (simp add: newServer_def)
  then have "prefix (map rs_Id (responses (cn_out c))) (map rq_Id (map compactRequest (cl_out k)))"
    by (simp add: ordered_def sentIds_def allIds_def requests_stream [OF assms(4,5)] del: map_map)
  from map_mono_prefix [OF this, of compacted]
  have "prefix (map (compacted \<circ> rs_Id) (responses (cn_out c))) (map (\<lambda>rq. compacted (rq_Id (compactRequest rq))) (cl_out k))" by (simp add: comp_def)
  also have "map (\<lambda>rq. compacted (rq_Id (compactRequest rq))) (cl_out k) = map (compacted \<circ> rq_Id) (cl_out k)"
    using compactRequest_id encodeAll_member [OF assms(4)] by (metis (no_types, lifting) comp_apply map_eq_conv)
  finally have sv: "prefix (map (compacted \<circ> rs_Id) (responses (cn_out c))) (map (compacted \<circ> rq_Id) (cl_out k))" .
  have "prefix (cl_got k) (map compactResponse (responses (cn_out c)))"
    using delivered_prefix(1) [OF assms(3)] by (simp add: inbound_stream [OF assms(6,7)] inResponses_asRead)
  from map_mono_prefix [OF this, of rs_Id] have "prefix (map rs_Id (cl_got k)) (map (compacted \<circ> rs_Id) (responses (cn_out c)))"
    by (simp add: comp_def compactResponse_def)
  with sv show ?thesis by (rule prefix_order.order_trans [rotated])
qed

theorem rpc_end_to_end_witness:
  "\<exists>s c k. server_reach xor_crypto (genesis_node Regtest) (newServer sample_mux) s \<and> c \<in> set (sv_conns s) \<and> client_reach (newClient (answer_bytes 0x37)) k
     \<and> cl_got k = [answer 0x37] \<and> cl_out k = [seven] \<and> cn_bytes c = ping_bytes \<and> encodeAll encodeMessage (cn_out c) = Inr (answer_bytes 0x37)
     \<and> prefix (map rs_Id (cl_got k)) (map (compacted \<circ> rq_Id) (cl_out k))"
proof -
  obtain s where s: "server_reach xor_crypto (genesis_node Regtest) (newServer sample_mux) s" "length (sv_conns s) = 1"
      "cn_bytes (sv_conns s ! 0) = ping_bytes" "cn_out (sv_conns s ! 0) = [MsgResponse (response ping_request lit_null)]"
    using ping_run by blast
  let ?c = "sv_conns s ! 0"
  have c: "?c \<in> set (sv_conns s)" using s(2) by simp
  obtain k where k: "client_reach (newClient (answer_bytes 0x37)) k" "cl_out k = [seven]" "cl_got k = [answer 0x37]" using seven_run by blast
  have e: "encodeAll encodeRequest (cl_out k) = Inr (cn_bytes ?c)" by (simp add: k s seven_encoded)
  have sh: "list_all shallowRequest [seven]" "list_all shallowMessage [MsgResponse (response ping_request lit_null)]"
    and o: "encodeAll encodeMessage [MsgResponse (response ping_request lit_null)] = Inr (answer_bytes 0x37)" by code_simp+
  have "prefix (map rs_Id (cl_got k)) (map (compacted \<circ> rq_Id) (cl_out k))"
    by (rule rpc_end_to_end [OF s(1) c k(1) e]) (simp_all only: k s sh o)
  with s c k o show ?thesis by (intro exI [of _ s] exI [of _ ?c] exI [of _ k]) simp
qed

text \<open>C26. A client can become impossible to close: once its goroutine for notifications has ended with one waiting and the reader
  sends another, \<open>done\<close> is never closed, whatever happens, and \<open>Close\<close> returns nothing but the error of its caller's expired
  context. Two notifications and a \<open>Close\<close> lead there.\<close>

theorem client_never_done:
  assumes "client_reach c0 c" "stuck c0"
  shows "\<not> cl_done c \<and> Inr () \<notin> set (Close_select expired c)"
  using stuck_reach [OF assms] by (simp add: stuck_def Close_select_def)

theorem client_never_done_witness:
  "\<exists>c. client_reach (newClient two_notes) c \<and> stuck c \<and> \<not> cl_done (Close c) \<and> Inr () \<notin> set (Close_select True (Close c))"
proof -
  obtain c where c: "client_reach (newClient two_notes) c" "stuck c" using stuck_reachable by blast
  have "client_reach c (Close c)" using client_reach.start client_step.closes by (rule client_reach.step)
  from client_never_done [OF this c(2), of True] c show ?thesis by blast
qed

section \<open>Two callers at once\<close>

text \<open>Responses are not matched with requests: with two calls of \<open>Send\<close> under way the second can return the response to the request of the
  first, although the server answers in order.\<close>

theorem Send_swapped:
  "\<exists>c. client_reach (newClient (answer_bytes 0x31 @ answer_bytes 0x32)) c \<and> cl_out c = [fst two_requests, snd two_requests]
     \<and> cl_callers c = [ToReceive (fst two_requests), Returned (Inr (answer 0x31))]"
proof -
  let ?R = "client_reach (newClient (answer_bytes 0x31 @ answer_bytes 0x32))"
  let ?a = "fst two_requests" and ?b = "snd two_requests"
  obtain ba bb where e: "encodeRequest ?a = Inr ba" "encodeRequest ?b = Inr bb"
  proof -
    have "list_all (\<lambda>d. \<not> isl (encodeRequest (seven\<lparr>rq_Id := Some [d]\<rparr>))) [0x31, 0x32]" by code_simp
    then have "\<not> isl (encodeRequest ?a)" "\<not> isl (encodeRequest ?b)" by (simp_all add: two_requests_def)
    then show ?thesis using that by (cases "encodeRequest ?a"; cases "encodeRequest ?b") auto
  qed
  define c0 where "c0 = newClient (answer_bytes 0x31 @ answer_bytes 0x32)"
  have f: "cl_callers c0 = []" "cl_reqC c0 = None" "cl_wr c0" "cl_rd c0 = CRun" "cl_in c0 = [InResponse (answer 0x31), InResponse (answer 0x32)]"
      "cl_resC c0 = None" "cl_out c0 = []"
    by (simp_all add: c0_def newClient_def answers_read)
  have r0: "?R c0" by (simp add: c0_def client_reach.start)
  define c1 where "c1 = c0\<lparr>cl_callers := [ToSend ?a]\<rparr>"
  have "client_step c0 c1" using send_step.call [of c0 ?a] by (auto simp: c1_def f intro: client_step.sends)
  with r0 have r1: "?R c1" by (rule client_reach.step)
  define c2 where "c2 = c1\<lparr>cl_callers := [ToSend ?a, ToSend ?b]\<rparr>"
  have "client_step c1 c2" using send_step.call [of c1 ?b] by (auto simp: c2_def c1_def intro: client_step.sends)
  with r1 have r2: "?R c2" by (rule client_reach.step)
  define c3 where "c3 = c2\<lparr>cl_reqC := Some ?a, cl_callers := [ToReceive ?a, ToSend ?b]\<rparr>"
  have "client_step c2 c3" using send_step.put [of 0 c2 ?a] by (auto simp: c3_def c2_def c1_def f intro: client_step.sends)
  with r2 have r3: "?R c3" by (rule client_reach.step)
  define c4 where "c4 = c3\<lparr>cl_reqC := None, cl_out := [?a]\<rparr>"
  have "client_step c3 c4" using write_step.write_req [of c3 ?a, OF _ _ e(1)] by (auto simp: c4_def c3_def c2_def c1_def f intro: client_step.writes)
  with r3 have r4: "?R c4" by (rule client_reach.step)
  define c5 where "c5 = c4\<lparr>cl_reqC := Some ?b, cl_callers := [ToReceive ?a, ToReceive ?b]\<rparr>"
  have "client_step c4 c5" using send_step.put [of 1 c4 ?b] by (auto simp: c5_def c4_def c3_def c2_def c1_def f intro: client_step.sends)
  with r4 have r5: "?R c5" by (rule client_reach.step)
  define c6 where "c6 = c5\<lparr>cl_reqC := None, cl_out := [?a, ?b]\<rparr>"
  have "client_step c5 c6" using write_step.write_req [of c5 ?b, OF _ _ e(2)] by (auto simp: c6_def c5_def c4_def c3_def c2_def c1_def f intro: client_step.writes)
  with r5 have r6: "?R c6" by (rule client_reach.step)
  define c7 where "c7 = c6\<lparr>cl_in := [InResponse (answer 0x32)], cl_rd := CPutRes (answer 0x31)\<rparr>"
  have "client_step c6 c7" using read_step.read [of c6 "InResponse (answer 0x31)"] by (auto simp: c7_def c6_def c5_def c4_def c3_def c2_def c1_def f intro: client_step.reads)
  with r6 have r7: "?R c7" by (rule client_reach.step)
  define c8 where "c8 = c7\<lparr>cl_resC := Some (answer 0x31), cl_rd := CRun\<rparr>"
  have "client_step c7 c8" using read_step.put_res [of c7 "answer 0x31"] by (auto simp: c8_def c7_def c6_def c5_def c4_def c3_def c2_def c1_def f intro: client_step.reads)
  with r7 have r8: "?R c8" by (rule client_reach.step)
  define c9 where "c9 = c8\<lparr>cl_resC := None, cl_callers := [ToReceive ?a, Returned (Inr (answer 0x31))], cl_got := cl_got c8 @ [answer 0x31]\<rparr>"
  have "client_step c8 c9" using send_step.get [of 1 c8 ?b "answer 0x31"]
    by (auto simp: c9_def c8_def c7_def c6_def c5_def c4_def c3_def c2_def c1_def intro: client_step.sends)
  with r8 have "?R c9" by (rule client_reach.step)
  then show ?thesis by (intro exI [of _ c9]) (simp add: c9_def c8_def c7_def c6_def c5_def)
qed

end
