(* ===== verification/NodeMessages.thy ===== *)
theory NodeMessages
  imports BitcoinTypes
begin

text \<open>
  The messages of the peer-to-peer protocol in \<open>bitcoin/types.go\<close>: the envelope \<open>message\<close> with its checksum, and the payloads
  \<open>version\<close>, \<open>inv\<close>, \<open>getHeaders\<close>, \<open>headers\<close> and \<open>ping\<close>, with their \<open>Serialize\<close> and \<open>Deserialize\<close>. Every pair keeps the
  contract \<open>wire_codec\<close>.
\<close>

section \<open>Constants\<close>

datatype Command = CmdVersion | CmdVerack | CmdInv | CmdTx | CmdBlock | CmdHeaders | CmdPing | CmdPong | CmdGetheaders | CmdGetdata

fun command_bytes :: "Command \<Rightarrow> bytes" where
  "command_bytes CmdVersion = [0x76, 0x65, 0x72, 0x73, 0x69, 0x6f, 0x6e, 0, 0, 0, 0, 0]"
| "command_bytes CmdVerack = [0x76, 0x65, 0x72, 0x61, 0x63, 0x6b, 0, 0, 0, 0, 0, 0]"
| "command_bytes CmdInv = [0x69, 0x6e, 0x76, 0, 0, 0, 0, 0, 0, 0, 0, 0]"
| "command_bytes CmdTx = [0x74, 0x78, 0, 0, 0, 0, 0, 0, 0, 0, 0, 0]"
| "command_bytes CmdBlock = [0x62, 0x6c, 0x6f, 0x63, 0x6b, 0, 0, 0, 0, 0, 0, 0]"
| "command_bytes CmdHeaders = [0x68, 0x65, 0x61, 0x64, 0x65, 0x72, 0x73, 0, 0, 0, 0, 0]"
| "command_bytes CmdPing = [0x70, 0x69, 0x6e, 0x67, 0, 0, 0, 0, 0, 0, 0, 0]"
| "command_bytes CmdPong = [0x70, 0x6f, 0x6e, 0x67, 0, 0, 0, 0, 0, 0, 0, 0]"
| "command_bytes CmdGetheaders = [0x67, 0x65, 0x74, 0x68, 0x65, 0x61, 0x64, 0x65, 0x72, 0x73, 0, 0]"
| "command_bytes CmdGetdata = [0x67, 0x65, 0x74, 0x64, 0x61, 0x74, 0x61, 0, 0, 0, 0, 0]"

lemma length_command [simp]: "length (command_bytes c) = 12"
  by (cases c) simp_all

definition datatype_tx :: u32 where "datatype_tx = 0x00000001"
definition datatype_witness_tx :: u32 where "datatype_witness_tx = 0x40000001"
definition datatype_witness_block :: u32 where "datatype_witness_block = 0x40000002"
definition protoVersion :: u32 where "protoVersion = 70014"

text \<open>Of the networks in the order of \<open>Network\<close>: main, test, regression.\<close>

definition magicBytes :: "bytes list" where
  "magicBytes = [[0xf9, 0xbe, 0xb4, 0xd9], [0x0b, 0x11, 0x09, 0x07], [0xfa, 0xbf, 0xb5, 0xda]]"

section \<open>The envelope\<close>

record message =
  m_MagicBytes :: bytes
  m_Command :: bytes
  m_Size :: u32
  m_Checksum :: bytes
  m_Payload :: bytes

definition bytesIsZero :: "bytes \<Rightarrow> bool" where
  "bytesIsZero b \<longleftrightarrow> list_all (\<lambda>x. x = 0) b"

definition checkSum :: "bytes \<Rightarrow> bytes" where
  "checkSum data = take 4 (Sum256 (Sum256 data))"

definition checkSumMatch :: "bytes \<Rightarrow> bytes \<Rightarrow> bool" where
  "checkSumMatch data c \<longleftrightarrow> c = checkSum data"

definition message_Deserialize :: "bytes \<Rightarrow> (message, bytes) outcome" where
  "message_Deserialize r =
     ebind (readAll 4 r) (\<lambda>magic r.
     ebind (readAll 12 r) (\<lambda>command r.
     ebind (uint32ReadLE r) (\<lambda>size r.
     ebind (readAll 4 r) (\<lambda>chk r.
     ebind (readAll (unat size) r) (\<lambda>payload r.
     if \<not> checkSumMatch payload chk then (Inl (Err ''bad payload checksum''), r)
     else (Inr \<lparr>m_MagicBytes = magic, m_Command = command, m_Size = size, m_Checksum = chk, m_Payload = payload\<rparr>, r))))))"

definition message_Serialize :: "message \<Rightarrow> bytes" where
  "message_Serialize m =
     (let chk = (if bytesIsZero (m_Checksum m) then checkSum (m_Payload m) else m_Checksum m);
          magic = (if bytesIsZero (m_MagicBytes m) then magicBytes ! 0 else m_MagicBytes m)
      in magic @ m_Command m @ uint32SerializeLE (of_nat (length (m_Payload m))) @ chk @ m_Payload m)"

text \<open>The messages the client makes: the checksum and the size are filled in by \<open>Serialize\<close>.\<close>

definition makeMessage :: "bytes \<Rightarrow> Command \<Rightarrow> bytes \<Rightarrow> message" where
  "makeMessage magic c payload = \<lparr>m_MagicBytes = magic, m_Command = command_bytes c, m_Size = 0, m_Checksum = replicate 4 0, m_Payload = payload\<rparr>"

definition makeVerAckMessage :: "bytes \<Rightarrow> message" where
  "makeVerAckMessage magic = makeMessage magic CmdVerack []"

definition makePongMessage :: "bytes \<Rightarrow> bytes \<Rightarrow> message" where
  "makePongMessage magic nonce = makeMessage magic CmdPong nonce"

section \<open>Payloads\<close>

definition ping_Deserialize :: "bytes \<Rightarrow> (bytes, bytes) outcome" where
  "ping_Deserialize r = readAll 8 r"

definition ping_Serialize :: "bytes \<Rightarrow> bytes" where
  "ping_Serialize nonce = nonce"

record inventory =
  iv_Type :: u32
  iv_Hash :: hash32

definition inventory_Deserialize :: "bytes \<Rightarrow> (inventory, bytes) outcome" where
  "inventory_Deserialize r =
     ebind (uint32ReadLE r) (\<lambda>t r.
     ebind (readAll 32 r) (\<lambda>h r. (Inr \<lparr>iv_Type = t, iv_Hash = h\<rparr>, r)))"

definition inventory_Serialize :: "inventory \<Rightarrow> bytes" where
  "inventory_Serialize i = uint32SerializeLE (iv_Type i) @ iv_Hash i"

record inv =
  in_Count :: u64
  in_Inventory :: "inventory list"

definition inv_Deserialize :: "bytes \<Rightarrow> (inv, bytes) outcome" where
  "inv_Deserialize r =
     ebind (compactSizeRead r) (\<lambda>count r.
     ebind (makeSlice 36 count r) (\<lambda>_ r.
     ebind (readN (unat count) inventory_Deserialize r) (\<lambda>is r. (Inr \<lparr>in_Count = count, in_Inventory = is\<rparr>, r))))"

definition inv_Serialize :: "inv \<Rightarrow> bytes" where
  "inv_Serialize i = compactSizeSerialize (of_nat (length (in_Inventory i))) @ concat (map inventory_Serialize (in_Inventory i))"

definition makeInvMessage :: "bytes \<Rightarrow> Command \<Rightarrow> inv \<Rightarrow> message" where
  "makeInvMessage magic c data = makeMessage magic c (inv_Serialize data)"

record getHeaders =
  gh_Version :: u32
  gh_HashCount :: u64
  gh_BlockHeaderHashes :: "hash32 list"
  gh_StopHash :: hash32

definition getHeaders_Deserialize :: "bytes \<Rightarrow> (getHeaders, bytes) outcome" where
  "getHeaders_Deserialize r =
     ebind (uint32ReadLE r) (\<lambda>v r.
     ebind (compactSizeRead r) (\<lambda>count r.
     ebind (makeSlice 32 count r) (\<lambda>_ r.
     ebind (readN (unat count) (readAll 32) r) (\<lambda>hs r.
     ebind (readAll 32 r) (\<lambda>stop r.
     (Inr \<lparr>gh_Version = v, gh_HashCount = count, gh_BlockHeaderHashes = hs, gh_StopHash = stop\<rparr>, r))))))"

definition getHeaders_Serialize :: "getHeaders \<Rightarrow> bytes" where
  "getHeaders_Serialize g =
     uint32SerializeLE (gh_Version g) @ compactSizeSerialize (of_nat (length (gh_BlockHeaderHashes g)))
     @ concat (gh_BlockHeaderHashes g) @ gh_StopHash g"

definition makeGetHeadersMessage :: "bytes \<Rightarrow> hash32 list \<Rightarrow> hash32 \<Rightarrow> message" where
  "makeGetHeadersMessage magic bhashes end_hash =
     makeMessage magic CmdGetheaders (getHeaders_Serialize
       \<lparr>gh_Version = protoVersion, gh_HashCount = 0, gh_BlockHeaderHashes = bhashes, gh_StopHash = end_hash\<rparr>)"

record headers =
  hs_Count :: u64
  hs_Headers :: "Header list"

definition headers_Deserialize :: "bytes \<Rightarrow> (headers, bytes) outcome" where
  "headers_Deserialize r =
     ebind (compactSizeRead r) (\<lambda>count r.
     ebind (makeSlice 80 count r) (\<lambda>_ r.
     ebind (readN (unat count) Header_Deserialize r) (\<lambda>hs r. (Inr \<lparr>hs_Count = count, hs_Headers = hs\<rparr>, r))))"

definition headers_Serialize :: "headers \<Rightarrow> bytes" where
  "headers_Serialize h = compactSizeSerialize (of_nat (length (hs_Headers h))) @ concat (map Header_Serialize (hs_Headers h))"

record version =
  vs_ProtocolVersion :: u32
  vs_Services :: u64
  vs_Time :: u64
  vs_RemoteServices :: u64
  vs_RemoteIP :: bytes
  vs_RemotePort :: u16
  vs_LocalServices :: u64
  vs_LocalIP :: bytes
  vs_LocalPort :: u16
  vs_Nonce :: u64
  vs_UserAgent :: bytes
  vs_LastBlock :: u32

definition version_Deserialize :: "bytes \<Rightarrow> (version, bytes) outcome" where
  "version_Deserialize r =
     ebind (uint32ReadLE r) (\<lambda>proto r.
     ebind (uint64ReadLE r) (\<lambda>services r.
     ebind (uint64ReadLE r) (\<lambda>time r.
     ebind (uint64ReadLE r) (\<lambda>rservices r.
     ebind (readAll 16 r) (\<lambda>rip r.
     ebind (uint16ReadBE r) (\<lambda>rport r.
     ebind (uint64ReadLE r) (\<lambda>lservices r.
     ebind (readAll 16 r) (\<lambda>lip r.
     ebind (uint16ReadBE r) (\<lambda>lport r.
     ebind (uint64ReadLE r) (\<lambda>nonce r.
     ebind (compactSizeRead r) (\<lambda>uaSize r.
     ebind (makeSlice 1 uaSize r) (\<lambda>_ r.
     ebind (readAll (unat uaSize) r) (\<lambda>ua r.
     ebind (uint32ReadLE r) (\<lambda>last r.
     (Inr \<lparr>vs_ProtocolVersion = proto, vs_Services = services, vs_Time = time, vs_RemoteServices = rservices, vs_RemoteIP = rip,
           vs_RemotePort = rport, vs_LocalServices = lservices, vs_LocalIP = lip, vs_LocalPort = lport, vs_Nonce = nonce,
           vs_UserAgent = ua, vs_LastBlock = last\<rparr>, r)))))))))))))))"

definition version_Serialize :: "version \<Rightarrow> bytes" where
  "version_Serialize v =
     uint32SerializeLE (vs_ProtocolVersion v) @ uint64SerializeLE (vs_Services v) @ uint64SerializeLE (vs_Time v)
     @ uint64SerializeLE (vs_RemoteServices v) @ vs_RemoteIP v @ uint16SerializeBE (vs_RemotePort v)
     @ uint64SerializeLE (vs_LocalServices v) @ vs_LocalIP v @ uint16SerializeBE (vs_LocalPort v) @ uint64SerializeLE (vs_Nonce v)
     @ compactSizeSerialize (of_nat (length (vs_UserAgent v))) @ vs_UserAgent v @ uint32SerializeLE (vs_LastBlock v)"

text \<open>The argument \<open>now\<close> is the clock.\<close>

definition makeVersionMessage :: "u64 \<Rightarrow> bytes \<Rightarrow> message" where
  "makeVersionMessage now magic = makeMessage magic CmdVersion (version_Serialize
     \<lparr>vs_ProtocolVersion = protoVersion, vs_Services = 0, vs_Time = now, vs_RemoteServices = 0, vs_RemoteIP = replicate 16 0,
      vs_RemotePort = 0, vs_LocalServices = 0, vs_LocalIP = replicate 16 0, vs_LocalPort = 0, vs_Nonce = 0,
      vs_UserAgent = [0x2f, 0x61, 0x5f, 0x62, 0x69, 0x74, 0x63, 0x6f, 0x69, 0x6e, 0x5f, 0x63, 0x6c, 0x69, 0x65, 0x6e, 0x74, 0x2f],
      vs_LastBlock = 0\<rparr>)"

section \<open>The contract holds\<close>

definition wf_inventory :: "inventory \<Rightarrow> bool" where
  "wf_inventory i \<longleftrightarrow> length (iv_Hash i) = 32"

definition wf_inv :: "inv \<Rightarrow> bool" where
  "wf_inv i \<longleftrightarrow> counts 36 (in_Count i) (in_Inventory i) \<and> list_all wf_inventory (in_Inventory i)"

definition wf_getHeaders :: "getHeaders \<Rightarrow> bool" where
  "wf_getHeaders g \<longleftrightarrow> counts 32 (gh_HashCount g) (gh_BlockHeaderHashes g) \<and> list_all (\<lambda>h. length h = 32) (gh_BlockHeaderHashes g)
     \<and> length (gh_StopHash g) = 32"

definition wf_headers :: "headers \<Rightarrow> bool" where
  "wf_headers h \<longleftrightarrow> counts 80 (hs_Count h) (hs_Headers h) \<and> list_all wf_Header (hs_Headers h)"

definition wf_version :: "version \<Rightarrow> bool" where
  "wf_version v \<longleftrightarrow> length (vs_RemoteIP v) = 16 \<and> length (vs_LocalIP v) = 16 \<and> length (vs_UserAgent v) \<le> 2 ^ 48"

definition wf_message :: "message \<Rightarrow> bool" where
  "wf_message m \<longleftrightarrow> length (m_MagicBytes m) = 4 \<and> \<not> bytesIsZero (m_MagicBytes m) \<and> length (m_Command m) = 12
     \<and> unat (m_Size m) = length (m_Payload m) \<and> m_Checksum m = checkSum (m_Payload m)"

lemma length_checkSum [simp]: "length (checkSum d) = 4"
  by (simp add: checkSum_def)

interpretation inventory_codec: wire_codec inventory_Serialize inventory_Deserialize wf_inventory
  by unfold_locales (simp add: inventory_Serialize_def inventory_Deserialize_def wf_inventory_def prim_dec_enc codec_simps)

interpretation inv_codec: wire_codec inv_Serialize inv_Deserialize wf_inv
  by unfold_locales (simp add: inv_Serialize_def inv_Deserialize_def wf_inv_def counts_iff makeSlice_ok prim_dec_enc inventory_codec.readN_enc)

interpretation hash_codec: wire_codec "\<lambda>h. h" "readAll 32" "\<lambda>h. length h = 32"
  by unfold_locales (simp add: codec_simps)

interpretation getHeaders_codec: wire_codec getHeaders_Serialize getHeaders_Deserialize wf_getHeaders
proof
  fix x :: getHeaders and r assume "wf_getHeaders x"
  then show "getHeaders_Deserialize (getHeaders_Serialize x @ r) = (Inr x, r)"
    using hash_codec.readN_enc [of "gh_BlockHeaderHashes x"]
    by (simp add: getHeaders_Serialize_def getHeaders_Deserialize_def wf_getHeaders_def counts_iff makeSlice_ok prim_dec_enc codec_simps)
qed

interpretation headers_codec: wire_codec headers_Serialize headers_Deserialize wf_headers
  by unfold_locales (simp add: headers_Serialize_def headers_Deserialize_def wf_headers_def counts_iff makeSlice_ok prim_dec_enc header_codec.readN_enc)

lemma makeSlice_length: "length x \<le> 2 ^ 48 \<Longrightarrow> makeSlice 1 (of_nat (length x)) r = (Inr (), r)"
proof (rule makeSlice_ok)
  assume "length x \<le> 2 ^ 48"
  then have "unat (of_nat (length x) :: u64) = length x" by (intro unat_of_nat_small) simp
  then have "uint (of_nat (length x) :: u64) = int (length x)" unfolding uint_nat by simp
  with \<open>length x \<le> 2 ^ 48\<close> show "int 1 * uint (of_nat (length x) :: u64) \<le> 2 ^ 48" by simp
qed

interpretation version_codec: wire_codec version_Serialize version_Deserialize wf_version
  by unfold_locales
    (simp add: version_Serialize_def version_Deserialize_def wf_version_def prim_dec_enc codec_simps unat_of_nat_small makeSlice_length [simplified])

interpretation message_codec: wire_codec message_Serialize message_Deserialize wf_message
proof
  fix m :: message and r assume w: "wf_message m"
  then have "unat (m_Size m) = length (m_Payload m)" by (simp add: wf_message_def)
  then have "of_nat (length (m_Payload m)) = m_Size m" by (auto dest: sym)
  then show "message_Deserialize (message_Serialize m @ r) = (Inr m, r)"
    using w by (simp add: message_Serialize_def message_Deserialize_def wf_message_def Let_def prim_dec_enc codec_simps checkSumMatch_def)
qed

end
