(* ===== verification/NodeClient.thy ===== *)
theory NodeClient
  imports SyncProperties NodeMessages
begin

text \<open>
  \<open>bitcoin/client.go\<close>: the connection to the node. After the handshake (\<open>performHandshake\<close>) a reader, a writer and \<open>mux\<close> run
  beside the callers of \<open>GetHeaders\<close>, \<open>GetBlock\<close> and \<open>BroadcastWTX\<close>, as an interleaving of atomic steps. A call registers a handler for
  the command of its answer, sends its request, and waits for what the handler hands over: \<open>headersChan\<close>, \<open>blockChan\<close> and
  \<open>errChan\<close> of \<open>GetHeaders\<close> and \<open>GetBlock\<close> have no buffer, so \<open>mux\<close> is blocked in the handler until the caller receives.

  The input is the byte stream the peer sends in all; a failure of the network, a timeout or a cancellation may come at any time.
  \<open>nc_got\<close> records the messages \<open>mux\<close> has taken.
\<close>

section \<open>State\<close>

datatype request = ReqHeaders "hash32 list" hash32 | ReqBlock hash32 | ReqBroadcast bytes

datatype answer = AnsHeaders "Header list" | AnsBlock Block | AnsSent

text \<open>A call: before \<open>setHandler\<close>, before \<open>send\<close>, at its \<open>select\<close>, before the deferred \<open>unsetHandler\<close>, returned.\<close>

datatype callState = CStart | CSend | CWait | CUnset "answer result" | CReturned "answer result"

text \<open>\<open>errC\<close> and \<open>proceedC\<close> are the buffered channels of \<open>BroadcastWTX\<close>.\<close>

record call =
  ca_req :: request
  ca_state :: callState
  ca_errC :: "error option"
  ca_proceedC :: bool

datatype nodeHandler = HPing | HAnswer nat

text \<open>\<open>mux\<close> is idle, or in a handler: at \<open>errChan <- err\<close>, at the send of the answer, at that send after an error, in \<open>pingHandler\<close>, at the sends of the
  handler of \<open>BroadcastWTX\<close>.\<close>

datatype muxState = MuxIdle | MuxEnded | MuxErr nat error | MuxAns nat answer | MuxStuck nat | MuxPong message
  | MuxBErr nat error | MuxTx nat bytes | MuxProceed nat | MuxPanic string

datatype nodeReader = NRun | NPut message | NDone

record nclient =
  nc_magic :: bytes
  nc_bytes :: bytes
  nc_in :: "message list"
  nc_rd :: nodeReader
  nc_wr :: bool
  nc_ctx :: bool                       \<comment> \<open>the context of \<open>connHandler\<close> is cancelled\<close>
  nc_readChan :: "message option"
  nc_writeChan :: "message option"
  nc_out :: "message list"
  nc_handlers :: "bytes \<rightharpoonup> nodeHandler"
  nc_mux :: muxState
  nc_calls :: "call list"
  nc_got :: "message list"

section \<open>Messages of the stream\<close>

lemma readAll_rest: "readAll n r = (Inr x, r') \<Longrightarrow> length r' = length r - n \<and> length x = n \<and> n \<le> length r"
  by (auto simp: readAll_eq split: if_splits)

lemma uint32ReadLE_rest: "uint32ReadLE r = (Inr x, r') \<Longrightarrow> length r' < length r"
  by (fastforce simp: uint32ReadLE_def ebind_ok_iff dest!: readAll_rest)

lemma message_Deserialize_shorter: "message_Deserialize r = (Inr m, r') \<Longrightarrow> length r' < length r"
  by (fastforce simp: message_Deserialize_def ebind_ok_iff dest!: readAll_rest uint32ReadLE_rest split: if_splits)

text \<open>The loop of \<open>connRead\<close>: the messages of a stream and the error that ends it.\<close>

function readMessages :: "bytes \<Rightarrow> message list \<times> error" where
  "readMessages s =
     (case message_Deserialize s of
        (Inl e, r) \<Rightarrow> ([], e)
      | (Inr m, r) \<Rightarrow> (let (ms, e) = readMessages r in (m # ms, e)))"
  by pat_completeness auto
termination by (relation "measure length") (auto dest: message_Deserialize_shorter [OF sym])

declare readMessages.simps [simp del]

lemma readMessages_stream:
  "list_all wf_message ms \<Longrightarrow> fst (readMessages (concat (map message_Serialize ms))) = ms"
proof (induction ms)
  case Nil
  have "message_Deserialize [] = (Inl ErrEOF, [])" by (simp add: message_Deserialize_def readAll_eq)
  then show ?case by (simp add: readMessages.simps [of "[]"])
next
  case (Cons m ms)
  then show ?case by (simp add: readMessages.simps [of "message_Serialize m @ _"] message_codec.dec_enc case_prod_unfold Let_def)
qed

section \<open>Handshake\<close>

text \<open>\<open>performHandshake\<close> on the messages received, before \<open>mux\<close> runs: the outcome and the messages that are left.\<close>

definition hasPrefix :: "bytes \<Rightarrow> bytes \<Rightarrow> bool" where
  "hasPrefix b p \<longleftrightarrow> take (length p) b = p"

definition performHandshake :: "message list \<Rightarrow> (unit, message list) outcome" where
  "performHandshake ms =
     (case ms of [] \<Rightarrow> (Inl (Err ''context''), [])
      | m1 # ms \<Rightarrow>
          if \<not> hasPrefix (m_Command m1) (command_bytes CmdVersion) then (Inl (Err ''bad message''), ms)
          else case ms of [] \<Rightarrow> (Inl (Err ''context''), [])
           | m2 # ms \<Rightarrow>
               if \<not> hasPrefix (m_Command m2) (command_bytes CmdVerack) then (Inl (Err ''bad message''), ms)
               else (Inr (), ms))"

text \<open>The client after a successful \<open>Start\<close> at the time \<open>now\<close>, with the peer that sends the bytes \<open>inp\<close>.\<close>

definition started :: "bytes \<Rightarrow> u64 \<Rightarrow> bytes \<Rightarrow> nclient \<Rightarrow> bool" where
  "started magic now inp s \<longleftrightarrow>
     (\<exists>ms. performHandshake (fst (readMessages inp)) = (Inr (), ms)
       \<and> s = \<lparr>nc_magic = magic, nc_bytes = inp, nc_in = ms, nc_rd = NRun, nc_wr = True, nc_ctx = False, nc_readChan = None,
              nc_writeChan = None, nc_out = [makeVersionMessage now magic, makeVerAckMessage magic],
              nc_handlers = [command_bytes CmdPing \<mapsto> HPing], nc_mux = MuxIdle, nc_calls = [], nc_got = []\<rparr>)"

section \<open>Handlers\<close>

text \<open>The command whose handler a call registers, the message it sends, and what \<open>handleHeader\<close> and \<open>blockHandler\<close> make of a payload.\<close>

fun answerCommand :: "request \<Rightarrow> Command" where
  "answerCommand (ReqHeaders hs e) = CmdHeaders"
| "answerCommand (ReqBlock h) = CmdBlock"
| "answerCommand (ReqBroadcast raw) = CmdGetdata"

fun requestMessage :: "bytes \<Rightarrow> request \<Rightarrow> message" where
  "requestMessage magic (ReqHeaders hs e) = makeGetHeadersMessage magic hs e"
| "requestMessage magic (ReqBlock h) =
     makeInvMessage magic CmdGetdata \<lparr>in_Count = 1, in_Inventory = [\<lparr>iv_Type = datatype_witness_block, iv_Hash = h\<rparr>]\<rparr>"
| "requestMessage magic (ReqBroadcast raw) =
     makeInvMessage magic CmdInv \<lparr>in_Count = 1, in_Inventory = [\<lparr>iv_Type = datatype_witness_tx, iv_Hash = Sum256 (Sum256 raw)\<rparr>]\<rparr>"

definition handleHeader :: "bytes \<Rightarrow> answer result" where
  "handleHeader payload = rbind (fst (headers_Deserialize payload)) (\<lambda>p. Inr (AnsHeaders (hs_Headers p)))"

definition blockHandler :: "bytes \<Rightarrow> answer result" where
  "blockHandler payload = rbind (fst (Block_Deserialize payload)) (\<lambda>b. Inr (AnsBlock b))"

text \<open>The checks of the handler of \<open>BroadcastWTX\<close>.\<close>

definition checkInv :: "hash32 \<Rightarrow> bytes \<Rightarrow> unit result" where
  "checkInv wtxid payload =
     rbind (fst (inv_Deserialize payload)) (\<lambda>i.
     if length (in_Inventory i) \<noteq> 1 then Inl (Err ''unexpected inv count'')
     else if iv_Type (hd (in_Inventory i)) \<noteq> datatype_tx then Inl (Err ''unexpected inv type'')
     else if iv_Hash (hd (in_Inventory i)) \<noteq> wtxid then Inl (Err ''unexpected wtxid'')
     else Inr ())"

text \<open>The send of an error, \<open>h\<close>, is not reached when the handler panics.\<close>

definition orPanic :: "(error \<Rightarrow> muxState) \<Rightarrow> error \<Rightarrow> muxState" where
  "orPanic h e = (case e of ErrPanic p \<Rightarrow> MuxPanic p | _ \<Rightarrow> h e)"

text \<open>What \<open>mux\<close> does with a message: without a handler nothing, otherwise the handler runs up to its first send.\<close>

definition dispatch :: "message \<Rightarrow> nclient \<Rightarrow> muxState" where
  "dispatch m s =
     (case nc_handlers s (m_Command m) of
        None \<Rightarrow> MuxIdle
      | Some HPing \<Rightarrow> (case fst (ping_Deserialize (m_Payload m)) of Inl e \<Rightarrow> MuxIdle | Inr nonce \<Rightarrow> MuxPong (makePongMessage (nc_magic s) nonce))
      | Some (HAnswer k) \<Rightarrow>
          (case ca_req (nc_calls s ! k) of
             ReqHeaders hs e \<Rightarrow> (case handleHeader (m_Payload m) of Inl e \<Rightarrow> orPanic (MuxErr k) e | Inr a \<Rightarrow> MuxAns k a)
           | ReqBlock h \<Rightarrow> (case blockHandler (m_Payload m) of Inl e \<Rightarrow> orPanic (MuxErr k) e | Inr a \<Rightarrow> MuxAns k a)
           | ReqBroadcast raw \<Rightarrow> (case checkInv (Sum256 (Sum256 raw)) (m_Payload m) of Inl e \<Rightarrow> orPanic (MuxBErr k) e | Inr _ \<Rightarrow> MuxTx k raw)))"

definition updCall :: "nat \<Rightarrow> (call \<Rightarrow> call) \<Rightarrow> nclient \<Rightarrow> nclient" where
  "updCall k f s = s\<lparr>nc_calls := (nc_calls s)[k := f (nc_calls s ! k)]\<rparr>"

definition setState :: "nat \<Rightarrow> callState \<Rightarrow> nclient \<Rightarrow> nclient" where
  "setState k c s = updCall k (\<lambda>x. x\<lparr>ca_state := c\<rparr>) s"

definition newCall :: "request \<Rightarrow> call" where
  "newCall rq = \<lparr>ca_req = rq, ca_state = CStart, ca_errC = None, ca_proceedC = False\<rparr>"

definition at_call :: "nat \<Rightarrow> callState \<Rightarrow> nclient \<Rightarrow> bool" where
  "at_call k c s \<longleftrightarrow> k < length (nc_calls s) \<and> ca_state (nc_calls s ! k) = c"

section \<open>Steps\<close>

text \<open>The reader, the writer, and \<open>connHandler\<close>, which cancels the context when one of them ends or the process is stopped.\<close>

inductive io_step :: "nclient \<Rightarrow> nclient \<Rightarrow> bool" where
  read: "nc_rd s = NRun \<Longrightarrow> nc_in s = m # ms \<Longrightarrow> io_step s (s\<lparr>nc_in := ms, nc_rd := NPut m\<rparr>)"
| put: "nc_rd s = NPut m \<Longrightarrow> nc_readChan s = None \<Longrightarrow> io_step s (s\<lparr>nc_rd := NRun, nc_readChan := Some m\<rparr>)"
| read_end: "nc_rd s = NRun \<Longrightarrow> io_step s (s\<lparr>nc_rd := NDone\<rparr>)"
| write_msg: "nc_wr s \<Longrightarrow> nc_writeChan s = Some m \<Longrightarrow> io_step s (s\<lparr>nc_writeChan := None, nc_out := nc_out s @ [m]\<rparr>)"
| write_end: "nc_wr s \<Longrightarrow> c \<in> {nc_writeChan s, None} \<Longrightarrow> io_step s (s\<lparr>nc_writeChan := c, nc_wr := False\<rparr>)"
| cancel: "io_step s (s\<lparr>nc_ctx := True\<rparr>)"

inductive mux_step :: "nclient \<Rightarrow> nclient \<Rightarrow> bool" where
  take: "nc_mux s = MuxIdle \<Longrightarrow> nc_readChan s = Some m \<Longrightarrow>
    mux_step s (s\<lparr>nc_readChan := None, nc_mux := dispatch m s, nc_got := nc_got s @ [m]\<rparr>)"
| give: "nc_mux s = MuxAns k a \<Longrightarrow> at_call k CWait s \<Longrightarrow> mux_step s (setState k (CUnset (Inr a)) (s\<lparr>nc_mux := MuxIdle\<rparr>))"
| give_err: "nc_mux s = MuxErr k e \<Longrightarrow> at_call k CWait s \<Longrightarrow> mux_step s (setState k (CUnset (Inl e)) (s\<lparr>nc_mux := MuxStuck k\<rparr>))"
| pong: "nc_mux s = MuxPong m \<Longrightarrow> nc_writeChan s = None \<Longrightarrow> mux_step s (s\<lparr>nc_mux := MuxIdle, nc_writeChan := Some m\<rparr>)"
| pong_timeout: "nc_mux s = MuxPong m \<Longrightarrow> mux_step s (s\<lparr>nc_mux := MuxIdle\<rparr>)"
| send_tx: "nc_mux s = MuxTx k raw \<Longrightarrow> nc_writeChan s = None \<Longrightarrow>
    mux_step s (s\<lparr>nc_mux := MuxProceed k, nc_writeChan := Some (makeMessage (nc_magic s) CmdTx raw)\<rparr>)"
| send_tx_err: "nc_mux s = MuxTx k raw \<Longrightarrow> mux_step s (s\<lparr>nc_mux := MuxBErr k (Err ''context'')\<rparr>)"
| proceed: "nc_mux s = MuxProceed k \<Longrightarrow> \<not> ca_proceedC (nc_calls s ! k) \<Longrightarrow> mux_step s (updCall k (\<lambda>x. x\<lparr>ca_proceedC := True\<rparr>) (s\<lparr>nc_mux := MuxIdle\<rparr>))"
| proceed_err: "nc_mux s = MuxBErr k e \<Longrightarrow> ca_errC (nc_calls s ! k) = None \<Longrightarrow>
    mux_step s (updCall k (\<lambda>x. x\<lparr>ca_errC := Some e\<rparr>) (s\<lparr>nc_mux := MuxIdle\<rparr>))"
| mux_end: "nc_mux s = MuxIdle \<Longrightarrow> nc_ctx s \<Longrightarrow> mux_step s (s\<lparr>nc_mux := MuxEnded\<rparr>)"

text \<open>The callers. \<open>give_up\<close>: the context of the call or of the client is cancelled, or the broadcast takes too long.\<close>

inductive call_step :: "nclient \<Rightarrow> nclient \<Rightarrow> bool" where
  call: "call_step s (s\<lparr>nc_calls := nc_calls s @ [newCall rq]\<rparr>)"
| setHandler: "at_call k CStart s \<Longrightarrow>
    call_step s (setState k CSend (s\<lparr>nc_handlers := (nc_handlers s)(command_bytes (answerCommand (ca_req (nc_calls s ! k))) \<mapsto> HAnswer k)\<rparr>))"
| send: "at_call k CSend s \<Longrightarrow> nc_writeChan s = None \<Longrightarrow>
    call_step s (setState k CWait (s\<lparr>nc_writeChan := Some (requestMessage (nc_magic s) (ca_req (nc_calls s ! k)))\<rparr>))"
| give_up: "c \<in> {CSend, CWait} \<Longrightarrow> at_call k c s \<Longrightarrow> call_step s (setState k (CUnset (Inl (Err ''context''))) s)"
| sent_err: "at_call k CWait s \<Longrightarrow> ca_req (nc_calls s ! k) = ReqBroadcast raw \<Longrightarrow> ca_errC (nc_calls s ! k) = Some e \<Longrightarrow>
    call_step s (updCall k (\<lambda>x. x\<lparr>ca_errC := None, ca_state := CUnset (Inl e)\<rparr>) s)"
| sent: "at_call k CWait s \<Longrightarrow> ca_req (nc_calls s ! k) = ReqBroadcast raw \<Longrightarrow> ca_proceedC (nc_calls s ! k) \<Longrightarrow>
    call_step s (updCall k (\<lambda>x. x\<lparr>ca_proceedC := False, ca_state := CUnset (Inr AnsSent)\<rparr>) s)"
| unsetHandler: "at_call k (CUnset r) s \<Longrightarrow>
    call_step s (setState k (CReturned r) (s\<lparr>nc_handlers := (nc_handlers s)(command_bytes (answerCommand (ca_req (nc_calls s ! k))) := None)\<rparr>))"

text \<open>No goroutine runs after a panic.\<close>

definition panicked :: "nclient \<Rightarrow> bool" where
  "panicked s \<longleftrightarrow> (\<exists>p. nc_mux s = MuxPanic p)"

inductive node_step :: "nclient \<Rightarrow> nclient \<Rightarrow> bool" where
  conn: "\<not> panicked s \<Longrightarrow> io_step s s' \<Longrightarrow> node_step s s'"
| mux: "\<not> panicked s \<Longrightarrow> mux_step s s' \<Longrightarrow> node_step s s'"
| calls: "\<not> panicked s \<Longrightarrow> call_step s s' \<Longrightarrow> node_step s s'"

inductive node_reach :: "nclient \<Rightarrow> nclient \<Rightarrow> bool" for s0 where
  start: "node_reach s0 s0"
| step: "node_reach s0 s \<Longrightarrow> node_step s s' \<Longrightarrow> node_reach s0 s'"

end
