(* ===== verification/NodeProperties.thy ===== *)
theory NodeProperties
  imports NodeClient "HOL-Library.Sublist"
begin

text \<open>
  The connection to the node: what a call returns comes from the stream, the client keeps the contract of the peer of the
  synchronisation, what it sends can be read, and a message it cannot parse, or a caller that has left, ends it for ever.
\<close>

section \<open>Reading never reports a reorganisation\<close>

definition no_reorg :: "('a, 's) outcome \<Rightarrow> bool" where
  "no_reorg x \<longleftrightarrow> (\<forall>k. fst x \<noteq> Inl (ErrReorg k))"

lemma no_reorg_ebind: "no_reorg x \<Longrightarrow> (\<And>a r. no_reorg (f a r)) \<Longrightarrow> no_reorg (ebind x f)"
  by (auto simp: no_reorg_def split: ebind_split)

lemma no_reorg_leaf: "no_reorg (Inr a, r)" "no_reorg (Inl (Err e), r)" "no_reorg (readAll n r)" "no_reorg (reader_Read n r)"
  "no_reorg (makeSlice z c r)"
  by (auto simp: no_reorg_def readAll_eq reader_Read_def makeSlice_def)

lemma no_reorg_if: "no_reorg x \<Longrightarrow> no_reorg y \<Longrightarrow> no_reorg (if b then x else y)"
  by simp

lemmas no_reorg_intros = no_reorg_ebind no_reorg_leaf no_reorg_if

lemma no_reorg_prim: "no_reorg (uint32ReadLE r)" "no_reorg (uint64ReadLE r)" "no_reorg (compactSizeRead r)"
  unfolding uint32ReadLE_def uint64ReadLE_def compactSizeRead_def Let_def by (intro no_reorg_intros)+

lemma no_reorg_readN: "(\<And>r. no_reorg (dec r)) \<Longrightarrow> no_reorg (readN n dec r)"
  by (induction n arbitrary: r) (simp_all add: no_reorg_intros)

lemma no_reorg_tx: "no_reorg (Transaction_Deserialize r)"
  unfolding Transaction_Deserialize_def Transaction_Deserialize_body_def Input_Deserialize_def Output_Deserialize_def
    Witness_Deserialize_def stackItem_Deserialize_def
  by (intro no_reorg_intros no_reorg_prim no_reorg_readN)

lemma no_reorg_payloads: "no_reorg (headers_Deserialize r)" "no_reorg (Block_Deserialize r)" "no_reorg (inv_Deserialize r)"
  unfolding headers_Deserialize_def Header_Deserialize_def Block_Deserialize_def inv_Deserialize_def inventory_Deserialize_def
  by (intro no_reorg_intros no_reorg_prim no_reorg_readN no_reorg_tx)+

lemma handler_no_reorg:
  "handleHeader p \<noteq> Inl (ErrReorg k)" "blockHandler p \<noteq> Inl (ErrReorg k)" "checkInv h p \<noteq> Inl (ErrReorg k)"
  using no_reorg_payloads [of p] by (auto simp: handleHeader_def blockHandler_def checkInv_def no_reorg_def rbind_def split: sum.splits)

lemma wf_Header_read: "Header_Deserialize r = (Inr h, r') \<Longrightarrow> wf_Header h"
  by (auto simp: Header_Deserialize_def wf_Header_def ebind_ok_iff dest!: readAll_rest)

lemma readN_all: "readN n dec r = (Inr xs, r') \<Longrightarrow> (\<And>r x r'. dec r = (Inr x, r') \<Longrightarrow> P x) \<Longrightarrow> list_all P xs"
  by (induction n arbitrary: r xs r') (auto simp: ebind_ok_iff)

lemma wf_headers_read: "headers_Deserialize r = (Inr p, r') \<Longrightarrow> list_all wf_Header (hs_Headers p)"
  by (auto simp: headers_Deserialize_def ebind_ok_iff dest: readN_all [OF _ wf_Header_read])

section \<open>Every answer comes from a message\<close>

text \<open>The answer a message gives to a request.\<close>

fun answers :: "message \<Rightarrow> request \<Rightarrow> answer \<Rightarrow> bool" where
  "answers m (ReqHeaders hs e) a \<longleftrightarrow> m_Command m = command_bytes CmdHeaders
     \<and> (\<exists>p r. headers_Deserialize (m_Payload m) = (Inr p, r) \<and> a = AnsHeaders (hs_Headers p))"
| "answers m (ReqBlock h) a \<longleftrightarrow> m_Command m = command_bytes CmdBlock
     \<and> (\<exists>b r. Block_Deserialize (m_Payload m) = (Inr b, r) \<and> a = AnsBlock b)"
| "answers m (ReqBroadcast raw) a \<longleftrightarrow> m_Command m = command_bytes CmdGetdata \<and> a = AnsSent
     \<and> checkInv (Sum256 (Sum256 raw)) (m_Payload m) = Inr ()"

definition answered :: "message list \<Rightarrow> request \<Rightarrow> answer \<Rightarrow> bool" where
  "answered G rq a \<longleftrightarrow> (\<exists>m\<in>set G. answers m rq a)"

definition sound_result :: "message list \<Rightarrow> request \<Rightarrow> answer result \<Rightarrow> bool" where
  "sound_result G rq r \<longleftrightarrow> (case r of Inl e \<Rightarrow> (\<forall>k. e \<noteq> ErrReorg k) \<and> (\<forall>p. e \<noteq> ErrPanic p) | Inr a \<Rightarrow> answered G rq a)"

text \<open>The invariant, of the messages taken, the requests of the calls, and each part of the client.\<close>

fun result_of :: "callState \<Rightarrow> answer result option" where
  "result_of (CUnset r) = Some r"
| "result_of (CReturned r) = Some r"
| "result_of _ = None"

definition call_ok :: "message list \<Rightarrow> call \<Rightarrow> bool" where
  "call_ok G c \<longleftrightarrow> (\<forall>r. result_of (ca_state c) = Some r \<longrightarrow> sound_result G (ca_req c) r)
     \<and> (\<forall>e. ca_errC c = Some e \<longrightarrow> sound_result G (ca_req c) (Inl e))
     \<and> (ca_proceedC c \<longrightarrow> sound_result G (ca_req c) (Inr AnsSent))"

fun mux_ok :: "message list \<Rightarrow> request list \<Rightarrow> muxState \<Rightarrow> bool" where
  "mux_ok G rs (MuxErr k e) \<longleftrightarrow> k < length rs \<and> sound_result G (rs ! k) (Inl e)"
| "mux_ok G rs (MuxBErr k e) \<longleftrightarrow> k < length rs \<and> sound_result G (rs ! k) (Inl e)"
| "mux_ok G rs (MuxAns k a) \<longleftrightarrow> k < length rs \<and> sound_result G (rs ! k) (Inr a)"
| "mux_ok G rs (MuxTx k raw) \<longleftrightarrow> k < length rs \<and> rs ! k = ReqBroadcast raw \<and> sound_result G (rs ! k) (Inr AnsSent)"
| "mux_ok G rs (MuxProceed k) \<longleftrightarrow> k < length rs \<and> sound_result G (rs ! k) (Inr AnsSent)"
| "mux_ok G rs mx \<longleftrightarrow> True"

definition handlers_ok :: "request list \<Rightarrow> (bytes \<rightharpoonup> nodeHandler) \<Rightarrow> bool" where
  "handlers_ok rs h \<longleftrightarrow> (\<forall>c k. h c = Some (HAnswer k) \<longrightarrow> k < length rs \<and> c = command_bytes (answerCommand (rs ! k)))"

definition reqs :: "nclient \<Rightarrow> request list" where
  "reqs s = map ca_req (nc_calls s)"

definition node_inv :: "nclient \<Rightarrow> bool" where
  "node_inv s \<longleftrightarrow> mux_ok (nc_got s) (reqs s) (nc_mux s) \<and> handlers_ok (reqs s) (nc_handlers s)
     \<and> list_all (call_ok (nc_got s)) (nc_calls s)"

text \<open>The messages between the stream and \<open>mux\<close>.\<close>

definition pipeline :: "nclient \<Rightarrow> message list" where
  "pipeline s = nc_got s @ (case nc_readChan s of None \<Rightarrow> [] | Some m \<Rightarrow> [m]) @ (case nc_rd s of NPut m \<Rightarrow> [m] | _ \<Rightarrow> []) @ nc_in s"

lemma sound_more: "sound_result G rq r \<Longrightarrow> sound_result (G @ G') rq r"
  by (auto simp: sound_result_def answered_def split: sum.splits)

lemma sound_err: "sound_result G rq (Inl (Err x))"
  by (simp add: sound_result_def)

lemma call_more: "call_ok G c \<Longrightarrow> call_ok (G @ G') c"
  by (auto simp: call_ok_def sound_more)

lemma updCall_simps [simp]:
  "nc_mux (updCall k f s) = nc_mux s" "nc_handlers (updCall k f s) = nc_handlers s" "nc_got (updCall k f s) = nc_got s"
  "nc_in (updCall k f s) = nc_in s" "nc_rd (updCall k f s) = nc_rd s" "nc_readChan (updCall k f s) = nc_readChan s"
  "nc_bytes (updCall k f s) = nc_bytes s" "nc_magic (updCall k f s) = nc_magic s" "nc_out (updCall k f s) = nc_out s"
  "nc_writeChan (updCall k f s) = nc_writeChan s" "length (nc_calls (updCall k f s)) = length (nc_calls s)"
  by (simp_all add: updCall_def)

lemma reqs_updCall: "(\<And>x. ca_req (f x) = ca_req x) \<Longrightarrow> reqs (updCall k f s) = reqs s"
  by (cases "k < length (nc_calls s)") (simp_all add: reqs_def updCall_def map_update list_update_beyond, metis list_update_id map_update)

lemma calls_updCall: "list_all P (nc_calls s) \<Longrightarrow> (k < length (nc_calls s) \<Longrightarrow> P (f (nc_calls s ! k))) \<Longrightarrow> list_all P (nc_calls (updCall k f s))"
  by (cases "k < length (nc_calls s)") (auto simp: updCall_def list_all_iff list_update_beyond dest!: set_update_subset_insert [THEN subsetD])

lemma handler_ok_iff:
  "handleHeader p = Inr a \<longleftrightarrow> (\<exists>x r. headers_Deserialize p = (Inr x, r) \<and> a = AnsHeaders (hs_Headers x))"
  "blockHandler p = Inr a \<longleftrightarrow> (\<exists>x r. Block_Deserialize p = (Inr x, r) \<and> a = AnsBlock x)"
  unfolding handleHeader_def blockHandler_def
  by (cases "headers_Deserialize p", auto simp: rbind_def split: sum.splits)
    (cases "Block_Deserialize p", auto simp: rbind_def split: sum.splits)

lemma dispatch_ok:
  assumes "handlers_ok (reqs s) (nc_handlers s)"
  shows "mux_ok (G @ [m]) (reqs s) (dispatch m s)"
proof (cases "nc_handlers s (m_Command m)")
  case (Some h)
  show ?thesis
  proof (cases h)
    case (HAnswer k)
    have k: "k < length (reqs s)" "m_Command m = command_bytes (answerCommand (reqs s ! k))"
      using assms Some unfolding HAnswer handlers_ok_def by blast+
    then have r: "ca_req (nc_calls s ! k) = reqs s ! k" by (simp add: reqs_def)
    have s: "sound_result (G @ [m]) rq (Inr a)" if "answers m rq a" for rq a using that by (auto simp: sound_result_def answered_def)
    have e: "mux_ok (G @ [m]) (reqs s) (orPanic (MuxErr k) x) \<and> mux_ok (G @ [m]) (reqs s) (orPanic (MuxBErr k) x)"
      if "handleHeader (m_Payload m) = Inl x \<or> blockHandler (m_Payload m) = Inl x \<or> checkInv y (m_Payload m) = Inl x" for x y
      using k that handler_no_reorg [of "m_Payload m"] handler_no_reorg(3) [of y "m_Payload m"]
      by (cases x) (auto simp: sound_result_def orPanic_def)
    show ?thesis
      unfolding dispatch_def Some HAnswer option.case nodeHandler.case r
      using k by (cases "reqs s ! k") (auto intro: e [THEN conjunct1] e [THEN conjunct2] s simp: handler_ok_iff simp del: command_bytes.simps split: sum.split)
  qed (simp add: dispatch_def Some split: sum.splits)
qed (simp add: dispatch_def)

lemma mux_more: "mux_ok G rs mx \<Longrightarrow> mux_ok G (rs @ rs') mx"
  by (cases mx) (auto simp: nth_append)

lemma handlers_more: "handlers_ok rs h \<Longrightarrow> handlers_ok (rs @ rs') h"
  unfolding handlers_ok_def by (metis length_append nth_append trans_less_add1)

lemma reqs_simps [simp]:
  "reqs (s\<lparr>nc_mux := a\<rparr>) = reqs s" "reqs (s\<lparr>nc_readChan := b\<rparr>) = reqs s" "reqs (s\<lparr>nc_got := g\<rparr>) = reqs s"
  "reqs (s\<lparr>nc_in := i\<rparr>) = reqs s" "reqs (s\<lparr>nc_rd := r\<rparr>) = reqs s" "reqs (s\<lparr>nc_writeChan := b\<rparr>) = reqs s"
  "reqs (s\<lparr>nc_out := g\<rparr>) = reqs s" "reqs (s\<lparr>nc_wr := w\<rparr>) = reqs s" "reqs (s\<lparr>nc_ctx := w\<rparr>) = reqs s"
  "reqs (s\<lparr>nc_handlers := h\<rparr>) = reqs s" "reqs (s\<lparr>nc_calls := cs @ [c]\<rparr>) = map ca_req cs @ [ca_req c]"
  by (simp_all add: reqs_def)

lemma setState_simps [simp]:
  "nc_mux (setState k c s) = nc_mux s" "nc_handlers (setState k c s) = nc_handlers s" "nc_got (setState k c s) = nc_got s"
  "nc_in (setState k c s) = nc_in s" "nc_rd (setState k c s) = nc_rd s" "nc_readChan (setState k c s) = nc_readChan s"
  "nc_bytes (setState k c s) = nc_bytes s" "nc_magic (setState k c s) = nc_magic s" "nc_out (setState k c s) = nc_out s"
  "nc_writeChan (setState k c s) = nc_writeChan s" "length (nc_calls (setState k c s)) = length (nc_calls s)" "reqs (setState k c s) = reqs s"
  by (simp_all add: setState_def reqs_updCall)

lemma call_setState:
  "call_ok G c \<Longrightarrow> (\<And>r. result_of st = Some r \<Longrightarrow> sound_result G (ca_req c) r) \<Longrightarrow> call_ok G (c\<lparr>ca_state := st\<rparr>)"
  by (auto simp: call_ok_def)

lemma calls_setState:
  assumes "list_all (call_ok G) (nc_calls s)" "\<And>r. k < length (nc_calls s) \<Longrightarrow> result_of st = Some r \<Longrightarrow> sound_result G (reqs s ! k) r"
  shows "list_all (call_ok G) (nc_calls (setState k st s))"
  unfolding setState_def using assms by (intro calls_updCall call_setState) (auto simp: list_all_length reqs_def)

lemma at_callD: "at_call k c s \<Longrightarrow> k < length (nc_calls s) \<and> ca_state (nc_calls s ! k) = c"
  by (simp add: at_call_def)

lemma io_step_inv: "io_step s s' \<Longrightarrow> node_inv s \<Longrightarrow> node_inv s' \<and> pipeline s' = pipeline s"
  by (induction rule: io_step.induct) (auto simp: node_inv_def pipeline_def)

lemma mux_step_inv: "mux_step s s' \<Longrightarrow> node_inv s \<Longrightarrow> node_inv s' \<and> pipeline s' = pipeline s"
proof (induction rule: mux_step.induct)
  case (take s m)
  then show ?case
    using dispatch_ok [of s "nc_got s" m] by (auto simp: node_inv_def pipeline_def list_all_iff intro: call_more)
next
  case (give s k a)
  then show ?case by (auto simp: node_inv_def pipeline_def intro!: calls_setState)
next
  case (give_err s k e)
  then show ?case by (auto simp: node_inv_def pipeline_def intro!: calls_setState)
next
  case (proceed s k)
  then show ?case
    by (auto simp: node_inv_def pipeline_def reqs_updCall intro!: calls_updCall) (auto simp: reqs_def call_ok_def list_all_length)
next
  case (proceed_err s k e)
  then show ?case
    by (auto simp: node_inv_def pipeline_def reqs_updCall intro!: calls_updCall) (auto simp: reqs_def call_ok_def list_all_length)
qed (auto simp: node_inv_def pipeline_def sound_err)

lemma handlers_set:
  "handlers_ok rs h \<Longrightarrow> k < length rs \<Longrightarrow> handlers_ok rs (h(command_bytes (answerCommand (rs ! k)) \<mapsto> HAnswer k))"
  "handlers_ok rs h \<Longrightarrow> handlers_ok rs (h(c := None))"
  by (auto simp: handlers_ok_def split: if_splits)

lemma call_step_inv: "call_step s s' \<Longrightarrow> node_inv s \<Longrightarrow> node_inv s' \<and> pipeline s' = pipeline s"
proof (induction rule: call_step.induct)
  case (call s rq)
  then show ?case
    using mux_more [of "nc_got s" "reqs s" "nc_mux s" "[rq]"] handlers_more [of "reqs s" "nc_handlers s" "[rq]"]
    by (simp add: node_inv_def pipeline_def newCall_def call_ok_def reqs_def)
next
  case (setHandler k s)
  then show ?case
    using handlers_set(1) [of "reqs s" "nc_handlers s" k]
    by (auto simp: node_inv_def pipeline_def reqs_def [symmetric] dest!: at_callD intro!: calls_setState) (simp add: reqs_def)
next
  case (send k s)
  then show ?case by (auto simp: node_inv_def pipeline_def intro!: calls_setState)
next
  case (give_up c k s)
  then show ?case by (auto simp: node_inv_def pipeline_def sound_err intro!: calls_setState)
next
  case (sent_err k s raw e)
  then show ?case
    by (auto simp: node_inv_def pipeline_def reqs_updCall intro!: calls_updCall) (auto simp: call_ok_def list_all_length)
next
  case (sent k s raw)
  then show ?case
    by (auto simp: node_inv_def pipeline_def reqs_updCall intro!: calls_updCall) (auto simp: call_ok_def list_all_length)
next
  case (unsetHandler k r s)
  then have "sound_result (nc_got s) (reqs s ! k) r"
    by (auto simp: node_inv_def call_ok_def list_all_length reqs_def dest!: at_callD)
  with unsetHandler show ?case by (auto simp: node_inv_def pipeline_def handlers_set(2) intro!: calls_setState)
qed

lemma node_step_inv: "node_step s s' \<Longrightarrow> node_inv s \<Longrightarrow> node_inv s' \<and> pipeline s' = pipeline s"
  by (induction rule: node_step.induct) (simp_all add: io_step_inv mux_step_inv call_step_inv)

lemma started_inv: "started magic now inp s \<Longrightarrow> node_inv s \<and> pipeline s = drop 2 (fst (readMessages inp))"
  by (auto simp: started_def node_inv_def pipeline_def reqs_def handlers_ok_def performHandshake_def split: list.splits if_splits)

lemma node_reach_inv:
  "node_reach s0 s \<Longrightarrow> started magic now inp s0 \<Longrightarrow> node_inv s \<and> pipeline s = drop 2 (fst (readMessages inp))"
  by (induction rule: node_reach.induct) (simp_all add: started_inv, metis node_step_inv)

section \<open>The client as the peer of the synchronisation\<close>

text \<open>
  The calls that the synchronisation makes are those of \<open>GetHeaders\<close> and \<open>GetBlock\<close>; the n-th of them answers the n-th
  call of the model. What has not returned yet counts as an error of the context.
\<close>

fun is_cast :: "request \<Rightarrow> bool" where
  "is_cast (ReqBroadcast raw) = True"
| "is_cast rq = False"

definition syncCalls :: "nclient \<Rightarrow> call list" where
  "syncCalls s = filter (\<lambda>c. \<not> is_cast (ca_req c)) (nc_calls s)"

definition returned :: "nclient \<Rightarrow> nat \<Rightarrow> request \<Rightarrow> answer result" where
  "returned s n rq =
     (if n < length (syncCalls s) \<and> ca_req (syncCalls s ! n) = rq
      then (case ca_state (syncCalls s ! n) of CReturned r \<Rightarrow> r | _ \<Rightarrow> Inl (Err ''context''))
      else Inl (Err ''context''))"

definition peer :: "nclient \<Rightarrow> (nat \<Rightarrow> bool) \<Rightarrow> node" where
  "peer s cancelled =
     \<lparr>nd_headers = (\<lambda>n hs. rbind (returned s n (ReqHeaders hs (replicate 32 0))) (\<lambda>a. case a of AnsHeaders h \<Rightarrow> Inr h | _ \<Rightarrow> Inl (Err ''unreachable''))),
      nd_block = (\<lambda>n h. rbind (returned s n (ReqBlock h)) (\<lambda>a. case a of AnsBlock b \<Rightarrow> Inr b | _ \<Rightarrow> Inl (Err ''unreachable''))),
      nd_cancelled = cancelled\<rparr>"

lemma returned_sound: "node_inv s \<Longrightarrow> sound_result (nc_got s) rq (returned s n rq)"
proof -
  assume "node_inv s"
  then have c: "call_ok (nc_got s) (syncCalls s ! n)" if "n < length (syncCalls s)"
    using nth_mem [OF that] by (auto simp: node_inv_def list_all_iff syncCalls_def)
  show ?thesis
    using c by (auto simp: returned_def sound_err call_ok_def split: callState.splits)
qed

lemma answered_headers: "answered G (ReqHeaders hs e) (AnsHeaders h) \<Longrightarrow> list_all wf_Header h"
  by (auto simp: answered_def dest: wf_headers_read)

lemma peer_wf: "node_inv s \<Longrightarrow> wf_node (peer s cancelled)"
  unfolding wf_node_def
proof (intro conjI allI impI)
  fix n hs hdrs assume i: "node_inv s" and "nd_headers (peer s cancelled) n hs = Inr hdrs"
  then have "returned s n (ReqHeaders hs (replicate 32 0)) = Inr (AnsHeaders hdrs)"
    by (auto simp: peer_def rbind_def split: sum.splits answer.splits)
  with returned_sound [OF i, of "ReqHeaders hs (replicate 32 0)" n] show "list_all wf_Header hdrs"
    by (auto simp: sound_result_def intro: answered_headers)
next
  fix n h k assume i: "node_inv s"
  show "nd_headers (peer s cancelled) n h \<noteq> Inl (ErrReorg k)"
    using returned_sound [OF i, of "ReqHeaders h (replicate 32 0)" n]
    by (auto simp: peer_def rbind_def sound_result_def split: sum.splits answer.splits)
next
  fix n h k assume i: "node_inv s"
  show "nd_block (peer s cancelled) n h \<noteq> Inl (ErrReorg k)"
    using returned_sound [OF i, of "ReqBlock h" n]
    by (auto simp: peer_def rbind_def sound_result_def split: sum.splits answer.splits)
qed

section \<open>A blocked \<open>mux\<close>\<close>

definition gone :: "nat \<Rightarrow> nclient \<Rightarrow> bool" where
  "gone k s \<longleftrightarrow> k < length (nc_calls s) \<and> result_of (ca_state (nc_calls s ! k)) \<noteq> None"

text \<open>\<open>mux\<close> has a payload it could not parse, or an answer for a call that has given up.\<close>

definition blocked :: "nclient \<Rightarrow> bool" where
  "blocked s \<longleftrightarrow> (\<exists>k. nc_mux s = MuxStuck k) \<or> (\<exists>k a. nc_mux s = MuxAns k a \<and> gone k s) \<or> (\<exists>k e. nc_mux s = MuxErr k e)"

text \<open>Whether a call of \<open>GetHeaders\<close> or \<open>GetBlock\<close> has been answered.\<close>

definition success :: "nat \<Rightarrow> nclient \<Rightarrow> bool" where
  "success k s \<longleftrightarrow> k < length (nc_calls s) \<and> \<not> is_cast (ca_req (nc_calls s ! k))
     \<and> (\<exists>a. result_of (ca_state (nc_calls s ! k)) = Some (Inr a))"

lemma nth_updCall: "i < length (nc_calls s) \<Longrightarrow> nc_calls (updCall k f s) ! i = (if i = k then f (nc_calls s ! k) else nc_calls s ! i)"
  by (simp add: updCall_def)

lemma gone_stays: "call_step s s' \<Longrightarrow> gone k s \<Longrightarrow> gone k s'"
  by (induction rule: call_step.induct)
    (auto simp: gone_def setState_def nth_updCall nth_append at_call_def)

lemma call_step_mux: "call_step s s' \<Longrightarrow> nc_mux s' = nc_mux s \<and> nc_got s' = nc_got s"
  by (induction rule: call_step.induct) auto

lemma call_step_success: "call_step s s' \<Longrightarrow> success k s' \<Longrightarrow> success k s"
  by (induction rule: call_step.induct)
    (auto simp: success_def setState_def nth_updCall nth_append at_call_def newCall_def split: if_splits)

lemma io_step_calls: "io_step s s' \<Longrightarrow> nc_mux s' = nc_mux s \<and> nc_got s' = nc_got s \<and> nc_calls s' = nc_calls s"
  by (induction rule: io_step.induct) auto

lemma blocked_mux: "mux_step s s' \<Longrightarrow> blocked s \<Longrightarrow> blocked s' \<and> nc_got s' = nc_got s \<and> (success k s' \<longrightarrow> success k s)"
  by (induction rule: mux_step.induct)
    (auto simp: blocked_def gone_def at_call_def success_def setState_def nth_updCall updCall_def nth_list_update split: if_splits)

lemma blocked_step: "node_step s s' \<Longrightarrow> blocked s \<Longrightarrow> blocked s' \<and> nc_got s' = nc_got s \<and> (success k s' \<longrightarrow> success k s)"
proof (induction rule: node_step.induct)
  case (conn s s')
  from io_step_calls [OF conn(2)] conn(3) show ?case by (simp add: blocked_def gone_def success_def)
next
  case (mux s s')
  then show ?case by (intro blocked_mux)
next
  case (calls s s')
  from call_step_mux [OF calls(2)] gone_stays [OF calls(2)] call_step_success [OF calls(2)] calls(3) show ?case
    by (simp add: blocked_def) blast
qed

lemma blocked_reach: "node_reach s s' \<Longrightarrow> blocked s \<Longrightarrow> blocked s' \<and> nc_got s' = nc_got s \<and> (success k s' \<longrightarrow> success k s)"
  by (induction rule: node_reach.induct) (blast, metis blocked_step)

section \<open>What is sent\<close>

text \<open>The size and the checksum that \<open>Serialize\<close> fills in.\<close>

definition completed :: "message \<Rightarrow> message" where
  "completed m = m\<lparr>m_Size := of_nat (length (m_Payload m)), m_Checksum := checkSum (m_Payload m)\<rparr>"

text \<open>The messages the client may send once it has started: pongs, the requests of its calls, and a transaction that the node has
  asked for.\<close>

definition allowed :: "bytes \<Rightarrow> message list \<Rightarrow> request list \<Rightarrow> message \<Rightarrow> bool" where
  "allowed magic G rs m \<longleftrightarrow> (\<exists>nonce. m = makePongMessage magic nonce) \<or> (\<exists>rq\<in>set rs. m = requestMessage magic rq)
     \<or> (\<exists>raw. ReqBroadcast raw \<in> set rs \<and> answered G (ReqBroadcast raw) AnsSent \<and> m = makeMessage magic CmdTx raw)"

definition greeting :: "u64 \<Rightarrow> bytes \<Rightarrow> message list" where
  "greeting now magic = [makeVersionMessage now magic, makeVerAckMessage magic]"

definition out_inv :: "u64 \<Rightarrow> bytes \<Rightarrow> nclient \<Rightarrow> bool" where
  "out_inv now magic s \<longleftrightarrow> nc_magic s = magic
     \<and> (\<exists>ms. nc_out s = greeting now magic @ ms \<and> list_all (allowed magic (nc_got s) (reqs s)) ms)
     \<and> (\<forall>m. nc_writeChan s = Some m \<longrightarrow> allowed magic (nc_got s) (reqs s) m)
     \<and> (\<forall>m. nc_mux s = MuxPong m \<longrightarrow> allowed magic (nc_got s) (reqs s) m)"

lemma allowed_more: "allowed magic G rs m \<Longrightarrow> allowed magic (G @ G') (rs @ rs') m"
  by (auto simp: allowed_def answered_def)

lemma allowed_all_more: "list_all (allowed magic G rs) ms \<Longrightarrow> list_all (allowed magic (G @ G') (rs @ rs')) ms"
  by (simp add: list_all_iff allowed_more)

lemmas allowed_mono = allowed_more [where rs' = "[]", simplified] allowed_more [where G' = "[]", simplified]
  allowed_all_more [where rs' = "[]", simplified] allowed_all_more [where G' = "[]", simplified]

lemma out_io_step: "io_step s s' \<Longrightarrow> out_inv now magic s \<Longrightarrow> out_inv now magic s'"
  by (induction rule: io_step.induct) (auto simp: out_inv_def)

lemma dispatch_pong: "dispatch m s = MuxPong p \<Longrightarrow> \<exists>nonce. p = makePongMessage (nc_magic s) nonce"
  by (auto simp: dispatch_def orPanic_def split: option.splits nodeHandler.splits sum.splits request.splits error.splits)

lemma out_mux_step: "mux_step s s' \<Longrightarrow> node_inv s \<Longrightarrow> out_inv now magic s \<Longrightarrow> out_inv now magic s'"
proof (induction rule: mux_step.induct)
  case (take s m)
  then show ?case using dispatch_pong [of m s] by (auto simp: out_inv_def intro: allowed_mono) (auto simp: allowed_def)
next
  case (send_tx s k raw)
  then have "allowed magic (nc_got s) (reqs s) (makeMessage magic CmdTx raw)"
    by (auto simp: node_inv_def allowed_def sound_result_def) (metis nth_mem)
  with send_tx show ?case by (auto simp: out_inv_def)
qed (auto simp: out_inv_def reqs_updCall)

lemma out_call_step: "call_step s s' \<Longrightarrow> out_inv now magic s \<Longrightarrow> out_inv now magic s'"
proof (induction rule: call_step.induct)
  case (call s rq)
  then show ?case by (auto simp: out_inv_def reqs_def [symmetric] intro: allowed_mono)
next
  case (send k s)
  then have "ca_req (nc_calls s ! k) \<in> set (reqs s)" by (simp add: reqs_def at_call_def)
  with send show ?case by (auto simp: out_inv_def allowed_def)
qed (auto simp: out_inv_def reqs_updCall)

lemma out_reach: "node_reach s0 s \<Longrightarrow> started magic now inp s0 \<Longrightarrow> out_inv now magic s"
proof (induction rule: node_reach.induct)
  case start
  then show ?case by (auto simp: started_def out_inv_def greeting_def)
next
  case (step s s')
  from node_reach_inv [OF step(1,4)] step show ?case
    by (auto elim!: node_step.cases intro: out_io_step out_mux_step out_call_step)
qed

lemma completed_stream:
  assumes "length magic = 4" "\<not> bytesIsZero magic" "m = makeMessage magic c p" "length p < 2 ^ 32"
  shows "wf_message (completed m) \<and> message_Serialize (completed m) = message_Serialize m"
  using assms by (auto simp: completed_def makeMessage_def wf_message_def message_Serialize_def Let_def unat_of_nat_small bytesIsZero_def list_all_iff
      simp del: command_bytes.simps)

lemma allowed_made: "allowed magic G rs m \<Longrightarrow> \<exists>c p. m = makeMessage magic c p"
proof -
  have "\<exists>c p. requestMessage magic rq = makeMessage magic c p" for rq
    by (cases rq) (auto simp: makeInvMessage_def makeGetHeadersMessage_def)
  then show "allowed magic G rs m \<Longrightarrow> \<exists>c p. m = makeMessage magic c p"
    by (auto simp: allowed_def makePongMessage_def)
qed

section \<open>Sample\<close>

text \<open>A node that greets, and then sends a message of headers with the payload \<open>p\<close>; a call of \<open>GetHeaders\<close> for it.\<close>

definition sample_message :: "Command \<Rightarrow> bytes \<Rightarrow> message" where
  "sample_message c p = completed (makeMessage (magicBytes ! 2) c p)"

definition sample_inp :: "bytes \<Rightarrow> bytes" where
  "sample_inp p = concat (map message_Serialize [sample_message CmdVersion [], sample_message CmdVerack [], sample_message CmdHeaders p])"

definition sample_client :: "bytes \<Rightarrow> nclient" where
  "sample_client p = \<lparr>nc_magic = magicBytes ! 2, nc_bytes = sample_inp p, nc_in = [sample_message CmdHeaders p], nc_rd = NRun, nc_wr = True,
     nc_ctx = False, nc_readChan = None, nc_writeChan = None, nc_out = greeting 0 (magicBytes ! 2),
     nc_handlers = [command_bytes CmdPing \<mapsto> HPing], nc_mux = MuxIdle, nc_calls = [], nc_got = []\<rparr>"

definition sample_call :: "hash32 list \<Rightarrow> callState \<Rightarrow> call" where
  "sample_call hs st = (newCall (ReqHeaders hs (replicate 32 0)))\<lparr>ca_state := st\<rparr>"

lemma sample_magic: "length (magicBytes ! 2) = 4" "\<not> bytesIsZero (magicBytes ! 2)"
  by (simp_all add: magicBytes_def bytesIsZero_def)

lemma sample_wf: "length p < 2 ^ 32 \<Longrightarrow> wf_message (sample_message c p)"
  unfolding sample_message_def using completed_stream [OF sample_magic refl] by blast

lemma sample_simps [simp]: "m_Command (sample_message c p) = command_bytes c" "m_Payload (sample_message c p) = p"
  by (simp_all add: sample_message_def completed_def makeMessage_def)

lemma sample_started: "length p < 2 ^ 32 \<Longrightarrow> started (magicBytes ! 2) 0 (sample_inp p) (sample_client p)"
proof -
  assume "length p < 2 ^ 32"
  then have "fst (readMessages (sample_inp p)) = [sample_message CmdVersion [], sample_message CmdVerack [], sample_message CmdHeaders p]"
    unfolding sample_inp_def by (intro readMessages_stream) (simp add: sample_wf)
  then show ?thesis by (simp add: started_def sample_client_def greeting_def performHandshake_def hasPrefix_def)
qed

lemmas node_steps = conn [THEN node_reach.step [rotated], rotated] mux [THEN node_reach.step [rotated], rotated]
  calls [THEN node_reach.step [rotated], rotated]

text \<open>The client with the message taken and the call waiting for its answer.\<close>

definition sample_taken :: "bytes \<Rightarrow> hash32 list \<Rightarrow> muxState \<Rightarrow> nclient" where
  "sample_taken p hs mx = (sample_client p)\<lparr>nc_in := [], nc_out := greeting 0 (magicBytes ! 2) @ [requestMessage (magicBytes ! 2) (ReqHeaders hs (replicate 32 0))],
     nc_handlers := [command_bytes CmdPing \<mapsto> HPing, command_bytes CmdHeaders \<mapsto> HAnswer 0], nc_mux := mx,
     nc_calls := [sample_call hs CWait], nc_got := [sample_message CmdHeaders p]\<rparr>"

lemma sample_run:
  "node_reach (sample_client p) (sample_taken p hs (case handleHeader p of Inl e \<Rightarrow> orPanic (MuxErr 0) e | Inr a \<Rightarrow> MuxAns 0 a))"
proof -
  let ?s0 = "sample_client p" and ?r = "node_reach (sample_client p)" and ?m = "sample_message CmdHeaders p"
  let ?rq = "requestMessage (magicBytes ! 2) (ReqHeaders hs (replicate 32 0))" and ?c = "sample_call hs"
  let ?h = "[command_bytes CmdPing \<mapsto> HPing, command_bytes CmdHeaders \<mapsto> HAnswer 0]"
  note upd = panicked_def setState_def updCall_def at_call_def sample_client_def newCall_def sample_call_def
  have "?r (?s0\<lparr>nc_calls := [?c CStart]\<rparr>)"
    using node_steps(3) [OF call [of ?s0 "ReqHeaders hs (replicate 32 0)"] node_reach.start] by (simp add: sample_client_def sample_call_def newCall_def panicked_def)
  then have "?r (?s0\<lparr>nc_handlers := ?h, nc_calls := [?c CSend]\<rparr>)"
    using node_steps(3) [OF setHandler [of 0 "?s0\<lparr>nc_calls := [?c CStart]\<rparr>"]] by (simp add: upd del: command_bytes.simps)
  then have "?r (?s0\<lparr>nc_handlers := ?h, nc_calls := [?c CWait], nc_writeChan := Some ?rq\<rparr>)"
    using node_steps(3) [OF send [of 0 "?s0\<lparr>nc_handlers := ?h, nc_calls := [?c CSend]\<rparr>"]] by (simp add: upd del: command_bytes.simps)
  then have "?r (?s0\<lparr>nc_handlers := ?h, nc_calls := [?c CWait], nc_out := nc_out ?s0 @ [?rq]\<rparr>)"
    using node_steps(1) [OF write_msg [of "?s0\<lparr>nc_handlers := ?h, nc_calls := [?c CWait], nc_writeChan := Some ?rq\<rparr>" ?rq]]
    by (simp add: upd del: command_bytes.simps)
  then have "?r (?s0\<lparr>nc_handlers := ?h, nc_calls := [?c CWait], nc_out := nc_out ?s0 @ [?rq], nc_in := [], nc_rd := NPut ?m\<rparr>)"
    using node_steps(1) [OF read [of "?s0\<lparr>nc_handlers := ?h, nc_calls := [?c CWait], nc_out := nc_out ?s0 @ [?rq]\<rparr>" ?m "[]"]]
    by (simp add: upd del: command_bytes.simps)
  then have "?r (?s0\<lparr>nc_handlers := ?h, nc_calls := [?c CWait], nc_out := nc_out ?s0 @ [?rq], nc_in := [], nc_readChan := Some ?m\<rparr>)"
    using node_steps(1) [OF put [of "?s0\<lparr>nc_handlers := ?h, nc_calls := [?c CWait], nc_out := nc_out ?s0 @ [?rq], nc_in := [], nc_rd := NPut ?m\<rparr>" ?m]]
    by (simp add: upd del: command_bytes.simps)
  then show ?thesis
    using node_steps(2) [OF take [of "?s0\<lparr>nc_handlers := ?h, nc_calls := [?c CWait], nc_out := nc_out ?s0 @ [?rq], nc_in := [], nc_readChan := Some ?m\<rparr>" ?m]]
    by (simp add: upd dispatch_def sample_taken_def del: command_bytes.simps)
qed

text \<open>An empty payload has no count: the call fails and \<open>mux\<close> is stuck.\<close>

definition sample_stuck :: nclient where
  "sample_stuck = (sample_taken [] [] (MuxStuck 0))\<lparr>nc_calls := [sample_call [] (CUnset (Inl ErrEOF))]\<rparr>"

lemma sample_stuck:
  "node_reach (sample_client []) (sample_taken [] [] (MuxErr 0 ErrEOF))" "node_reach (sample_taken [] [] (MuxErr 0 ErrEOF)) sample_stuck"
proof -
  have "handleHeader [] = Inl ErrEOF"
    by (simp add: handleHeader_def headers_Deserialize_def compactSizeRead_def reader_Read_def rbind_def)
  then show "node_reach (sample_client []) (sample_taken [] [] (MuxErr 0 ErrEOF))"
    using sample_run [of "[]" "[]"] by (simp add: orPanic_def)
  show "node_reach (sample_taken [] [] (MuxErr 0 ErrEOF)) sample_stuck"
    using node_steps(2) [OF give_err node_reach.start, of "sample_taken [] [] (MuxErr 0 ErrEOF)" 0 ErrEOF]
    by (simp add: sample_stuck_def sample_taken_def sample_client_def sample_call_def setState_def updCall_def at_call_def panicked_def)
qed

text \<open>The first header on top of the genesis block of the regression network, asked for and answered.\<close>

abbreviation (input) "genesis \<equiv> bh_Hash (genesisBlockData Regtest)"

definition one_header :: bytes where
  "one_header = headers_Serialize \<lparr>hs_Count = 1, hs_Headers = [sample_header genesis]\<rparr>"

definition sample_done :: nclient where
  "sample_done = (sample_taken one_header [genesis] MuxIdle)\<lparr>nc_handlers := [command_bytes CmdPing \<mapsto> HPing],
     nc_calls := [sample_call [genesis] (CReturned (Inr (AnsHeaders [sample_header genesis])))]\<rparr>"

lemma sample_wf_header: "wf_Header (sample_header genesis)"
  using genesis_length [of Regtest] by (simp add: wf_Header_def sample_header_def)

lemma sample_done: "node_reach (sample_client one_header) sample_done"
proof -
  have "headers_Deserialize one_header = (Inr \<lparr>hs_Count = 1, hs_Headers = [sample_header genesis]\<rparr>, [])"
    unfolding one_header_def by (rule headers_codec.dec_enc_Nil) (simp add: wf_headers_def counts_def sample_wf_header del: genesisBlockData.simps)
  then have "handleHeader one_header = Inr (AnsHeaders [sample_header genesis])"
    by (simp add: handleHeader_def rbind_def del: genesisBlockData.simps)
  then have t: "node_reach (sample_client one_header) (sample_taken one_header [genesis] (MuxAns 0 (AnsHeaders [sample_header genesis])))"
    using sample_run [of one_header "[genesis]"] by (simp del: genesisBlockData.simps)
  let ?s = "(sample_taken one_header [genesis] MuxIdle)\<lparr>nc_calls := [sample_call [genesis] (CUnset (Inr (AnsHeaders [sample_header genesis])))]\<rparr>"
  have "node_reach (sample_client one_header) ?s"
    using node_steps(2) [OF give t, of 0 "AnsHeaders [sample_header genesis]"]
    by (simp add: sample_taken_def sample_client_def sample_call_def setState_def updCall_def at_call_def panicked_def del: genesisBlockData.simps)
  from node_steps(3) [OF unsetHandler this, of 0 "Inr (AnsHeaders [sample_header genesis])"] show ?thesis
    by (simp add: sample_done_def sample_taken_def sample_client_def sample_call_def newCall_def setState_def updCall_def at_call_def panicked_def fun_upd_twist
        del: genesisBlockData.simps)
qed

lemma one_header_length: "length one_header < 2 ^ 32"
proof -
  have "length (compactSizeSerialize 1) \<le> 9" by (simp add: compactSizeSerialize_def)
  moreover have "length (Header_Serialize (sample_header genesis)) = 81"
    unfolding Header_Serialize_def by (simp add: length_Header_bytes80 sample_wf_header del: genesisBlockData.simps)
  ultimately show ?thesis unfolding one_header_def headers_Serialize_def by (simp del: genesisBlockData.simps)
qed

text \<open>The synchronisation with that client as its peer, cancelled after the first answer.\<close>

lemma sample_done_inv: "node_inv sample_done"
  using node_reach_inv [OF sample_done sample_started [OF one_header_length]] by blast

lemma sample_round_on:
  assumes "blockheader_tbl (db s) = []" "net s = Regtest" "calls s = 0" "\<forall>w\<in>set (wallets s). 1 \<le> wl_height w"
  shows "\<exists>w. service_reach xor_crypto (peer sample_done (\<lambda>n. n = 1)) s [Round] (Serving, w) \<and> length (blockheader_tbl (db w)) = 1
    \<and> (db w)\<lparr>blockheader_tbl := []\<rparr> = db s \<and> wallets w = wallets s"
proof -
  let ?N = "genesis_node Regtest" and ?P = "peer sample_done (\<lambda>n. n = 1)" and ?h = "sample_header genesis"
  let ?s0 = "s\<lparr>bestHeader := 0, bestHeaderHash := genesis\<rparr>" and ?s1 = "s\<lparr>bestHeader := 0, bestHeaderHash := genesis, calls := 1\<rparr>"
  have st: "syncHeaders ?P 2 s = syncHeaders_loop ?P 2 ?s0"
    using assms by (simp add: syncHeaders_def storedTip_def selectLastBlockHeaderData_def headers_desc_def queryRow_def)
  have c: "chain_inv s" using assms(1) by (simp add: chain_inv_def)
  have "has_chain genesis [?h] 0 ?s1" using assms by (simp add: has_chain_def genesisHash_def rowsOf_def hashAt_def)
  from addHeaders_serves [OF one_header_serves [OF genesis_length] this, of 1]
  obtain w where w: "addHeaders ?N [?h] ?s1 = (Inr (), w)" "has_chain genesis [?h] 1 w" "calls w = 1"
    by (auto simp del: addHeaders.simps genesisBlockData.simps)
  have add: "addHeaders ?P [?h] ?s1 = addHeaders ?N [?h] ?s1"
    by (simp add: sample_header_def del: genesisBlockData.simps)
  have "nd_headers ?P 0 [genesis] = Inr [?h]"
    by (simp add: peer_def returned_def syncCalls_def sample_done_def sample_taken_def sample_call_def newCall_def rbind_def del: genesisBlockData.simps)
  then have run: "syncHeaders ?P 2 s = Some (Inr (), w)"
    unfolding st using w add assms(3) by (simp add: numeral_2_eq_2 GetHeaders_def peer_def del: addHeaders.simps genesisBlockData.simps)
  have fr: "hdr_frame s w"
    using syncHeaders_steps [OF peer_wf [OF sample_done_inv] c, of "\<lambda>n. n = 1" 2] run by (auto simp: hdr_step_def)
  have b: "bestHeader w = 1" using w(2) by (simp add: has_chain_def)
  have "syncWallets xor_crypto ?P 2 w = Some (Inr (), w)"
  proof (cases "wallets w")
    case (Cons x xs)
    let ?m = "foldl (\<lambda>h w. min h (wl_height w)) (wl_height x) (wallets w)"
    have "\<forall>y\<in>set (wallets w). 1 \<le> wl_height y" using assms(4) fr by (simp add: hdr_frame_def)
    moreover have "x \<in> set (wallets w)" by (simp add: Cons)
    moreover have "?m = wl_height x \<or> (\<exists>y\<in>set (wallets w). ?m = wl_height y)"
      using foldl_min [of wl_height "wl_height x" "wallets w"] by blast
    ultimately have "1 \<le> ?m" by auto
    with Cons b show ?thesis by (simp add: syncWallets_def)
  qed (simp add: syncWallets_def)
  with run have "syncRound xor_crypto ?P 2 s = Some (Inr (), w)" by (simp add: syncRound_def)
  then have "service_reach xor_crypto ?P s [Round] (Serving, w)"
    using service_reach.step [OF service_reach.start round_ok [of Starting xor_crypto ?P 2 s "()" w]] by simp
  moreover have "length (blockheader_tbl (db w)) = 1" using w(2) by (simp add: has_chain_def rowsOf_def)
  moreover have "(db s)\<lparr>blockheader_tbl := []\<rparr> = db s" using assms(1) by simp
  ultimately show ?thesis using fr by (auto simp: hdr_frame_def)
qed

lemma sample_round: "\<exists>w. service_reach xor_crypto (peer sample_done (\<lambda>n. n = 1)) (fresh_W Regtest) [Round] (Serving, w)
    \<and> length (blockheader_tbl (db w)) = 1 \<and> unspent_tbl (db w) = []"
proof -
  have "blockheader_tbl (db (fresh_W Regtest)) = []" "net (fresh_W Regtest) = Regtest" "calls (fresh_W Regtest) = 0" "wallets (fresh_W Regtest) = []"
    "unspent_tbl (db (fresh_W Regtest)) = []" by (simp_all add: fresh_W_def empty_database_def)
  note fr = this
  then obtain w where w: "service_reach xor_crypto (peer sample_done (\<lambda>n. n = 1)) (fresh_W Regtest) [Round] (Serving, w)"
      "length (blockheader_tbl (db w)) = 1" "(db w)\<lparr>blockheader_tbl := []\<rparr> = db (fresh_W Regtest)"
    using sample_round_on [of "fresh_W Regtest"] by auto
  have "unspent_tbl (db w) = []" using arg_cong [OF w(3), of unspent_tbl] fr(5) by simp
  with w show ?thesis by blast
qed

section \<open>Properties\<close>

text \<open>C19. Whatever a call of \<open>GetHeaders\<close>, \<open>GetBlock\<close> or \<open>BroadcastWTX\<close> returns without error comes from a message that the
  peer has sent after the handshake, with the command the call waits for: the headers or the block are those its payload
  spells, and a broadcast returns only after the node has asked for exactly that transaction. The messages are taken in the order of the
  stream, none left out.\<close>

theorem node_answers:
  assumes "started magic now inp s0" "node_reach s0 s" "k < length (nc_calls s)" "ca_state (nc_calls s ! k) = CReturned (Inr a)"
  shows "(\<exists>m\<in>set (nc_got s). answers m (ca_req (nc_calls s ! k)) a) \<and> prefix (nc_got s) (drop 2 (fst (readMessages inp)))"
proof -
  have i: "node_inv s" "pipeline s = drop 2 (fst (readMessages inp))" using node_reach_inv [OF assms(2,1)] by simp_all
  have "call_ok (nc_got s) (nc_calls s ! k)" using i(1) assms(3) by (simp add: node_inv_def list_all_length)
  then have "answered (nc_got s) (ca_req (nc_calls s ! k)) a" using assms(4) by (simp add: call_ok_def sound_result_def)
  moreover have "prefix (nc_got s) (pipeline s)" unfolding pipeline_def by (rule prefixI) (rule refl)
  ultimately show ?thesis using i(2) by (simp add: answered_def)
qed

theorem node_answers_witness:
  "\<exists>s. node_reach (sample_client one_header) s \<and> ca_state (nc_calls s ! 0) = CReturned (Inr (AnsHeaders [sample_header genesis]))
     \<and> (\<exists>m\<in>set (nc_got s). answers m (ca_req (nc_calls s ! 0)) (AnsHeaders [sample_header genesis]))"
proof -
  have "0 < length (nc_calls sample_done)" "ca_state (nc_calls sample_done ! 0) = CReturned (Inr (AnsHeaders [sample_header genesis]))"
    by (simp_all add: sample_done_def sample_taken_def sample_call_def del: genesisBlockData.simps)
  with node_answers [OF sample_started [OF one_header_length] sample_done this] sample_done show ?thesis by blast
qed

text \<open>From the bytes of the node to the stored chain: whatever bytes the node sends and however the goroutines of the client
  interleave, the service that runs on what the client returns keeps the stored headers one chain from the genesis block,
  and serves clients only when the best header is its tip and every wallet has been scanned up to it.\<close>

theorem stream_to_chain:
  assumes "started magic now inp s0" "node_reach s0 s" "chain_inv w0" "service_reach C (peer s cancelled) w0 ls (p, w)"
  shows "linked (genesisHash w) 0 (blockheader_tbl (db w))
    \<and> (p = Serving \<longrightarrow> bestHeader w = int (length (blockheader_tbl (db w)))
      \<and> bestHeaderHash w = tip (genesisHash w) (blockheader_tbl (db w)) \<and> (\<forall>x\<in>set (wallets w). bestHeader w \<le> wl_height x))"
  using service_inv [OF peer_wf [OF conjunct1 [OF node_reach_inv [OF assms(2,1)]]] assms(3,4)]
  unfolding chain_inv_def synced_def at_tip_def fst_conv snd_conv by blast

theorem stream_to_chain_witness:
  "\<exists>s w. node_reach (sample_client one_header) s \<and> service_reach xor_crypto (peer s (\<lambda>n. n = 1)) (fresh_W Regtest) [Round] (Serving, w)
     \<and> length (blockheader_tbl (db w)) = 1 \<and> linked (genesisHash w) 0 (blockheader_tbl (db w)) \<and> bestHeader w = 1"
proof -
  obtain w where w: "service_reach xor_crypto (peer sample_done (\<lambda>n. n = 1)) (fresh_W Regtest) [Round] (Serving, w)"
    "length (blockheader_tbl (db w)) = 1" using sample_round by blast
  from stream_to_chain [OF sample_started [OF one_header_length] sample_done fresh_chain(1) w(1)] w sample_done show ?thesis
    by (intro exI [of _ sample_done] exI [of _ w]) simp
qed

text \<open>C21. What the client sends can be read: the bytes of all it has written are the messages, size and checksum filled in. After
  \<open>version\<close> and \<open>verack\<close> every one of them is a pong, the request of a call, or a transaction of a call of \<open>BroadcastWTX\<close> that
  the node has asked for by its hash.\<close>

theorem messages_to_node:
  assumes "started magic now inp s0" "node_reach s0 s" "length magic = 4" "\<not> bytesIsZero magic"
    "\<forall>m\<in>set (nc_out s). length (m_Payload m) < 2 ^ 32"
  shows "fst (readMessages (concat (map message_Serialize (nc_out s)))) = map completed (nc_out s)
    \<and> take 2 (nc_out s) = greeting now magic \<and> list_all (allowed magic (nc_got s) (reqs s)) (drop 2 (nc_out s))"
proof -
  obtain ms where ms: "nc_out s = greeting now magic @ ms" "list_all (allowed magic (nc_got s) (reqs s)) ms"
    using out_reach [OF assms(2,1)] by (auto simp: out_inv_def)
  have made: "\<exists>c p. m = makeMessage magic c p" if "m \<in> set (nc_out s)" for m
    using that ms allowed_made by (fastforce simp: greeting_def makeVersionMessage_def makeVerAckMessage_def list_all_iff)
  have c: "wf_message (completed m)" "message_Serialize (completed m) = message_Serialize m" if m: "m \<in> set (nc_out s)" for m
  proof -
    obtain c p where cp: "m = makeMessage magic c p" using made [OF m] by blast
    moreover have "length p < 2 ^ 32" using assms(5) m by (auto simp: cp makeMessage_def)
    ultimately show "wf_message (completed m)" "message_Serialize (completed m) = message_Serialize m"
      using completed_stream [OF assms(3,4)] by blast+
  qed
  have "concat (map message_Serialize (nc_out s)) = concat (map message_Serialize (map completed (nc_out s)))"
    by (rule arg_cong [of _ _ concat]) (simp add: c(2))
  then have "fst (readMessages (concat (map message_Serialize (nc_out s)))) = map completed (nc_out s)"
    using readMessages_stream [of "map completed (nc_out s)"] c(1) by (simp add: list_all_iff)
  then show ?thesis using ms by (simp add: greeting_def)
qed

lemma length_compactSizeSerialize: "length (compactSizeSerialize n) \<le> 9"
  by (simp add: compactSizeSerialize_def)

theorem messages_to_node_witness:
  "\<exists>s. node_reach (sample_client one_header) s \<and> length (nc_out s) = 3
     \<and> fst (readMessages (concat (map message_Serialize (nc_out s)))) = map completed (nc_out s)"
proof -
  have "length (getHeaders_Serialize \<lparr>gh_Version = protoVersion, gh_HashCount = 0, gh_BlockHeaderHashes = [genesis], gh_StopHash = replicate 32 0\<rparr>) < 2 ^ 32"
    using length_compactSizeSerialize [of "1"] genesis_length [of Regtest] by (simp add: getHeaders_Serialize_def del: genesisBlockData.simps)
  moreover have "length (m_Payload (makeVersionMessage 0 (magicBytes ! 2))) < 2 ^ 32"
    using length_compactSizeSerialize [of "18"] by (simp add: makeVersionMessage_def makeMessage_def version_Serialize_def)
  ultimately have "\<forall>m\<in>set (nc_out sample_done). length (m_Payload m) < 2 ^ 32"
    by (simp add: sample_done_def sample_taken_def greeting_def makeVerAckMessage_def makeGetHeadersMessage_def makeMessage_def
        del: genesisBlockData.simps)
  from messages_to_node [OF sample_started [OF one_header_length] sample_done sample_magic this] sample_done show ?thesis
    by (intro exI [of _ sample_done]) (simp add: sample_done_def sample_taken_def greeting_def del: genesisBlockData.simps)
qed

text \<open>C20. One payload of a headers or block message that cannot be parsed, and one answer that comes after its call has given up, end the client for ever: \<open>mux\<close> takes no message any
  more, and no call of \<open>GetHeaders\<close> or \<open>GetBlock\<close> that had not been answered by then ever is, although the connection stays
  open and calls are accepted (the handlers send to \<open>errChan\<close> and then to \<open>headersChan\<close> or \<open>blockChan\<close>, which nobody receives from). \<open>mux\<close> never ends, so that \<open>Stop\<close>, which waits for it, never returns.\<close>

theorem mux_blocked_forever:
  assumes "blocked s" "node_reach s s'"
  shows "blocked s' \<and> nc_got s' = nc_got s \<and> {k. success k s'} \<subseteq> {k. success k s} \<and> nc_mux s' \<noteq> MuxEnded"
proof -
  have "nc_mux s' \<noteq> MuxEnded" using blocked_reach [OF assms(2,1)] unfolding blocked_def by auto
  then show ?thesis using blocked_reach [OF assms(2,1)] by blast
qed

theorem mux_blocked_forever_witness:
  "\<exists>s s'. started (magicBytes ! 2) 0 (sample_inp []) (sample_client []) \<and> node_reach (sample_client []) s \<and> nc_mux s = MuxErr 0 ErrEOF
     \<and> node_reach s s' \<and> nc_mux s' = MuxStuck 0 \<and> blocked s'"
proof -
  let ?s = "sample_taken [] [] (MuxErr 0 ErrEOF)"
  note s = sample_stuck
  have "nc_mux ?s = MuxErr 0 ErrEOF" by (simp add: sample_taken_def)
  moreover from mux_blocked_forever [OF _ s(2)] this have "blocked sample_stuck" by (simp add: blocked_def)
  moreover have "nc_mux sample_stuck = MuxStuck 0" by (simp add: sample_stuck_def sample_taken_def)
  ultimately show ?thesis using s sample_started [of "[]"] by (intro exI [of _ ?s] exI [of _ sample_stuck]) simp
qed

section \<open>A count that cannot be allocated\<close>

text \<open>A headers message whose count asks for more than the address space ends the process, whatever else it holds.\<close>

lemma headers_count_panics:
  assumes "nc_mux s = MuxIdle" "nc_readChan s = Some m" "nc_handlers s (m_Command m) = Some (HAnswer k)"
    and "ca_req (nc_calls s ! k) = ReqHeaders hs e" "m_Payload m = compactSizeSerialize n @ r" "2 ^ 48 < 80 * uint n"
  shows "\<exists>s'. node_step s s' \<and> panicked s' \<and> (\<forall>t. \<not> node_step s' t)"
proof -
  have "fst (headers_Deserialize (m_Payload m)) = Inl (ErrPanic ''makeslice: len out of range'')"
    using assms(5,6) by (simp add: headers_Deserialize_def csize.dec_enc makeSlice_def)
  then have "dispatch m s = MuxPanic ''makeslice: len out of range''"
    using assms(3,4) by (simp add: dispatch_def orPanic_def handleHeader_def rbind_def)
  with node_step.mux [OF _ take [OF assms(1,2)]] assms(1) show ?thesis
    by (intro exI [of _ "s\<lparr>nc_readChan := None, nc_mux := dispatch m s, nc_got := nc_got s @ [m]\<rparr>"]) (auto simp: panicked_def elim: node_step.cases)
qed

end
