(* ===== verification/Restarts.thy ===== *)
theory Restarts
  imports NodeProperties
begin

text \<open>
  The database over the lives of the process: each life opens the database as the last one left it (\<open>New\<close>), connects to a
  node, and runs the service on what the node sends, until it ends between two rounds, by an error, by a panic, or by being killed
  in the middle of a round. Wallets, node and connection may change from life to life; the network is the same.
\<close>

section \<open>What \<open>New\<close> keeps\<close>

definition header_frame :: "'z W_scheme \<Rightarrow> 'z W_scheme \<Rightarrow> bool" where
  "header_frame s s' \<longleftrightarrow> blockheader_tbl (db s') = blockheader_tbl (db s) \<and> net s' = net s"

lemma header_frame_simps [simp]: "header_frame s s" "header_frame s (updWallet i f s)"
  by (simp_all add: header_frame_def updWallet_def)

lemma header_frame_trans: "header_frame s t \<Longrightarrow> header_frame t u \<Longrightarrow> header_frame s u"
  by (simp add: header_frame_def)

lemma walletRow_headers: "walletRow h wc s = (Inr wd, s') \<Longrightarrow> header_frame s s'"
  by (auto simp: walletRow_def insertWalletData_def Let_def header_frame_def split: sum.splits if_splits)

lemma setupWallet_headers:
  assumes "setupWallet C i wc s = (Inr (), s')"
  shows "header_frame s s'"
proof -
  obtain wd s1 r where w: "walletRow (walletHash (wc_Kind wc) (wc_Reqsigs wc) (wc_MasterPubs wc)) wc s = (Inr wd, s1)"
    and r: "refillWallet C i (updWallet i (\<lambda>_. configured wc (walletHash (wc_Kind wc) (wc_Reqsigs wc) (wc_MasterPubs wc)) wd) s1) = (r, s')"
    using setupWallet_okE [OF assms] by metis
  have "header_frame s1 s'" using refillWallet_frame [OF r] by (simp add: refill_frame_def header_frame_def updWallet_def)
  with walletRow_headers [OF w] show ?thesis by (rule header_frame_trans)
qed

lemma setupWallets_headers: "setupWallets C i wcs s = (Inr (), s') \<Longrightarrow> header_frame s s'"
proof (induction wcs arbitrary: i s)
  case (Cons wc wcs)
  then obtain s1 where "setupWallet C i wc s = (Inr (), s1)" "setupWallets C (i + 1) wcs s1 = (Inr (), s')"
    by (auto simp: ebind_ok_iff)
  with Cons.IH setupWallet_headers header_frame_trans show ?case by blast
qed simp

lemma newRepository_db: "newRepository d = (Inr (), st) \<Longrightarrow> db st = d"
  by (auto simp: newRepository_def loadUtxoIndex_def ebind_ok_iff ereads_def)

lemma New_headers:
  assumes "New C d wcs n = Inr w"
  shows "blockheader_tbl (db w) = blockheader_tbl d \<and> net w = n"
proof -
  obtain st where st: "newRepository d = (Inr (), st)"
    using assms by (cases "newRepository d"; cases "fst (newRepository d)") (auto simp: New_def)
  let ?s0 = "\<lparr>db = db st, utxoIndex = utxoIndex st, net = n, bestHeader = 0, bestHeaderHash = replicate 32 0,
     wallets = replicate (length wcs) zero_wallet, scriptPubkeys = Map.empty, shSubs = [], hSubs = [], sent = [], calls = 0\<rparr>"
  have "setupWallets C 0 wcs ?s0 = (Inr (), w)"
    using assms st by (auto simp: New_def dest!: fst_ebind_ok)
  from setupWallets_headers [OF this] newRepository_db [OF st] show ?thesis by (simp add: header_frame_def)
qed

lemma New_chain: "New C d wcs n = Inr w \<Longrightarrow> linked (bh_Hash (genesisBlockData n)) 0 (blockheader_tbl d) \<Longrightarrow> chain_inv w"
  using New_headers by (simp add: chain_inv_def genesisHash_def)

section \<open>Lives\<close>

text \<open>
  Killed in a round. What a round writes is committed header by header (\<open>insertBlockHeader\<close>), reorganisation by reorganisation
  (the transaction of \<open>deleteAllSinceBlock\<close>) and block by block (\<open>sql.Execute\<close>). A process that is killed leaves the database after some
  commit, which is the database of the same round with a peer that answers the first \<open>k\<close> calls, \<open>i\<close> headers of the next one, and fails
  from then on.
\<close>

definition cut :: "node \<Rightarrow> nat \<Rightarrow> nat \<Rightarrow> node" where
  "cut N k i = N\<lparr>
     nd_headers := (\<lambda>n hs. if n < k then nd_headers N n hs else if n = k then map_sum (\<lambda>e. e) (take i) (nd_headers N n hs) else Inl ErrEOF),
     nd_block := (\<lambda>n h. if n < k then nd_block N n h else Inl ErrEOF)\<rparr>"

lemma wf_cut: "wf_node N \<Longrightarrow> wf_node (cut N k i)"
  by (fastforce simp: wf_node_def cut_def list_all_iff map_sum_def split: sum.splits dest: in_set_takeD)

inductive ends :: "crypto \<Rightarrow> node \<Rightarrow> W \<Rightarrow> phase \<times> W \<Rightarrow> bool" for C N w0 where
  between: "service_reach C N w0 ls e \<Longrightarrow> ends C N w0 e"
| killed: "service_reach C N w0 ls (p, w) \<Longrightarrow> p \<in> {Starting, Serving} \<Longrightarrow> syncRound C (cut N k i) fuel w = Some (r, w') \<Longrightarrow>
    ends C N w0 (Crashed, w')"

lemma ends_inv:
  assumes "wf_node N" "chain_inv w0" "ends C N w0 e"
  shows "chain_inv (snd e) \<and> net (snd e) = net w0 \<and> (fst e = Serving \<longrightarrow> synced (snd e))"
  using assms(3)
proof cases
  case (between ls)
  with service_inv [OF assms(1,2)] service_net [OF assms(1,2)] show ?thesis by blast
next
  case (killed ls p w k i fuel r w')
  have c: "chain_inv w" "net w = net w0" using service_inv [OF assms(1,2) killed(2)] service_net [OF assms(1,2) killed(2)] by simp_all
  from syncRound_steps [OF wf_cut [OF assms(1)] c(1) killed(4)] syncRound_subs [OF wf_cut [OF assms(1)] c(1) killed(4)] c(2) killed(1)
  show ?thesis by (simp add: subs_frame_def)
qed

definition life :: "crypto \<Rightarrow> Network \<Rightarrow> database \<Rightarrow> phase \<times> W \<Rightarrow> bool" where
  "life C n d e \<longleftrightarrow> (\<exists>wcs w0 magic now inp c0 c cancelled.
     New C d wcs n = Inr w0 \<and> started magic now inp c0 \<and> node_reach c0 c \<and> ends C (peer c cancelled) w0 e)"

inductive lives :: "crypto \<Rightarrow> Network \<Rightarrow> database \<Rightarrow> bool" for C n where
  fresh: "lives C n empty_database"
| life: "lives C n d \<Longrightarrow> life C n d (p, w) \<Longrightarrow> lives C n (db w)"

text \<open>The headers of every life are one chain, whatever came before.\<close>

lemma life_chain:
  assumes "linked (bh_Hash (genesisBlockData n)) 0 (blockheader_tbl d)" "life C n d (p, w)"
  shows "net w = n \<and> chain_inv w \<and> (p = Serving \<longrightarrow> synced w)"
proof -
  obtain wcs w0 magic now inp c0 c cancelled where l: "New C d wcs n = Inr w0" "started magic now inp c0" "node_reach c0 c"
      "ends C (peer c cancelled) w0 (p, w)"
    using assms(2) unfolding life_def by blast
  have N: "wf_node (peer c cancelled)" using node_reach_inv [OF l(3,2)] by (intro peer_wf) blast
  have c0: "chain_inv w0" by (rule New_chain [OF l(1) assms(1)])
  show ?thesis using ends_inv [OF N c0 l(4)] New_headers [OF l(1)] by simp
qed

lemma lives_linked: "lives C n d \<Longrightarrow> linked (bh_Hash (genesisBlockData n)) 0 (blockheader_tbl d)"
proof (induction rule: lives.induct)
  case (life d p w)
  with life_chain [OF life.IH life.hyps(2)] show ?case by (auto simp: chain_inv_def genesisHash_def)
qed (simp add: empty_database_def)

section \<open>Properties\<close>

text \<open>C11. The whole program over all its lives: from the empty database, after any number of lives in which the wallets, the nodes
  and the bytes they send may be anything and that may be killed at any moment, the stored headers are one chain from the genesis block of the network, and whenever
  clients are served after a round, the best header is its tip and every wallet has been scanned up to it.\<close>

theorem program_chain:
  assumes "lives C n d" "New C d wcs n = Inr w0" "started magic now inp c0" "node_reach c0 c"
    and "ends C (peer c cancelled) w0 (p, w)"
  shows "linked (bh_Hash (genesisBlockData n)) 0 (blockheader_tbl (db w))
    \<and> (p = Serving \<longrightarrow> bestHeader w = int (length (blockheader_tbl (db w)))
      \<and> bestHeaderHash w = tip (bh_Hash (genesisBlockData n)) (blockheader_tbl (db w))
      \<and> (\<forall>x\<in>set (wallets w). bestHeader w \<le> wl_height x))"
proof -
  have "life C n d (p, w)" unfolding life_def using assms(2-5) by blast
  from life_chain [OF lives_linked [OF assms(1)] this] show ?thesis
    by (auto simp: chain_inv_def genesisHash_def synced_def at_tip_def)
qed

theorem program_chain_witness:
  "\<exists>d w0. lives xor_crypto Regtest d \<and> New xor_crypto d [] Regtest = Inr w0 \<and> length (blockheader_tbl (db w0)) = 1
     \<and> linked (bh_Hash (genesisBlockData Regtest)) 0 (blockheader_tbl (db w0))"
proof -
  have new: "New xor_crypto d [] Regtest = Inr ((fresh_W Regtest)\<lparr>db := d\<rparr>)" if "unspent_tbl d = []" for d
    using that by (simp add: New_def newRepository_def loadUtxoIndex_def selectAllUtxos_def index_rows_def fresh_W_def)
  obtain w where w: "service_reach xor_crypto (peer sample_done (\<lambda>n. n = 1)) (fresh_W Regtest) [Round] (Serving, w)"
    "length (blockheader_tbl (db w)) = 1" "unspent_tbl (db w) = []" using sample_round by blast
  have "New xor_crypto empty_database [] Regtest = Inr (fresh_W Regtest)"
    using new [of empty_database] by (simp add: empty_database_def fresh_W_def)
  then have "life xor_crypto Regtest empty_database (Serving, w)"
    unfolding life_def using sample_started [OF one_header_length] sample_done between [OF w(1)] by blast
  from lives.life [OF lives.fresh this] have l: "lives xor_crypto Regtest (db w)" .
  let ?w0 = "(fresh_W Regtest)\<lparr>db := db w\<rparr>"
  have "ends xor_crypto (peer (sample_client one_header) (\<lambda>n. True)) ?w0 (Starting, ?w0)"
    by (rule between [OF service_reach.start])
  from program_chain [OF l new [OF w(3)] sample_started [OF one_header_length] node_reach.start this] l new [OF w(3)] w(2)
  show ?thesis by (intro exI [of _ "db w"] exI [of _ ?w0]) simp
qed

end
