(* ===== verification/Persistence.thy ===== *)
theory Persistence
  imports Restarts
begin

text \<open>
  What the table \<open>wallet\<close> keeps of the wallets. In memory a wallet has its height and its next indexes; the table has a row
  for its hash, and \<open>New\<close> starts from that row. Every operation moves both, in the same transaction of the database, so the two
  agree after every round and at every commit inside one (\<open>at_commit\<close>); a round that fails inside a block leaves rows that are not
  ahead of the memory. Over a restart no block is lost and, unless a block failed, none is scanned again.
\<close>

section \<open>Rows and wallets\<close>

type_synonym progress = "int \<times> u32 \<times> u32"

definition progress_of :: "wallet \<Rightarrow> progress" where
  "progress_of w = (wl_height w, wl_nextReceiveIndex w, wl_nextChangeIndex w)"

definition row_progress :: "walletData \<Rightarrow> progress" where
  "row_progress r = (wd_Height r, wd_NextReceiveIndex r, wd_NextChangeIndex r)"

definition stored :: "walletData list \<Rightarrow> hash32 \<Rightarrow> progress option" where
  "stored rows h = map_option row_progress (find (\<lambda>r. wd_Hash r = h) rows)"

definition rows_match :: "'z W_scheme \<Rightarrow> bool" where
  "rows_match s \<longleftrightarrow> distinct (map wl_hash (wallets s))
     \<and> (\<forall>w\<in>set (wallets s). stored (wallet_tbl (db s)) (wl_hash w) = Some (progress_of w))"

definition rows_behind :: "'z W_scheme \<Rightarrow> bool" where
  "rows_behind s \<longleftrightarrow> (\<forall>w\<in>set (wallets s). \<exists>h p. stored (wallet_tbl (db s)) (wl_hash w) = Some (h, p) \<and> h \<le> wl_height w)"

lemma rows_match_behind: "rows_match s \<Longrightarrow> rows_behind s"
  by (simp add: rows_match_def rows_behind_def progress_of_def)

lemma find_map_key:
  assumes "\<And>r. wd_Hash (f r) = wd_Hash r"
  shows "find (\<lambda>r. wd_Hash r = h) (map f rows) = map_option f (find (\<lambda>r. wd_Hash r = h) rows)"
  by (induction rows) (auto simp: assms)

lemma queryRow_filter: "queryRow (filter P xs) = (case find P xs of None \<Rightarrow> Inl ErrNoRows | Some x \<Rightarrow> Inr x)"
  by (induction xs) (auto simp: queryRow_def)

lemma stored_map_key:
  assumes "\<And>r. wd_Hash (f r) = wd_Hash r" "\<And>r. row_progress (f r) = g (row_progress r)"
  shows "stored (map f rows) h = map_option g (stored rows h)"
  using assms by (simp add: stored_def find_map_key option.map_comp comp_def)

lemma stored_update:
  assumes "\<And>r. wd_Hash (g r) = wd_Hash r"
  shows "stored (map (\<lambda>r. if wd_Hash r = k then g r else r) rows) h =
    (if h = k then map_option (row_progress \<circ> g) (find (\<lambda>r. wd_Hash r = h) rows) else stored rows h)"
  using assms by (auto simp: stored_def find_map_key option.map_comp comp_def intro!: option.map_cong0 dest!: find_Some_in)

lemma map_key_update: "k v = k (xs ! i) \<Longrightarrow> map k (xs[i := v]) = map k xs"
  by (metis list_update_id map_update)

text \<open>The one shape every update has: one wallet in memory and the rows of its hash.\<close>

lemma rows_match_update:
  assumes "rows_match s" "i < length (wallets s)" "wallets s' = (wallets s)[i := v]" "wl_hash v = wl_hash (wallets s ! i)"
    and "wallet_tbl (db s') = map (\<lambda>r. if wd_Hash r = wl_hash (wallets s ! i) then g r else r) (wallet_tbl (db s))"
    and "\<And>r. wd_Hash (g r) = wd_Hash r"
    and "\<And>r. row_progress r = progress_of (wallets s ! i) \<Longrightarrow> row_progress (g r) = progress_of v"
  shows "rows_match s'"
proof -
  have h: "map wl_hash (wallets s') = map wl_hash (wallets s)" using assms(2-4) by (simp add: map_key_update)
  have d: "distinct (map wl_hash (wallets s))" using assms(1) by (simp add: rows_match_def)
  have "stored (wallet_tbl (db s')) (wl_hash (wallets s' ! j)) = Some (progress_of (wallets s' ! j))"
    if j: "j < length (wallets s)" for j
  proof (cases "j = i")
    case True
    have "stored (wallet_tbl (db s)) (wl_hash (wallets s ! i)) = Some (progress_of (wallets s ! i))"
      using assms(1,2) by (simp add: rows_match_def)
    with True assms(2-7) show ?thesis by (auto simp: stored_update) (auto simp: stored_def)
  next
    case False
    then have "wl_hash (wallets s ! j) \<noteq> wl_hash (wallets s ! i)"
      using d j assms(2) by (simp add: distinct_conv_nth)
    with False assms(1-6) j show ?thesis by (simp add: stored_update rows_match_def)
  qed
  then have "\<forall>w\<in>set (wallets s'). stored (wallet_tbl (db s')) (wl_hash w) = Some (progress_of w)"
    using assms(3) by (metis in_set_conv_nth length_list_update)
  with h d show ?thesis by (simp add: rows_match_def)
qed

section \<open>What an operation does to the rows\<close>

definition kept :: "'z W_scheme \<Rightarrow> 'z W_scheme \<Rightarrow> bool" where
  "kept s s' \<longleftrightarrow> map wl_hash (wallets s') = map wl_hash (wallets s) \<and> (rows_match s \<longrightarrow> rows_match s')"

definition row_frame :: "'z W_scheme \<Rightarrow> 'z W_scheme \<Rightarrow> bool" where
  "row_frame s s' \<longleftrightarrow> wallets s' = wallets s \<and> wallet_tbl (db s') = wallet_tbl (db s)"

lemma kept_refl [simp]: "kept s s"
  by (simp add: kept_def)

lemma kept_trans: "kept s t \<Longrightarrow> kept t u \<Longrightarrow> kept s u"
  by (simp add: kept_def)

lemma row_frame_kept: "row_frame s s' \<Longrightarrow> kept s s'"
  by (simp add: row_frame_def kept_def rows_match_def)

lemma ebind_kept:
  assumes "kept s (snd r)" "\<And>a t. r = (Inr a, t) \<Longrightarrow> kept t (snd (f a t))"
  shows "kept s (snd (ebind r f))"
  using assms by (auto split: ebind_split intro: kept_trans)

lemma ereads_kept: "(\<And>a. kept s (snd (f a s))) \<Longrightarrow> kept s (snd (ebind (ereads r s) f))"
  by (cases r) (simp_all add: ereads_def)

lemma recordTx_kept: "kept s (snd (recordTx block tx pos sh s))"
  unfolding recordTx_def
  by (rule ereads_kept)
    (auto simp: insertTransaction_def insertScriptPubkeyTransaction_def row_frame_def split: prod.splits intro!: row_frame_kept)

lemma unspent_kept: "kept s (snd (insertUnspentOutput k v sh s))" "kept s (snd (deleteUnspentOutput k ht s))"
  by (auto simp: insertUnspentOutput_def deleteUnspentOutput_def Let_def row_frame_def intro!: row_frame_kept)

lemma kept_update:
  assumes "i < length (wallets s)" "wallets s' = (wallets s)[i := v]" "wl_hash v = wl_hash (wallets s ! i)"
    and "wallet_tbl (db s') = map (\<lambda>r. if wd_Hash r = wl_hash (wallets s ! i) then g r else r) (wallet_tbl (db s))"
    and "\<And>r. wd_Hash (g r) = wd_Hash r"
    and "\<And>r. row_progress r = progress_of (wallets s ! i) \<Longrightarrow> row_progress (g r) = progress_of v"
  shows "kept s s'"
  using rows_match_update [of s, OF _ assms] assms(1-3) by (simp add: kept_def map_key_update)

lemma walletUpdateIndexes_kept: "kept s (snd (walletUpdateIndexes info s))"
proof (cases "go_index (wallets s) (spi_walletIdx info)")
  case (Inr w)
  then have i: "nat (spi_walletIdx info) < length (wallets s)" "w = wallets s ! nat (spi_walletIdx info)"
    by (auto simp: go_index_ok_iff)
  let ?w = "wallets s ! nat (spi_walletIdx info)" and ?n = "spi_pubkeyIdx info + 1"
  have "kept s (updWallet (spi_walletIdx info) (\<lambda>w. w\<lparr>wl_nextReceiveIndex := ?n\<rparr>)
      (snd (updateWalletIndexes (wl_hash ?w) ?n (wl_nextChangeIndex ?w) s)))"
    by (rule kept_update [OF i(1), where v = "?w\<lparr>wl_nextReceiveIndex := ?n\<rparr>"
        and g = "\<lambda>r. r\<lparr>wd_NextReceiveIndex := ?n, wd_NextChangeIndex := wl_nextChangeIndex ?w\<rparr>"])
      (auto simp: updWallet_def updateWalletIndexes_def row_progress_def progress_of_def)
  moreover have "kept s (updWallet (spi_walletIdx info) (\<lambda>w. w\<lparr>wl_nextChangeIndex := ?n\<rparr>)
      (snd (updateWalletIndexes (wl_hash ?w) (wl_nextReceiveIndex ?w) ?n s)))"
    by (rule kept_update [OF i(1), where v = "?w\<lparr>wl_nextChangeIndex := ?n\<rparr>"
        and g = "\<lambda>r. r\<lparr>wd_NextReceiveIndex := wl_nextReceiveIndex ?w, wd_NextChangeIndex := ?n\<rparr>"])
      (auto simp: updWallet_def updateWalletIndexes_def row_progress_def progress_of_def)
  ultimately show ?thesis by (simp add: walletUpdateIndexes_def Inr updateWalletIndexes_def flip: i(2))
qed (simp add: walletUpdateIndexes_def)

lemma refillWallet_kept: "kept s (snd (refillWallet C i s))"
proof -
  obtain r s' where run: "refillWallet C i s = (r, s')" by force
  note f = refillWallet_frame [OF run]
  have l: "list_all2 same_wallet (wallets s') (wallets s)" and d: "db s' = db s" using f by (simp_all add: refill_frame_def)
  have h: "map wl_hash (wallets s') = map wl_hash (wallets s)"
    using l by (intro nth_equalityI) (auto simp: list_all2_conv_all_nth same_wallet_def)
  moreover have "rows_match s'" if "rows_match s"
    using that l d h by (fastforce simp: rows_match_def list_all2_conv_all_nth all_set_conv_all_nth same_wallet_def progress_of_def)
  ultimately show ?thesis using run by (simp add: kept_def)
qed

lemma processOutput_kept: "kept s (snd (processOutput C block ht tx pos out v upd s))"
  unfolding processOutput_def Let_def
  by (auto split: option.split intro!: ebind_kept recordTx_kept unspent_kept walletUpdateIndexes_kept refillWallet_kept)

lemma processInput_kept: "kept s (snd (processInput block ht tx pos inp upd s))"
  unfolding processInput_def Let_def by (auto split: sum.split intro!: ebind_kept recordTx_kept unspent_kept)

lemma processOutputs_kept: "kept s (snd (processOutputs C block ht tx pos j outs upd s))"
  by (induction outs arbitrary: j upd s) (auto intro!: ebind_kept processOutput_kept)

lemma processInputs_kept: "kept s (snd (processInputs block ht tx pos inps upd s))"
  by (induction inps arbitrary: upd s) (auto intro!: ebind_kept processInput_kept)

lemma processTxs_kept: "kept s (snd (processTxs C block ht i txs upd s))"
  by (induction txs arbitrary: i upd s) (auto intro!: ebind_kept processOutputs_kept processInputs_kept)

lemma notifyUpdated_kept: "kept s (snd (notifyUpdated shs s))"
proof (induction shs arbitrary: s)
  case (Cons sh shs)
  have "kept s (notifyScriptHashSubscribers sh st s)" for st
    by (rule row_frame_kept) (simp add: notifyScriptHashSubscribers_def row_frame_def)
  with Cons show ?case by (auto intro!: ereads_kept intro: kept_trans)
qed simp

lemma updateHeights_kept: "set is \<subseteq> {..<length (wallets s)} \<Longrightarrow> kept s (snd (updateHeights ht is s))"
proof (induction "is" arbitrary: s)
  case (Cons i "is")
  define s1 where "s1 = updWallet (int i) (\<lambda>w. w\<lparr>wl_height := ht\<rparr>) (snd (updateWalletHeight (wl_hash (wallets s ! i)) ht s))"
  have "kept s s1"
    by (rule kept_update [where i = i and v = "(wallets s ! i)\<lparr>wl_height := ht\<rparr>" and g = "\<lambda>r. r\<lparr>wd_Height := ht\<rparr>"])
      (use Cons.prems in \<open>auto simp: s1_def updWallet_def updateWalletHeight_def row_progress_def progress_of_def\<close>)
  moreover have "length (wallets s1) = length (wallets s)" by (simp add: s1_def updateWalletHeight_def)
  ultimately show ?case
    using Cons.IH [of s] Cons.IH [of s1] Cons.prems by (auto simp: updateWalletHeight_def s1_def intro: kept_trans)
qed simp

lemma processBlock_kept: "kept s (snd (processBlock C block ht s))"
  unfolding processBlock_def
  by (intro ebind_kept processTxs_kept updateHeights_kept notifyUpdated_kept) auto

section \<open>Errors of a block\<close>

text \<open>
  A process that is killed is a peer that answers \<open>ErrEOF\<close> from some call on (\<open>cut\<close>). What a block does by itself never ends with
  that error, so a round that ends with it has stopped between two commits and not within a block.
\<close>

named_theorems own_error "operations whose errors are not those of the connection"

definition own :: "'a result \<Rightarrow> bool" where
  "own r \<longleftrightarrow> r \<noteq> Inl ErrEOF"

lemma own_simps [own_error]:
  "own (Inr a)" "own (Inl (Err m))" "own (Inl (ErrPanic m))" "own (Inl ErrNoRows)" "own (Inl ErrNotFound)" "own (Inl ErrConstraint)"
  by (simp_all add: own_def)

lemma own_rbind [own_error]: "own r \<Longrightarrow> (\<And>a. own (f a)) \<Longrightarrow> own (rbind r f)"
  by (cases r) (simp_all add: own_def)

lemma own_rbind_strong: "own r \<Longrightarrow> (\<And>a. r = Inr a \<Longrightarrow> own (f a)) \<Longrightarrow> own (rbind r f)"
  by (cases r) (simp_all add: own_def)

lemma own_ebind [own_error]: "own (fst r) \<Longrightarrow> (\<And>a t. own (fst (f a t))) \<Longrightarrow> own (fst (ebind r f))"
  by (auto simp: own_def split: ebind_split)

lemma own_ereads [own_error]: "own r \<Longrightarrow> own (fst (ereads r s))"
  by (simp add: ereads_def)

lemma own_collect [own_error]: "(\<And>x. own (f x)) \<Longrightarrow> own (collect f xs)"
  by (induction xs) (auto intro!: own_error)

lemma own_scanRows [own_error]: "(\<And>x. own (f x)) \<Longrightarrow> own (scanRows f xs)"
  by (induction xs) (auto intro!: own_error)

lemma own_basic [own_error]: "own (go_index xs i)" "own (bufWrapper_Scan n data)"
  by (simp_all add: go_index_def bufWrapper_Scan_def own_def)

lemma own_MerkleProof [own_error]: "own (MerkleProof txids txid)"
proof -
  have "own (MerkleProof_loop l p br)" for l p br
    by (induction l p br rule: MerkleProof_loop.induct) (subst MerkleProof_loop.simps, auto intro!: own_rbind_strong own_basic own_simps)
  then show ?thesis by (auto simp: MerkleProof_def Let_def intro!: own_error)
qed

lemma own_derive [own_error]: "own (DeriveXpub C k path)" "own (XpubFromXprv C k)"
proof -
  have step: "own (deriveUnhardenedPubFromPub C kc i)" for kc i
    by (auto simp: deriveUnhardenedPubFromPub_def compressedFromBasePointMul_def compressedFromPointAdd_def Let_def
        split: option.split intro!: own_error)
  have "own (DeriveXpub_loop C p c kc path)" for p c kc
    by (induction path arbitrary: p c kc) (auto intro!: own_error step)
  then show "own (DeriveXpub C k path)" by (auto simp: DeriveXpub_def intro!: own_error)
  show "own (XpubFromXprv C k)"
    by (auto simp: XpubFromXprv_def pubFromPriv_def compressedFromBasePointMul_def split: option.split intro!: own_error)
qed

lemma own_scripts [own_error]: "own (Make C kind n ks)" "own (MakeMulti C kind n offset m keys)"
proof -
  have ck: "own (multisig_checks n ks)" for n ks by (simp add: multisig_checks_def Let_def own_def)
  show m: "own (Make C kind n ks)" for n ks
    by (cases kind) (auto simp: Make_def p2pk_def p2pkh_def p2ms_def p2shMultisig_def p2shWpkh_def p2wpkh_def p2wshMulti_def Let_def
        intro!: own_error ck)
  show "own (MakeMulti C kind n offset m keys)"
    by (auto simp: MakeMulti_def basePubKey_def childScript_def intro!: own_error m)
qed

lemma own_refillWallet [own_error]: "own (fst (refillWallet C i s))"
  by (auto simp: refillWallet_def refillReceive_def refillChange_def deriveScriptPubkeys_def Let_def split: prod.split intro!: own_error)

lemma own_recordTx [own_error]: "own (fst (recordTx block tx pos sh s))"
  by (auto simp: recordTx_def insertTransaction_def insertScriptPubkeyTransaction_def split: prod.split intro!: own_error)

lemma own_walletUpdateIndexes [own_error]: "own (fst (walletUpdateIndexes info s))"
  by (auto simp: walletUpdateIndexes_def updateWalletIndexes_def intro!: own_error)

lemma own_processOutput [own_error]: "own (fst (processOutput C block ht tx pos out v upd s))"
  by (auto simp: processOutput_def insertUnspentOutput_def Let_def split: option.split intro!: own_error)

lemma own_processInput [own_error]: "own (fst (processInput block ht tx pos inp upd s))"
  by (auto simp: processInput_def selectUnspentOutput_def deleteUnspentOutput_def Let_def split: option.split intro!: own_error)

lemma own_processTxs [own_error]: "own (fst (processTxs C block ht i txs upd s))"
proof -
  have o: "own (fst (processOutputs C block ht tx pos j outs upd s))" for tx pos j outs upd s
    by (induction outs arbitrary: j upd s) (auto intro!: own_error)
  have p: "own (fst (processInputs block ht tx pos inps upd s))" for tx pos inps upd s
    by (induction inps arbitrary: upd s) (auto intro!: own_error)
  show ?thesis by (induction txs arbitrary: i upd s) (auto intro!: own_error o p)
qed

lemma own_updateHeights [own_error]: "own (fst (updateHeights ht is s))"
  by (induction "is" arbitrary: s) (auto simp: updateWalletHeight_def intro!: own_error)

lemma own_notifyUpdated [own_error]: "own (fst (notifyUpdated shs s))"
  by (induction shs arbitrary: s)
    (auto simp: GetScriptHashStatus_def selectScriptHashHistory_def split: prod.split intro!: own_error)

lemma own_processBlock: "own (fst (processBlock C block ht s))"
  by (auto simp: processBlock_def intro!: own_error)

lemma own_reloadCaches: "own (fst (reloadCaches s))"
  by (auto simp: reloadCaches_def loadUtxoIndex_def selectAllUtxos_def intro!: own_error)

section \<open>Blocks\<close>

text \<open>
  A block that fails is rolled back in the database only. The rows are then behind the memory, and stay so: the round has ended. A
  round that succeeds, or that ends because the connection does, leaves the two in agreement.
\<close>

definition between_commits :: "error + 'a \<Rightarrow> bool" where
  "between_commits r \<longleftrightarrow> (\<forall>e. r = Inl e \<longrightarrow> e = ErrEOF)"

lemma between_commits_simps [simp]: "between_commits (Inr u)" "between_commits (Inl e) \<longleftrightarrow> e = ErrEOF"
  by (simp_all add: between_commits_def)

definition settled_rows :: "error + 'a \<Rightarrow> 'z W_scheme \<Rightarrow> 'z W_scheme \<Rightarrow> bool" where
  "settled_rows r s s' \<longleftrightarrow> map wl_hash (wallets s') = map wl_hash (wallets s)
     \<and> (rows_match s \<longrightarrow> rows_behind s' \<and> (between_commits r \<longrightarrow> rows_match s'))"

lemma kept_settled: "kept s s' \<Longrightarrow> settled_rows r s s'"
  by (simp add: kept_def settled_rows_def rows_match_behind)

lemma settled_trans: "settled_rows (Inr u) s t \<Longrightarrow> settled_rows r t s' \<Longrightarrow> settled_rows r s s'"
  by (auto simp: settled_rows_def)

lemma processBlock_grows:
  assumes "processBlock C block ht s = (r, s')"
  shows "list_all2 (\<le>) (map wl_height (wallets s)) (map wl_height (wallets s'))"
proof -
  have refl: "list_all2 (\<le>) hs hs" for hs :: "int list" by (simp add: list_all2_refl)
  obtain q s1 where t: "processTxs C block ht 0 (b_Transactions block) [] s = (q, s1)" by force
  have h1: "map wl_height (wallets s1) = map wl_height (wallets s)"
    using processTxs_height_frame [of s C block ht 0 "b_Transactions block" "[]"] t by (simp add: height_frame_def)
  show ?thesis
  proof (cases q)
    case (Inl e)
    with assms t h1 refl show ?thesis by (simp add: processBlock_def)
  next
    case (Inr upd)
    have "set [0..<length (wallets s1)] \<subseteq> {..<length (wallets s1)}" by auto
    from updateHeights_heights [OF this, of ht] obtain s2 where u: "updateHeights ht [0..<length (wallets s1)] s1 = (Inr (), s2)"
        "chain_frame s1 s2" "\<forall>i < length (wallets s1). wl_height (wallets s2 ! i) = max ht (wl_height (wallets s1 ! i))" by auto
    have "list_all2 (\<le>) (map wl_height (wallets s1)) (map wl_height (wallets s2))"
      using u by (simp add: list_all2_conv_all_nth chain_frame_def)
    moreover have "map wl_height (wallets s') = map wl_height (wallets s2)"
      using notifyUpdated_height_frame [of s2 upd] assms t Inr u(1) by (simp add: processBlock_def height_frame_def)
    ultimately show ?thesis using h1 by simp
  qed
qed

lemma sqlExecute_settled:
  assumes "sqlExecute (processBlock C block ht) s = (r, s')"
  shows "settled_rows r s s'"
proof -
  obtain q s1 where b: "processBlock C block ht s = (q, s1)" by force
  have k: "kept s s1" using processBlock_kept [of s C block ht] b by simp
  show ?thesis
  proof (cases q)
    case (Inr u)
    with b assms k show ?thesis by (auto simp: sqlExecute_def intro: kept_settled)
  next
    case (Inl e)
    with b assms have s': "s' = s1\<lparr>db := db s\<rparr>" "r = Inl e" by (auto simp: sqlExecute_def)
    have h: "map wl_hash (wallets s1) = map wl_hash (wallets s)" using k by (simp add: kept_def)
    then have "wl_hash (wallets s1 ! i) = wl_hash (wallets s ! i)" if "i < length (wallets s)" for i
      using that by (metis length_map nth_map)
    moreover have "wl_height (wallets s ! i) \<le> wl_height (wallets s1 ! i)" if "i < length (wallets s)" for i
      using processBlock_grows [OF b] that by (auto simp: list_all2_conv_all_nth)
    ultimately have "rows_behind s'" if "rows_match s"
      using that s'(1) map_eq_imp_length_eq [OF h] by (auto simp: rows_match_def rows_behind_def progress_of_def all_set_conv_all_nth)
    moreover have "e \<noteq> ErrEOF" using own_processBlock [of C block ht s] b Inl by (simp add: own_def)
    ultimately show ?thesis using h s' by (simp add: settled_rows_def)
  qed
qed

lemma syncBlocks_settled: "syncBlocks C N bhs ht s = (r, s') \<Longrightarrow> settled_rows r s s'"
proof (induction bhs arbitrary: ht s)
  case Nil
  then show ?case by (auto intro: kept_settled)
next
  case (Cons bh bhs)
  obtain q s1 where g: "GetBlock N bh s = (q, s1)" by force
  have f1: "kept s s1" using g by (auto simp: GetBlock_def row_frame_def intro: row_frame_kept)
  show ?case
  proof (cases q)
    case (Inl e)
    with g Cons.prems f1 show ?thesis by (auto intro: kept_settled)
  next
    case (Inr block)
    obtain q2 s2 where x: "sqlExecute (processBlock C block ht) s1 = (q2, s2)" by force
    have f2: "settled_rows q2 s s2" using settled_trans [OF kept_settled [OF f1] sqlExecute_settled [OF x]] .
    show ?thesis
    proof (cases q2)
      case (Inl e)
      with g Inr x Cons.prems f2 show ?thesis by (auto simp: settled_rows_def)
    next
      case (Inr u)
      with g \<open>q = Inr block\<close> x Cons.prems have "syncBlocks C N bhs (ht + 1) s2 = (r, s')" by simp
      from settled_trans [OF f2 [unfolded Inr] Cons.IH [OF this]] show ?thesis .
    qed
  qed
qed

lemma syncWallets_loop_settled: "syncWallets_loop C N fuel ht s = Some (r, s') \<Longrightarrow> settled_rows r s s'"
proof (induction fuel arbitrary: ht s)
  case (Suc fuel)
  show ?case
  proof (cases "ht > bestHeader s")
    case True
    with Suc.prems show ?thesis by (auto intro: kept_settled)
  next
    case False
    show ?thesis
    proof (cases "selectBlockHashesAtHeight s ht 2000")
      case (Inl e)
      with Suc.prems False show ?thesis by (auto simp: ereads_def intro: kept_settled)
    next
      case p: (Inr bhs)
      obtain q s1 where b: "syncBlocks C N bhs ht s = (q, s1)" by force
      note f = syncBlocks_settled [OF b]
      show ?thesis
      proof (cases q)
        case (Inl e)
        with Suc.prems False p b f show ?thesis by (auto simp: settled_rows_def)
      next
        case (Inr ht')
        with Suc.prems False p b have "syncWallets_loop C N fuel ht' s1 = Some (r, s')" by simp
        from settled_trans [OF f [unfolded Inr] Suc.IH [OF this]] show ?thesis .
      qed
    qed
  qed
qed simp

lemma syncWallets_settled: "syncWallets C N fuel s = Some (r, s') \<Longrightarrow> settled_rows r s s'"
  by (auto simp: syncWallets_def Let_def split: list.splits if_splits intro: kept_settled syncWallets_loop_settled)

section \<open>Reorganisations and rounds\<close>

lemma processReorg_settled:
  assumes "processReorg k s = (r, s')"
  shows "settled_rows r s s'"
proof (cases "selectBlockHashesAtHeight s k 1")
  case (Inl e)
  with assms show ?thesis by (auto simp: processReorg_def intro: kept_settled)
next
  case sel: (Inr hs)
  show ?thesis
  proof (cases hs)
    case Nil
    with assms sel show ?thesis by (auto simp: processReorg_def intro: kept_settled)
  next
    case (Cons h hs')
    obtain p s1 where d: "deleteAllSinceBlock k s = (p, s1)" by force
    show ?thesis
    proof (cases p)
      case (Inl e)
      with d have "row_frame s s1" by (auto simp: deleteAllSinceBlock_def Let_def row_frame_def split: if_splits)
      with assms sel Cons d Inl show ?thesis by (auto simp: processReorg_def intro: kept_settled row_frame_kept)
    next
      case (Inr u)
      let ?f = "\<lambda>w. if wd_Height w > k then w\<lparr>wd_Height := k\<rparr> else w"
      have s1: "wallets s1 = wallets s" "wallet_tbl (db s1) = map ?f (wallet_tbl (db s))"
        using d Inr by (auto simp: deleteAllSinceBlock_def Let_def split: if_splits)
      obtain q s2 where l: "reloadCaches s1 = (q, s2)" by force
      have s2: "wallets s2 = wallets s1" "db s2 = db s1"
        using arg_cong [OF reloadCaches_frame [OF l], of wallets] arg_cong [OF reloadCaches_frame [OF l], of db] by simp_all
      have st: "stored (map ?f rows) a = map_option (\<lambda>(h, p). (min k h, p)) (stored rows a)" for rows a
        by (rule stored_map_key) (auto simp: row_progress_def min_def)
      have m: "stored (wallet_tbl (db s2)) (wl_hash w) = Some (progress_of (w\<lparr>wl_height := min k (wl_height w)\<rparr>))"
        if "rows_match s" "w \<in> set (wallets s)" for w
        using that by (simp add: rows_match_def s1(2) s2(2) st progress_of_def)
      have b: "rows_behind s2" if "rows_match s"
        using m [OF that] by (auto simp: rows_behind_def s1(1) s2(1) progress_of_def)
      have cs: "r = q \<and> (case q of Inl e \<Rightarrow> s' = s2 | Inr _ \<Rightarrow> s' = s2\<lparr>wallets := map (\<lambda>w. w\<lparr>wl_height := min k (wl_height w)\<rparr>) (wallets s2),
          bestHeader := k, bestHeaderHash := h\<rparr>)"
        using assms sel Cons d Inr l by (cases q) (auto simp: processReorg_def)
      show ?thesis
      proof (cases q)
        case (Inl e)
        have "e \<noteq> ErrEOF" using own_reloadCaches [of s1] l Inl by (simp add: own_def)
        with Inl cs b s1 s2 show ?thesis by (simp add: settled_rows_def)
      next
        case (Inr v)
        with cs s1 s2 m have "rows_match s'" if "rows_match s"
          using that by (auto simp: rows_match_def comp_def)
        with Inr cs s1 s2 show ?thesis by (simp add: settled_rows_def rows_match_behind comp_def)
      qed
    qed
  qed
qed

lemma syncRound_settled:
  assumes "wf_node N" "chain_inv s" "syncRound C N fuel s = Some (r, s')"
  shows "settled_rows r s s'"
proof -
  from assms(3) obtain q s1 where h: "syncHeaders N fuel s = Some (q, s1)"
    by (cases "syncHeaders N fuel s") (auto simp: syncRound_def)
  have "hdr_frame s s1" using syncHeaders_steps [OF assms(1,2) h] by (simp add: hdr_step_def)
  then have "row_frame s s1" using hdr_frame_tables [of s s1] by (simp add: row_frame_def hdr_frame_def)
  then have f: "settled_rows (Inr ()) s s1" "kept s s1" by (auto intro: kept_settled row_frame_kept)
  consider "q = Inr ()" | k where "q = Inl (ErrReorg k)" | e where "q = Inl e" "\<nexists>k. e = ErrReorg k" by (cases q) auto
  then show ?thesis
  proof cases
    case 1
    with assms(3) h have "syncWallets C N fuel s1 = Some (r, s')" by (simp add: syncRound_def)
    from settled_trans [OF f(1) syncWallets_settled [OF this]] show ?thesis .
  next
    case (2 k)
    obtain p s2 where p: "processReorg k s1 = (p, s2)" by force
    note g = settled_trans [OF f(1) processReorg_settled [OF p]]
    show ?thesis
    proof (cases p)
      case (Inl e)
      with assms(3) h 2 p g show ?thesis by (simp add: syncRound_def settled_rows_def)
    next
      case (Inr u)
      with assms(3) h 2 p have "syncWallets C N fuel s2 = Some (r, s')" by (simp add: syncRound_def)
      from settled_trans [OF g [unfolded Inr] syncWallets_settled [OF this]] show ?thesis .
    qed
  next
    case (3 e)
    with assms(3) h have "r = Inl e" "s' = s1" by (auto simp: syncRound_def split: error.splits)
    with f(2) show ?thesis by (simp add: kept_settled)
  qed
qed

section \<open>The service\<close>

lemma rows_frame_keeps:
  assumes "tip_frame s s'"
  shows "rows_match s' = rows_match s" "rows_behind s' = rows_behind s"
  using assms by (simp_all add: tip_frame_def rows_match_def rows_behind_def)

lemmas subs_rows = subs_tip_frame [THEN rows_frame_keeps(1)] subs_tip_frame [THEN rows_frame_keeps(2)]
  subs_tip_frame [unfolded tip_frame_def]

lemma service_rows:
  assumes "wf_node N" "chain_inv s0" "rows_match s0" "service_reach C N s0 ls a"
  shows "map wl_hash (wallets (snd a)) = map wl_hash (wallets s0) \<and> rows_behind (snd a)
    \<and> (fst a \<in> {Starting, Serving} \<longrightarrow> rows_match (snd a))"
  using assms(4)
proof (induction rule: service_reach.induct)
  case start
  with assms(3) show ?case by (simp add: rows_match_behind)
next
  case (step ls a l b)
  have "chain_inv (snd a)" using service_inv [OF assms(1,2) step.hyps(1)] by simp
  note round = syncRound_settled [OF assms(1) this]
  from step.hyps(2) show ?case
  proof (cases rule: service_step.cases)
    case (round_ok p fuel s u s')
    with step.IH round [of C fuel "Inr u" s'] show ?thesis by (auto simp: settled_rows_def)
  next
    case (round_err p fuel s e s')
    have "after_error e p \<notin> {Starting, Serving}" by (simp add: after_error_def split: error.split)
    with round_err step.IH round [of C fuel "Inl e" s'] show ?thesis by (auto simp: settled_rows_def)
  qed (use step.IH in \<open>auto simp: subs_rows\<close>)
qed

text \<open>
  The moments at which a life may end with memory and rows in agreement: between two rounds, and inside a round when the connection
  ends or when the process is killed behind the commit that \<open>cut\<close> describes.
\<close>

definition at_commit :: "crypto \<Rightarrow> node \<Rightarrow> W \<Rightarrow> W \<Rightarrow> bool" where
  "at_commit C N w0 w \<longleftrightarrow>
     (\<exists>ls p. service_reach C N w0 ls (p, w) \<and> p \<in> {Starting, Serving})
     \<or> (\<exists>ls p v M fuel r. service_reach C N w0 ls (p, v) \<and> p \<in> {Starting, Serving} \<and> (M = N \<or> (\<exists>k i. M = cut N k i))
          \<and> syncRound C M fuel v = Some (r, w) \<and> between_commits r)"

lemma at_commit_ends: "at_commit C N w0 w \<Longrightarrow> \<exists>p. ends C N w0 (p, w)"
  unfolding at_commit_def
proof (elim disjE exE conjE)
  fix ls p assume "service_reach C N w0 ls (p, w)"
  then show ?thesis using between by blast
next
  fix ls p v M fuel r
  assume v: "service_reach C N w0 ls (p, v)" "p \<in> {Starting, Serving}" and r: "M = N" "syncRound C M fuel v = Some (r, w)"
  then obtain q where "service_step C N Round (p, v) (q, w)"
    by (cases r) (auto intro: service_step.round_ok service_step.round_err)
  with v(1) show ?thesis using between service_reach.step by blast
next
  fix ls p v M fuel r k i
  assume "service_reach C N w0 ls (p, v)" "p \<in> {Starting, Serving}" "M = cut N k i" "syncRound C M fuel v = Some (r, w)"
  then show ?thesis using killed by blast
qed

lemma at_commit_rows:
  assumes "wf_node N" "chain_inv w0" "rows_match w0" "at_commit C N w0 w"
  shows "rows_match w"
  using assms(4) unfolding at_commit_def
proof
  assume "\<exists>ls p. service_reach C N w0 ls (p, w) \<and> p \<in> {Starting, Serving}"
  with service_rows [OF assms(1-3)] show ?thesis by fastforce
next
  assume "\<exists>ls p v M fuel r. service_reach C N w0 ls (p, v) \<and> p \<in> {Starting, Serving} \<and> (M = N \<or> (\<exists>k i. M = cut N k i))
      \<and> syncRound C M fuel v = Some (r, w) \<and> between_commits r"
  then obtain ls p v M fuel r where v: "service_reach C N w0 ls (p, v)" "p \<in> {Starting, Serving}"
      and M: "M = N \<or> (\<exists>k i. M = cut N k i)" and r: "syncRound C M fuel v = Some (r, w)" "between_commits r" by blast
  have "wf_node M" using M wf_cut [OF assms(1)] assms(1) by blast
  moreover have "chain_inv v" using service_inv [OF assms(1,2) v(1)] by simp
  moreover have "rows_match v" using service_rows [OF assms(1-3) v(1)] v(2) by auto
  ultimately show ?thesis using syncRound_settled [OF _ _ r(1)] r(2) by (simp add: settled_rows_def)
qed

lemma ends_rows:
  assumes "wf_node N" "chain_inv w0" "rows_match w0" "ends C N w0 e"
  shows "map wl_hash (wallets (snd e)) = map wl_hash (wallets w0) \<and> rows_behind (snd e) \<and> (fst e = Serving \<longrightarrow> rows_match (snd e))"
  using assms(4)
proof cases
  case (between ls)
  with service_rows [OF assms(1-3)] show ?thesis by simp
next
  case (killed ls p w k i fuel r w')
  have c: "chain_inv w" using service_inv [OF assms(1,2) killed(2)] by simp
  from syncRound_settled [OF wf_cut [OF assms(1)] c killed(4)] service_rows [OF assms(1-3) killed(2)] killed(1,3)
  show ?thesis by (auto simp: settled_rows_def)
qed

section \<open>What \<open>New\<close> loads\<close>

definition config_hash :: "WalletConfig \<Rightarrow> hash32" where
  "config_hash wc = walletHash (wc_Kind wc) (wc_Reqsigs wc) (wc_MasterPubs wc)"

text \<open>The progress a configured wallet starts from: its row, or the configured height.\<close>

definition start_progress :: "walletData list \<Rightarrow> WalletConfig \<Rightarrow> progress" where
  "start_progress rows wc = (case stored rows (config_hash wc) of None \<Rightarrow> (wc_Height wc, 0, 0) | Some p \<Rightarrow> p)"

lemma walletRow_stored:
  assumes "walletRow h wc s = (Inr wd, s')"
  shows "stored (wallet_tbl (db s')) h = Some (row_progress wd)"
    and "row_progress wd = (case stored (wallet_tbl (db s)) h of None \<Rightarrow> (wc_Height wc, 0, 0) | Some p \<Rightarrow> p)"
    and "k \<noteq> h \<Longrightarrow> stored (wallet_tbl (db s')) k = stored (wallet_tbl (db s)) k"
proof -
  have snoc: "find P (xs @ [x]) = (case find P xs of None \<Rightarrow> if P x then Some x else None | Some y \<Rightarrow> Some y)" for P xs and x :: walletData
    by (induction xs) auto
  show "stored (wallet_tbl (db s')) h = Some (row_progress wd)"
    "row_progress wd = (case stored (wallet_tbl (db s)) h of None \<Rightarrow> (wc_Height wc, 0, 0) | Some p \<Rightarrow> p)"
    "k \<noteq> h \<Longrightarrow> stored (wallet_tbl (db s')) k = stored (wallet_tbl (db s)) k"
    using assms
    by (auto simp: walletRow_def selectWalletData_def queryRow_filter insertWalletData_def stored_def Let_def snoc row_progress_def
        split: option.splits sum.splits if_splits dest: find_Some_in)
qed

lemma setupWallet_loads:
  assumes "setupWallet C i wc s = (Inr (), s')"
  shows "0 \<le> i" "nat i < length (wallets s)" "map wl_hash (wallets s') = (map wl_hash (wallets s))[nat i := config_hash wc]"
    and "map progress_of (wallets s') = (map progress_of (wallets s))[nat i := start_progress (wallet_tbl (db s)) wc]"
    and "stored (wallet_tbl (db s')) (config_hash wc) = Some (start_progress (wallet_tbl (db s)) wc)"
    and "k \<noteq> config_hash wc \<Longrightarrow> stored (wallet_tbl (db s')) k = stored (wallet_tbl (db s)) k"
proof -
  obtain wd s1 r where w: "walletRow (config_hash wc) wc s = (Inr wd, s1)" "0 \<le> i" "nat i < length (wallets s1)"
      and r: "refillWallet C i (updWallet i (\<lambda>_. configured wc (config_hash wc) wd) s1) = (r, s')"
    using setupWallet_okE [OF assms, folded config_hash_def] by metis
  note f = walletRow_frame [OF w(1)] and st = walletRow_stored [OF w(1)]
  have l: "list_all2 same_wallet (wallets s') ((wallets s)[nat i := configured wc (config_hash wc) wd])"
      and d: "db s' = db s1" using refillWallet_frame [OF r] f(1) by (simp_all add: refill_frame_def)
  have m: "map k (wallets s') = map k ((wallets s)[nat i := configured wc (config_hash wc) wd])"
    if "\<And>v w. same_wallet v w \<Longrightarrow> k v = k w" for k :: "wallet \<Rightarrow> 'x"
    using l that by (auto simp: list_all2_conv_all_nth intro!: nth_equalityI)
  show "0 \<le> i" "nat i < length (wallets s)" using w(2,3) f(1) by simp_all
  have p: "progress_of (configured wc h wd) = row_progress wd" for h by (simp add: progress_of_def configured_def row_progress_def)
  show "map wl_hash (wallets s') = (map wl_hash (wallets s))[nat i := config_hash wc]"
    using m [of wl_hash] by (simp add: same_wallet_def map_update) (simp add: configured_def)
  show "map progress_of (wallets s') = (map progress_of (wallets s))[nat i := start_progress (wallet_tbl (db s)) wc]"
    using m [of progress_of] st(2) by (simp add: same_wallet_def map_update p start_progress_def) (simp add: progress_of_def)
  show "stored (wallet_tbl (db s')) (config_hash wc) = Some (start_progress (wallet_tbl (db s)) wc)"
    using st(1,2) d by (simp add: start_progress_def)
  show "k \<noteq> config_hash wc \<Longrightarrow> stored (wallet_tbl (db s')) k = stored (wallet_tbl (db s)) k"
    using st(3) d by simp
qed

text \<open>The loop sets the wallets up one by one; the first \<open>n\<close> are those of the configurations seen so far.\<close>

lemma setupWallets_loads:
  assumes "distinct (map config_hash wcs)"
  shows "setupWallets C (int n) wcs s = (Inr (), s') \<Longrightarrow> n + length wcs = length (wallets s) \<Longrightarrow>
    (\<forall>w\<in>set (take n (wallets s)). wl_hash w \<notin> config_hash ` set wcs \<and> stored (wallet_tbl (db s)) (wl_hash w) = Some (progress_of w)) \<Longrightarrow>
    map wl_hash (wallets s') = take n (map wl_hash (wallets s)) @ map config_hash wcs
    \<and> map progress_of (wallets s') = take n (map progress_of (wallets s)) @ map (start_progress (wallet_tbl (db s))) wcs
    \<and> (\<forall>w\<in>set (wallets s'). stored (wallet_tbl (db s')) (wl_hash w) = Some (progress_of w))"
  using assms
proof (induction wcs arbitrary: n s)
  case (Cons wc wcs)
  obtain s1 where s1: "setupWallet C (int n) wc s = (Inr (), s1)" "setupWallets C (int (Suc n)) wcs s1 = (Inr (), s')"
    using Cons.prems(1) by (auto simp: ebind_ok_iff add.commute)
  note L = setupWallet_loads [OF s1(1), simplified]
  have n: "n < length (wallets s)" using Cons.prems(2) by simp
  have len: "length (wallets s1) = length (wallets s)" using arg_cong [OF L(3), of length] by simp
  have h: "take (Suc n) (map wl_hash (wallets s1)) = take n (map wl_hash (wallets s)) @ [config_hash wc]"
    using n by (simp add: L take_Suc_conv_app_nth)
  have p: "take (Suc n) (map progress_of (wallets s1)) = take n (map progress_of (wallets s)) @ [start_progress (wallet_tbl (db s)) wc]"
    using n by (simp add: L take_Suc_conv_app_nth)
  have nth: "wl_hash (wallets s1 ! i) = (if i = n then config_hash wc else wl_hash (wallets s ! i))"
      "progress_of (wallets s1 ! i) = (if i = n then start_progress (wallet_tbl (db s)) wc else progress_of (wallets s ! i))"
    if "i \<le> n" for i
    using arg_cong [OF L(3), of "\<lambda>xs. xs ! i"] arg_cong [OF L(4), of "\<lambda>xs. xs ! i"] that n len by (auto simp: nth_list_update)
  have pre: "wl_hash w \<notin> config_hash ` set wcs \<and> stored (wallet_tbl (db s1)) (wl_hash w) = Some (progress_of w)"
    if w: "w \<in> set (take (Suc n) (wallets s1))" for w
  proof -
    obtain i where i: "i < Suc n" "w = wallets s1 ! i" using w n len by (auto simp: in_set_conv_nth)
    show ?thesis
    proof (cases "i = n")
      case True
      with i nth [of n] L(5) Cons.prems(4) show ?thesis by simp
    next
      case False
      then have "wallets s ! i \<in> set (take n (wallets s))" using i n by (auto simp: in_set_conv_nth intro!: exI [of _ i])
      with Cons.prems(3) have "wl_hash (wallets s ! i) \<notin> config_hash ` set (wc # wcs)"
          "stored (wallet_tbl (db s)) (wl_hash (wallets s ! i)) = Some (progress_of (wallets s ! i))" by blast+
      moreover have "wl_hash w = wl_hash (wallets s ! i)" "progress_of w = progress_of (wallets s ! i)"
        using nth [of i] i False by simp_all
      ultimately show ?thesis using L(6) by simp
    qed
  qed
  have "start_progress (wallet_tbl (db s1)) x = start_progress (wallet_tbl (db s)) x" if "x \<in> set wcs" for x
  proof -
    have "config_hash x \<noteq> config_hash wc" using that Cons.prems(4) by (auto simp: image_iff)
    then show ?thesis by (simp add: start_progress_def L(6))
  qed
  then have sp: "map (start_progress (wallet_tbl (db s1))) wcs = map (start_progress (wallet_tbl (db s))) wcs" by simp
  have "Suc n + length wcs = length (wallets s1)" "distinct (map config_hash wcs)" using Cons.prems(2,4) len by simp_all
  from Cons.IH [OF s1(2) this(1) _ this(2)] pre show ?case by (simp add: h p sp)
qed auto

lemma New_loads:
  assumes "New C d wcs n = Inr w" "distinct (map config_hash wcs)"
  shows "map wl_hash (wallets w) = map config_hash wcs" "map progress_of (wallets w) = map (start_progress (wallet_tbl d)) wcs" "rows_match w"
proof -
  obtain st where st: "newRepository d = (Inr (), st)"
    using assms by (cases "newRepository d"; cases "fst (newRepository d)") (auto simp: New_def)
  let ?s0 = "\<lparr>db = db st, utxoIndex = utxoIndex st, net = n, bestHeader = 0, bestHeaderHash = replicate 32 0,
     wallets = replicate (length wcs) zero_wallet, scriptPubkeys = Map.empty, shSubs = [], hSubs = [], sent = [], calls = 0\<rparr>"
  have "setupWallets C (int 0) wcs ?s0 = (Inr (), w)"
    using assms st by (auto simp: New_def dest!: fst_ebind_ok)
  from setupWallets_loads [OF assms(2) this] newRepository_db [OF st] assms(2)
  show "map wl_hash (wallets w) = map config_hash wcs" "map progress_of (wallets w) = map (start_progress (wallet_tbl d)) wcs" "rows_match w"
    by (simp_all add: rows_match_def)
qed

section \<open>A round that is killed\<close>

lemma sample_killed:
  assumes "blockheader_tbl (db s) = []" "net s = Regtest" "calls s = 0"
  shows "\<exists>w. syncRound xor_crypto (cut (peer sample_done (\<lambda>n. False)) 0 1) 2 s = Some (Inl ErrEOF, w)
    \<and> length (blockheader_tbl (db w)) = 1 \<and> (db w)\<lparr>blockheader_tbl := []\<rparr> = db s"
proof -
  let ?N = "genesis_node Regtest" and ?P = "cut (peer sample_done (\<lambda>n. False)) 0 1" and ?h = "sample_header genesis"
  let ?s0 = "s\<lparr>bestHeader := 0, bestHeaderHash := genesis\<rparr>" and ?s1 = "s\<lparr>bestHeader := 0, bestHeaderHash := genesis, calls := 1\<rparr>"
  have st: "syncHeaders ?P 2 s = syncHeaders_loop ?P 2 ?s0"
    using assms by (simp add: syncHeaders_def storedTip_def selectLastBlockHeaderData_def headers_desc_def queryRow_def)
  have "has_chain genesis [?h] 0 ?s1" using assms by (simp add: has_chain_def genesisHash_def rowsOf_def hashAt_def)
  from addHeaders_serves [OF one_header_serves [OF genesis_length] this, of 1]
  obtain w where w: "addHeaders ?N [?h] ?s1 = (Inr (), w)" "has_chain genesis [?h] 1 w" "calls w = 1"
    by (auto simp del: addHeaders.simps genesisBlockData.simps)
  have add: "addHeaders ?P [?h] ?s1 = addHeaders ?N [?h] ?s1"
    by (simp add: sample_header_def del: genesisBlockData.simps)
  have "nd_headers (peer sample_done (\<lambda>n. False)) 0 [genesis] = Inr [?h]"
    by (simp add: peer_def returned_def syncCalls_def sample_done_def sample_taken_def sample_call_def newCall_def rbind_def del: genesisBlockData.simps)
  then have h: "nd_headers ?P 0 [genesis] = Inr [?h]" "nd_headers ?P 1 hs = Inl ErrEOF" "nd_cancelled ?P n = False" for hs n
    by (simp_all add: cut_def peer_def)
  then have run: "syncHeaders ?P 2 s = Some (Inl ErrEOF, w\<lparr>calls := 2\<rparr>)"
    unfolding st using w add assms(3) by (simp add: numeral_2_eq_2 GetHeaders_def del: addHeaders.simps genesisBlockData.simps)
  have "chain_inv s" using assms(1) by (simp add: chain_inv_def)
  from syncHeaders_steps [OF wf_cut [OF peer_wf [OF sample_done_inv]] this run] have "hdr_frame s (w\<lparr>calls := 2\<rparr>)" by (simp add: hdr_step_def)
  moreover have "(db s)\<lparr>blockheader_tbl := []\<rparr> = db s" using assms(1) by simp
  ultimately have "(db w)\<lparr>blockheader_tbl := []\<rparr> = db s" by (auto simp: hdr_frame_def)
  moreover have "length (blockheader_tbl (db w)) = 1" using w(2) by (simp add: has_chain_def rowsOf_def)
  ultimately show ?thesis using run by (simp add: syncRound_def)
qed

section \<open>Properties\<close>

text \<open>C12. Progress survives a restart. Take the database of any earlier lives, a run of the service in which the node and the
  clients do anything and which ends in any way, and the program started again with the same wallets. However the run ended, every
  wallet has exactly the height and the two next indexes that its row of the table \<open>wallet\<close> had when the process was gone, and
  that height is one it had really reached, so no block is skipped. And if the run ended between two rounds, or inside a round
  because it lost its connection or was killed, when the database is that of its last commit, this is exactly the progress the
  process had made at that commit, heights and indexes: nothing that was committed is lost or scanned twice. (A block that fails by
  itself is rolled back in the database, and scanned again.)\<close>

theorem restart_resumes:
  assumes "lives C n d" "distinct (map config_hash wcs)" "New C d wcs n = Inr w0" "started magic now inp c0" "node_reach c0 c"
    and "ends C (peer c cancelled) w0 (p, w)" "New C (db w) wcs n = Inr w'"
  shows "map wl_hash (wallets w') = map wl_hash (wallets w)
    \<and> list_all2 (\<lambda>x y. stored (wallet_tbl (db w)) (wl_hash y) = Some (progress_of x) \<and> wl_height x \<le> wl_height y) (wallets w') (wallets w)
    \<and> (at_commit C (peer c cancelled) w0 w \<longrightarrow> map progress_of (wallets w') = map progress_of (wallets w))"
proof -
  have N: "wf_node (peer c cancelled)" using node_reach_inv [OF assms(5,4)] by (intro peer_wf) blast
  have c0: "chain_inv w0" by (rule New_chain [OF assms(3) lives_linked [OF assms(1)]])
  note a = New_loads [OF assms(3,2)] and b = New_loads [OF assms(7,2)]
  have s: "map wl_hash (wallets w) = map config_hash wcs" "rows_behind w"
    using ends_rows [OF N c0 a(3) assms(6)] by (auto simp: a(1))
  have len: "length (wallets w) = length wcs" "length (wallets w') = length wcs"
    using arg_cong [OF s(1), of length] arg_cong [OF b(1), of length] by simp_all
  have nth: "wl_hash (wallets w ! i) = config_hash (wcs ! i)" "progress_of (wallets w' ! i) = start_progress (wallet_tbl (db w)) (wcs ! i)"
    if "i < length wcs" for i
    using arg_cong [OF s(1), of "\<lambda>xs. xs ! i"] arg_cong [OF b(2), of "\<lambda>xs. xs ! i"] that len by simp_all
  have row: "stored (wallet_tbl (db w)) (wl_hash (wallets w ! i)) = Some (progress_of (wallets w' ! i))
      \<and> wl_height (wallets w' ! i) \<le> wl_height (wallets w ! i)" if "i < length wcs" for i
    using s(2) nth [OF that] that len
    by (fastforce simp: rows_behind_def all_set_conv_all_nth start_progress_def progress_of_def)
  moreover have "progress_of (wallets w' ! i) = progress_of (wallets w ! i)"
    if "i < length wcs" "at_commit C (peer c cancelled) w0 w" for i
  proof -
    have "rows_match w" by (rule at_commit_rows [OF N c0 a(3) that(2)])
    then have "stored (wallet_tbl (db w)) (wl_hash (wallets w ! i)) = Some (progress_of (wallets w ! i))"
      using that(1) len by (simp add: rows_match_def)
    with row [OF that(1)] show ?thesis by simp
  qed
  ultimately show ?thesis using len s(1) b(1) by (auto simp: list_all2_conv_all_nth intro!: nth_equalityI)
qed

text \<open>Two endings of a first life with one header on offer: served after a complete round, and killed when the header is stored and
  the peer is asked for more.\<close>

theorem restart_resumes_witness:
  "\<exists>w0 w w' v v'. New xor_crypto empty_database [sample_config] Regtest = Inr w0
     \<and> service_reach xor_crypto (peer sample_done (\<lambda>n. n = 1)) w0 [Round] (Serving, w)
     \<and> length (blockheader_tbl (db w)) = 1 \<and> New xor_crypto (db w) [sample_config] Regtest = Inr w'
     \<and> map progress_of (wallets w') = map progress_of (wallets w)
     \<and> syncRound xor_crypto (cut (peer sample_done (\<lambda>n. False)) 0 1) 2 w0 = Some (Inl ErrEOF, v)
     \<and> length (blockheader_tbl (db v)) = 1 \<and> New xor_crypto (db v) [sample_config] Regtest = Inr v'
     \<and> map progress_of (wallets v') = map progress_of (wallets v)"
proof -
  obtain w0 where w0: "New xor_crypto empty_database [sample_config] Regtest = Inr w0"
      "db w0 = empty_database\<lparr>wallet_tbl := [sample_wallet_row]\<rparr>" "net w0 = Regtest" "calls w0 = 0"
      "wallets w0 = [setDerived changeAccount gap (setDerived receiveAccount gap sample_wallet)]"
    using sample_New_on [of empty_database Regtest] by (auto simp: empty_database_def)
  have e: "blockheader_tbl (db w0) = []" by (simp add: w0(2) empty_database_def)
  have new: "\<exists>w'. New xor_crypto (db w) [sample_config] Regtest = Inr w'" if "(db w)\<lparr>blockheader_tbl := []\<rparr> = db w0" for w :: W
  proof -
    have "unspent_tbl (db w) = []" "wallet_tbl (db w) = [sample_wallet_row]"
      using arg_cong [OF that, of unspent_tbl] arg_cong [OF that, of wallet_tbl] w0(2) by (simp_all add: empty_database_def)
    then show ?thesis using sample_New_on [of "db w" Regtest] by auto
  qed
  have d: "distinct (map config_hash [sample_config])" by simp
  note resumes = restart_resumes [OF lives.fresh d w0(1) sample_started [OF one_header_length] sample_done]
  have "\<forall>x\<in>set (wallets w0). 1 \<le> wl_height x"
    by (simp add: w0(5) setDerived_def) (simp add: sample_wallet_def configured_def)
  from sample_round_on [OF e w0(3,4) this] obtain w where w:
      "service_reach xor_crypto (peer sample_done (\<lambda>n. n = 1)) w0 [Round] (Serving, w)" "length (blockheader_tbl (db w)) = 1"
      "(db w)\<lparr>blockheader_tbl := []\<rparr> = db w0" by auto
  obtain w' where w': "New xor_crypto (db w) [sample_config] Regtest = Inr w'" using new [OF w(3)] by blast
  have "at_commit xor_crypto (peer sample_done (\<lambda>n. n = 1)) w0 w" unfolding at_commit_def using w(1) by blast
  with resumes [OF between [OF w(1)] w'] have served: "map progress_of (wallets w') = map progress_of (wallets w)" by blast
  obtain v where v: "syncRound xor_crypto (cut (peer sample_done (\<lambda>n. False)) 0 1) 2 w0 = Some (Inl ErrEOF, v)"
      "length (blockheader_tbl (db v)) = 1" "(db v)\<lparr>blockheader_tbl := []\<rparr> = db w0"
    using sample_killed [OF e w0(3,4)] by blast
  obtain v' where v': "New xor_crypto (db v) [sample_config] Regtest = Inr v'" using new [OF v(3)] by blast
  have "between_commits (Inl ErrEOF :: unit result)" by simp
  with v(1) have "at_commit xor_crypto (peer sample_done (\<lambda>n. False)) w0 v"
    unfolding at_commit_def using service_reach.start by blast
  moreover have "ends xor_crypto (peer sample_done (\<lambda>n. False)) w0 (Crashed, v)"
    by (rule killed [OF service_reach.start _ v(1)]) simp
  ultimately have "map progress_of (wallets v') = map progress_of (wallets v)" using resumes [OF _ v'] by blast
  with w0(1) w(1,2) w' served v(1,2) v' show ?thesis by blast
qed

end
