(* ===== verification/SyncLedger.thy ===== *)
theory SyncLedger
  imports Persistence
begin

text \<open>
  What the synchronisation of a whole chain needs beside single blocks: a node that is honest about blocks (\<open>honest\<close>: \<open>GetBlock\<close> answers
  with the block of the hash, which the code does not compare, and blocks are covered by one map of outputs), the height from which
  the wallets are scanned (\<open>scanned\<close>) through pages and headers, what a set of blocks owns (\<open>owned\<close>), and that \<open>New\<close> on an empty
  database is a state to start from. \<open>Layers\<close> puts them together.
\<close>

section \<open>Honest nodes\<close>

definition honest :: "utxos \<Rightarrow> node \<Rightarrow> bool" where
  "honest V N \<longleftrightarrow> (\<forall>n h b. nd_block N n h = Inr b \<longrightarrow> Block_Hash b = h \<and> distinct (TXIDs b) \<and> block_outputs V b)"

definition txs_of :: "Block list \<Rightarrow> Transaction list" where
  "txs_of bs = concat (map b_Transactions bs)"

lemma ledger_txs_append:
  "ledger_txs T T' xs m m1 \<Longrightarrow> ledger_txs T T' ys m1 m2 \<Longrightarrow> ledger_txs T T' (xs @ ys) m m2"
  by (induction rule: ledger_txs.induct) (auto intro: ledger_txs.intros)

section \<open>The height a synchronisation starts from\<close>

definition scanned :: "'z W_scheme \<Rightarrow> int" where
  "scanned s = (case map wl_height (wallets s) of [] \<Rightarrow> 0 | h # hs \<Rightarrow> foldl min h (h # hs))"

lemma foldl_min_max: "foldl min (max b a) (map (max b) xs) = max b (foldl min a xs)" for a b :: int
proof (induction xs arbitrary: a)
  case (Cons x xs)
  have "min (max b a) (max b x) = max b (min a x)" by (simp add: min_def max_def)
  with Cons show ?case by simp
qed simp

lemma scanned_raise:
  "map wl_height (wallets s') = map (\<lambda>w. max b (wl_height w)) (wallets s) \<Longrightarrow> wallets s \<noteq> [] \<Longrightarrow> scanned s' = max b (scanned s)"
  using foldl_min_max [of b "wl_height (hd (wallets s))" "map wl_height (wallets s)"]
  by (cases "wallets s"; cases "wallets s'") (auto simp: scanned_def comp_def)

lemma scanned_cong: "wallets s' = wallets s \<Longrightarrow> scanned s' = scanned s"
  by (simp add: scanned_def)

lemma scanned_foldl: "wallets s = w # ws \<Longrightarrow> foldl (\<lambda>h w. min h (wl_height w)) (wl_height w) (wallets s) = scanned s"
  by (simp add: scanned_def foldl_map)

lemma syncBlocks_max:
  "syncBlocks C N hs ht s = (Inr ht', s') \<Longrightarrow> hs \<noteq> [] \<Longrightarrow>
   map wl_height (wallets s') = map (\<lambda>w. max (ht' - 1) (wl_height w)) (wallets s)"
proof (induction hs arbitrary: ht s)
  case (Cons h hs)
  from Cons.prems(1) obtain b s1 s2 where r: "GetBlock N h s = (Inr b, s1)"
      "processBlock C b ht s1 = (Inr (), s2)" "syncBlocks C N hs (ht + 1) s2 = (Inr ht', s')"
    by (auto simp: ebind_ok_iff sqlExecute_ok)
  have w: "wallets s1 = wallets s" using r(1) by (auto simp: GetBlock_def)
  have m: "map wl_height (wallets s2) = map (\<lambda>w. max ht (wl_height w)) (wallets s)" using processBlock_heights(2) [OF r(2)] w by simp
  show ?case
  proof (cases "hs = []")
    case True
    with r(3) m show ?thesis by auto
  next
    case False
    have "ht < ht'" using syncBlocks_count [OF r(3)] by simp
    have "map wl_height (wallets s') = map (max (ht' - 1)) (map wl_height (wallets s2))"
      using Cons.IH [OF r(3) False] by (simp add: comp_def)
    also have "\<dots> = map (\<lambda>w. max (ht' - 1) (wl_height w)) (wallets s)" using m \<open>ht < ht'\<close> by (simp add: max_def)
    finally show ?thesis .
  qed
qed simp

lemma syncWallets_loop_max:
  "chain_inv s \<Longrightarrow> at_tip s \<Longrightarrow> 1 \<le> ht \<Longrightarrow> ht \<le> bestHeader s \<Longrightarrow> syncWallets_loop C N fuel ht s = Some (Inr (), s') \<Longrightarrow>
   map wl_height (wallets s') = map (\<lambda>w. max (bestHeader s) (wl_height w)) (wallets s)"
proof (induction fuel arbitrary: ht s)
  case (Suc fuel)
  from page_progress [OF Suc.prems(1-4)] obtain bh bhs where p: "selectBlockHashesAtHeight s ht 2000 = Inr (bh # bhs)" by blast
  with Suc.prems(4,5) obtain ht' s1 where b: "syncBlocks C N (bh # bhs) ht s = (Inr ht', s1)" "syncWallets_loop C N fuel ht' s1 = Some (Inr (), s')"
    by (cases "syncBlocks C N (bh # bhs) ht s"; cases "fst (syncBlocks C N (bh # bhs) ht s)") auto
  have f: "chain_frame s s1" using syncBlocks_chain_frame [of s C N "bh # bhs" ht] b(1) by simp
  have m: "map wl_height (wallets s1) = map (\<lambda>w. max (ht' - 1) (wl_height w)) (wallets s)" by (rule syncBlocks_max [OF b(1)]) simp
  have ht': "ht' = ht + int (length (bh # bhs))" by (rule syncBlocks_count [OF b(1)])
  have "length (bh # bhs) \<le> length (blockheader_tbl (db s)) - nat (ht - 1)"
    using blockHashes_chain [OF Suc.prems(1), of ht 2000] p Suc.prems(2-4) by (auto simp: at_tip_def sql_limit_def dest: arg_cong [where f = length])
  then have le: "ht' \<le> bestHeader s + 1" using ht' Suc.prems(2-4) by (simp add: at_tip_def)
  have best: "bestHeader s1 = bestHeader s" using f by (simp add: chain_frame_def)
  show ?case
  proof (cases "ht' \<le> bestHeader s")
    case True
    from Suc.IH [OF chain_frame_inv(1) [OF f Suc.prems(1)] chain_frame_inv(2) [OF f Suc.prems(2)] _ _ b(2)] ht' Suc.prems(3) True best
    have "map wl_height (wallets s') = map (max (bestHeader s)) (map wl_height (wallets s1))" by (simp add: comp_def)
    also have "\<dots> = map (\<lambda>w. max (bestHeader s) (wl_height w)) (wallets s)" using m True by (simp add: max_def)
    finally show ?thesis .
  next
    case False
    with b(2) best have "s' = s1" by (cases fuel) auto
    moreover have "ht' - 1 = bestHeader s" using False le by simp
    ultimately show ?thesis using m by simp
  qed
qed simp

section \<open>Headers\<close>

definition hash_keys :: "'z W_scheme \<Rightarrow> bool" where
  "hash_keys s \<longleftrightarrow> distinct (map bh_Hash (blockheader_tbl (db s)))"

lemma insertBlockHeader_keys: "insertBlockHeader h ht b s = (r, s') \<Longrightarrow> hash_keys s \<Longrightarrow> hash_keys s'"
  by (auto simp: insertBlockHeader_def hash_keys_def split: if_splits)

lemma addHeaders_keys: "addHeaders N hdrs s = (r, s') \<Longrightarrow> hash_keys s \<Longrightarrow> hash_keys s'"
proof (induction hdrs arbitrary: s)
  case (Cons h hdrs)
  show ?case
  proof (cases "h_PreviousBlock h = bestHeaderHash s")
    case False
    obtain q s1 where c: "checkReorg N s = (q, s1)" by force
    have "db s1 = db s" using checkReorg_frame [OF c] by auto
    with Cons.prems c False show ?thesis by (cases q) (auto simp: hash_keys_def)
  next
    case True
    define s1 where "s1 = notifyHeaderSubscribers (bestHeader s + 1) (Header_Serialize h) s"
    have k1: "hash_keys s1" "bestHeader s1 = bestHeader s" using Cons.prems(2) by (simp_all add: s1_def notifyHeaderSubscribers_def hash_keys_def)
    obtain q s2 where i: "insertBlockHeader (Header_Hash h) (bestHeader s1 + 1) (Header_Serialize h) s1 = (q, s2)" by force
    have k2: "hash_keys s2" by (rule insertBlockHeader_keys [OF i k1(1)])
    have step: "addHeaders N (h # hdrs) s = ebind (q, s2) (\<lambda>_ s. addHeaders N hdrs
        (s\<lparr>bestHeader := bestHeader s + 1, bestHeaderHash := Header_Hash h\<rparr>))"
      using True by (simp add: Let_def flip: s1_def i)
    show ?thesis
    proof (cases q)
      case (Inl e)
      with Cons.prems(1) k2 show ?thesis by (simp add: step del: addHeaders.simps)
    next
      case (Inr u)
      with Cons.prems(1) have "addHeaders N hdrs (s2\<lparr>bestHeader := bestHeader s2 + 1, bestHeaderHash := Header_Hash h\<rparr>) = (r, s')"
        by (simp add: step del: addHeaders.simps)
      from Cons.IH [OF this] k2 show ?thesis by (simp add: hash_keys_def)
    qed
  qed
qed simp

lemma syncHeaders_loop_keys: "syncHeaders_loop N fuel s = Some (r, s') \<Longrightarrow> hash_keys s \<Longrightarrow> hash_keys s'"
proof (induction fuel arbitrary: s)
  case (Suc fuel)
  obtain q s1 where g: "GetHeaders N [bestHeaderHash s] s = (q, s1)" by force
  have k1: "hash_keys s1" using g Suc.prems(2) by (auto simp: GetHeaders_def hash_keys_def)
  show ?case
  proof (cases q)
    case (Inl e)
    with Suc.prems g k1 show ?thesis by (auto split: if_splits)
  next
    case (Inr hdrs)
    obtain q2 s2 where a: "addHeaders N hdrs s1 = (q2, s2)" by force
    have k2: "hash_keys s2" by (rule addHeaders_keys [OF a k1])
    with Suc g Inr a k1 show ?thesis by (cases q2) (auto split: if_splits)
  qed
qed simp

lemma syncHeaders_keys: "syncHeaders N fuel s = Some (r, s') \<Longrightarrow> hash_keys s \<Longrightarrow> hash_keys s'"
  by (auto simp: syncHeaders_def hash_keys_def split: sum.splits dest!: syncHeaders_loop_keys)

lemma linked_widths: "linked h i bs \<Longrightarrow> list_all (\<lambda>r. length (bh_Hash r) = 32 \<and> length (bh_Serialized r) = 80) bs"
  by (induction bs arbitrary: h i) auto

lemma hdr_step_wm:
  assumes "hdr_step s s'" "hash_keys s'" "wm_inv C V s"
  shows "wm_inv C V s'"
proof -
  have f: "hdr_frame s s'" "chain_inv s'" using assms(1) by (simp_all add: hdr_step_def)
  obtain rows where rows: "blockheader_tbl (db s') = blockheader_tbl (db s) @ rows" using assms(1) by (auto simp: hdr_step_def)
  note t = hdr_frame_tables [OF f(1)]
  have db: "db_inv (db s)" using assms(3) by (simp add: wm_inv_def)
  have "list_all (\<lambda>r. length (bh_Hash r) = 32 \<and> length (bh_Serialized r) = 80) (blockheader_tbl (db s'))"
    using f(2) linked_widths by (auto simp: chain_inv_def)
  moreover have "list_all (\<lambda>t. td_BlockHash t \<in> bh_Hash ` set (blockheader_tbl (db s'))) (tx_tbl (db s))"
    using db rows by (auto simp: db_inv_def ref_inv_def list_all_iff)
  ultimately have "db_inv (db s')"
    using db assms(2) by (simp add: db_inv_def pk_inv_def width_inv_def ref_inv_def t hash_keys_def)
  moreover have e: "utxoIndex s' = utxoIndex s" "wallets s' = wallets s" "scriptPubkeys s' = scriptPubkeys s"
    using f(1) by (simp_all add: hdr_frame_def)
  moreover have "unspent_map s' = unspent_map s" by (simp add: unspent_map_def t(2))
  moreover have "spk_inv C s' = spk_inv C s" by (rule spk_inv_cong [OF e(2,3)])
  ultimately show ?thesis using assms(3) by (simp add: wm_inv_def cache_inv_def)
qed

text \<open>Clients leave all of it alone.\<close>

lemma client_tip_frame: "service_step C N l (p, s) (p', s') \<Longrightarrow> l \<noteq> Round \<Longrightarrow> p' = Serving \<Longrightarrow> p = Serving \<and> tip_frame s s' \<and> scriptPubkeys s' = scriptPubkeys s \<and> utxoIndex s' = utxoIndex s"
  by (erule service_step.cases) (auto simp: subs_tip_frame, simp_all add: HeadersSubscribe_def ScriptHashSubscribe_def UnsubscribeAll_def tip_frame_def)


section \<open>What is owned\<close>

text \<open>Created by a transaction, not spent by any, and paying a script of the wallets.\<close>

definition owned :: "hash32 set \<Rightarrow> Transaction list \<Rightarrow> txidVout \<Rightarrow> Output \<Rightarrow> bool" where
  "owned T txs k out \<longleftrightarrow> created txs k out \<and> \<not> spent txs k \<and> scriptHash out \<in> T"

lemma created_in: "created (txs_of bs) k out \<longleftrightarrow> (\<exists>b\<in>set bs. created (b_Transactions b) k out)"
  by (auto simp: created_def txs_of_def)

lemma ledger_owned:
  assumes "ledger_txs T T' (txs_of bs) Map.empty m" "\<forall>b\<in>set bs. block_outputs V b" "m \<subseteq>\<^sub>m V" "in_order (txs_of bs)"
  shows "(m k = Some v \<longrightarrow> (\<exists>out. v = outputValue out \<and> owned T' (txs_of bs) k out))
    \<and> (owned T (txs_of bs) k out \<longrightarrow> m k = Some (outputValue out))"
proof (intro conjI impI)
  have V: "V k = Some (outputValue out)" if "created (txs_of bs) k out" for out
    using that created_value assms(2) by (auto simp: created_in)
  show "\<exists>out. v = outputValue out \<and> owned T' (txs_of bs) k out" if m: "m k = Some v"
  proof -
    have n: "\<not> spent (txs_of bs) k" using ledger_txs_spent [OF assms(1,4), of k] m by auto
    with ledger_txs_frame [OF assms(1), of k] m obtain out where o: "created (txs_of bs) k out" "scriptHash out \<in> T'" by force
    moreover have "v = outputValue out" using assms(3) m V [OF o(1)] by (force simp: map_le_def)
    ultimately show ?thesis using n by (auto simp: owned_def)
  qed
  show "m k = Some (outputValue out)" if "owned T (txs_of bs) k out"
  proof (rule ledger_txs_credits [OF assms(1)])
    show "\<forall>o'. created (txs_of bs) k o' \<longrightarrow> outputValue o' = outputValue out"
      using V that by (metis option.inject owned_def)
  qed (use that in \<open>auto simp: owned_def\<close>)
qed

section \<open>A fresh start\<close>

definition unused :: "'z W_scheme \<Rightarrow> bool" where
  "unused s \<longleftrightarrow> (db s)\<lparr>wallet_tbl := []\<rparr> = empty_database \<and> distinct (map wd_Hash (wallet_tbl (db s))) \<and> utxoIndex s = []"

lemma setupWallet_unused: "setupWallet C i wc s = (Inr (), s') \<Longrightarrow> unused s \<Longrightarrow> unused s'"
proof -
  assume a: "setupWallet C i wc s = (Inr (), s')" "unused s"
  obtain wd s1 r where w: "walletRow (config_hash wc) wc s = (Inr wd, s1)"
      and r: "refillWallet C i (updWallet i (\<lambda>_. configured wc (config_hash wc) wd) s1) = (r, s')"
    using setupWallet_okE [OF a(1), folded config_hash_def] by metis
  have "unused s1"
    using w a(2) by (auto simp: unused_def walletRow_def insertWalletData_def Let_def split: sum.splits if_splits)
  moreover have "db s' = db s1" "utxoIndex s' = utxoIndex s1" using refillWallet_frame [OF r] by (simp_all add: refill_frame_def)
  ultimately show ?thesis by (simp add: unused_def)
qed

lemma setupWallets_unused: "setupWallets C i wcs s = (Inr (), s') \<Longrightarrow> unused s \<Longrightarrow> unused s'"
proof (induction wcs arbitrary: i s)
  case (Cons wc wcs)
  then obtain s1 where "setupWallet C i wc s = (Inr (), s1)" "setupWallets C (i + 1) wcs s1 = (Inr (), s')"
    by (auto simp: ebind_ok_iff)
  with Cons.IH setupWallet_unused Cons.prems(2) show ?case by blast
qed simp

lemma unused_empty:
  assumes "unused s"
  shows "blockheader_tbl (db s) = []" "unspent_tbl (db s) = []" "tx_tbl (db s) = []" "stx_tbl (db s) = []" "spent_tbl (db s) = []"
proof -
  have "f ((db s)\<lparr>wallet_tbl := []\<rparr>) = f empty_database" for f :: "database \<Rightarrow> 'x"
    using assms by (simp add: unused_def)
  from this [of blockheader_tbl] this [of unspent_tbl] this [of tx_tbl] this [of stx_tbl] this [of spent_tbl]
  show "blockheader_tbl (db s) = []" "unspent_tbl (db s) = []" "tx_tbl (db s) = []" "stx_tbl (db s) = []" "spent_tbl (db s) = []"
    by (simp_all add: empty_database_def)
qed

lemma unused_inv:
  assumes "unused s" "spk_inv C s"
  shows "wm_inv C V s" "chain_inv s" "unspent_map s = Map.empty"
proof -
  note e = unused_empty [OF assms(1)]
  show "chain_inv s" by (simp add: chain_inv_def e)
  show um: "unspent_map s = Map.empty" by (simp add: unspent_map_def utxo_map_def e)
  show "wm_inv C V s"
    using assms um by (simp add: wm_inv_def db_inv_def pk_inv_def width_inv_def ref_inv_def cache_inv_def e) (simp add: unused_def)
qed

text \<open>A wallet manager on an empty database is where a synchronisation starts from.\<close>

lemma New_fresh:
  assumes "New C empty_database wcs n = Inr w"
  shows "unused w" "spk_inv C w"
proof -
  obtain st where st: "newRepository empty_database = (Inr (), st)"
    using assms by (cases "newRepository empty_database"; cases "fst (newRepository empty_database)") (auto simp: New_def)
  let ?s0 = "\<lparr>db = db st, utxoIndex = utxoIndex st, net = n, bestHeader = 0, bestHeaderHash = replicate 32 0,
     wallets = replicate (length wcs) zero_wallet, scriptPubkeys = Map.empty, shSubs = [], hSubs = [], sent = [], calls = 0\<rparr>"
  have "setupWallets C 0 wcs ?s0 = (Inr (), w)" using assms st by (auto simp: New_def dest!: fst_ebind_ok)
  moreover have "unused ?s0"
    using st by (auto simp: unused_def newRepository_def loadUtxoIndex_def selectAllUtxos_def index_rows_def empty_database_def)
  ultimately show "unused w" by (rule setupWallets_unused)
  show "spk_inv C w" by (rule New_spk_inv [OF assms])
qed

section \<open>A sample synchronisation\<close>

definition pay_block :: "bytes \<Rightarrow> Block" where
  "pay_block p = (sample_pay_block p)\<lparr>b_PreviousBlock := genesis\<rparr>"

definition pay_header :: "bytes \<Rightarrow> Header" where
  "pay_header p = \<lparr>h_BlockVersion = 1, h_PreviousBlock = genesis, h_MerkleRoot = Txid (sample_pay_tx p), h_Timestamp = 3,
     h_NBits = 4, h_Nonce = 5\<rparr>"

definition pay_node :: "bytes \<Rightarrow> node" where
  "pay_node p = \<lparr>nd_headers = (\<lambda>n hs. Inr (if n = 0 then [pay_header p] else [])),
     nd_block = (\<lambda>n h. if h = Block_Hash (pay_block p) then Inr (pay_block p) else Inl ErrEOF), nd_cancelled = (\<lambda>n. False)\<rparr>"

lemma Txid_length: "length (Txid tx) = 32"
  by (simp add: Txid_def)

lemma pay_facts:
  "Header_Hash (pay_header p) = Block_Hash (pay_block p)" "wf_Header (pay_header p)"
  "b_Transactions (pay_block p) = b_Transactions (sample_pay_block p)"
  using genesis_length [of Regtest]
  by (simp_all add: Header_Hash_def Block_Hash_def Header_bytes80_def Block_bytes80_def pay_header_def pay_block_def
      sample_pay_block_def sample_block_def wf_Header_def Txid_length del: genesisBlockData.simps)

lemma pay_node_ok: "wf_node (pay_node p)" "honest (sample_V p) (pay_node p)"
  using sample_block_facts(1,2) [of p]
  by (auto simp: wf_node_def pay_node_def pay_facts honest_def TXIDs_def block_outputs_def)

end
