(* ===== verification/Layers.thy ===== *)
theory Layers
  imports SyncLedger
begin

text \<open>
  The database as a pile of layers: for every height of the stored chain there is the database that processing the blocks up to this
  height has made, each extends the ones below it, and the present database extends them all. Processing a block puts a layer on
  the pile, and a reorganisation takes the layers above its height away. So, whatever the node answers and however often the
  chain is reorganised, the unspent outputs that clients are served are those of the blocks of the present chain.
\<close>

section \<open>What a block adds\<close>

definition adds :: "hash32 \<Rightarrow> int \<Rightarrow> 'z W_scheme \<Rightarrow> 'z W_scheme \<Rightarrow> bool" where
  "adds bh ht s s' \<longleftrightarrow> (\<forall>t\<in>set (tx_tbl (db s')). t \<in> set (tx_tbl (db s)) \<or> td_BlockHash t = bh)
     \<and> (\<forall>x\<in>set (spent_tbl (db s')). x \<in> set (spent_tbl (db s)) \<or> sp_Height x = ht)"

lemma adds_refl [simp]: "adds bh ht s s"
  by (simp add: adds_def)

lemma adds_trans: "adds bh ht s t \<Longrightarrow> adds bh ht t u \<Longrightarrow> adds bh ht s u"
  by (auto simp: adds_def)

lemma adds_same: "tx_tbl (db s') = tx_tbl (db s) \<Longrightarrow> spent_tbl (db s') = spent_tbl (db s) \<Longrightarrow> adds bh ht s s'"
  by (simp add: adds_def)

lemma ebind_adds:
  assumes "adds bh ht s (snd r)" "\<And>a t. r = (Inr a, t) \<Longrightarrow> adds bh ht t (snd (f a t))"
  shows "adds bh ht s (snd (ebind r f))"
  using assms by (auto split: ebind_split intro: adds_trans)

lemma ereads_adds: "(\<And>a. adds bh ht s (snd (f a s))) \<Longrightarrow> adds bh ht s (snd (ebind (ereads r s) f))"
  by (cases r) (simp_all add: ereads_def)

lemma recordTx_adds: "adds (Block_Hash block) ht s (snd (recordTx block tx pos sh s))"
  unfolding recordTx_def
  by (rule ereads_adds) (auto simp: insertTransaction_def insertScriptPubkeyTransaction_def adds_def split: prod.splits if_splits)

lemma deleteUnspent_adds: "adds bh ht s (snd (deleteUnspentOutput k ht s))"
  by (auto simp: deleteUnspentOutput_def Let_def adds_def spend_row_def)

lemma insertUnspent_adds: "adds bh ht s (snd (insertUnspentOutput k v sh s))"
  by (rule adds_same) (simp_all add: insertUnspentOutput_def Let_def)

lemma walletUpdateIndexes_adds: "adds bh ht s (snd (walletUpdateIndexes info s))"
  unfolding walletUpdateIndexes_def
  by (rule ereads_adds) (auto simp: updateWalletIndexes_def updWallet_def adds_def)

lemma refillWallet_adds: "adds bh ht s (snd (refillWallet C i s))"
  using refillWallet_frame [of C i s] by (cases "refillWallet C i s") (simp add: adds_same refill_frame_def)

lemma processOutput_adds: "adds (Block_Hash block) ht s (snd (processOutput C block ht' tx pos out v upd s))"
  unfolding processOutput_def Let_def
  by (auto split: option.split intro!: ebind_adds recordTx_adds insertUnspent_adds walletUpdateIndexes_adds refillWallet_adds)

lemma processInput_adds: "adds (Block_Hash block) ht s (snd (processInput block ht tx pos inp upd s))"
  unfolding processInput_def Let_def
  by (auto split: sum.split intro!: ebind_adds recordTx_adds deleteUnspent_adds)

lemma processOutputs_adds: "adds (Block_Hash block) ht s (snd (processOutputs C block ht tx pos j outs upd s))"
  by (induction outs arbitrary: j upd s) (auto intro!: ebind_adds processOutput_adds)

lemma processInputs_adds: "adds (Block_Hash block) ht s (snd (processInputs block ht tx pos inps upd s))"
  by (induction inps arbitrary: upd s) (auto intro!: ebind_adds processInput_adds)

lemma processTxs_adds: "adds (Block_Hash block) ht s (snd (processTxs C block ht i txs upd s))"
  by (induction txs arbitrary: i upd s) (auto intro!: ebind_adds processOutputs_adds processInputs_adds)

lemma updateHeights_adds: "adds bh k s (snd (updateHeights ht is s))"
proof (induction "is" arbitrary: s)
  case (Cons i "is")
  have "adds bh k s (updWallet (int i) (\<lambda>w. w\<lparr>wl_height := ht\<rparr>) (snd (updateWalletHeight (wl_hash (wallets s ! i)) ht s)))"
    by (rule adds_same) (simp_all add: updateWalletHeight_def updWallet_def)
  with Cons show ?case by (auto simp: updateWalletHeight_def intro: adds_trans)
qed simp

lemma processBlock_adds: "processBlock C block ht s = (Inr (), s') \<Longrightarrow> adds (Block_Hash block) ht s s'"
proof -
  assume "processBlock C block ht s = (Inr (), s')"
  then obtain upd s1 s2 where r: "processTxs C block ht 0 (b_Transactions block) [] s = (Inr upd, s1)"
      "updateHeights ht [0..<length (wallets s1)] s1 = (Inr (), s2)" "notifyUpdated upd s2 = (Inr (), s')"
    by (auto simp: processBlock_def ebind_ok_iff)
  have "adds (Block_Hash block) ht s s1" using processTxs_adds [of block ht s C 0 "b_Transactions block" "[]"] r(1) by simp
  moreover have "adds (Block_Hash block) ht s1 s2" using updateHeights_adds [of "Block_Hash block" ht s1 ht "[0..<length (wallets s1)]"] r(2) by simp
  moreover have "adds (Block_Hash block) ht s2 s'" using notifyUpdated_steps [OF r(3)] by (simp add: adds_same)
  ultimately show ?thesis by (blast intro: adds_trans)
qed

section \<open>Cutting the chain\<close>

text \<open>The database without the headers above a height.\<close>

definition cutoff :: "int \<Rightarrow> database \<Rightarrow> database" where
  "cutoff r d = d\<lparr>blockheader_tbl := take (nat r) (blockheader_tbl d)\<rparr>"

lemma numbered_take_heights: "numbered bs \<Longrightarrow> b \<in> set (take (nat r) bs) \<Longrightarrow> bh_Height b \<le> r"
  using numbered_nth [of bs] by (fastforce simp: in_set_conv_nth)

lemma numbered_drop_heights: "numbered bs \<Longrightarrow> b \<in> set (drop (nat r) bs) \<Longrightarrow> r < bh_Height b"
  using numbered_nth [of bs] by (fastforce simp: in_set_conv_nth)

lemma extends_cutoff:
  assumes "numbered (blockheader_tbl d)" "r \<le> q"
  shows "extends r (cutoff r d) (cutoff q d)"
proof -
  let ?t = "blockheader_tbl d"
  have "take (nat q) ?t = take (nat r) ?t @ drop (nat r) (take (nat q) ?t)"
    using append_take_drop_id [of "nat r" "take (nat q) ?t"] assms(2) by (simp add: min_def nat_mono)
  moreover have "set (drop (nat r) (take (nat q) ?t)) \<subseteq> set (drop (nat r) ?t)" by (auto simp: drop_take dest: in_set_takeD)
  then have "\<forall>b\<in>set (drop (nat r) (take (nat q) ?t)). r < bh_Height b" using numbered_drop_heights [OF assms(1)] by blast
  ultimately have "extends_by r (cutoff r d) (cutoff q d) (drop (nat r) (take (nat q) ?t)) [] [] []"
    by (simp add: extends_by_def cutoff_def)
  then show ?thesis by (auto simp: extends_def)
qed

lemma extends_cutoff_self: "numbered (blockheader_tbl d) \<Longrightarrow> extends r (cutoff r d) d"
  using extends_cutoff [of d r "max r (int (length (blockheader_tbl d)))"] by (simp add: cutoff_def)

text \<open>A chain cut above what the transactions name still extends the layers below.\<close>

lemma extends_below:
  assumes x: "extends r d0 d" and h: "blockheader_tbl d0 = take (nat r) (blockheader_tbl d)" "distinct (map bh_Hash (blockheader_tbl d))"
    and t: "\<forall>t\<in>set (tx_tbl d). td_BlockHash t \<in> bh_Hash ` set (take (nat q) (blockheader_tbl d))" and q: "r \<le> q"
  shows "extends r d0 (cutoff q d)"
proof -
  let ?t = "blockheader_tbl d"
  obtain hs ts ps sp where e: "extends_by r d0 d hs ts ps sp" using x by (auto simp: extends_def)
  then have hs: "?t = take (nat r) ?t @ hs" by (simp add: extends_by_def h(1))
  then have hd: "hs = drop (nat r) ?t" by (metis append_take_drop_id same_append_eq)
  let ?hs = "drop (nat r) (take (nat q) ?t)"
  have sub: "set ?hs \<subseteq> set hs" by (auto simp: hd drop_take dest: in_set_takeD)
  have "td_BlockHash x \<in> bh_Hash ` set ?hs" if "x \<in> set ts" for x
  proof -
    have "x \<in> set (tx_tbl d)" "td_BlockHash x \<in> bh_Hash ` set hs" using e that by (auto simp: extends_by_def)
    then have m: "td_BlockHash x \<in> bh_Hash ` set (take (nat q) ?t)" "td_BlockHash x \<in> bh_Hash ` set hs" using t by blast+
    obtain i where i: "i < length ?t" "i < nat q" "bh_Hash (?t ! i) = td_BlockHash x"
      using m(1) by (fastforce simp: in_set_conv_nth)
    obtain j where j: "j < length hs" "bh_Hash (hs ! j) = td_BlockHash x" using m(2) by (fastforce simp: in_set_conv_nth)
    have j': "nat r + j < length ?t" "hs ! j = ?t ! (nat r + j)" using j(1) by (simp_all add: hd)
    have "i = nat r + j" using nth_eq_iff_index_eq [OF h(2), of i "nat r + j"] i j j' by simp
    then have "?t ! i \<in> set ?hs" using i j' by (auto simp: in_set_conv_nth intro!: exI [of _ j])
    with i(3) show ?thesis by (metis imageI)
  qed
  moreover have "take (nat q) ?t = take (nat r) ?t @ ?hs"
    using append_take_drop_id [of "nat r" "take (nat q) ?t"] q by (simp add: min_def nat_mono)
  ultimately have "extends_by r d0 (cutoff q d) ?hs ts ps sp" using e sub by (auto simp: extends_by_def cutoff_def h(1))
  then show ?thesis by (auto simp: extends_def)
qed

text \<open>Headers that are appended, and another order of the unspent outputs.\<close>

lemma extends_headers:
  assumes "extends r d0 d" "blockheader_tbl d' = blockheader_tbl d @ rows" "\<forall>b\<in>set rows. r < bh_Height b"
    and "tx_tbl d' = tx_tbl d" "stx_tbl d' = stx_tbl d" "spent_tbl d' = spent_tbl d" "unspent_tbl d' = unspent_tbl d" "wallet_tbl d' = wallet_tbl d"
  shows "extends r d0 d'"
proof -
  obtain hs ts ps sp where "extends_by r d0 d hs ts ps sp" using assms(1) by (auto simp: extends_def)
  then have "extends_by r d0 d' (hs @ rows) ts ps sp" using assms(2-) by (auto simp: extends_by_def)
  then show ?thesis by (auto simp: extends_def)
qed

lemma extends_mset:
  assumes "extends r d0 d" "blockheader_tbl d' = blockheader_tbl d" "tx_tbl d' = tx_tbl d" "stx_tbl d' = stx_tbl d" "spent_tbl d' = spent_tbl d"
    and "mset (unspent_tbl d') = mset (unspent_tbl d)" "map wd_Hash (wallet_tbl d') = map wd_Hash (wallet_tbl d)"
  shows "extends r d0 d'"
proof -
  obtain hs ts ps sp where e: "extends_by r d0 d hs ts ps sp" using assms(1) by (auto simp: extends_def)
  have "mset (filter P (unspent_tbl d' @ xs)) = mset (filter P (unspent_tbl d @ xs))" for P xs
    using assms(6) by (simp add: mset_filter)
  with e have "extends_by r d0 d' hs ts ps sp" using assms(2-5,7) by (simp add: extends_by_def)
  then show ?thesis by (auto simp: extends_def)
qed

section \<open>Layers\<close>

text \<open>A database made by the blocks \<open>bs\<close>, the last of them at the height \<open>h\<close>.\<close>

definition layer :: "utxos \<Rightarrow> hash32 set \<Rightarrow> hash32 set \<Rightarrow> int \<Rightarrow> Block list \<Rightarrow> database \<Rightarrow> bool" where
  "layer V T T' h bs d \<longleftrightarrow> db_inv d \<and> spent_inv d \<and> utxo_map (unspent_tbl d) \<subseteq>\<^sub>m V
     \<and> ledger_txs T T' (txs_of bs) Map.empty (utxo_map (unspent_tbl d))
     \<and> td_Txid ` set (tx_tbl d) \<subseteq> Txid ` set (txs_of bs) \<and> td_BlockHash ` set (tx_tbl d) \<subseteq> Block_Hash ` set bs
     \<and> (\<forall>x\<in>set (spent_tbl d). sp_Height x \<le> h)"

lemma layerD:
  assumes "layer V T T' h bs d"
  shows "db_inv d" "spent_inv d" "utxo_map (unspent_tbl d) \<subseteq>\<^sub>m V" "ledger_txs T T' (txs_of bs) Map.empty (utxo_map (unspent_tbl d))"
    "td_Txid ` set (tx_tbl d) \<subseteq> Txid ` set (txs_of bs)" "td_BlockHash ` set (tx_tbl d) \<subseteq> Block_Hash ` set bs"
    "\<forall>x\<in>set (spent_tbl d). sp_Height x \<le> h"
  using assms by (simp_all add: layer_def)

lemma layer_mono: "layer V T T' h bs d \<Longrightarrow> T' \<subseteq> T'' \<Longrightarrow> layer V T T'' h bs d"
  by (auto simp: layer_def intro: ledger_txs_mono)

lemma layer_Nil:
  assumes "layer V T T' h [] d"
  shows "tx_tbl d = []" "spent_tbl d = []" "layer V T T' k [] d"
proof -
  show tx: "tx_tbl d = []" using assms by (simp add: layer_def)
  then show "spent_tbl d = []" using assms by (cases "spent_tbl d") (auto simp: layer_def db_inv_def ref_inv_def)
  with assms show "layer V T T' k [] d" by (simp add: layer_def)
qed

text \<open>The same tables up to the order of the unspent outputs and the progress of the wallets.\<close>

lemma layer_mset:
  assumes "layer V T T' h bs d" "blockheader_tbl d' = blockheader_tbl d" "tx_tbl d' = tx_tbl d" "stx_tbl d' = stx_tbl d" "spent_tbl d' = spent_tbl d"
    and "mset (unspent_tbl d') = mset (unspent_tbl d)" "map wd_Hash (wallet_tbl d') = map wd_Hash (wallet_tbl d)"
  shows "layer V T T' h bs d'"
proof -
  have du: "distinct (map u_TxidVout (unspent_tbl d))" and db: "db_inv d" using assms(1) by (simp_all add: layer_def db_inv_def pk_inv_def)
  have "distinct (map u_TxidVout (unspent_tbl d'))" using du assms(6) by (metis mset_eq_imp_distinct_iff mset_map)
  moreover have u: "set (unspent_tbl d') = set (unspent_tbl d)" using assms(6) by (metis mset_eq_setD)
  ultimately have "db_inv d'"
    using db by (simp add: db_inv_def pk_inv_def width_inv_def ref_inv_def list_all_iff assms(2-5,7))
  moreover have "spent_inv d'" using assms(1) by (simp add: layer_def spent_inv_def u assms(5))
  moreover have "utxo_map (unspent_tbl d') = utxo_map (unspent_tbl d)" by (rule unspent_map_mset [OF du assms(6)])
  ultimately show ?thesis using assms(1) by (simp add: layer_def assms(3,5))
qed

text \<open>The pile: \<open>b\<close> is the height below the first block, \<open>D r\<close> the layer of the height \<open>r\<close>.\<close>

definition given :: "node \<Rightarrow> Block \<Rightarrow> bool" where
  "given N b \<longleftrightarrow> (\<exists>n. nd_block N n (Block_Hash b) = Inr b)"

definition pile :: "crypto \<Rightarrow> utxos \<Rightarrow> node \<Rightarrow> hash32 set \<Rightarrow> int \<Rightarrow> Block list \<Rightarrow> (int \<Rightarrow> database) \<Rightarrow> 'z W_scheme \<Rightarrow> bool" where
  "pile C V N T b bs D s \<longleftrightarrow>
     0 \<le> b \<and> wm_inv C V s \<and> chain_inv s \<and> T \<subseteq> dom (scriptPubkeys s) \<and> list_all (given N) bs
     \<and> (bs \<noteq> [] \<longrightarrow> b + int (length bs) \<le> int (length (blockheader_tbl (db s))))
     \<and> map Block_Hash bs = map bh_Hash (take (length bs) (drop (nat b) (blockheader_tbl (db s))))
     \<and> layer V T (dom (scriptPubkeys s)) (b + int (length bs)) bs (db s)
     \<and> (bs \<noteq> [] \<longrightarrow> (\<forall>r. 0 \<le> r \<and> r < b + int (length bs) \<longrightarrow>
          layer V T (dom (scriptPubkeys s)) r (take (nat (r - b)) bs) (D r) \<and> blockheader_tbl (D r) = take (nat r) (blockheader_tbl (db s))
          \<and> extends r (D r) (db s) \<and> (\<forall>q. r < q \<and> q < b + int (length bs) \<longrightarrow> extends r (D r) (D q))))"

lemma pile_chain:
  assumes "pile C V N T b bs D s"
  shows "numbered (blockheader_tbl (db s))" "distinct (map bh_Hash (blockheader_tbl (db s)))" "db_inv (db s)"
  using assms linked_numbered by (auto simp: pile_def chain_inv_def wm_inv_def db_inv_def pk_inv_def)

text \<open>The present database without the headers above the last block, or above any height if there is no block.\<close>

lemma pile_top:
  assumes p: "pile C V N T b bs D s" and r: "bs = [] \<or> b + int (length bs) \<le> r" "0 \<le> r"
  shows "layer V T (dom (scriptPubkeys s)) (min r (b + int (length bs))) bs (cutoff r (db s))"
    "\<forall>t\<in>set (tx_tbl (db s)). td_BlockHash t \<in> bh_Hash ` set (take (nat r) (blockheader_tbl (db s)))"
proof -
  let ?t = "blockheader_tbl (db s)" and ?h = "b + int (length bs)"
  have l: "layer V T (dom (scriptPubkeys s)) ?h bs (db s)" and b: "0 \<le> b" using p by (simp_all add: pile_def)
  have m: "Block_Hash ` set bs = bh_Hash ` set (take (length bs) (drop (nat b) ?t))"
    using p unfolding pile_def by (metis image_set)
  have sub: "Block_Hash ` set bs \<subseteq> bh_Hash ` set (take (nat r) ?t)" if "bs \<noteq> []"
  proof -
    have "length bs + nat b \<le> nat r" using that r b by linarith
    then have "take (length bs) (drop (nat b) ?t) = take (length bs) (drop (nat b) (take (nat r) ?t))"
      by (simp add: take_drop min_def)
    then show ?thesis unfolding m by (metis image_mono order_trans set_drop_subset set_take_subset)
  qed
  show t: "\<forall>t\<in>set (tx_tbl (db s)). td_BlockHash t \<in> bh_Hash ` set (take (nat r) ?t)"
  proof (cases "bs = []")
    case True
    then show ?thesis using layer_Nil(1) l by simp
  next
    case False
    have "td_BlockHash ` set (tx_tbl (db s)) \<subseteq> Block_Hash ` set bs" using l by (simp add: layer_def)
    with sub [OF False] show ?thesis by blast
  qed
  have "db_inv (cutoff r (db s))"
    using pile_chain(3) [OF p] t
    by (auto simp: db_inv_def pk_inv_def width_inv_def ref_inv_def cutoff_def list_all_iff distinct_take simp flip: take_map dest: in_set_takeD)
  with l have c: "layer V T (dom (scriptPubkeys s)) ?h bs (cutoff r (db s))" by (simp add: layer_def cutoff_def spent_inv_def)
  then show "layer V T (dom (scriptPubkeys s)) (min r ?h) bs (cutoff r (db s))"
    using r layer_Nil(3) by (cases "bs = []") (auto simp: min_def)
qed

text \<open>The layer of any height, and how it lies on those below it.\<close>

lemma pile_at:
  assumes p: "pile C V N T b bs D s" and r: "0 \<le> r"
  obtains d where "layer V T (dom (scriptPubkeys s)) (min r (b + int (length bs))) (take (nat (r - b)) bs) d"
    "blockheader_tbl d = take (nat r) (blockheader_tbl (db s))" "extends r d (db s)"
    "\<And>q. bs \<noteq> [] \<Longrightarrow> 0 \<le> q \<Longrightarrow> q < r \<Longrightarrow> q < b + int (length bs) \<Longrightarrow> extends q (D q) d"
proof (cases "bs \<noteq> [] \<and> r < b + int (length bs)")
  case True
  show thesis
    by (rule that [of "D r"]) (use p r True in \<open>auto simp: pile_def\<close>)
next
  case False
  have "take (nat (r - b)) bs = bs" using False p by (auto simp: pile_def)
  moreover have top: "layer V T (dom (scriptPubkeys s)) (min r (b + int (length bs))) bs (cutoff r (db s))"
      "\<forall>t\<in>set (tx_tbl (db s)). td_BlockHash t \<in> bh_Hash ` set (take (nat r) (blockheader_tbl (db s)))"
    using pile_top [OF p _ r] False by auto
  moreover have "extends r (cutoff r (db s)) (db s)" by (rule extends_cutoff_self [OF pile_chain(1) [OF p]])
  moreover have "extends q (D q) (cutoff r (db s))" if "bs \<noteq> []" "0 \<le> q" "q < r" "q < b + int (length bs)" for q
    by (rule extends_below [OF _ _ pile_chain(2) [OF p] top(2)]) (use p that in \<open>auto simp: pile_def\<close>)
  ultimately show thesis by (intro that [of "cutoff r (db s)"]) (simp_all add: cutoff_def)
qed

section \<open>What keeps the pile\<close>

lemma pile_cong:
  assumes "db s' = db s" "wallets s' = wallets s" "scriptPubkeys s' = scriptPubkeys s" "utxoIndex s' = utxoIndex s" "net s' = net s"
  shows "pile C V N T b bs D s' = pile C V N T b bs D s"
proof -
  have "wm_inv C V s' = wm_inv C V s"
    by (simp add: wm_inv_def cache_inv_def unspent_map_def assms(1,4) spk_inv_cong [OF assms(2,3)])
  moreover have "chain_inv s' = chain_inv s" by (simp add: chain_inv_def genesisHash_def assms(1,5))
  ultimately show ?thesis by (simp add: pile_def assms(1,3))
qed

text \<open>New headers.\<close>

lemma pile_headers:
  assumes p: "pile C V N T b bs D s" and st: "hdr_step s s'" and k: "hash_keys s'"
  shows "pile C V N T b bs D s'"
proof -
  have f: "hdr_frame s s'" "chain_inv s'" using st by (simp_all add: hdr_step_def)
  note t = hdr_frame_tables [OF f(1)]
  obtain rows where rows: "blockheader_tbl (db s') = blockheader_tbl (db s) @ rows" using st by (auto simp: hdr_step_def)
  have w: "wm_inv C V s'" using p by (intro hdr_step_wm [OF st k]) (simp add: pile_def)
  have e: "scriptPubkeys s' = scriptPubkeys s" using f(1) by (simp add: hdr_frame_def)
  have num: "numbered (blockheader_tbl (db s'))" using f(2) linked_numbered by (auto simp: chain_inv_def)
  have l: "layer V T (dom (scriptPubkeys s)) h bs (db s')" if "layer V T (dom (scriptPubkeys s)) h bs (db s)" for h
    using that w by (simp add: layer_def wm_inv_def spent_inv_def t)
  have x: "extends r (D r) (db s')" if "0 \<le> r" "r < int (length (blockheader_tbl (db s)))" "extends r (D r) (db s)" for r
  proof (rule extends_headers [OF that(3) rows _ t(3,4,5,2,1)])
    have "set rows \<subseteq> set (drop (nat r) (blockheader_tbl (db s')))" using that(1,2) by (simp add: rows)
    then show "\<forall>b\<in>set rows. r < bh_Height b" using numbered_drop_heights [OF num] by blast
  qed
  have h: "bs \<noteq> [] \<Longrightarrow> b + int (length bs) \<le> int (length (blockheader_tbl (db s)))" using p by (simp add: pile_def)
  have m: "take (length bs) (drop (nat b) (blockheader_tbl (db s'))) = take (length bs) (drop (nat b) (blockheader_tbl (db s)))"
    using h p by (cases "bs = []") (auto simp: rows pile_def)
  have lay: "layer V T (dom (scriptPubkeys s)) r (take (nat (r - b)) bs) (D r) \<and> blockheader_tbl (D r) = take (nat r) (blockheader_tbl (db s'))
      \<and> extends r (D r) (db s') \<and> (\<forall>q. r < q \<and> q < b + int (length bs) \<longrightarrow> extends r (D r) (D q))"
    if "bs \<noteq> []" "0 \<le> r" "r < b + int (length bs)" for r
  proof -
    have r: "r < int (length (blockheader_tbl (db s)))" using h that by linarith
    have o: "layer V T (dom (scriptPubkeys s)) r (take (nat (r - b)) bs) (D r)" "blockheader_tbl (D r) = take (nat r) (blockheader_tbl (db s))"
        "extends r (D r) (db s)" "\<forall>q. r < q \<and> q < b + int (length bs) \<longrightarrow> extends r (D r) (D q)"
      using p that by (simp_all add: pile_def)
    show ?thesis using o x [OF that(2) r o(3)] r by (simp add: rows)
  qed
  have "bs \<noteq> [] \<Longrightarrow> b + int (length bs) \<le> int (length (blockheader_tbl (db s')))" using h by (force simp: rows)
  then show ?thesis using p l w f(2) lay by (simp add: pile_def e m)
qed

text \<open>On a chain of headers no transaction occurs twice.\<close>

definition no_repeats :: "node \<Rightarrow> bool" where
  "no_repeats N \<longleftrightarrow> (\<forall>g rows i j x y. linked g 0 rows \<and> distinct (map bh_Hash rows) \<and> i < j \<and> j < length rows
     \<and> given N x \<and> given N y \<and> Block_Hash x = bh_Hash (rows ! i) \<and> Block_Hash y = bh_Hash (rows ! j) \<longrightarrow> set (TXIDs x) \<inter> set (TXIDs y) = {})"

lemma pile_fresh:
  assumes "no_repeats N" "pile C V N T b bs D s" "given N x" "b + int (length bs) < int (length (blockheader_tbl (db s)))"
    and "Block_Hash x = bh_Hash (blockheader_tbl (db s) ! nat (b + int (length bs)))"
  shows "\<forall>tx\<in>set (b_Transactions x). Txid tx \<notin> td_Txid ` set (tx_tbl (db s))"
proof
  fix tx assume tx: "tx \<in> set (b_Transactions x)"
  let ?t = "blockheader_tbl (db s)"
  show "Txid tx \<notin> td_Txid ` set (tx_tbl (db s))"
  proof
    assume "Txid tx \<in> td_Txid ` set (tx_tbl (db s))"
    then have "Txid tx \<in> Txid ` set (txs_of bs)" using assms(2) by (auto simp: pile_def layer_def)
    then obtain y where y: "y \<in> set bs" "Txid tx \<in> set (TXIDs y)" by (auto simp: txs_of_def TXIDs_def)
    then obtain i where i: "i < length bs" "bs ! i = y" by (auto simp: in_set_conv_nth)
    have b: "0 \<le> b" using assms(2) by (simp add: pile_def)
    have "map Block_Hash bs ! i = map bh_Hash (take (length bs) (drop (nat b) ?t)) ! i" using assms(2) by (simp add: pile_def)
    then have "Block_Hash y = bh_Hash (?t ! (nat b + i))" using i assms(4) b by simp
    moreover have "given N y" using assms(2) y(1) by (simp add: pile_def list_all_iff)
    moreover have "linked (genesisHash s) 0 ?t" using assms(2) by (simp add: pile_def chain_inv_def)
    moreover have "nat b + i < nat (b + int (length bs))" "nat (b + int (length bs)) < length ?t" using i(1) b assms(4) by linarith+
    ultimately have "set (TXIDs y) \<inter> set (TXIDs x) = {}"
      using assms(1,3,5) pile_chain(2) [OF assms(2)] unfolding no_repeats_def by blast
    with y(2) tx show False by (auto simp: TXIDs_def)
  qed
qed

text \<open>A block puts a layer on the pile.\<close>

lemma take_snoc: "0 \<le> b \<Longrightarrow> r \<le> b + int (length bs) \<Longrightarrow> take (nat (r - b)) (bs @ [x]) = take (nat (r - b)) bs"
  by (simp add: nat_diff_distrib')

lemma pile_block:
  assumes p: "pile C V N T b bs D s" and N: "honest V N" "no_repeats N" "given N x"
    and h: "b + int (length bs) < int (length (blockheader_tbl (db s)))"
    and x: "Block_Hash x = bh_Hash (blockheader_tbl (db s) ! nat (b + int (length bs)))"
    and run: "processBlock C x (b + int (length bs) + 1) s = (Inr (), s')"
  shows "\<exists>D'. pile C V N T b (bs @ [x]) D' s'"
proof -
  let ?t = "blockheader_tbl (db s)" and ?h = "b + int (length bs)"
  define E where "E r = (if bs \<noteq> [] \<and> r < ?h then D r else cutoff r (db s))" for r
  note c = pile_chain [OF p]
  have b: "0 \<le> b" and w: "wm_inv C V s" and l: "layer V T (dom (scriptPubkeys s)) ?h bs (db s)" and ch: "chain_inv s"
      and T: "T \<subseteq> dom (scriptPubkeys s)" and g: "list_all (given N) bs"
      and m: "map Block_Hash bs = map bh_Hash (take (length bs) (drop (nat b) ?t))"
    using p by (simp_all add: pile_def)
  have row: "?t ! nat ?h \<in> set ?t" using h b by simp
  have d: "distinct (TXIDs x)" "block_outputs V x" using N(1,3) by (auto simp: honest_def given_def)
  have hd: "has_header x (db s)" using x row by (simp add: has_header_def)
  have fresh: "\<forall>tx\<in>set (b_Transactions x). Txid tx \<notin> td_Txid ` set (tx_tbl (db s))" by (rule pile_fresh [OF N(2) p N(3) h x])
  from processBlock_steps [OF w hd d run]
  have w': "wm_inv C V s'" and led: "ledger_txs (dom (scriptPubkeys s)) (dom (scriptPubkeys s')) (b_Transactions x) (unspent_map s) (unspent_map s')"
      and sub: "dom (scriptPubkeys s) \<subseteq> dom (scriptPubkeys s')" by blast+
  have f: "blockheader_tbl (db s') = ?t" "net s' = net s"
    using processBlock_chain_frame [of s C x "?h + 1"] run by (simp_all add: chain_frame_def)
  have ch': "chain_inv s'" using ch by (simp add: chain_inv_def genesisHash_def f)
  have roll: "rolls r d0 s' \<and> td_Txid ` set (tx_tbl (db s')) \<subseteq> Txid ` set (b_Transactions x) \<union> td_Txid ` set (tx_tbl (db s))"
    if r: "0 \<le> r" "r \<le> ?h" and d0: "extends r d0 (db s)" "db_inv d0" "blockheader_tbl d0 = take (nat r) ?t" for r d0
  proof (rule processBlock_rolls [OF w hd d run _ d0(2) _ _ fresh])
    show "rolls r d0 s" using d0(1) l by (simp add: rolls_def layer_def)
    have "?t ! nat ?h \<notin> set (take (nat r) ?t)"
    proof
      assume "?t ! nat ?h \<in> set (take (nat r) ?t)"
      then obtain i where i: "i < length ?t" "i < nat r" "?t ! i = ?t ! nat ?h" by (auto simp: in_set_conv_nth)
      then have "i = nat ?h" using nth_eq_iff_index_eq [OF c(2), of i "nat ?h"] h b by simp
      with i(2) r show False by linarith
    qed
    then show "new_block d0 (db s) x" using row x by (auto simp: new_block_def d0(3))
  qed (use r in simp)
  have at: "layer V T (dom (scriptPubkeys s)) r (take (nat (r - b)) bs) (E r) \<and> blockheader_tbl (E r) = take (nat r) ?t \<and> extends r (E r) (db s)"
    if r: "0 \<le> r" "r \<le> ?h" for r
  proof (cases "bs \<noteq> [] \<and> r < ?h")
    case True
    then show ?thesis using p r by (simp add: pile_def E_def)
  next
    case False
    then have "layer V T (dom (scriptPubkeys s)) (min r ?h) bs (cutoff r (db s))" using pile_top(1) [OF p _ r(1)] r by auto
    moreover have "take (nat (r - b)) bs = bs" "min r ?h = r" using False r b by auto
    ultimately show ?thesis using extends_cutoff_self [OF c(1), of r] False by (auto simp: cutoff_def E_def)
  qed
  have pairs: "extends r (E r) (E q)" if r: "0 \<le> r" "r < q" "q \<le> ?h" for r q
  proof (cases "bs \<noteq> []")
    case True
    then have D: "E r = D r" "extends r (D r) (db s)" "blockheader_tbl (D r) = take (nat r) ?t" "q < ?h \<Longrightarrow> extends r (D r) (D q)"
      using r p by (simp_all add: pile_def E_def)
    show ?thesis
    proof (cases "q < ?h")
      case False
      then have q: "E q = cutoff q (db s)" "bs = [] \<or> ?h \<le> q" "0 \<le> q" "r \<le> q" using r by (auto simp: E_def)
      show ?thesis unfolding D(1) q(1) by (rule extends_below [OF D(2,3) c(2) pile_top(2) [OF p q(2,3)] q(4)])
    qed (use True D in \<open>auto simp: E_def\<close>)
  next
    case False
    then show ?thesis using extends_cutoff [OF c(1), of r q] r by (simp add: E_def)
  qed
  have lay: "layer V T (dom (scriptPubkeys s')) r (take (nat (r - b)) (bs @ [x])) (E r) \<and> blockheader_tbl (E r) = take (nat r) ?t
      \<and> extends r (E r) (db s')" if "0 \<le> r" "r \<le> ?h" for r
  proof -
    have a: "layer V T (dom (scriptPubkeys s)) r (take (nat (r - b)) bs) (E r)" "blockheader_tbl (E r) = take (nat r) ?t" "extends r (E r) (db s)"
      using at [OF that] by blast+
    have "db_inv (E r)" using a(1) unfolding layer_def by blast
    with roll [OF that a(3) _ a(2)] layer_mono [OF a(1) sub] a(2) take_snoc [OF b that(2)] show ?thesis by (simp only: rolls_def)
  qed
  have a0: "layer V T (dom (scriptPubkeys s)) ?h bs (E ?h)" "blockheader_tbl (E ?h) = take (nat ?h) ?t" "extends ?h (E ?h) (db s)"
    using at [of ?h] b by simp_all
  have "db_inv (E ?h)" using a0(1) unfolding layer_def by blast
  with roll [OF _ order_refl a0(3) _ a0(2)] b
  have sp: "spent_inv (db s')" and tx: "td_Txid ` set (tx_tbl (db s')) \<subseteq> Txid ` set (b_Transactions x) \<union> td_Txid ` set (tx_tbl (db s))"
    by (simp_all add: rolls_def)
  have ad: "adds (Block_Hash x) (?h + 1) s s'" by (rule processBlock_adds [OF run])
  have "ledger_txs T (dom (scriptPubkeys s')) (txs_of bs) Map.empty (unspent_map s)"
      "ledger_txs T (dom (scriptPubkeys s')) (b_Transactions x) (unspent_map s) (unspent_map s')"
    using ledger_txs_mono [OF _ subset_refl sub] ledger_txs_mono [OF led T subset_refl] l by (simp_all add: layer_def unspent_map_def)
  from ledger_txs_append [OF this] have "ledger_txs T (dom (scriptPubkeys s')) (txs_of (bs @ [x])) Map.empty (unspent_map s')"
    by (simp add: txs_of_def)
  note led' = this
  have un: "Txid ` set (txs_of (bs @ [x])) = Txid ` set (txs_of bs) \<union> Txid ` set (b_Transactions x)" by (simp add: txs_of_def image_Un)
  have ids0: "td_Txid ` set (tx_tbl (db s)) \<subseteq> Txid ` set (txs_of bs)" by (rule layerD(5) [OF l])
  have ids: "td_Txid ` set (tx_tbl (db s')) \<subseteq> Txid ` set (txs_of (bs @ [x]))"
    unfolding un by (rule order_trans [OF tx]) (rule Un_least [OF Un_upper2 le_supI1 [OF ids0]])
  have "td_BlockHash ` set (tx_tbl (db s')) \<subseteq> Block_Hash ` set (bs @ [x])" "\<forall>y\<in>set (spent_tbl (db s')). sp_Height y \<le> ?h + 1"
    using ad layerD(6,7) [OF l] unfolding adds_def by (simp_all add: image_subset_iff) (blast, force)
  with led' ids have l': "layer V T (dom (scriptPubkeys s')) (?h + 1) (bs @ [x]) (db s')"
    using w' sp by (simp add: layer_def wm_inv_def unspent_map_def)
  have "map Block_Hash (bs @ [x]) = map bh_Hash (take (length (bs @ [x])) (drop (nat b) ?t))"
    using m x h b by (simp add: take_Suc_conv_app_nth nat_add_distrib)
  moreover have "\<forall>r. 0 \<le> r \<and> r \<le> ?h \<longrightarrow> layer V T (dom (scriptPubkeys s')) r (take (nat (r - b)) (bs @ [x])) (E r)
      \<and> blockheader_tbl (E r) = take (nat r) ?t \<and> extends r (E r) (db s') \<and> (\<forall>q. r < q \<and> q \<le> ?h \<longrightarrow> extends r (E r) (E q))"
    using lay pairs by blast
  moreover have "b + int (length (bs @ [x])) = ?h + 1" "r < ?h + 1 \<longleftrightarrow> r \<le> ?h" "?h + 1 \<le> r \<longleftrightarrow> ?h < r" for r by auto
  moreover have "list_all (given N) (bs @ [x])" "T \<subseteq> dom (scriptPubkeys s')" using g N(3) T sub by (simp, blast)
  ultimately have "pile C V N T b (bs @ [x]) E s'"
    using b w' ch' h l' unfolding pile_def f(1) by (simp add: add.commute add.left_commute)
  then show ?thesis by blast
qed

text \<open>A reorganisation takes the layers above its height away.\<close>

lemma pile_reorg:
  assumes p: "pile C V N T b bs D s" and k: "1 \<le> k" "k \<le> int (length (blockheader_tbl (db s)))"
    and run: "processReorg k s = (r, s')"
  shows "pile C V N T (min b k) (take (nat (k - b)) bs) D s'" "r = Inr ()"
    "blockheader_tbl (db s') = take (nat k) (blockheader_tbl (db s))" "bestHeader s' = k" "bestHeaderHash s' = tip (genesisHash s') (blockheader_tbl (db s'))"
    "wallets s' = map (\<lambda>w. w\<lparr>wl_height := min k (wl_height w)\<rparr>) (wallets s)"
proof -
  let ?t = "blockheader_tbl (db s)" and ?h = "b + int (length bs)" and ?bs = "take (nat (k - b)) bs"
  have b: "0 \<le> b" and w: "wm_inv C V s" and ch: "chain_inv s" and T: "T \<subseteq> dom (scriptPubkeys s)" and g: "list_all (given N) bs"
      and m: "map Block_Hash bs = map bh_Hash (take (length bs) (drop (nat b) ?t))"
      and D: "\<And>r. bs \<noteq> [] \<Longrightarrow> 0 \<le> r \<Longrightarrow> r < ?h \<Longrightarrow>
          layer V T (dom (scriptPubkeys s)) r (take (nat (r - b)) bs) (D r) \<and> blockheader_tbl (D r) = take (nat r) ?t
          \<and> (\<forall>q. r < q \<and> q < ?h \<longrightarrow> extends r (D r) (D q))"
    using p by (simp_all add: pile_def)
  have "0 \<le> k" using k(1) by simp
  obtain d where d: "layer V T (dom (scriptPubkeys s)) (min k ?h) ?bs d" "blockheader_tbl d = take (nat k) ?t" "extends k d (db s)"
      "\<And>q. bs \<noteq> [] \<Longrightarrow> 0 \<le> q \<Longrightarrow> q < k \<Longrightarrow> q < ?h \<Longrightarrow> extends q (D q) d"
    by (rule pile_at [OF p \<open>0 \<le> k\<close>]) blast
  have num: "numbered ?t" "distinct (map bh_Hash ?t)" "db_inv (db s)" by (rule pile_chain [OF p])+
  have "settled k d" using numbered_take_heights [OF num(1)] layerD(7) [OF d(1)] by (auto simp: settled_def d(2))
  moreover have len: "k = int (length (blockheader_tbl d))" using k by (simp add: d(2))
  moreover have "rolls k d s" using d(3) p by (simp add: rolls_def pile_def layer_def)
  ultimately obtain u where u: "processReorg k s = (Inr (), u)" "blockheader_tbl (db u) = blockheader_tbl d" "tx_tbl (db u) = tx_tbl d"
      "stx_tbl (db u) = stx_tbl d" "spent_tbl (db u) = spent_tbl d" "mset (unspent_tbl (db u)) = mset (unspent_tbl d)"
      "map wd_Hash (wallet_tbl (db u)) = map wd_Hash (wallet_tbl (db s))" "cache_inv u" "bestHeader u = k"
      "bestHeaderHash u = bh_Hash (last (blockheader_tbl d))" "net u = net s"
      "wallets u = map (\<lambda>w. w\<lparr>wl_height := min k (wl_height w)\<rparr>) (wallets s)" "scriptPubkeys u = scriptPubkeys s"
    using processReorg_to [OF layerD(1) [OF d(1)] _ k(1) _ _ num(3,1)] by blast
  have s': "s' = u" "r = Inr ()" using run u(1) by simp_all
  have wh: "map wd_Hash (wallet_tbl (db u)) = map wd_Hash (wallet_tbl d)" using d(3) u(7) by (auto simp: extends_def extends_by_def)
  have l: "layer V T (dom (scriptPubkeys s)) (min k ?h) ?bs (db u)" by (rule layer_mset [OF d(1) u(2-6) wh])
  have "spk_inv C u"
  proof -
    have sc: "script_at C (w\<lparr>wl_height := n\<rparr>) a j = script_at C w a j" "nDerived a (w\<lparr>wl_height := n\<rparr>) = nDerived a w" for w n a j
      by (simp_all add: script_at_def nDerived_def)
    have "spk_inv C s" using w by (simp add: wm_inv_def)
    then show ?thesis by (auto simp: spk_inv_def entry_ok_def covered_def u(12,13) sc)
  qed
  then have w': "wm_inv C V u" using l u(8) by (simp add: wm_inv_def layer_def unspent_map_def)
  have ch': "chain_inv u" using ch linked_take by (simp add: chain_inv_def genesisHash_def u(2,11) d(2))
  have h': "min b k + int (length ?bs) = min k ?h" using b by (auto simp: min_def)
  have l': "layer V T (dom (scriptPubkeys s)) (min b k + int (length ?bs)) ?bs (db u)" using l h' by simp
  have le: "?bs \<noteq> [] \<Longrightarrow> min b k + int (length ?bs) \<le> int (length (take (nat k) ?t))" using h' k by simp
  have m': "map Block_Hash ?bs = map bh_Hash (take (length ?bs) (drop (nat (min b k)) (take (nat k) ?t)))"
  proof (cases "k \<le> b")
    case False
    have "nat k - nat b = nat (k - b)" using b False by simp
    moreover have "map Block_Hash ?bs = map bh_Hash (take (nat (k - b)) (take (length bs) (drop (nat b) ?t)))"
      using arg_cong [OF m, of "take (nat (k - b))"] by (simp add: take_map)
    ultimately show ?thesis using False by (simp add: drop_take min_def)
  qed simp
  have lay: "layer V T (dom (scriptPubkeys s)) r (take (nat (r - min b k)) ?bs) (D r) \<and> blockheader_tbl (D r) = take (nat r) (take (nat k) ?t)
      \<and> extends r (D r) (db u) \<and> (\<forall>q. r < q \<and> q < min b k + int (length ?bs) \<longrightarrow> extends r (D r) (D q))"
    if r: "?bs \<noteq> []" "0 \<le> r" "r < min b k + int (length ?bs)" for r
  proof -
    have bs: "bs \<noteq> []" "b < k" "min b k = b" using r(1) by auto
    have rk: "r < k" "r < ?h" using r(3) h' by auto
    have "extends r (D r) (db u)" by (rule extends_mset [OF d(4) [OF bs(1) r(2) rk] u(2-6) wh])
    moreover have "take (nat (r - min b k)) ?bs = take (nat (r - b)) bs" using rk bs by (simp add: min_def)
    moreover have "take (nat r) (take (nat k) ?t) = take (nat r) ?t" using rk(1) by (simp add: min_def)
    ultimately show ?thesis using D [OF bs(1) r(2) rk(2)] h' by simp
  qed
  have "list_all (given N) ?bs" using g by (auto simp: list_all_iff dest: in_set_takeD)
  moreover have "0 \<le> min b k" using b \<open>0 \<le> k\<close> by simp
  ultimately show "pile C V N T (min b k) ?bs D s'"
    unfolding pile_def s'(1) u(2,13) d(2) using w' ch' T l' le m' lay by blast
  show "r = Inr ()" "blockheader_tbl (db s') = take (nat k) ?t" "bestHeader s' = k"
      "wallets s' = map (\<lambda>w. w\<lparr>wl_height := min k (wl_height w)\<rparr>) (wallets s)"
    using s' by (simp_all add: u(2,9,12) d(2))
  have "blockheader_tbl d \<noteq> []" using len k(1) by auto
  then show "bestHeaderHash s' = tip (genesisHash s') (blockheader_tbl (db s'))" by (simp add: s'(1) tip_def u(2,10))
qed

section \<open>Pages, rounds and the service\<close>

lemma pile_syncBlocks:
  assumes N: "honest V N" "no_repeats N"
  shows "pile C V N T b bs D s \<Longrightarrow> ht = b + int (length bs) + 1 \<Longrightarrow>
    hs = map bh_Hash (take (length hs) (drop (nat (ht - 1)) (blockheader_tbl (db s)))) \<Longrightarrow> syncBlocks C N hs ht s = (Inr ht', s') \<Longrightarrow>
    \<exists>bs' D'. pile C V N T b bs' D' s' \<and> ht' = b + int (length bs') + 1"
proof (induction hs arbitrary: bs D ht s)
  case Nil
  then show ?case by auto
next
  case (Cons h hs)
  let ?t = "blockheader_tbl (db s)" and ?h = "b + int (length bs)"
  from Cons.prems(4) obtain x s1 s2 where r: "GetBlock N h s = (Inr x, s1)"
      "processBlock C x ht s1 = (Inr (), s2)" "syncBlocks C N hs (ht + 1) s2 = (Inr ht', s')"
    by (auto simp: ebind_ok_iff sqlExecute_ok)
  have s1: "s1 = s\<lparr>calls := Suc (calls s)\<rparr>" "nd_block N (calls s) h = Inr x" using r(1) by (auto simp: GetBlock_def)
  have b: "0 \<le> b" using Cons.prems(1) by (simp add: pile_def)
  have p1: "pile C V N T b bs D s1" using Cons.prems(1) pile_cong [of s1 s] by (simp add: s1(1))
  have "h # hs = map bh_Hash (take (Suc (length hs)) (drop (nat ?h) ?t))" using Cons.prems(2,3) by simp
  then obtain row rest where d: "drop (nat ?h) ?t = row # rest" "h = bh_Hash row" "hs = map bh_Hash (take (length hs) rest)"
    by (cases "drop (nat ?h) ?t") auto
  have row: "nat ?h < length ?t" "?t ! nat ?h = row" "rest = drop (Suc (nat ?h)) ?t"
    using d(1) by (metis drop_all list.distinct(1) not_less, metis nth_via_drop, metis drop_Suc list.sel(3) tl_drop)
  have x: "Block_Hash x = h" using N(1) s1(2) by (auto simp: honest_def)
  have "given N x" using s1(2) x by (auto simp: given_def)
  moreover have "?h < int (length (blockheader_tbl (db s1)))" using row(1) b by (simp add: s1(1))
  moreover have "Block_Hash x = bh_Hash (blockheader_tbl (db s1) ! nat ?h)" by (simp add: s1(1) row(2) x d(2))
  moreover have "processBlock C x (?h + 1) s1 = (Inr (), s2)" using r(2) Cons.prems(2) by simp
  ultimately obtain D2 where p2: "pile C V N T b (bs @ [x]) D2 s2" using pile_block [OF p1 N] by blast
  have "blockheader_tbl (db s2) = ?t" using processBlock_chain_frame [of s1 C x ht] r(2) by (simp add: chain_frame_def s1(1))
  moreover have "nat (ht + 1 - 1) = Suc (nat ?h)" using Cons.prems(2) b by simp
  ultimately have "hs = map bh_Hash (take (length hs) (drop (nat (ht + 1 - 1)) (blockheader_tbl (db s2))))" using d(3) row(3) by simp
  from Cons.IH [OF p2 _ this r(3)] Cons.prems(2) show ?case by simp
qed

lemma pile_syncWallets_loop:
  assumes N: "honest V N" "no_repeats N"
  shows "pile C V N T b bs D s \<Longrightarrow> at_tip s \<Longrightarrow> ht = b + int (length bs) + 1 \<Longrightarrow> ht \<le> bestHeader s + 1 \<Longrightarrow>
    syncWallets_loop C N fuel ht s = Some (Inr (), s') \<Longrightarrow> \<exists>bs' D'. pile C V N T b bs' D' s' \<and> b + int (length bs') = bestHeader s"
proof (induction fuel arbitrary: bs D ht s)
  case (Suc fuel)
  let ?t = "blockheader_tbl (db s)"
  have c: "chain_inv s" and b: "0 \<le> b" using Suc.prems(1) by (simp_all add: pile_def)
  show ?case
  proof (cases "ht > bestHeader s")
    case True
    with Suc.prems show ?thesis by force
  next
    case False
    let ?p = "take 2000 (map bh_Hash (drop (nat (ht - 1)) ?t))"
    have ht: "1 \<le> ht" using Suc.prems(3) b by simp
    have p: "selectBlockHashesAtHeight s ht 2000 = Inr ?p"
      using blockHashes_chain [OF c, of ht 2000] ht Suc.prems(2) False by (simp add: at_tip_def sql_limit_def)
    with Suc.prems(5) False obtain ht' s1 where r: "syncBlocks C N ?p ht s = (Inr ht', s1)" "syncWallets_loop C N fuel ht' s1 = Some (Inr (), s')"
      by (cases "syncBlocks C N ?p ht s"; cases "fst (syncBlocks C N ?p ht s)") auto
    have "?p = map bh_Hash (take (length ?p) (drop (nat (ht - 1)) ?t))" by (simp add: take_map min_def)
    from pile_syncBlocks [OF N Suc.prems(1,3) this r(1)] obtain bs1 D1 where p1: "pile C V N T b bs1 D1 s1" "ht' = b + int (length bs1) + 1" by blast
    have f: "chain_frame s s1" using syncBlocks_chain_frame [of s C N ?p ht] r(1) by simp
    have best: "bestHeader s1 = bestHeader s" using f by (simp add: chain_frame_def)
    have "ht' = ht + int (length ?p)" by (rule syncBlocks_count [OF r(1)])
    then have "ht' \<le> bestHeader s1 + 1" using Suc.prems(2) False ht by (simp add: at_tip_def best min_def) linarith
    from Suc.IH [OF p1(1) chain_frame_inv(2) [OF f Suc.prems(2)] p1(2) this r(2)] best show ?thesis by simp
  qed
qed simp

lemma pile_syncWallets:
  assumes N: "honest V N" "no_repeats N" and p: "pile C V N T b bs D s" "scanned s = b + int (length bs)" and s: "at_tip s" "wallets s \<noteq> []"
    and run: "syncWallets C N fuel s = Some (Inr (), s')"
  shows "\<exists>bs' D'. pile C V N T b bs' D' s' \<and> scanned s' = b + int (length bs') \<and> bestHeader s \<le> scanned s'"
proof -
  obtain w ws where w: "wallets s = w # ws" using s(2) by (cases "wallets s") auto
  note h = scanned_foldl [OF w]
  show ?thesis
  proof (cases "scanned s \<ge> bestHeader s")
    case True
    then have "s' = s" using run w h by (auto simp: syncWallets_def Let_def)
    with p True show ?thesis by auto
  next
    case False
    then have loop: "syncWallets_loop C N fuel (scanned s + 1) s = Some (Inr (), s')" using run w h by (simp add: syncWallets_def Let_def)
    from pile_syncWallets_loop [OF N p(1) s(1) _ _ loop] p(2) False
    obtain bs' D' where q: "pile C V N T b bs' D' s'" "b + int (length bs') = bestHeader s" by auto
    have "chain_inv s" "1 \<le> scanned s + 1" using p by (auto simp: pile_def)
    from syncWallets_loop_max [OF this(1) s(1) this(2) _ loop] False s(2) have "scanned s' = max (bestHeader s) (scanned s)" by (simp add: scanned_raise)
    with q False show ?thesis by auto
  qed
qed

lemma foldl_min_min: "foldl min (min k a) (map (min k) xs) = min k (foldl min a xs)" for a k :: int
proof (induction xs arbitrary: a)
  case (Cons x xs)
  have "min (min k a) (min k x) = min k (min a x)" by (simp add: min_def)
  with Cons show ?case by simp
qed simp

lemma scanned_lower: "map wl_height (wallets s') = map (\<lambda>w. min k (wl_height w)) (wallets s) \<Longrightarrow> wallets s \<noteq> [] \<Longrightarrow> scanned s' = min k (scanned s)"
  using foldl_min_min [of k "wl_height (hd (wallets s))" "map wl_height (wallets s)"]
  by (cases "wallets s"; cases "wallets s'") (auto simp: scanned_def comp_def)

text \<open>A state whose pile reaches to the height up to which the wallets have been scanned.\<close>

definition piled :: "crypto \<Rightarrow> utxos \<Rightarrow> node \<Rightarrow> hash32 set \<Rightarrow> int \<Rightarrow> 'z W_scheme \<Rightarrow> bool" where
  "piled C V N T b0 s \<longleftrightarrow> wallets s \<noteq> []
     \<and> (\<exists>b bs D. b \<le> b0 \<and> pile C V N T b bs D s \<and> scanned s = b + int (length bs))"

lemma piled_syncWallets:
  assumes "honest V N" "no_repeats N" "piled C V N T b0 s" "at_tip s" "syncWallets C N fuel s = Some (Inr (), s')"
  shows "piled C V N T b0 s' \<and> int (length (blockheader_tbl (db s'))) \<le> scanned s'"
proof -
  obtain b bs D where b: "b \<le> b0" "pile C V N T b bs D s" "scanned s = b + int (length bs)" and w: "wallets s \<noteq> []"
    using assms(3) by (auto simp: piled_def)
  have c: "blockheader_tbl (db s') = blockheader_tbl (db s)" "length (wallets s') = length (wallets s)"
    using syncWallets_cases [OF assms(5)] by (simp_all add: chain_frame_def)
  have "wallets s' \<noteq> []" using c(2) w by auto
  with pile_syncWallets [OF assms(1,2) b(2,3) assms(4) w assms(5)] b(1) assms(4) show ?thesis
    by (auto simp: piled_def at_tip_def c(1))
qed

lemma piled_syncRound:
  assumes N: "wf_node N" "honest V N" "no_repeats N" and p: "piled C V N T b0 s" and run: "syncRound C N fuel s = Some (Inr u, s')"
  shows "piled C V N T b0 s' \<and> int (length (blockheader_tbl (db s'))) \<le> scanned s'"
proof -
  obtain b bs D where b: "b \<le> b0" "pile C V N T b bs D s" "scanned s = b + int (length bs)" and w: "wallets s \<noteq> []"
    using p by (auto simp: piled_def)
  have ch: "chain_inv s" using b(2) by (simp add: pile_def)
  obtain q s1 where h: "syncHeaders N fuel s = Some (q, s1)" using run by (cases "syncHeaders N fuel s") (auto simp: syncRound_def)
  have st: "hdr_step s s1" by (rule syncHeaders_steps [OF N(1) ch h])
  then have s1: "chain_inv s1" "at_tip s1" "wallets s1 = wallets s" by (simp_all add: hdr_step_def hdr_frame_def)
  have "hash_keys s" using pile_chain(2) [OF b(2)] by (simp add: hash_keys_def)
  then have p1: "pile C V N T b bs D s1" by (intro pile_headers [OF b(2) st] syncHeaders_keys [OF h])
  note e1 = scanned_cong [OF s1(3)]
  consider "q = Inr ()" | k where "q = Inl (ErrReorg k)" | e where "q = Inl e" "\<nexists>k. e = ErrReorg k" by (cases q) auto
  then show ?thesis
  proof cases
    case 1
    then have "syncWallets C N fuel s1 = Some (Inr (), s')" using run h by (simp add: syncRound_def)
    moreover have "piled C V N T b0 s1" using b p1 w e1 s1(3) by (auto simp: piled_def)
    ultimately show ?thesis using piled_syncWallets [OF N(2,3) _ s1(2)] by blast
  next
    case (2 k)
    from syncHeaders_start [OF ch, of N fuel] obtain s2 where s2: "syncHeaders N fuel s = syncHeaders_loop N fuel s2" "hdr_step s s2" by blast
    then have "chain_inv s2" "at_tip s2" by (simp_all add: hdr_step_def)
    from syncHeaders_loop_ErrReorg [OF N(1) this, of fuel k s1] have k: "1 \<le> k" "k < bestHeader s1" using h 2 s2(1) by auto
    then have k': "k \<le> int (length (blockheader_tbl (db s1)))" using s1(2) by (simp add: at_tip_def)
    obtain r s3 where r: "processReorg k s1 = (r, s3)" by force
    note R = pile_reorg [OF p1 k(1) k' r]
    have run3: "syncWallets C N fuel s3 = Some (Inr (), s')" using run h 2 r R(2) by (simp add: syncRound_def)
    have "scanned s3 = min k (scanned s)" using e1 w s1(3) by (subst scanned_lower [of s3 k s1]) (simp_all add: R(6))
    also have "\<dots> = min b k + int (length (take (nat (k - b)) bs))" using b(3) by (auto simp: min_def)
    finally have sc: "scanned s3 = min b k + int (length (take (nat (k - b)) bs))" .
    have "at_tip s3" using k(1) k' by (simp add: at_tip_def R(3-5))
    moreover have "wallets s3 \<noteq> []" using w s1(3) by (simp add: R(6))
    then have "piled C V N T b0 s3" using R(1) sc b(1) unfolding piled_def by (meson min.coboundedI1)
    ultimately show ?thesis using piled_syncWallets [OF N(2,3) _ _ run3] by blast
  next
    case (3 e)
    then show ?thesis using run h by (auto simp: syncRound_def split: error.splits)
  qed
qed

lemma piled_service:
  assumes N: "wf_node N" "honest V N" "no_repeats N" and w0: "unused w0" "spk_inv C w0" "wallets w0 \<noteq> []" "0 \<le> scanned w0"
    and "service_reach C N w0 ls a"
  shows "fst a \<in> {Starting, Serving} \<longrightarrow> piled C V N (dom (scriptPubkeys w0)) (scanned w0) (snd a)
    \<and> (fst a = Serving \<longrightarrow> int (length (blockheader_tbl (db (snd a)))) \<le> scanned (snd a))"
  using assms(8)
proof (induction rule: service_reach.induct)
  case start
  note i = unused_inv [OF w0(1,2)]
  have "spent_inv (db w0)" by (simp add: spent_inv_def unused_empty [OF w0(1)])
  then have "pile C V N (dom (scriptPubkeys w0)) (scanned w0) [] (\<lambda>_. empty_database) w0"
    using i(1) [of V] i(2,3) w0(4)
    by (auto simp: pile_def layer_def wm_inv_def txs_of_def unspent_map_def unused_empty [OF w0(1)] intro: no_txs)
  then show ?case using w0(3) by (auto simp: piled_def intro!: exI [of _ "scanned w0"] exI [of _ "[]"])
next
  case (step ls a l b)
  obtain p s p' s' where ab: "a = (p, s)" "b = (p', s')" by (metis surj_pair)
  show ?case
  proof (cases "l = Round")
    case True
    from step.hyps(2) [unfolded ab True] show ?thesis
    proof (cases rule: service_step.cases)
      case (round_ok fuel u)
      with piled_syncRound [OF N, of C "dom (scriptPubkeys w0)" "scanned w0" s fuel u s'] step.IH show ?thesis by (auto simp: ab)
    next
      case (round_err fuel e)
      then have "p' \<notin> {Starting, Serving}" by (auto simp: after_error_def split: error.split)
      then show ?thesis by (simp add: ab)
    qed
  next
    case False
    show ?thesis
    proof (cases "p' = Serving")
      case True
      from client_tip_frame [OF step.hyps(2) [unfolded ab] False True]
      have f: "p = Serving" "tip_frame s s'" "scriptPubkeys s' = scriptPubkeys s" "utxoIndex s' = utxoIndex s" by blast+
      have e: "db s' = db s" "wallets s' = wallets s" "net s' = net s" using f(2) by (simp_all add: tip_frame_def)
      show ?thesis using step.IH f(1) True by (simp add: ab piled_def pile_cong [OF e(1,2) f(3,4) e(3)] scanned_cong [OF e(2)] e)
    next
      case F: False
      have "p' \<noteq> Starting" using step.hyps(2) [unfolded ab] False by cases auto
      with F show ?thesis by (simp add: ab)
    qed
  qed
qed

section \<open>A sample run\<close>

lemma pay_node_no_repeats: "no_repeats (pay_node p)"
proof -
  have "Block_Hash x = Block_Hash (pay_block p)" if "given (pay_node p) x" for x
    using that by (auto simp: given_def pay_node_def split: if_splits)
  moreover have "bh_Hash (rows ! i) \<noteq> bh_Hash (rows ! j)" if "distinct (map bh_Hash rows)" "i < j" "j < length rows" for rows i j
    using nth_eq_iff_index_eq [OF that(1), of i j] that(2,3) by simp
  ultimately show ?thesis unfolding no_repeats_def by metis
qed

lemma sample_sync:
  "\<exists>(w0 :: W) p w. unused w0 \<and> spk_inv xor_crypto w0 \<and> wallets w0 \<noteq> []
     \<and> scanned w0 = 0 \<and> Sum256 p \<in> dom (scriptPubkeys w0) \<and> service_reach xor_crypto (pay_node p) w0 [Round] (Serving, w)
     \<and> blockheader_tbl (db w) = [headerRow 1 (pay_header p)]"
proof -
  obtain t :: W and p where t: "wm_inv xor_crypto (sample_V p) t" "Sum256 p \<in> dom (scriptPubkeys t)" "unspent_map t = Map.empty"
      "ready xor_crypto 1 t" "length (wallets t) = 1" "tx_tbl (db t) = []" "unspent_tbl (db t) = []"
      "stx_tbl (db t) = []" "spent_tbl (db t) = []"
    using sample_state by blast
  let ?b = "pay_block p" and ?h = "pay_header p" and ?N = "pay_node p"
  define w0 where "w0 = t\<lparr>db := (db t)\<lparr>blockheader_tbl := []\<rparr>, net := Regtest, calls := 0, wallets := map (\<lambda>w. w\<lparr>wl_height := 0\<rparr>) (wallets t)\<rparr>"
  have sc: "script_at C (w\<lparr>wl_height := 0\<rparr>) a j = script_at C w a j" "nDerived a (w\<lparr>wl_height := 0\<rparr>) = nDerived a w"
      "nextIndex a (w\<lparr>wl_height := 0\<rparr>) = nextIndex a w" for C w a j
    by (simp_all add: script_at_def nDerived_def nextIndex_def)
  have spk: "spk_inv xor_crypto w0" using t(1)
    by (auto simp: w0_def wm_inv_def spk_inv_def entry_ok_def covered_def sc)
  have u0: "unused w0"
  proof -
    have "distinct (map wd_Hash (wallet_tbl (db t)))" "utxoIndex t = []"
      using t(1,3) by (auto simp: wm_inv_def db_inv_def pk_inv_def cache_inv_def)
    then show ?thesis using t(6-9) by (simp add: unused_def w0_def empty_database_def)
  qed
  have i0: "wm_inv xor_crypto (sample_V p) w0" and c0: "chain_inv w0" using unused_inv [OF u0 spk] by blast+
  obtain x where x: "wallets w0 = [x]" "wl_height x = 0" using t(5) by (auto simp: w0_def length_Suc_conv)
  have rdy: "ready xor_crypto 1 w0" using t(4) by (simp add: ready_def derivable_def room_def reach_def w0_def sc list_all_iff)
  have sv: "serves ?N genesis [?h] 1 0 0"
    unfolding serves_def
  proof (intro conjI allI)
    fix i show "nd_headers ?N (0 + i) [hashAt genesis [?h] (min (0 + i * 1) (length [?h]))] = Inr (take 1 (drop (0 + i * 1) [?h]))"
      by (cases i) (simp_all add: pay_node_def)
  qed (use pay_facts(2) in \<open>simp_all add: pay_node_def pay_header_def hashAt_def del: genesisBlockData.simps\<close>)
  let ?s0 = "w0\<lparr>bestHeader := 0, bestHeaderHash := genesis\<rparr>"
  have st: "syncHeaders ?N 2 w0 = syncHeaders_loop ?N 2 ?s0"
    by (simp add: syncHeaders_def storedTip_def selectLastBlockHeaderData_def headers_desc_def queryRow_def w0_def del: syncHeaders_loop.simps)
  have "has_chain genesis [?h] 0 ?s0" by (simp add: has_chain_def genesisHash_def rowsOf_def hashAt_def w0_def)
  then obtain s1 where s1: "syncHeaders ?N 2 w0 = Some (Inr (), s1)" "has_chain genesis [?h] 1 s1"
    using syncHeaders_loop_serves [OF sv, of 0 ?s0 2] unfolding st by (auto simp: w0_def)
  have step: "hdr_step w0 s1" by (rule syncHeaders_steps [OF pay_node_ok(1) c0 s1(1)])
  have "hash_keys w0" by (simp add: hash_keys_def w0_def)
  then have i1: "wm_inv xor_crypto (sample_V p) s1" by (intro hdr_step_wm [OF step syncHeaders_keys [OF s1(1)] i0])
  have f: "chain_inv s1" "at_tip s1" "wallets s1 = [x]" using step x by (simp_all add: hdr_step_def hdr_frame_def)
  have tb: "blockheader_tbl (db s1) = [headerRow 1 ?h]" "bestHeader s1 = 1" using s1(2) by (simp_all add: has_chain_def rowsOf_def)
  let ?s2 = "s1\<lparr>calls := Suc (calls s1)\<rparr>"
  have "wm_inv xor_crypto (sample_V p) ?s2" using i1 by (simp add: wm_inv_def cache_inv_def spk_inv_def unspent_map_def)
  moreover have "has_header ?b (db ?s2)" by (simp add: has_header_def tb headerRow_def pay_facts(1))
  moreover have "distinct (TXIDs ?b)" "block_outputs (sample_V p) ?b"
    using sample_block_facts(1,2) [of p] by (simp_all add: TXIDs_def block_outputs_def pay_facts(3))
  moreover have "ready xor_crypto (outputCount (b_Transactions ?b)) ?s2"
    using rdy f(3) x(1) by (simp add: pay_facts(3) sample_block_facts(7) ready_def)
  ultimately obtain w where w: "processBlock xor_crypto ?b 1 ?s2 = (Inr (), w)"
    using processBlock_progress [of xor_crypto "sample_V p" ?s2 ?b 1] sample_block_facts(8) [of p] by (auto simp: pay_facts(3))
  have cf: "blockheader_tbl (db w) = [headerRow 1 ?h]" "bestHeader w = 1"
    using processBlock_chain_frame [of ?s2 xor_crypto ?b 1] w tb by (simp_all add: chain_frame_def)
  have page: "selectBlockHashesAtHeight s1 1 2000 = Inr [Block_Hash ?b]"
    using blockHashes_chain [OF f(1), of 1 2000] by (simp add: tb sql_limit_def headerRow_def pay_facts(1))
  have "syncBlocks xor_crypto ?N [Block_Hash ?b] 1 s1 = (Inr 2, w)"
    using w by (simp add: GetBlock_def pay_node_def sqlExecute_def)
  then have "syncWallets xor_crypto ?N 2 s1 = Some (Inr (), w)"
    using page cf by (simp add: syncWallets_def f(3) x(2) tb numeral_2_eq_2 del: syncBlocks.simps)
  then have "syncRound xor_crypto ?N 2 w0 = Some (Inr (), w)" using s1(1) by (simp add: syncRound_def)
  then have "service_reach xor_crypto ?N w0 [Round] (Serving, w)"
    using service_reach.step [OF service_reach.start round_ok [of Starting xor_crypto ?N 2 w0 "()" w]] by simp
  moreover have "scanned w0 = 0" "Sum256 p \<in> dom (scriptPubkeys w0)"
    using t(2) x by (simp_all add: scanned_def) (simp_all add: w0_def)
  ultimately show ?thesis using u0 spk x(1) cf(1) by (intro exI [of _ w0] exI [of _ p] exI [of _ w]) simp
qed

section \<open>The promise of the service\<close>

text \<open>C7. What clients are served, whatever reorganisations the node has reported before: with a node that is honest about blocks, and on whose
  chains no transaction occurs twice, one block that the node gave has been processed for every stored header above a height \<open>b\<close>, which
  is at most that of the lowest wallet at the start, and the unspent outputs are what one run of the ledger over these blocks makes of none. So,
  if no transaction is spent before it occurs, every unspent output was created in one of these blocks, pays a wallet and is
  spent in none of them; and every output that pays a script tracked from the start and is spent in none of them is there.\<close>

theorem served_ledger:
  assumes "wf_node N" "honest V N" "no_repeats N" "unused w0" "spk_inv C w0" "wallets w0 \<noteq> []" "0 \<le> scanned w0"
    and "service_reach C N w0 ls (Serving, w)"
  shows "\<exists>b bs. 0 \<le> b \<and> b \<le> scanned w0 \<and> map Block_Hash bs = map bh_Hash (drop (nat b) (blockheader_tbl (db w)))
    \<and> list_all (given N) bs \<and> cache_inv w
    \<and> ledger_txs (dom (scriptPubkeys w0)) (dom (scriptPubkeys w)) (txs_of bs) Map.empty (unspent_map w)
    \<and> (in_order (txs_of bs) \<longrightarrow> (\<forall>k v out.
        (unspent_map w k = Some v \<longrightarrow> (\<exists>out. v = outputValue out \<and> owned (dom (scriptPubkeys w)) (txs_of bs) k out))
        \<and> (owned (dom (scriptPubkeys w0)) (txs_of bs) k out \<longrightarrow> unspent_map w k = Some (outputValue out))))"
proof -
  obtain b bs D where b: "b \<le> scanned w0" "pile C V N (dom (scriptPubkeys w0)) b bs D w" "scanned w = b + int (length bs)"
      "int (length (blockheader_tbl (db w))) \<le> scanned w"
    using piled_service [OF assms] by (auto simp: piled_def)
  have "take (length bs) (drop (nat b) (blockheader_tbl (db w))) = drop (nat b) (blockheader_tbl (db w))"
    using b(3,4) by simp
  then have p: "0 \<le> b" "map Block_Hash bs = map bh_Hash (drop (nat b) (blockheader_tbl (db w)))" "list_all (given N) bs" "wm_inv C V w"
      "ledger_txs (dom (scriptPubkeys w0)) (dom (scriptPubkeys w)) (txs_of bs) Map.empty (unspent_map w)"
    using b(2) by (simp_all add: pile_def layer_def unspent_map_def)
  have V: "\<forall>b\<in>set bs. block_outputs V b" using p(3) assms(2) unfolding honest_def given_def list_all_iff by blast
  have "cache_inv w" "unspent_map w \<subseteq>\<^sub>m V" using p(4) by (simp_all add: wm_inv_def)
  with b(1) p ledger_owned [OF p(5) V] show ?thesis by blast
qed

theorem served_ledger_witness:
  "\<exists>(w0 :: W) p w k. service_reach xor_crypto (pay_node p) w0 [Round] (Serving, w) \<and> unspent_map w0 = Map.empty
     \<and> unspent_map w k = Some (outputValue (sample_pay p))"
proof -
  obtain w0 :: W and p w where s: "unused w0" "spk_inv xor_crypto w0" "wallets w0 \<noteq> []" "scanned w0 = 0"
      "Sum256 p \<in> dom (scriptPubkeys w0)" "service_reach xor_crypto (pay_node p) w0 [Round] (Serving, w)"
      "blockheader_tbl (db w) = [headerRow 1 (pay_header p)]"
    using sample_sync by blast
  have "0 \<le> scanned w0" by (simp add: s(4))
  from served_ledger [OF pay_node_ok pay_node_no_repeats s(1-3) this s(6)]
  obtain b bs where b: "0 \<le> b" "b \<le> 0" "map Block_Hash bs = map bh_Hash (drop (nat b) [headerRow 1 (pay_header p)])" "list_all (given (pay_node p)) bs"
      and own: "in_order (txs_of bs) \<Longrightarrow> owned (dom (scriptPubkeys w0)) (txs_of bs) k out \<Longrightarrow> unspent_map w k = Some (outputValue out)" for k out
    unfolding s(4,7) by (elim exE conjE, intro that) (assumption, assumption, assumption, assumption, blast)
  have "map Block_Hash bs = [Header_Hash (pay_header p)]" using b(1-3) by (simp add: headerRow_def)
  then have "bs = [pay_block p]" using b(4) by (auto simp: given_def pay_node_def split: if_splits)
  then have tx: "txs_of bs = [sample_pay_tx p]" by (simp add: txs_of_def pay_facts(3) sample_block_facts(3))
  let ?k = "makeTxidVout (Txid (sample_pay_tx p)) 0"
  have "\<not> spent (txs_of bs) ?k"
    unfolding tx by (auto simp: spent_def sample_pay_tx_def sample_tx_def outpoint_def makeTxidVout_inj)
  moreover have "created (txs_of bs) ?k (sample_pay p)" unfolding tx by (simp add: created_def sample_block_facts(4))
  ultimately have "owned (dom (scriptPubkeys w0)) (txs_of bs) ?k (sample_pay p)"
    using s(5) by (simp add: owned_def sample_block_facts(6))
  moreover have "in_order (txs_of bs)" using sample_block_facts(5) [of p] by (simp add: tx sample_block_facts(3))
  ultimately show ?thesis using own s(6) unused_inv(3) [OF s(1,2)] by blast
qed

end
