(* ===== verification/Base58.thy ===== *)
theory Base58
  imports Bip32
begin

text \<open>
  \<open>bitcoin/base58\<close>: encoding of bytes in base 58, with and without a checksum, and the text form of extended keys
  (\<open>ExtendedEncode\<close>, \<open>ExtendedDecodeUnchecked\<close>). Big integers are \<open>int\<close>; the 64-bit integers of the inner loops stay below
  \<open>58\<^sup>1\<^sup>0 < 2\<^sup>6\<^sup>3\<close>.

  Shown: the loops over chunks of ten digits are plain conversions to and from base 58 (\<open>encOuter_digits\<close>,
  \<open>decOuter_value\<close>), and decoding what was encoded gives it back.
\<close>

section \<open>Digits\<close>

definition alphabet :: bytes where
  "alphabet = [0x31, 0x32, 0x33, 0x34, 0x35, 0x36, 0x37, 0x38, 0x39, 0x41, 0x42, 0x43, 0x44, 0x45, 0x46, 0x47, 0x48, 0x4a, 0x4b, 0x4c, 0x4d,
     0x4e, 0x50, 0x51, 0x52, 0x53, 0x54, 0x55, 0x56, 0x57, 0x58, 0x59, 0x5a, 0x61, 0x62, 0x63, 0x64, 0x65, 0x66, 0x67, 0x68, 0x69,
     0x6a, 0x6b, 0x6d, 0x6e, 0x6f, 0x70, 0x71, 0x72, 0x73, 0x74, 0x75, 0x76, 0x77, 0x78, 0x79, 0x7a]"

definition b58table :: bytes where
  "b58table = [
     255, 255, 255, 255, 255, 255, 255, 255, 255, 255, 255, 255, 255, 255, 255, 255, 255, 255, 255, 255, 255, 255, 255, 255, 255, 255, 255, 255, 255, 255, 255, 255,
     255, 255, 255, 255, 255, 255, 255, 255, 255, 255, 255, 255, 255, 255, 255, 255, 255, 0, 1, 2, 3, 4, 5, 6, 7, 8, 255, 255, 255, 255, 255, 255,
     255, 9, 10, 11, 12, 13, 14, 15, 16, 255, 17, 18, 19, 20, 21, 255, 22, 23, 24, 25, 26, 27, 28, 29, 30, 31, 32, 255, 255, 255, 255, 255,
     255, 33, 34, 35, 36, 37, 38, 39, 40, 41, 42, 43, 255, 44, 45, 46, 47, 48, 49, 50, 51, 52, 53, 54, 55, 56, 57, 255, 255, 255, 255, 255,
     255, 255, 255, 255, 255, 255, 255, 255, 255, 255, 255, 255, 255, 255, 255, 255, 255, 255, 255, 255, 255, 255, 255, 255, 255, 255, 255, 255, 255, 255, 255, 255,
     255, 255, 255, 255, 255, 255, 255, 255, 255, 255, 255, 255, 255, 255, 255, 255, 255, 255, 255, 255, 255, 255, 255, 255, 255, 255, 255, 255, 255, 255, 255, 255,
     255, 255, 255, 255, 255, 255, 255, 255, 255, 255, 255, 255, 255, 255, 255, 255, 255, 255, 255, 255, 255, 255, 255, 255, 255, 255, 255, 255, 255, 255, 255, 255,
     255, 255, 255, 255, 255, 255, 255, 255, 255, 255, 255, 255, 255, 255, 255, 255, 255, 255, 255, 255, 255, 255, 255, 255, 255, 255, 255, 255, 255, 255, 255, 255]"

section \<open>Encoding\<close>

text \<open>The inner loop, at most \<open>k\<close> digits of \<open>primitiveNum\<close>, and the loop over chunks; digits come least significant first.\<close>

fun encInner :: "nat \<Rightarrow> int \<Rightarrow> int \<Rightarrow> bytes" where
  "encInner 0 num prim = []"
| "encInner (Suc k) num prim =
     (if num > 0 \<or> prim > 0 then alphabet ! nat (prim mod 58) # encInner k num (prim div 58) else [])"

definition bigIntermediateRadix :: int where "bigIntermediateRadix = 430804206899405824"

function encOuter :: "int \<Rightarrow> bytes" where
  "encOuter num =
     (if num > 0 then encInner 10 (num div bigIntermediateRadix) (num mod bigIntermediateRadix) @ encOuter (num div bigIntermediateRadix) else [])"
  by pat_completeness auto
termination
  by (relation "measure nat") (auto simp: bigIntermediateRadix_def int_div_less_self)

declare encOuter.simps [simp del]

definition setBytes :: "bytes \<Rightarrow> int" where
  "setBytes b = foldl (\<lambda>a x. a * 256 + uint x) 0 b"

definition Encode :: "bytes \<Rightarrow> bytes" where
  "Encode input = rev (encOuter (setBytes input) @ replicate (length (takeWhile (\<lambda>x. x = 0) input)) (alphabet ! 0))"

section \<open>Decoding\<close>

text \<open>One chunk: it ends at the next index that is a multiple of ten. \<open>f\<close> marks its first digit.\<close>

fun decInner :: "bool \<Rightarrow> nat \<Rightarrow> int \<Rightarrow> int \<Rightarrow> bytes \<Rightarrow> (int \<times> int \<times> nat \<times> bytes) result" where
  "decInner f i a m [] = Inr (a, m, i, [])"
| "decInner f i a m (c # cs) =
     (if f \<or> i mod 10 \<noteq> 0 then
        (let tmp = b58table ! unat c in
         if tmp = 255 then Inl (Err ''invalid Base58 input string'')
         else decInner False (i + 1) (a * 58 + uint tmp) (if f then m else m * 58) cs)
      else Inr (a, m, i, c # cs))"

lemma decInner_length: "decInner f i a m s = Inr (a', m', i', r) \<Longrightarrow> length r \<le> length s - (if f then 1 else 0)"
  by (induction f i a m s rule: decInner.induct) (fastforce simp: Let_def split: if_splits)+

function decOuter :: "nat \<Rightarrow> int \<Rightarrow> bytes \<Rightarrow> int result" where
  "decOuter i res s =
     (if s = [] then Inr res
      else case decInner True i 0 58 s of Inl e \<Rightarrow> Inl e | Inr (a, m, i, r) \<Rightarrow> decOuter i (res * m + a) r)"
  by pat_completeness auto
termination
  by (relation "measure (\<lambda>(i, res, s). length s)") (auto dest!: decInner_length simp: less_le_trans Suc_le_eq neq_Nil_conv)

declare decOuter.simps [simp del]

text \<open>\<open>big.Int.Bytes\<close>: big endian, without leading zeros.\<close>

function bigBytes :: "int \<Rightarrow> bytes" where
  "bigBytes n = (if n > 0 then bigBytes (n div 256) @ [word_of_int (n mod 256)] else [])"
  by pat_completeness auto
termination by (relation "measure nat") (auto simp: int_div_less_self)

declare bigBytes.simps [simp del]

definition Decode :: "bytes \<Rightarrow> bytes result" where
  "Decode input = rbind (decOuter 0 0 input) (\<lambda>n.
     Inr (replicate (length (takeWhile (\<lambda>c. c = 0x31) input)) 0 @ bigBytes n))"

section \<open>Checksums and extended keys\<close>

definition checksum :: "bytes \<Rightarrow> bytes" where
  "checksum data = take 4 (Sum256 (Sum256 data))"

definition CheckEncode :: "bytes \<Rightarrow> bytes" where
  "CheckEncode data = Encode (data @ checksum data)"

definition CheckDecode :: "bytes \<Rightarrow> bytes result" where
  "CheckDecode s =
     rbind (Decode s) (\<lambda>data.
     if length data < 5 then Inl (Err ''bad base58 data size'')
     else let d = take (length data - 4) data in
       if checksum d \<noteq> drop (length data - 4) data then Inl (Err ''bad checksum'') else Inr d)"

definition ExtendedEncode :: "ExtendedKey \<Rightarrow> bytes" where
  "ExtendedEncode e = CheckEncode (ek_Version e @ [ek_Depth e] @ ek_Fingerprint e @ ek_ChildNum e @ ek_Chaincode e @ ek_Key e)"

definition ExtendedDecodeUnchecked :: "bytes \<Rightarrow> ExtendedKey result" where
  "ExtendedDecodeUnchecked b58x =
     (case CheckDecode b58x of
        Inl e \<Rightarrow> Inl (Err ''invalid checksum'')
      | Inr data \<Rightarrow>
          if length data \<noteq> 78 then Inl (Err ''bad extended key data'')
          else Inr \<lparr>ek_Version = take 4 data, ek_Depth = data ! 4, ek_Fingerprint = take 4 (drop 5 data),
             ek_ChildNum = take 4 (drop 9 data), ek_Chaincode = take 32 (drop 13 data), ek_Key = take 33 (drop 45 data)\<rparr>)"

section \<open>Conversions to and from base 58\<close>

function digits58 :: "int \<Rightarrow> int list" where
  "digits58 n = (if n > 0 then n mod 58 # digits58 (n div 58) else [])"
  by pat_completeness auto
termination by (relation "measure nat") (auto simp: int_div_less_self)

declare digits58.simps [simp del]

abbreviation letter :: "int \<Rightarrow> byte" where
  "letter d \<equiv> alphabet ! nat d"

fun lowDigits :: "nat \<Rightarrow> int \<Rightarrow> int list" where
  "lowDigits 0 p = []"
| "lowDigits (Suc k) p = p mod 58 # lowDigits k (p div 58)"

lemma encInner_more: "0 < q \<Longrightarrow> encInner k q p = map letter (lowDigits k p)"
  by (induction k arbitrary: p) auto

lemma encInner_last: "0 \<le> p \<Longrightarrow> p < 58 ^ k \<Longrightarrow> encInner k 0 p = map letter (digits58 p)"
proof (induction k arbitrary: p)
  case 0
  then show ?case by (simp add: digits58.simps)
next
  case (Suc k)
  have "p div 58 < 58 ^ k" using Suc.prems(2) by (simp add: div_less_iff_less_mult mult.commute)
  with Suc show ?case by (simp add: digits58.simps [of p])
qed

lemma digits58_split: "0 < q \<Longrightarrow> 0 \<le> p \<Longrightarrow> p < 58 ^ k \<Longrightarrow> digits58 (q * 58 ^ k + p) = lowDigits k p @ digits58 q"
proof (induction k arbitrary: p)
  case (Suc k)
  let ?n = "q * 58 ^ Suc k + p"
  have e: "?n = 58 * (q * 58 ^ k) + p" by simp
  have "?n mod 58 = p mod 58" "?n div 58 = q * 58 ^ k + p div 58" unfolding e by simp_all
  moreover have "0 < ?n" using Suc.prems by (simp add: add_pos_nonneg)
  moreover have "p div 58 < 58 ^ k" using Suc.prems(3) by (simp add: div_less_iff_less_mult mult.commute)
  ultimately show ?case using Suc.IH [of "p div 58"] Suc.prems by (subst digits58.simps) (simp add: pos_imp_zdiv_nonneg_iff)
next
  case 0
  then have "p = 0" by simp
  then show ?case by simp
qed

text \<open>The chunked loop writes the digits of the number.\<close>

lemma radix: "bigIntermediateRadix = 58 ^ 10"
  by (simp add: bigIntermediateRadix_def)

lemma encOuter_digits: "encOuter n = map letter (digits58 n)"
proof (induction n rule: encOuter.induct)
  case (1 n)
  show ?case
  proof (cases "n > 0")
    case True
    let ?q = "n div 58 ^ 10" and ?p = "n mod 58 ^ 10"
    have p: "0 \<le> ?p" "?p < 58 ^ 10" by simp_all
    have n: "?q * 58 ^ 10 + ?p = n" by (rule div_mult_mod_eq)
    have q: "0 \<le> ?q" using True by (simp add: pos_imp_zdiv_nonneg_iff)
    have e: "encOuter n = encInner 10 ?q ?p @ map letter (digits58 ?q)"
      using 1 True by (subst encOuter.simps) (simp only: radix if_True)
    show ?thesis
    proof (cases "?q = 0")
      case True
      then have "encOuter n = map letter (digits58 ?p)" using e encInner_last [OF p] by (simp add: digits58.simps [of 0])
      then show ?thesis using True n by simp
    next
      case False
      then have "encOuter n = map letter (lowDigits 10 ?p @ digits58 ?q)" using e q encInner_more [of ?q 10 ?p] by simp
      then show ?thesis using digits58_split [OF _ p, of ?q] False q n by simp
    qed
  qed (simp add: encOuter.simps digits58.simps)
qed

definition digit :: "byte \<Rightarrow> int" where
  "digit c = uint (b58table ! unat c)"

definition valid58 :: "byte \<Rightarrow> bool" where
  "valid58 c \<longleftrightarrow> b58table ! unat c \<noteq> 255"

definition value58 :: "int \<Rightarrow> bytes \<Rightarrow> int" where
  "value58 = foldl (\<lambda>r c. r * 58 + digit c)"

lemma value58_Cons: "value58 r (c # cs) = value58 (r * 58 + digit c) cs"
  by (simp add: value58_def)

lemma value58_append: "value58 r (cs @ ds) = value58 (value58 r cs) ds"
  by (simp add: value58_def)

lemma value58_shift: "value58 (r * 58 ^ k + a) cs = r * 58 ^ (k + length cs) + value58 a cs"
proof (induction cs arbitrary: k a)
  case (Cons c cs)
  have e: "(r * 58 ^ k + a) * 58 + digit c = r * 58 ^ Suc k + (a * 58 + digit c)" by (simp add: algebra_simps)
  have "value58 (r * 58 ^ k + a) (c # cs) = r * 58 ^ (Suc k + length cs) + value58 (a * 58 + digit c) cs"
    unfolding value58_Cons e by (rule Cons)
  then show ?case by (simp add: value58_Cons)
qed (simp add: value58_def)

lemma decInner_value:
  "list_all valid58 s \<Longrightarrow> \<exists>cs r. s = cs @ r \<and> (f \<longrightarrow> s \<noteq> [] \<longrightarrow> cs \<noteq> [])
     \<and> decInner f i a m s = Inr (value58 a cs, m * 58 ^ (length cs - (if f then 1 else 0)), i + length cs, r)"
proof (induction s arbitrary: f i a m)
  case Nil
  show ?case by (simp add: value58_def)
next
  case (Cons c s)
  show ?case
  proof (cases "f \<or> i mod 10 \<noteq> 0")
    case True
    let ?m = "if f then m else m * 58"
    from Cons.IH [of False "i + 1" "a * 58 + digit c" ?m] Cons.prems obtain cs r where r: "s = cs @ r"
        "decInner False (i + 1) (a * 58 + digit c) ?m s = Inr (value58 (a * 58 + digit c) cs, ?m * 58 ^ length cs, i + 1 + length cs, r)" by auto
    have "decInner f i a m (c # s) = Inr (value58 a (c # cs), m * 58 ^ (length (c # cs) - (if f then 1 else 0)), i + length (c # cs), r)"
      using True Cons.prems r(2) by (simp add: Let_def valid58_def digit_def value58_Cons del: decInner.simps(1)) 
    with r(1) show ?thesis by (intro exI [of _ "c # cs"] exI [of _ r]) simp
  next
    case False
    then show ?thesis by (intro exI [of _ "[]"] exI [of _ "c # s"]) (simp add: value58_def)
  qed
qed

lemma decOuter_value: "list_all valid58 s \<Longrightarrow> decOuter i res s = Inr (value58 res s)"
proof (induction "length s" arbitrary: i res s rule: less_induct)
  case less
  show ?case
  proof (cases "s = []")
    case False
    from decInner_value [OF less.prems, of True i 0 58] False obtain cs r where d: "s = cs @ r" "cs \<noteq> []"
        "decInner True i 0 58 s = Inr (value58 0 cs, 58 * 58 ^ (length cs - 1), i + length cs, r)" by auto
    have "(58 :: int) * 58 ^ (length cs - 1) = 58 ^ length cs" using d(2) by (cases cs) simp_all
    then have "res * (58 * 58 ^ (length cs - 1)) + value58 0 cs = value58 res cs"
      using value58_shift [of res 0 0 cs] by simp
    then have "decOuter i res s = decOuter (i + length cs) (value58 res cs) r"
      using False d(3) by (subst decOuter.simps) simp
    also have "\<dots> = Inr (value58 (value58 res cs) r)"
      by (rule less.hyps) (use d(1,2) less.prems in auto)
    finally show ?thesis by (simp add: d(1) value58_append)
  qed (simp add: decOuter.simps value58_def)
qed

lemma letters: "list_all (\<lambda>k. digit (alphabet ! k) = int k \<and> valid58 (alphabet ! k) \<and> (alphabet ! k = 0x31 \<longleftrightarrow> k = 0)) [0..<58]"
  by code_simp

lemma letter_facts:
  assumes "0 \<le> d" "d < 58"
  shows "digit (letter d) = d" "valid58 (letter d)" "letter d = 0x31 \<longleftrightarrow> d = 0"
proof -
  have "nat d \<in> set [0..<58]" using assms by auto
  with letters have "digit (letter d) = int (nat d) \<and> valid58 (letter d) \<and> (letter d = 0x31 \<longleftrightarrow> nat d = 0)"
    unfolding list_all_iff by blast
  with assms show "digit (letter d) = d" "valid58 (letter d)" "letter d = 0x31 \<longleftrightarrow> d = 0" by auto
qed

lemma digits58_range: "d \<in> set (digits58 n) \<Longrightarrow> 0 \<le> d \<and> d < 58"
proof (induction n rule: digits58.induct)
  case (1 n)
  show ?case
  proof (cases "n > 0")
    case True
    then show ?thesis using 1 by (subst (asm) (2) digits58.simps) auto
  qed (use 1(2) in \<open>simp add: digits58.simps\<close>)
qed

lemma digits58_last: "0 < n \<Longrightarrow> digits58 n \<noteq> [] \<and> last (digits58 n) \<noteq> 0"
proof (induction n rule: digits58.induct)
  case (1 n)
  show ?case
  proof (cases "n div 58 > 0")
    case True
    with 1 show ?thesis by (subst (1 2) digits58.simps) simp
  next
    case False
    then have "digits58 (n div 58) = []" "n < 58" using 1(2) by (auto simp: digits58.simps)
    with 1(2) show ?thesis by (subst (1 2) digits58.simps) simp
  qed
qed

lemma value58_digits: "0 \<le> n \<Longrightarrow> value58 0 (rev (map letter (digits58 n))) = n"
proof (induction n rule: digits58.induct)
  case (1 n)
  show ?case
  proof (cases "n > 0")
    case True
    have "value58 0 (rev (map letter (digits58 n))) = value58 0 (rev (map letter (digits58 (n div 58)))) * 58 + digit (letter (n mod 58))"
      using True by (subst digits58.simps) (simp add: value58_append value58_def)
    also have "\<dots> = n div 58 * 58 + n mod 58" using 1(1) [OF True] True by (simp add: letter_facts(1) pos_imp_zdiv_nonneg_iff)
    finally show ?thesis by simp
  qed (use 1(2) in \<open>simp add: digits58.simps value58_def\<close>)
qed

section \<open>Round trips\<close>

lemma setBytes_snoc: "setBytes (b @ [x]) = setBytes b * 256 + uint x"
  by (simp add: setBytes_def)

lemma setBytes_nonneg: "0 \<le> setBytes b"
  by (induction b rule: rev_induct) (simp_all add: setBytes_snoc, simp add: setBytes_def)

lemma setBytes_zeros: "setBytes (replicate z 0 @ b) = setBytes b"
proof -
  have "foldl (\<lambda>a (x :: byte). a * 256 + uint x) 0 (replicate z 0) = 0" by (induction z) simp_all
  then show ?thesis by (simp add: setBytes_def)
qed

lemma uint_byte: "0 \<le> uint (x :: byte)" "uint (x :: byte) < 256"
  using uint_bounded [of x] by simp_all

lemma bigBytes_setBytes: "b = [] \<or> hd b \<noteq> 0 \<Longrightarrow> bigBytes (setBytes b) = b \<and> (b \<noteq> [] \<longrightarrow> 0 < setBytes b)"
proof (induction b rule: rev_induct)
  case Nil
  then show ?case by (simp add: setBytes_def bigBytes.simps)
next
  case (snoc x b)
  have u: "0 \<le> uint x" "uint x < 256" by (rule uint_byte)+
  have IH: "bigBytes (setBytes b) = b \<and> (b \<noteq> [] \<longrightarrow> 0 < setBytes b)" using snoc by (cases b) auto
  have pos: "0 < setBytes (b @ [x])"
  proof (cases "b = []")
    case True
    then have "x \<noteq> 0" using snoc.prems by simp
    then have "0 < uint x" using u(1) uint_0_iff [of x] by linarith
    then show ?thesis using True by (simp add: setBytes_def)
  next
    case False
    then have "0 < setBytes b" using IH by blast
    then show ?thesis using u(1) unfolding setBytes_snoc by linarith
  qed
  have "setBytes (b @ [x]) div 256 = setBytes b" "setBytes (b @ [x]) mod 256 = uint x"
    using u by (simp_all add: setBytes_snoc)
  then have "bigBytes (setBytes (b @ [x])) = b @ [x]" using pos IH by (subst bigBytes.simps) simp
  with pos show ?case by simp
qed

lemma valid_digits: "list_all valid58 (map letter (digits58 n))"
  using digits58_range by (auto simp: list_all_iff letter_facts)

lemma Decode_Encode: "Decode (Encode b) = Inr b"
proof -
  define z where "z = length (takeWhile (\<lambda>x. x = 0) b)"
  define b' where "b' = dropWhile (\<lambda>x. x = 0) b"
  have "takeWhile (\<lambda>x. x = 0) b = replicate z 0" unfolding z_def by (auto intro!: replicate_length_same [symmetric] dest: set_takeWhileD)
  then have b: "b = replicate z 0 @ b'" unfolding b'_def by (metis takeWhile_dropWhile_id)
  have hd: "b' = [] \<or> hd b' \<noteq> 0" unfolding b'_def using hd_dropWhile by blast
  let ?n = "setBytes b'" and ?d = "map letter (digits58 (setBytes b'))"
  have l0: "alphabet ! 0 = 0x31" by (simp add: alphabet_def)
  have e: "Encode b = replicate z 0x31 @ rev ?d"
    unfolding Encode_def z_def [symmetric] by (simp add: encOuter_digits setBytes_zeros b l0)
  have one: "digit 0x31 = 0" "valid58 0x31" using letter_facts(1,2) [of 0] l0 by simp_all
  have "value58 0 (replicate z 0x31) = 0" by (induction z) (simp_all add: value58_def one)
  then have v: "value58 0 (Encode b) = ?n" by (simp add: e value58_append value58_digits setBytes_nonneg)
  have "list_all valid58 (Encode b)" using valid_digits [of ?n] one(2) by (auto simp: e list_all_iff set_replicate_conv_if)
  then have d: "decOuter 0 0 (Encode b) = Inr ?n" using decOuter_value v by simp
  have "takeWhile (\<lambda>c. c = 0x31) (rev ?d) = []"
  proof (cases "b' = []")
    case True
    then show ?thesis by (simp add: setBytes_def digits58.simps)
  next
    case False
    then have "0 < ?n" using bigBytes_setBytes [OF hd] by blast
    then have l: "digits58 ?n \<noteq> []" "last (digits58 ?n) \<noteq> 0" using digits58_last by auto
    obtain ds l where ds: "digits58 ?n = ds @ [l]" using l(1) by (cases "digits58 ?n" rule: rev_cases) blast+
    then have "l \<noteq> 0" "l \<in> set (digits58 ?n)" using l(2) by simp_all
    then have "letter l \<noteq> 0x31" using letter_facts(3) digits58_range by blast
    then show ?thesis by (simp add: ds)
  qed
  then have "length (takeWhile (\<lambda>c. c = 0x31) (Encode b)) = z" unfolding e by (subst takeWhile_append2) simp_all
  moreover have "bigBytes ?n = b'" using bigBytes_setBytes [OF hd] by blast
  ultimately show ?thesis unfolding Decode_def using d b by simp
qed

lemma CheckDecode_CheckEncode:
  assumes "data \<noteq> []"
  shows "CheckDecode (CheckEncode data) = Inr data"
proof -
  have "length (checksum data) = 4" by (simp add: checksum_def)
  then show ?thesis using assms by (simp add: CheckDecode_def CheckEncode_def Decode_Encode Let_def Suc_le_eq)
qed

lemma Extended_roundtrip:
  assumes "wf_ExtendedKey k"
  shows "ExtendedDecodeUnchecked (ExtendedEncode k) = Inr k"
proof -
  let ?d = "ek_Version k @ [ek_Depth k] @ ek_Fingerprint k @ ek_ChildNum k @ ek_Chaincode k @ ek_Key k"
  have l: "length (ek_Version k) = 4" "length (ek_Fingerprint k) = 4" "length (ek_ChildNum k) = 4" "length (ek_Chaincode k) = 32" "length (ek_Key k) = 33"
    using assms by (simp_all add: wf_ExtendedKey_def)
  have c: "CheckDecode (CheckEncode ?d) = Inr ?d" by (rule CheckDecode_CheckEncode) simp
  show ?thesis unfolding ExtendedDecodeUnchecked_def ExtendedEncode_def c using l by (simp add: nth_append)
qed

section \<open>Only encodings are accepted\<close>

text \<open>The other direction: a text that \<open>Decode\<close> accepts is what \<open>Encode\<close> writes for the bytes returned, so no key
  has two texts.\<close>

lemma decInner_valid: "decInner f i a m s = Inr (a', m', i', r) \<Longrightarrow> list_all valid58 r \<Longrightarrow> list_all valid58 s"
  by (induction f i a m s rule: decInner.induct) (auto simp: Let_def valid58_def split: if_splits)

lemma decOuter_valid: "decOuter i res s = Inr n \<Longrightarrow> list_all valid58 s"
proof (induction i res s rule: decOuter.induct)
  case (1 i res s)
  show ?case
  proof (cases "s = []")
    case False
    with "1.prems" obtain a m i' r where d: "decInner True i 0 58 s = Inr (a, m, i', r)" "decOuter i' (res * m + a) r = Inr n"
      by (subst (asm) decOuter.simps) (auto split: sum.splits)
    from "1.IH" [OF False d(1) refl refl refl d(2)] show ?thesis by (rule decInner_valid [OF d(1)])
  qed simp
qed

lemma digit_table: "list_all (\<lambda>n. b58table ! n = 255 \<or> alphabet ! unat (b58table ! n) = of_nat n \<and> unat (b58table ! n) < 58) [0..<256]"
  by code_simp

lemma digit_facts:
  assumes "valid58 c"
  shows "letter (digit c) = c" "0 \<le> digit c" "digit c < 58"
proof -
  have "unat c \<in> set [0..<256]" using unsigned_less [of c] by simp
  with digit_table have "b58table ! unat c = 255 \<or> alphabet ! unat (b58table ! unat c) = of_nat (unat c) \<and> unat (b58table ! unat c) < 58"
    unfolding list_all_iff by blast
  with assms have *: "alphabet ! unat (b58table ! unat c) = c" "unat (b58table ! unat c) < 58" by (simp_all add: valid58_def)
  have d: "digit c = int (unat (b58table ! unat c))" by (simp add: digit_def)
  show "letter (digit c) = c" unfolding d using *(1) by (simp only: nat_int)
  show "0 \<le> digit c" "digit c < 58" unfolding d using *(2) by linarith+
qed

lemma value58_bounds: "list_all valid58 s \<Longrightarrow> 0 \<le> r \<Longrightarrow> r \<le> value58 r s"
proof (induction s arbitrary: r)
  case (Cons c s)
  then have "0 \<le> digit c" by (simp add: digit_facts)
  with Cons.prems(2) have "0 \<le> r * 58 + digit c" "r \<le> r * 58 + digit c" by simp_all
  with Cons.IH [of "r * 58 + digit c"] Cons.prems(1) show ?case by (simp add: value58_Cons)
qed (simp add: value58_def)

lemma digits58_value:
  assumes "list_all valid58 s" "s = [] \<or> hd s \<noteq> 0x31"
  shows "rev (map letter (digits58 (value58 0 s))) = s"
  using assms
proof (induction s rule: rev_induct)
  case Nil
  then show ?case by (simp add: value58_def digits58.simps)
next
  case (snoc c s)
  have c: "letter (digit c) = c" "0 \<le> digit c" "digit c < 58" using snoc.prems by (simp_all add: digit_facts)
  have IH: "rev (map letter (digits58 (value58 0 s))) = s" using snoc by (cases s) auto
  have v: "value58 0 (s @ [c]) = value58 0 s * 58 + digit c" by (simp add: value58_append value58_def)
  have nn: "0 \<le> value58 0 s" using value58_bounds [of s 0] snoc.prems by simp
  have "0 < value58 0 (s @ [c])"
  proof (cases s)
    case Nil
    then have "letter (digit c) \<noteq> 0x31" using snoc.prems c(1) by simp
    then have "digit c \<noteq> 0" using letter_facts(3) [OF c(2,3)] by simp
    with c(2) Nil show ?thesis by (simp add: v value58_def)
  next
    case (Cons c' s')
    then have "value58 0 s \<noteq> 0" using IH by (auto simp: digits58.simps)
    with nn c(2) show ?thesis unfolding v by linarith
  qed
  moreover have "value58 0 (s @ [c]) mod 58 = digit c" "value58 0 (s @ [c]) div 58 = value58 0 s"
    using c(2,3) unfolding v by (simp_all add: div_add1_eq)
  ultimately show ?case using IH c(1) by (subst digits58.simps) simp
qed

lemma setBytes_bigBytes: "0 \<le> n \<Longrightarrow> setBytes (bigBytes n) = n \<and> (bigBytes n = [] \<or> bigBytes n ! 0 \<noteq> 0)"
proof (induction n rule: bigBytes.induct)
  case (1 n)
  show ?case
  proof (cases "n > 0")
    case True
    let ?q = "n div 256"
    have q: "0 \<le> ?q" using True by (simp add: pos_imp_zdiv_nonneg_iff)
    have IH: "setBytes (bigBytes ?q) = ?q" "bigBytes ?q = [] \<or> bigBytes ?q ! 0 \<noteq> 0" using "1.IH" [OF True q] by blast+
    have b: "bigBytes n = bigBytes ?q @ [word_of_int (n mod 256)]" using True by (subst bigBytes.simps) simp
    have u: "uint (word_of_int (n mod 256) :: byte) = n mod 256" by (simp add: uint_word_of_int)
    have "setBytes (bigBytes n) = n" unfolding b setBytes_snoc IH(1) u by simp
    moreover have "bigBytes n ! 0 \<noteq> 0"
    proof (cases "bigBytes ?q = []")
      case True
      then have "?q = 0" using IH(1) by (simp add: setBytes_def)
      then have "n mod 256 \<noteq> 0" using \<open>n > 0\<close> by (metis mult_div_mod_eq mult_zero_right add_0 less_irrefl)
      then have "word_of_int (n mod 256) \<noteq> (0 :: byte)" using u by (metis unsigned_0)
      with True show ?thesis by (simp add: b)
    qed (use IH(2) in \<open>simp add: b nth_append\<close>)
    ultimately show ?thesis by blast
  qed (use "1.prems" in \<open>simp add: bigBytes.simps setBytes_def\<close>)
qed

lemma Encode_Decode:
  assumes "Decode s = Inr b"
  shows "s = Encode b"
proof -
  define z where "z = length (takeWhile (\<lambda>c. c = 0x31) s)"
  define s' where "s' = dropWhile (\<lambda>c. c = (0x31 :: byte)) s"
  from assms obtain n where n: "decOuter 0 0 s = Inr n" "b = replicate z 0 @ bigBytes n"
    by (auto simp: Decode_def rbind_ok_iff z_def)
  have va: "list_all valid58 s" by (rule decOuter_valid [OF n(1)])
  have nv: "n = value58 0 s" using decOuter_value [OF va] n(1) by simp
  have "takeWhile (\<lambda>c. c = 0x31) s = replicate z 0x31"
    unfolding z_def by (auto intro!: replicate_length_same [symmetric] dest: set_takeWhileD)
  then have s: "s = replicate z 0x31 @ s'" unfolding s'_def by (metis takeWhile_dropWhile_id)
  have hd: "s' = [] \<or> hd s' \<noteq> 0x31" unfolding s'_def using hd_dropWhile [of "\<lambda>c. c = (0x31 :: byte)" s] by blast
  have va': "list_all valid58 s'" using va s by simp
  have one: "digit 0x31 = 0" using letter_facts(1) [of 0] by (simp add: alphabet_def)
  have "value58 0 (replicate z 0x31) = 0" by (induction z) (simp_all add: value58_def one)
  then have v: "n = value58 0 s'" by (simp add: nv s value58_append)
  have nn: "0 \<le> n" using value58_bounds [OF va', of 0] v by simp
  have tw: "length (takeWhile (\<lambda>x. x = 0) b) = z"
    using setBytes_bigBytes [OF nn] by (cases "bigBytes n") (auto simp: n(2) takeWhile_append)
  have "Encode b = replicate z 0x31 @ rev (map letter (digits58 n))"
    unfolding Encode_def tw using setBytes_bigBytes [OF nn] by (simp add: encOuter_digits n(2) setBytes_zeros alphabet_def)
  then show ?thesis using digits58_value [OF va' hd] s v by simp
qed

lemma CheckDecode_iff: "CheckDecode s = Inr d \<longleftrightarrow> d \<noteq> [] \<and> s = CheckEncode d"
proof
  assume a: "CheckDecode s = Inr d"
  then obtain data where data: "Decode s = Inr data" "\<not> length data < 5" "d = take (length data - 4) data"
      "checksum d = drop (length data - 4) data"
    by (auto simp: CheckDecode_def rbind_ok_iff Let_def split: if_splits)
  then have "data = d @ checksum d" by simp
  with data(1,2) Encode_Decode [OF data(1)] show "d \<noteq> [] \<and> s = CheckEncode d"
    by (auto simp: CheckEncode_def checksum_def)
qed (use CheckDecode_CheckEncode in blast)

lemma ExtendedDecodeUnchecked_iff: "ExtendedDecodeUnchecked s = Inr k \<longleftrightarrow> wf_ExtendedKey k \<and> s = ExtendedEncode k"
proof
  assume "ExtendedDecodeUnchecked s = Inr k"
  then obtain d where d: "CheckDecode s = Inr d" "length d = 78"
      "k = \<lparr>ek_Version = take 4 d, ek_Depth = d ! 4, ek_Fingerprint = take 4 (drop 5 d),
             ek_ChildNum = take 4 (drop 9 d), ek_Chaincode = take 32 (drop 13 d), ek_Key = take 33 (drop 45 d)\<rparr>"
    by (auto simp: ExtendedDecodeUnchecked_def split: sum.splits if_splits)
  have "d = take 4 d @ drop 4 d" by simp
  also have "drop 4 d = d ! 4 # drop 5 d" using d(2) Cons_nth_drop_Suc [of 4 d] by (simp add: numeral_eq_Suc)
  also have "drop 5 d = take 4 (drop 5 d) @ drop 9 d" using append_take_drop_id [of 4 "drop 5 d"] by simp
  also have "drop 9 d = take 4 (drop 9 d) @ drop 13 d" using append_take_drop_id [of 4 "drop 9 d"] by simp
  also have "drop 13 d = take 32 (drop 13 d) @ drop 45 d" using append_take_drop_id [of 32 "drop 13 d"] by simp
  also have "drop 45 d = take 33 (drop 45 d)" using d(2) by simp
  finally have "ek_Version k @ [ek_Depth k] @ ek_Fingerprint k @ ek_ChildNum k @ ek_Chaincode k @ ek_Key k = d"
    by (simp add: d(3))
  moreover have "wf_ExtendedKey k" using d(2) by (simp add: d(3) wf_ExtendedKey_def)
  ultimately show "wf_ExtendedKey k \<and> s = ExtendedEncode k" using d(1) by (simp add: ExtendedEncode_def CheckDecode_iff)
qed (use Extended_roundtrip in blast)

end
