(* ===== verification/Startup.thy ===== *)
theory Startup
  imports Base58 Json
begin

text \<open>
  Configuration and start-up: \<open>config.go\<close>, \<open>db.go\<close> and \<open>cmd/eps-go/main.go\<close>.

  Strings are bytes. The environment is a list of names and values. Parameters are what the process finds outside: the directories
  \<open>xdg.GetDirs\<close> gives, the effect of \<open>dotenv.Load\<close> on the environment, whether the example file can be
  written, and the outcomes of opening the database, connecting to the node and serving.
\<close>

section \<open>Strings\<close>

definition chars :: "bytes \<Rightarrow> string" where
  "chars s = map (\<lambda>c. char_of (uint c)) s"

text \<open>\<open>strings.Split\<close> at one character.\<close>

fun splitOn :: "byte \<Rightarrow> bytes \<Rightarrow> bytes list" where
  "splitOn c [] = [[]]"
| "splitOn c (x # xs) = (if x = c then [] # splitOn c xs else (x # hd (splitOn c xs)) # tl (splitOn c xs))"

text \<open>\<open>strconv.ParseUint\<close> in base 10, from the left: \<open>None\<close> at a character that is no digit, the maximum as soon
  as the digits read so far exceed it, whatever follows.\<close>

fun parseUintLoop :: "int \<Rightarrow> int \<Rightarrow> bytes \<Rightarrow> int option" where
  "parseUintLoop maxVal n [] = Some n"
| "parseUintLoop maxVal n (c # cs) =
     (if \<not> isDigit c then None
      else let n1 = n * 10 + uint (c - 0x30) in if n1 > maxVal then Some maxVal else parseUintLoop maxVal n1 cs)"

text \<open>\<open>strconv.ParseInt(s, 10, bits)\<close>: the value and whether there was no error. Out of range the value is the
  nearest one; the maximum of \<open>ParseUint\<close> is out of range as well.\<close>

definition parseIntBits :: "nat \<Rightarrow> bytes \<Rightarrow> int \<times> bool" where
  "parseIntBits bits t =
     (let neg = (t \<noteq> [] \<and> hd t = 0x2d);
          ds = (if t \<noteq> [] \<and> (hd t = 0x2d \<or> hd t = 0x2b) then tl t else t);
          cutoff = 2 ^ (bits - 1)
      in case (if ds = [] then None else parseUintLoop (2 ^ bits - 1) 0 ds) of
           None \<Rightarrow> (0, False)
         | Some v \<Rightarrow>
             if \<not> neg \<and> v \<ge> cutoff then (cutoff - 1, False)
             else if neg \<and> v > cutoff then (- cutoff, False)
             else (if neg then - v else v, True))"

section \<open>Wallets\<close>

fun decodeKeys :: "bytes list \<Rightarrow> (ExtendedKey list) result" where
  "decodeKeys [] = Inr []"
| "decodeKeys (v # vs) =
     (case ExtendedDecodeUnchecked v of
        Inl e \<Rightarrow> Inl (ErrPanic ''ExtendedDecodeUnchecked'')
      | Inr mpub \<Rightarrow> rbind (decodeKeys vs) (\<lambda>mpubs. Inr (mpub # mpubs)))"

text \<open>The length that is checked is that of \<open>data\<close>, not of the list \<open>wdata\<close> that is indexed.\<close>

definition wLoad :: "bytes \<Rightarrow> (WalletConfig \<times> bool) result" where
  "wLoad data =
     (let w = \<lparr>wc_Kind = sK_NONE, wc_Reqsigs = 0, wc_MasterPubs = [], wc_Height = 0\<rparr>; wdata = splitOn 0x20 data in
      if length data < 2 then Inr (w, False)
      else
        let (tmpi, ok) = parseIntBits 32 (wdata ! 0); w = w\<lparr>wc_Height := tmpi\<rparr>; i = (if ok then 1 else 0) in
        rbind (go_index wdata i) (\<lambda>k.
        let (kind, ok) = KindFromString (chars k); w = w\<lparr>wc_Kind := kind\<rparr> in
        if \<not> ok then Inr (w, False)
        else
          rbind (go_index wdata (i + 1)) (\<lambda>r.
          let (tmpi, ok) = parseIntBits 8 r; w = w\<lparr>wc_Reqsigs := word_of_int tmpi\<rparr>; i = (if ok then i + 2 else i + 1) in
          rbind (decodeKeys (drop (nat i) wdata)) (\<lambda>mpubs. Inr (w\<lparr>wc_MasterPubs := mpubs\<rparr>, True)))))"

fun getWallets :: "bytes list \<Rightarrow> (WalletConfig list) result" where
  "getWallets [] = Inr []"
| "getWallets (v # vs) =
     (if take 6 v \<noteq> ascii ''WALLET'' then getWallets vs
      else rbind (go_index (splitOn 0x3d v) 1) (\<lambda>val.
           rbind (wLoad val) (\<lambda>(walletConfig, ok).
           if \<not> ok then getWallets vs
           else rbind (getWallets vs) (\<lambda>ws. Inr (walletConfig # ws)))))"

section \<open>Configuration\<close>

type_synonym environment = "(bytes \<times> bytes) list"

record XDGDirs =
  XDGConfigHome :: bytes
  XDGDataHome :: bytes

record Config =
  SqliteDBPath :: bytes
  LogLevel :: bytes
  MigrateFresh :: bytes
  BTCNodeAddr :: bytes
  cfg_XDGDirs :: XDGDirs
  ListenAddress :: bytes
  ConfigFile :: bytes
  cfg_Network :: Network

definition getEnv :: "environment \<Rightarrow> bytes \<Rightarrow> bytes result" where
  "getEnv env name = (case map_of env name of None \<Rightarrow> Inl (Err ''undefined env'') | Some v \<Rightarrow> Inr v)"

definition Getenv :: "environment \<Rightarrow> bytes \<Rightarrow> bytes" where
  "Getenv env name = (case map_of env name of None \<Rightarrow> [] | Some v \<Rightarrow> v)"

definition EnvOrDefault :: "environment \<Rightarrow> string \<Rightarrow> bytes \<Rightarrow> bytes" where
  "EnvOrDefault env name def = (if Getenv env (ascii name) = [] then def else Getenv env (ascii name))"

definition dirname :: "bytes \<Rightarrow> bytes" where
  "dirname arg =
     (if 0x2f \<notin> set arg then [0x2e]
      else let pre = rev (tl (dropWhile (\<lambda>c. c \<noteq> 0x2f) (rev arg))) in if pre = [] then [0x2f] else pre)"

definition NetworkFromString :: "bytes \<Rightarrow> Network" where
  "NetworkFromString ns =
     (let d = ascii_lower (chars ns) in
      if d = ''mainnet'' then Mainnet else if d = ''testnet'' then Testnet else Regtest)"

definition cfgInit ::
  "XDGDirs result \<Rightarrow> (bytes \<Rightarrow> environment \<Rightarrow> environment) \<Rightarrow> bool \<Rightarrow> bytes \<Rightarrow> environment \<Rightarrow> (Config, environment) outcome" where
  "cfgInit xdg load writable arg0 env =
     ebind (ereads xdg env) (\<lambda>dirs env.
     let configFile = EnvOrDefault env ''CONFIG_FILE'' (XDGConfigHome dirs @ ascii ''/eps-go.conf'');
         env = load (dirname arg0 @ ascii ''/eps-go.conf'') env;
         env = load configFile env
     in if \<not> writable then (Inl (ErrPanic ''WriteFile''), env)
        else (Inr \<lparr>SqliteDBPath = EnvOrDefault env ''SQLITE_DB_PATH'' (XDGDataHome dirs @ ascii ''/db.sqlite3''),
                   LogLevel = EnvOrDefault env ''LOG_LEVEL'' (ascii ''INFO''),
                   MigrateFresh = Getenv env (ascii ''MIGRATE_FRESH''),
                   BTCNodeAddr = EnvOrDefault env ''BTC_NODE_ADDR'' (ascii ''127.0.0.1:8333''),
                   cfg_XDGDirs = dirs,
                   ListenAddress = EnvOrDefault env ''LISTEN_ADDRESS'' (ascii ''127.0.0.1:50002''),
                   ConfigFile = configFile,
                   cfg_Network = NetworkFromString (EnvOrDefault env ''BTC_NETWORK'' (ascii ''mainnet''))\<rparr>, env))"

section \<open>Database\<close>

definition FlagMigrateFresh :: "64 word" where
  "FlagMigrateFresh = 1"

definition FlagMigrateAllowUpgrade :: "64 word" where
  "FlagMigrateAllowUpgrade = 2"

text \<open>
  \<open>OpenDB\<close>, with the embedded migrations, their execution (the number executed, only logged) and the opening of the file as
  parameters.
\<close>

definition OpenDB ::
  "'m result \<Rightarrow> (bytes \<Rightarrow> 'm \<Rightarrow> 64 word \<Rightarrow> nat result) \<Rightarrow> (bytes \<Rightarrow> 'd result) \<Rightarrow> bytes \<Rightarrow> 64 word \<Rightarrow> 'd result" where
  "OpenDB migrations migrate open_file dbFilePath migratorFlag =
     rbind migrations (\<lambda>m.
     rbind (migrate dbFilePath m migratorFlag) (\<lambda>executed.
     open_file dbFilePath))"

definition MustOpenDB ::
  "'m result \<Rightarrow> (bytes \<Rightarrow> 'm \<Rightarrow> 64 word \<Rightarrow> nat result) \<Rightarrow> (bytes \<Rightarrow> 'd result) \<Rightarrow> Config \<Rightarrow> 'd result" where
  "MustOpenDB migrations migrate open_file cfg =
     (let dbFilePath = XDGDataHome (cfg_XDGDirs cfg) @ ascii ''/db.sqlite3'';
          flag = (if MigrateFresh cfg = ascii ''1'' then or FlagMigrateAllowUpgrade FlagMigrateFresh else FlagMigrateAllowUpgrade)
      in case OpenDB migrations migrate open_file dbFilePath flag of
           Inl e \<Rightarrow> Inl (ErrPanic ''must'')
         | Inr d \<Rightarrow> Inr d)"

section \<open>Start\<close>

text \<open>
  \<open>main.run\<close>. \<open>serve\<close> is the outcome of \<open>ListenAndServe\<close>. The error of \<open>walletmanager.New\<close> is overwritten by that
  outcome; without a wallet manager the deferred \<open>w.Close\<close> is a nil dereference at the end.
\<close>

definition run ::
  "crypto \<Rightarrow> (Config, environment) outcome \<Rightarrow> (bytes \<Rightarrow> 64 word \<Rightarrow> database result) \<Rightarrow> (Config \<Rightarrow> unit result) \<Rightarrow> (W \<Rightarrow> unit result) \<Rightarrow> unit result" where
  "run C config openDB startNode serve =
     rbind (fst config) (\<lambda>cfg.
     rbind (getWallets (map (\<lambda>(k, v). k @ 0x3d # v) (snd config))) (\<lambda>wcs.
     if wcs = [] then Inl (Err ''no wallets to track'')
     else
       rbind (openDB (SqliteDBPath cfg) FlagMigrateAllowUpgrade) (\<lambda>d.
       rbind (startNode cfg) (\<lambda>_.
       case New C d wcs (cfg_Network cfg) of
         Inl e \<Rightarrow> Inl (ErrPanic ''invalid memory address or nil pointer dereference'')
       | Inr w \<Rightarrow> serve w))))"

section \<open>Facts\<close>

lemma splitOn_none: "c \<notin> set s \<Longrightarrow> splitOn c s = [s]"
  by (induction s) auto

lemma splitOn_first: "c \<notin> set s \<Longrightarrow> splitOn c (s @ c # r) = s # splitOn c r"
  by (induction s) auto

text \<open>Words with one character between them.\<close>

fun joinWith :: "byte \<Rightarrow> bytes list \<Rightarrow> bytes" where
  "joinWith c [] = []"
| "joinWith c [x] = x"
| "joinWith c (x # y # xs) = x @ c # joinWith c (y # xs)"

lemma splitOn_joinWith: "xs \<noteq> [] \<Longrightarrow> \<forall>x\<in>set xs. c \<notin> set x \<Longrightarrow> splitOn c (joinWith c xs) = xs"
  by (induction c xs rule: joinWith.induct) (simp_all add: splitOn_none splitOn_first)

lemma digitsValue_decDigits: "digitsValue (decDigits n) = int n"
proof -
  have "foldl (\<lambda>a c. a * 10 + uint (c - 0x30)) (int k) ds = int (foldl (\<lambda>a d. 10 * a + unat (d - 0x30)) k ds)" for ds :: bytes and k
  proof (induction ds arbitrary: k)
    case (Cons a ds)
    have e: "int k * 10 + uint (a - 0x30) = int (10 * k + unat (a - 0x30))" by (simp add: uint_nat del: of_nat_unat)
    show ?case unfolding foldl_Cons e Cons.IH ..
  qed simp
  from this [of 0 "decDigits n"] show ?thesis using decValue_decDigits [of n] by (simp add: digitsValue_def decValue_def)
qed

lemma decDigits_digits: "list_all isDigit (decDigits n)" "decDigits n \<noteq> []"
proof -
  show "list_all isDigit (decDigits n)" using decDigits_range [of _ n] by (auto simp: list_all_iff isDigit_def)
  show "decDigits n \<noteq> []" by (subst decDigits.simps) simp
qed

lemma decDigits_sign: "hd (decDigits n) \<noteq> 0x2d \<and> hd (decDigits n) \<noteq> 0x2b"
  using decDigits_digits [of n] by (cases "decDigits n") (auto simp: isDigit_def)

text \<open>A number in range is read from the left to its end; a word that begins with neither a digit nor a sign has the value 0.\<close>

lemma parseUintLoop_value:
  "list_all isDigit ds \<Longrightarrow> 0 \<le> n \<Longrightarrow> foldl (\<lambda>a c. a * 10 + uint (c - 0x30)) n ds \<le> maxVal \<Longrightarrow>
   parseUintLoop maxVal n ds = Some (foldl (\<lambda>a c. a * 10 + uint (c - 0x30)) n ds)"
proof (induction ds arbitrary: n)
  case (Cons c cs)
  let ?f = "foldl (\<lambda>a c. a * 10 + uint (c - 0x30))"
  have grow: "a \<le> ?f a xs" if "0 \<le> a" for a and xs :: bytes
    using that
  proof (induction xs arbitrary: a)
    case (Cons x xs)
    have "0 \<le> uint (x - 0x30)" by simp
    with Cons.prems have "0 \<le> a * 10 + uint (x - 0x30)" "a \<le> a * 10 + uint (x - 0x30)" by linarith+
    with Cons.IH [of "a * 10 + uint (x - 0x30)"] show ?case by simp
  qed simp
  have "0 \<le> uint (c - 0x30)" by simp
  with Cons.prems have n1: "0 \<le> n * 10 + uint (c - 0x30)" by linarith
  with grow [OF n1, of cs] Cons.IH [OF _ n1] Cons.prems show ?case by (simp add: Let_def)
qed simp

lemma parseIntBits_word: "t \<noteq> [] \<Longrightarrow> \<not> isDigit (hd t) \<Longrightarrow> hd t \<noteq> 0x2d \<Longrightarrow> hd t \<noteq> 0x2b \<Longrightarrow> parseIntBits bits t = (0, False)"
  by (cases t) (simp_all add: parseIntBits_def)

lemma parseUint_decDigits: "int n \<le> maxVal \<Longrightarrow> parseUintLoop maxVal 0 (decDigits n) = Some (int n)"
  using parseUintLoop_value [of "decDigits n" 0 maxVal] decDigits_digits(1) [of n] digitsValue_decDigits [of n]
  by (simp add: digitsValue_def)

lemma parseIntBits_decEncode:
  assumes "- (2 ^ (bits - 1)) \<le> i" "i < 2 ^ (bits - 1)" "0 < bits"
  shows "parseIntBits bits (decEncode i) = (i, True)"
proof -
  have m: "(2 :: int) ^ (bits - 1) \<le> 2 ^ bits - 1" using assms(3) by (cases bits) simp_all
  show ?thesis
  proof (cases "i < 0")
    case True
    then have "decEncode i = 0x2d # decDigits (nat (- i))" by (simp add: decEncode_def)
    moreover have "- i \<le> 2 ^ bits - 1" using assms(1) m by linarith
    then have "parseUintLoop (2 ^ bits - 1) 0 (decDigits (nat (- i))) = Some (- i)"
      using True parseUint_decDigits [of "nat (- i)" "2 ^ bits - 1"] by simp
    ultimately show ?thesis
      using assms True decDigits_digits(2) [of "nat (- i)"] by (simp add: parseIntBits_def Let_def)
  next
    case False
    then have "decEncode i = decDigits (nat i)" by (simp add: decEncode_def)
    moreover have "i \<le> 2 ^ bits - 1" using assms(2) m by linarith
    then have "parseUintLoop (2 ^ bits - 1) 0 (decDigits (nat i)) = Some i"
      using False parseUint_decDigits [of "nat i" "2 ^ bits - 1"] by simp
    ultimately show ?thesis
      using assms False decDigits_digits(2) [of "nat i"] decDigits_sign [of "nat i"] by (simp add: parseIntBits_def Let_def)
  qed
qed

definition noSep :: "bytes \<Rightarrow> bool" where
  "noSep s \<longleftrightarrow> 0x20 \<notin> set s \<and> 0x3d \<notin> set s"

lemma noSep_decEncode: "noSep (decEncode i)"
proof -
  have "\<not> isDigit 0x20" "\<not> isDigit 0x3d" by (simp_all add: isDigit_def)
  then show ?thesis using decDigits_digits(1) unfolding noSep_def decEncode_def list_all_iff by auto
qed

lemma noSep_letters: "list_all (\<lambda>k. alphabet ! k \<noteq> 0x20 \<and> alphabet ! k \<noteq> 0x3d) [0..<58]"
  by code_simp

lemma noSep_Encode: "noSep (Encode b)"
proof -
  have l: "letter d \<noteq> 0x20 \<and> letter d \<noteq> 0x3d" if "0 \<le> d" "d < 58" for d
  proof -
    have "nat d \<in> set [0..<58]" using that by auto
    with noSep_letters show ?thesis unfolding list_all_iff by blast
  qed
  have "c \<noteq> 0x20 \<and> c \<noteq> 0x3d" if "c \<in> set (Encode b)" for c
  proof -
    from that consider "c = letter 0" | d where "c = letter d" "d \<in> set (digits58 (setBytes b))"
      by (auto simp: Encode_def encOuter_digits)
    then show ?thesis using l [of 0] l digits58_range by cases auto
  qed
  then show ?thesis unfolding noSep_def by blast
qed

text \<open>The text of a key of the standard versions starts with a letter, so \<open>strconv.ParseInt\<close> reads the value 0 from it.\<close>

lemma digits58_top: "58 ^ k \<le> n \<Longrightarrow> n < 58 ^ Suc k \<Longrightarrow> digits58 n \<noteq> [] \<and> last (digits58 n) = n div 58 ^ k"
proof (induction k arbitrary: n)
  case 0
  then have "n mod 58 = n" "n div 58 = 0" by simp_all
  then show ?case using 0 by (subst (1 2) digits58.simps) (simp add: digits58.simps)
next
  case (Suc k)
  have "58 * 58 ^ k \<le> n" using Suc.prems(1) by simp
  then have q: "58 ^ k \<le> n div 58" by (simp add: zdiv_mono1 [of "58 * 58 ^ k" n 58, simplified])
  have "n div 58 < 58 ^ Suc k" using Suc.prems(2) by (simp add: div_less_iff_less_mult mult.commute)
  from Suc.IH [OF q this] have IH: "digits58 (n div 58) \<noteq> []" "last (digits58 (n div 58)) = n div 58 ^ Suc k"
    by (simp_all add: zdiv_zmult2_eq)
  have "0 < n" using Suc.prems(1) by (rule less_le_trans [rotated]) simp
  then show ?case using IH by (subst (1 2) digits58.simps) simp
qed

lemma setBytes_append: "setBytes (a @ b) = setBytes a * 256 ^ length b + setBytes b \<and> setBytes b < 256 ^ length b"
proof (induction b rule: rev_induct)
  case Nil
  show ?case by (simp add: setBytes_def)
next
  case (snoc x b)
  have "setBytes (a @ b @ [x]) = setBytes (a @ b) * 256 + uint x" using setBytes_snoc [of "a @ b" x] by simp
  then show ?case using snoc uint_byte [of x] by (simp add: setBytes_snoc algebra_simps)
qed

definition standard_versions :: "bytes list" where
  "standard_versions = [VersionMainnetPublic, VersionTestnetPublic, VersionMainnetPrivate, VersionTestnetPrivate]"

lemma standard_version_value:
  "v \<in> set standard_versions \<Longrightarrow> length v = 4 \<and> hd v = 4 \<and> 0x04358394 \<le> setBytes v \<and> setBytes v < 0x0488b21f"
  by (auto simp: standard_versions_def VersionMainnetPublic_def VersionTestnetPublic_def VersionMainnetPrivate_def
      VersionTestnetPrivate_def setBytes_def)

lemma upper_letters: "list_all (\<lambda>k. \<not> isDigit (alphabet ! k) \<and> alphabet ! k \<noteq> 0x2d \<and> alphabet ! k \<noteq> 0x2b) [9..<58]"
  by code_simp

lemma upper_letter: "9 \<le> d \<Longrightarrow> d < 58 \<Longrightarrow> \<not> isDigit (letter d) \<and> letter d \<noteq> 0x2d \<and> letter d \<noteq> 0x2b"
proof -
  assume "9 \<le> d" "d < 58"
  then have "nat d \<in> set [9..<58]"
    unfolding set_upt atLeastLessThan_iff by (simp add: nat_less_iff le_nat_iff)
  with upper_letters show ?thesis unfolding list_all_iff by blast
qed

lemma div_between:
  fixes a b n p :: int
  assumes "0 < p" "a * p \<le> n" "n < b * p"
  shows "a \<le> n div p \<and> n div p < b"
proof
  show "a \<le> n div p" using zdiv_mono1 [OF assms(2,1)] assms(1) by simp
  have "n div p * p \<le> n" using div_mult_mod_eq [of n p] pos_mod_sign [OF assms(1), of n] by linarith
  with assms(3) have "n div p * p < b * p" by linarith
  then show "n div p < b" using assms(1) by simp
qed

lemma standard_key_text:
  assumes "wf_ExtendedKey k" "ek_Version k \<in> set standard_versions"
  shows "ExtendedEncode k \<noteq> []" "parseIntBits bits (ExtendedEncode k) = (0, False)"
proof -
  define r where "r = [ek_Depth k] @ ek_Fingerprint k @ ek_ChildNum k @ ek_Chaincode k @ ek_Key k"
  define d where "d = ek_Version k @ r @ checksum (ek_Version k @ r)"
  note v = standard_version_value [OF assms(2)]
  have "length (r @ checksum (ek_Version k @ r)) = 78" using assms(1) by (simp add: r_def wf_ExtendedKey_def checksum_def)
  then have n: "setBytes (ek_Version k) * 256 ^ 78 \<le> setBytes d" "setBytes d < (setBytes (ek_Version k) + 1) * 256 ^ 78"
    using setBytes_append [of "ek_Version k" "r @ checksum (ek_Version k @ r)"] setBytes_nonneg [of "r @ checksum (ek_Version k @ r)"]
    by (simp_all add: d_def algebra_simps)
  have lo: "9 * 58 ^ 110 \<le> setBytes d"
    by (rule order_trans [OF _ n(1)], rule order_trans [of _ "0x04358394 * 256 ^ 78"]) (simp, use v in simp)
  have "(setBytes (ek_Version k) + 1) * 256 ^ 78 \<le> 0x0488b21f * 256 ^ 78" using v by simp
  also have "\<dots> \<le> (58 :: int) ^ Suc 110" by simp
  finally have hi: "setBytes d < 58 ^ Suc 110" using n(2) by (rule less_le_trans [rotated])
  have top: "digits58 (setBytes d) \<noteq> []" "last (digits58 (setBytes d)) = setBytes d div 58 ^ 110"
    using digits58_top [OF _ hi] lo by simp_all
  let ?t = "setBytes d div 58 ^ 110"
  have t: "9 \<le> ?t" "?t < 58"
    using div_between [OF _ lo hi [unfolded power_Suc]] by simp_all
  note l = upper_letter [OF t]
  have "takeWhile (\<lambda>x. x = 0) d = []" using v by (cases "ek_Version k") (auto simp: d_def)
  then have e: "ExtendedEncode k = rev (map letter (digits58 (setBytes d)))"
    by (simp add: ExtendedEncode_def CheckEncode_def Encode_def encOuter_digits d_def r_def)
  then show ne: "ExtendedEncode k \<noteq> []" using top(1) by simp
  have "hd (ExtendedEncode k) = letter ?t" using top by (simp add: e hd_rev last_map)
  with ne l show "parseIntBits bits (ExtendedEncode k) = (0, False)" by (simp add: parseIntBits_word)
qed

text \<open>
  The line of the configuration file for a wallet, \<open>[height] <kind> [sigs] <keys>\<close>: the number \<open>sigs\<close> of required
  signatures and the height are written or left out.
\<close>

fun kindName :: "Kind \<Rightarrow> string" where
  "kindName SK_P2PK = ''p2pk''"
| "kindName SK_P2PKH = ''p2pkh''"
| "kindName SK_P2MS = ''p2ms''"
| "kindName SK_P2SH_MULTISIG = ''p2sh''"
| "kindName SK_P2SH_WPKH = ''p2sh_wpkh''"
| "kindName SK_P2WPKH = ''p2wpkh''"
| "kindName SK_P2WSH_MULTISIG = ''p2wsh''"
| "kindName sK_NONE = ''''"

record lineForm =
  with_height :: bool
  with_sigs :: bool

definition walletLine :: "lineForm \<Rightarrow> WalletConfig \<Rightarrow> bytes" where
  "walletLine f w = joinWith 0x20 ((if with_height f then [decEncode (wc_Height w)] else []) @ [ascii (kindName (wc_Kind w))]
     @ (if with_sigs f then [decEncode (uint (wc_Reqsigs w))] else []) @ map ExtendedEncode (wc_MasterPubs w))"

text \<open>What a line of a form describes: a height left out is 0 and so is a number of signatures left out; a line without
  it names a key, and the first is one of the standard versions.\<close>

definition loadable :: "lineForm \<Rightarrow> WalletConfig \<Rightarrow> bool" where
  "loadable f w \<longleftrightarrow> wc_Kind w \<noteq> sK_NONE \<and> - (2 ^ 31) \<le> wc_Height w \<and> wc_Height w < 2 ^ 31 \<and> wc_Reqsigs w < 128
     \<and> list_all wf_ExtendedKey (wc_MasterPubs w)
     \<and> (\<not> with_height f \<longrightarrow> wc_Height w = 0)
     \<and> (\<not> with_sigs f \<longrightarrow> wc_Reqsigs w = 0 \<and> wc_MasterPubs w \<noteq> [] \<and> ek_Version (hd (wc_MasterPubs w)) \<in> set standard_versions)"

lemma chars_ascii: "chars (ascii s) = s"
proof -
  have "char_of (uint (of_char c :: byte)) = c" for c
  proof -
    have "uint (of_char c :: byte) = uint (word_of_int (of_char c) :: byte)" by (simp only: of_int_of_char)
    also have "\<dots> = of_char c" by (simp add: uint_word_of_int)
    finally show ?thesis by simp
  qed
  then show ?thesis by (simp add: chars_def ascii_def map_idI)
qed

lemma kindName_read:
  assumes "k \<noteq> sK_NONE"
  shows "KindFromString (chars (ascii (kindName k))) = (k, True)"
  using assms unfolding chars_ascii KindFromString_def by (cases k) (simp_all add: ascii_lower_ascii)

lemma kindName_noSep: "noSep (ascii (kindName k))"
  unfolding noSep_def ascii_def by (cases k) simp_all

lemma decodeKeys_encoded: "\<forall>k\<in>set ks. wf_ExtendedKey k \<Longrightarrow> decodeKeys (map ExtendedEncode ks) = Inr ks"
  by (induction ks) (simp_all add: Extended_roundtrip)

lemma kindName_word: "k \<noteq> sK_NONE \<Longrightarrow> parseIntBits bits (ascii (kindName k)) = (0, False) \<and> 3 < length (ascii (kindName k))"
  by (cases k) (simp_all add: parseIntBits_def ascii_def isDigit_def)

lemma wLoad_words:
  assumes "splitOn 0x20 data = hs @ k # rs @ ks" "2 \<le> length data"
    and "hs = [] \<and> parseIntBits 32 k = (height, False) \<or> (\<exists>h. hs = [h] \<and> parseIntBits 32 h = (height, True))"
    and "KindFromString (chars k) = (kind, True)"
    and "rs = [] \<and> ks \<noteq> [] \<and> parseIntBits 8 (hd ks) = (sigs, False) \<or> (\<exists>r. rs = [r] \<and> parseIntBits 8 r = (sigs, True))"
    and "decodeKeys ks = Inr keys"
  shows "wLoad data = Inr (\<lparr>wc_Kind = kind, wc_Reqsigs = word_of_int sigs, wc_MasterPubs = keys, wc_Height = height\<rparr>, True)"
proof -
  note eqs = wLoad_def Let_def go_index_def
  from assms(5) consider (ns) v vs where "rs = []" "ks = v # vs" "parseIntBits 8 v = (sigs, False)"
    | (s) r where "rs = [r]" "parseIntBits 8 r = (sigs, True)" by (cases ks) auto
  note sigs = this
  from assms(3) consider (nh) "hs = []" "parseIntBits 32 k = (height, False)" | (h) h where "hs = [h]" "parseIntBits 32 h = (height, True)"
    by blast
  then show ?thesis
  proof cases
    case nh
    from sigs show ?thesis
      using assms(1,2,4,6) nh by cases (simp_all add: eqs)
  next
    case h
    from sigs show ?thesis
      using assms(1,2,4,6) h by cases (simp_all add: eqs)
  qed
qed

lemma wLoad_walletLine:
  assumes "loadable f w"
  shows "wLoad (walletLine f w) = Inr (w, True)" "0x3d \<notin> set (walletLine f w)"
proof -
  let ?hs = "if with_height f then [decEncode (wc_Height w)] else []" and ?k = "ascii (kindName (wc_Kind w))"
    and ?rs = "if with_sigs f then [decEncode (uint (wc_Reqsigs w))] else []" and ?ks = "map ExtendedEncode (wc_MasterPubs w)"
  note ok = assms [unfolded loadable_def]
  have sep: "\<forall>x\<in>set (?hs @ [?k] @ ?rs @ ?ks). noSep x"
    using kindName_noSep noSep_decEncode noSep_Encode by (auto simp: ExtendedEncode_def CheckEncode_def)
  then have sp: "splitOn 0x20 (walletLine f w) = ?hs @ ?k # ?rs @ ?ks"
    unfolding walletLine_def by (subst splitOn_joinWith) (auto simp: noSep_def)
  have r: "parseIntBits 8 (decEncode (uint (wc_Reqsigs w))) = (uint (wc_Reqsigs w), True)"
    by (rule parseIntBits_decEncode) (use ok order_trans [of _ 0 "uint (wc_Reqsigs w)"] in \<open>simp_all add: word_less_def\<close>)
  have h: "parseIntBits 32 (decEncode (wc_Height w)) = (wc_Height w, True)"
    by (rule parseIntBits_decEncode) (use ok in simp_all)
  have kw: "parseIntBits 32 ?k = (0, False)" "3 < length ?k" using kindName_word ok by blast+
  have "length x \<le> length (joinWith 0x20 xs)" if "x \<in> set xs" for x and xs :: "bytes list"
    using that by (induction "0x20 :: byte" xs rule: joinWith.induct) auto
  from this [of ?k "?hs @ [?k] @ ?rs @ ?ks"] have "length ?k \<le> length (walletLine f w)" unfolding walletLine_def by simp
  with kw(2) have len: "2 \<le> length (walletLine f w)" by linarith
  have s: "?rs = [] \<and> ?ks \<noteq> [] \<and> parseIntBits 8 (hd ?ks) = (uint (wc_Reqsigs w), False)
      \<or> (\<exists>r. ?rs = [r] \<and> parseIntBits 8 r = (uint (wc_Reqsigs w), True))"
  proof (cases "with_sigs f")
    case False
    with ok obtain k ks where ks: "wc_MasterPubs w = k # ks" "wf_ExtendedKey k" "ek_Version k \<in> set standard_versions"
      by (cases "wc_MasterPubs w") auto
    with standard_key_text(2) [OF ks(2,3), of 8] False ok show ?thesis by simp
  qed (simp add: r)
  have "wLoad (walletLine f w) = Inr (\<lparr>wc_Kind = wc_Kind w, wc_Reqsigs = word_of_int (uint (wc_Reqsigs w)),
      wc_MasterPubs = wc_MasterPubs w, wc_Height = wc_Height w\<rparr>, True)"
  proof (rule wLoad_words [OF sp len _ _ s])
    show "?hs = [] \<and> parseIntBits 32 ?k = (wc_Height w, False) \<or> (\<exists>h. ?hs = [h] \<and> parseIntBits 32 h = (wc_Height w, True))"
      using h kw(1) ok by simp
    show "KindFromString (chars ?k) = (wc_Kind w, True)" using kindName_read ok by blast
    show "decodeKeys ?ks = Inr (wc_MasterPubs w)" using ok by (simp add: decodeKeys_encoded list_all_iff)
  qed
  then show "wLoad (walletLine f w) = Inr (w, True)" by simp
  have "c \<in> set (joinWith 0x20 xs) \<Longrightarrow> c = 0x20 \<or> (\<exists>x\<in>set xs. c \<in> set x)" for c xs
    by (induction "0x20 :: byte" xs rule: joinWith.induct) auto
  then show "0x3d \<notin> set (walletLine f w)" using sep unfolding walletLine_def noSep_def by fastforce
qed

section \<open>Reading the wallets of the environment\<close>

lemma getWallets_wallet:
  assumes "0x3d \<notin> set n" "loadable f w"
  shows "getWallets ((ascii ''WALLET'' @ n @ 0x3d # walletLine f w) # vs) = rbind (getWallets vs) (\<lambda>ws. Inr (w # ws))"
proof -
  note l = wLoad_walletLine [OF assms(2)]
  have "0x3d \<notin> set (ascii ''WALLET'' @ n)" using assms(1) by (simp add: ascii_def)
  from splitOn_first [OF this] have "splitOn 0x3d (ascii ''WALLET'' @ n @ 0x3d # walletLine f w) = [ascii ''WALLET'' @ n, walletLine f w]"
    using splitOn_none [OF l(2)] by simp
  moreover have "take 6 (ascii ''WALLET'' @ n @ 0x3d # walletLine f w) = ascii ''WALLET''" by (simp add: ascii_def)
  ultimately show ?thesis by (simp add: l(1) go_index_def)
qed

text \<open>An entry of the environment: a variable whose name does not begin with \<open>WALLET\<close>, or one named \<open>WALLET_<name>\<close>, the
  prefix that the example file asks for, with a line of one of the forms.\<close>

datatype entry = Other bytes | Wallet bytes lineForm WalletConfig

fun envLine :: "entry \<Rightarrow> bytes" where
  "envLine (Other s) = s"
| "envLine (Wallet n f w) = ascii ''WALLET_'' @ n @ 0x3d # walletLine f w"

fun envLine_ok :: "entry \<Rightarrow> bool" where
  "envLine_ok (Other s) = (take 6 s \<noteq> ascii ''WALLET'')"
| "envLine_ok (Wallet n f w) = (0x3d \<notin> set n \<and> loadable f w)"

fun entryWallet :: "entry \<Rightarrow> WalletConfig list" where
  "entryWallet (Other s) = []"
| "entryWallet (Wallet n f w) = [w]"

text \<open>The prefix that is tested is shorter than the documented one: a variable \<open>WALLETS=\<dots>\<close> is read as well.\<close>

lemma getWallets_other_prefix:
  assumes "loadable f w"
  shows "getWallets [ascii ''WALLETS'' @ 0x3d # walletLine f w] = Inr [w]"
  using getWallets_wallet [OF _ assms, of "ascii ''S''" "[]"] by (simp add: ascii_def)

text \<open>C40.
  Every wallet written in the environment as the example file documents, \<open>WALLET_<name>=[height] <kind> [sigs] <keys>\<close> with
  its keys in Base58Check and the height and the number of signatures written or left out, is loaded with exactly the
  configuration the line describes, a number left out being 0, in the order of the environment; a variable whose name
  does not begin with \<open>WALLET\<close> adds none.
\<close>

theorem getWallets_loads:
  assumes "list_all envLine_ok es"
  shows "getWallets (map envLine es) = Inr (concat (map entryWallet es))"
  using assms
proof (induction es)
  case (Cons e es)
  show ?case
  proof (cases e)
    case (Wallet n f w)
    have "0x3d \<notin> set (0x5f # n)" "loadable f w" using Cons.prems Wallet by simp_all
    from getWallets_wallet [OF this, of "map envLine es"] show ?thesis
      using Cons Wallet by (simp add: ascii_def)
  qed (use Cons in simp)
qed simp

text \<open>The three examples of the file, with keys in place of \<open>xpub\<close>.\<close>

definition sample_entries :: "entry list" where
  "sample_entries =
     [Other (ascii ''LOG_LEVEL=INFO''),
      Wallet (ascii ''TEST'') \<lparr>with_height = True, with_sigs = False\<rparr>
        \<lparr>wc_Kind = SK_P2WPKH, wc_Reqsigs = 0, wc_MasterPubs = [sample_xpub], wc_Height = 800000\<rparr>,
      Wallet (ascii ''TEST_1'') \<lparr>with_height = False, with_sigs = False\<rparr>
        \<lparr>wc_Kind = SK_P2WPKH, wc_Reqsigs = 0, wc_MasterPubs = [sample_xpub], wc_Height = 0\<rparr>,
      Wallet (ascii ''MULTISIG_2_OF_3'') \<lparr>with_height = True, with_sigs = True\<rparr>
        \<lparr>wc_Kind = SK_P2WSH_MULTISIG, wc_Reqsigs = 2, wc_MasterPubs = [sample_xpub, sample_xpub, sample_xpub], wc_Height = 0\<rparr>]"

theorem getWallets_loads_witness:
  "getWallets (map envLine sample_entries) = Inr
     [\<lparr>wc_Kind = SK_P2WPKH, wc_Reqsigs = 0, wc_MasterPubs = [sample_xpub], wc_Height = 800000\<rparr>,
      \<lparr>wc_Kind = SK_P2WPKH, wc_Reqsigs = 0, wc_MasterPubs = [sample_xpub], wc_Height = 0\<rparr>,
      \<lparr>wc_Kind = SK_P2WSH_MULTISIG, wc_Reqsigs = 2, wc_MasterPubs = [sample_xpub, sample_xpub, sample_xpub], wc_Height = 0\<rparr>]"
proof -
  have k: "wf_ExtendedKey sample_xpub" "ek_Version sample_xpub \<in> set standard_versions" by code_simp+
  have "list_all envLine_ok sample_entries"
    by (simp add: sample_entries_def loadable_def ascii_def k)
  from getWallets_loads [OF this] show ?thesis by (simp add: sample_entries_def)
qed

section \<open>Start-up that fails\<close>

text \<open>
  A line with nothing but a height passes the check of the length and is then indexed out of range; a wallet whose manager
  cannot be created ends the process with a panic instead of the error.
\<close>

theorem wLoad_height_only:
  assumes "- (2 ^ 31) \<le> h" "h < 2 ^ 31" "2 \<le> length (decEncode h)"
  shows "wLoad (decEncode h) = Inl (ErrPanic ''index out of range'')"
proof -
  have "splitOn 0x20 (decEncode h) = [decEncode h]" using noSep_decEncode [of h] by (intro splitOn_none) (simp add: noSep_def)
  moreover have "parseIntBits 32 (decEncode h) = (h, True)" by (rule parseIntBits_decEncode) (use assms in simp_all)
  ultimately show ?thesis using assms(3) by (simp add: wLoad_def go_index_def)
qed

theorem run_New_error:
  assumes "fst config = Inr cfg" "getWallets (map (\<lambda>(k, v). k @ 0x3d # v) (snd config)) = Inr wcs" "wcs \<noteq> []"
    "openDB (SqliteDBPath cfg) FlagMigrateAllowUpgrade = Inr d" "startNode cfg = Inr ()"
    "New C d wcs (cfg_Network cfg) = Inl e"
  shows "run C config openDB startNode serve = Inl (ErrPanic ''invalid memory address or nil pointer dereference'')"
  using assms by (simp add: run_def)

end
