(* ===== verification/Bip32Text.thy ===== *)
theory Bip32Text
  imports Startup
begin

text \<open>
  The operations of \<open>bip32.go\<close> on text: paths such as \<open>m/84h/0h/1\<close>, keys in Base58Check, and the derivation from a seed.
  \<open>strings.ToLower\<close> maps letters one by one on ASCII strings, which it tests for first; on other strings it maps code points by
  the tables of the package \<open>unicode\<close>, here the parameter \<open>U\<close>.

  Shown: paths are read back as printed, the checked decoder accepts exactly the texts of the valid keys, the retry loop of
  \<open>derivePrivFromPriv\<close> never retries, and the account key printed from a seed derives the addresses of the seed.
\<close>

section \<open>Paths\<close>

definition lowerByte :: "byte \<Rightarrow> byte" where
  "lowerByte c = (if 0x41 \<le> c \<and> c \<le> 0x5a then c + 0x20 else c)"

definition ToLower :: "(bytes \<Rightarrow> bytes) \<Rightarrow> bytes \<Rightarrow> bytes" where
  "ToLower U s = (if list_all (\<lambda>c. c < 0x80) s then map lowerByte s else U s)"

definition parseNode :: "bytes \<Rightarrow> u32 result" where
  "parseNode node =
     (let nodeNumberString = filter (\<lambda>c. c \<noteq> 0x68) node;
          isHardened = (if nodeNumberString \<noteq> node then KEY_HARDENED else 0);
          (nodeNumberI64, ok) = parseIntBits 32 nodeNumberString
      in if \<not> ok then Inl (Err ''bad derivation path node'') else Inr (word_of_int nodeNumberI64 + isHardened))"

definition parseDerivationPath :: "(bytes \<Rightarrow> bytes) \<Rightarrow> bytes \<Rightarrow> (u32 list) result" where
  "parseDerivationPath U path =
     (if path = [] then Inl (Err ''empty derivation path'')
      else
        let path = ToLower U path in
        rbind (go_index path 0) (\<lambda>c.
        if c \<noteq> 0x6d then Inl (Err ''bad derivation path'')
        else if length path < 3 then Inr []
        else collect parseNode (splitOn 0x2f (drop 2 path))))"

section \<open>Checked keys\<close>

definition ExtendedDecode :: "crypto \<Rightarrow> bytes \<Rightarrow> ExtendedKey result" where
  "ExtendedDecode C b58x =
     (case CheckDecode b58x of
        Inl e \<Rightarrow> Inl (Err ''errInvalidChecksum'')
      | Inr data \<Rightarrow>
          if length data \<noteq> 78 then Inl (Err ''bad extended key data'')
          else
            let r = \<lparr>ek_Version = take 4 data, ek_Depth = data ! 4, ek_Fingerprint = take 4 (drop 5 data),
                   ek_ChildNum = take 4 (drop 9 data), ek_Chaincode = take 32 (drop 13 data), ek_Key = take 33 (drop 45 data)\<rparr>;
                k0 = ek_Key r ! 0
            in rbind
                (if ek_Version r = VersionMainnetPublic \<or> ek_Version r = VersionTestnetPublic then
                   if k0 = 0x00 then Inl (Err ''errBadKeyVersion'')
                   else if \<not> (k0 = 0x02 \<or> k0 = 0x03) then Inl (Err ''errBadPubKeyPrefix'') else Inr ()
                 else if ek_Version r = VersionMainnetPrivate \<or> ek_Version r = VersionTestnetPrivate then
                   if k0 = 0x02 \<or> k0 = 0x03 then Inl (Err ''errBadKeyVersion'')
                   else if k0 \<noteq> 0x00 then Inl (Err ''errBadPrivKeyPrefix'') else Inr ()
                 else Inl (Err ''errUnknownVersion'')) (\<lambda>_.
               if ek_Depth r = 0 \<and> ek_Fingerprint r \<noteq> [0, 0, 0, 0] then Inl (Err ''errZeroDepthNonZeroFingerprint'')
               else if ek_Depth r = 0 \<and> ek_ChildNum r \<noteq> [0, 0, 0, 0] then Inl (Err ''errZeroDepthNonZeroIndex'')
               else
                 rbind
                  (if k0 = 0x00 then
                     if ek_Key r = replicate 33 0 then Inl (Err ''errPrivKeyNotInCurveOrder'')
                     else case compressedFromBasePointMul C (drop 1 (ek_Key r)) of
                       Inl e \<Rightarrow> Inl (Err ''errPrivKeyNotInCurveOrder'') | Inr _ \<Rightarrow> Inr ()
                   else Inr ()) (\<lambda>_.
                 if k0 = 0x02 \<or> k0 = 0x03 then
                   if ek_Key r = replicate 33 0 then Inl (Err ''errInvalidPubKey'')
                   else if \<not> PointDeserialize C (ek_Key r) then Inl (Err ''errInvalidPubKey'') else Inr r
                 else Inr r)))"

section \<open>From a seed\<close>

definition bitcoinSeed :: bytes where
  "bitcoinSeed = [0x42, 0x69, 0x74, 0x63, 0x6f, 0x69, 0x6e, 0x20, 0x73, 0x65, 0x65, 0x64]"

definition rootKey :: "crypto \<Rightarrow> bytes \<Rightarrow> ExtendedKey" where
  "rootKey C seed =
     (let root = Sum512 C bitcoinSeed seed in
      \<lparr>ek_Version = VersionMainnetPrivate, ek_Depth = 0, ek_Fingerprint = replicate 4 0, ek_ChildNum = replicate 4 0,
       ek_Chaincode = drop 32 root, ek_Key = 0 # take 32 root\<rparr>)"

definition DeriveSeed :: "crypto \<Rightarrow> bytes \<Rightarrow> u32 list \<Rightarrow> (ExtendedKey \<times> ExtendedKey) result" where
  "DeriveSeed C seed path =
     rbind (DeriveXprv C (rootKey C seed) path) (\<lambda>xprvExt.
     rbind (XpubFromXprv C xprvExt) (\<lambda>xpubExt.
     Inr (xpubExt, xprvExt)))"

definition DeriveSeedStr :: "crypto \<Rightarrow> (bytes \<Rightarrow> bytes) \<Rightarrow> bytes \<Rightarrow> bytes \<Rightarrow> (bytes \<times> bytes) result" where
  "DeriveSeedStr C U seed path =
     rbind (parseDerivationPath U path) (\<lambda>dpath.
     rbind (DeriveSeed C seed dpath) (\<lambda>(xpubExt, xprvExt).
     Inr (ExtendedEncode xpubExt, ExtendedEncode xprvExt)))"

definition DeriveXprvStr :: "crypto \<Rightarrow> (bytes \<Rightarrow> bytes) \<Rightarrow> bytes \<Rightarrow> bytes \<Rightarrow> bytes result" where
  "DeriveXprvStr C U xpriv path =
     rbind (parseDerivationPath U path) (\<lambda>dpath.
     rbind (ExtendedDecode C xpriv) (\<lambda>decoded.
     rbind (DeriveXprv C decoded dpath) (\<lambda>exKey.
     Inr (ExtendedEncode exKey))))"

definition DeriveXpubStr :: "crypto \<Rightarrow> (bytes \<Rightarrow> bytes) \<Rightarrow> bytes \<Rightarrow> bytes \<Rightarrow> bytes result" where
  "DeriveXpubStr C U xpub path =
     rbind (parseDerivationPath U path) (\<lambda>dpath.
     rbind (ExtendedDecode C xpub) (\<lambda>decoded.
     rbind (DeriveXpub C decoded dpath) (\<lambda>exKey.
     Inr (ExtendedEncode exKey))))"

definition XpubFromXprvStr :: "crypto \<Rightarrow> bytes \<Rightarrow> bytes result" where
  "XpubFromXprvStr C xprv =
     rbind (ExtendedDecode C xprv) (\<lambda>extXprv.
     rbind (XpubFromXprv C extXprv) (\<lambda>extPub.
     Inr (ExtendedEncode extPub)))"

text \<open>The loop that retries a step with the next index on \<open>errOverflow\<close> may not end: it runs on fuel.\<close>

fun derivePrivNode :: "crypto \<Rightarrow> nat \<Rightarrow> bytes \<Rightarrow> u32 \<Rightarrow> bytes result option" where
  "derivePrivNode C 0 keyChaincode node = None"
| "derivePrivNode C (Suc fuel) keyChaincode node =
     (case (if node AND KEY_HARDENED = 0 then deriveUnhardenedPrivFromPriv C keyChaincode node
            else deriveHardenedPrivFromPriv C keyChaincode node) of
        Inl e \<Rightarrow> if e = Err ''overflow'' then derivePrivNode C fuel keyChaincode (node + 1) else Some (Inl e)
      | Inr kc \<Rightarrow> Some (Inr kc))"

fun derivePrivFromPriv :: "crypto \<Rightarrow> nat \<Rightarrow> bytes \<Rightarrow> u32 list \<Rightarrow> bytes result option" where
  "derivePrivFromPriv C fuel keyChaincode [] = Some (Inr keyChaincode)"
| "derivePrivFromPriv C fuel keyChaincode (node # dpath) =
     (case derivePrivNode C fuel keyChaincode node of
        None \<Rightarrow> None
      | Some (Inl e) \<Rightarrow> Some (Inl e)
      | Some (Inr kc) \<Rightarrow> derivePrivFromPriv C fuel kc dpath)"

section \<open>Printing paths\<close>

definition showNode :: "u32 \<Rightarrow> bytes" where
  "showNode i = decEncode (uint (i AND NOT KEY_HARDENED)) @ (if i AND KEY_HARDENED \<noteq> 0 then [0x68] else [])"

definition showPath :: "u32 list \<Rightarrow> bytes" where
  "showPath path = 0x6d # concat (map (\<lambda>i. 0x2f # showNode i) path)"

section \<open>Facts about paths\<close>

lemma bit_KEY_HARDENED: "bit KEY_HARDENED n \<longleftrightarrow> n = 31"
  unfolding KEY_HARDENED_def by (simp only: bit_push_bit_iff bit_1_iff) auto

lemma low_bits: "i AND NOT KEY_HARDENED = take_bit 31 i" for i :: u32
  by (rule bit_word_eqI) (auto simp: bit_KEY_HARDENED bit_and_iff bit_not_iff bit_take_bit_iff)

lemma low_bits_bound: "0 \<le> uint (i AND NOT KEY_HARDENED)" "uint (i AND NOT KEY_HARDENED) < 2 ^ 31" for i :: u32
  using take_bit_int_less_exp [of 31 "uint i"] by (simp_all add: low_bits unsigned_take_bit_eq)

lemma high_bit: "i AND KEY_HARDENED = (if i AND KEY_HARDENED \<noteq> 0 then KEY_HARDENED else 0)" for i :: u32
proof -
  have "i AND KEY_HARDENED = (if bit i 31 then KEY_HARDENED else 0)"
    by (rule bit_word_eqI) (auto simp: bit_KEY_HARDENED bit_and_iff)
  then show ?thesis by (auto split: if_splits)
qed

lemma split_index: "(i AND NOT KEY_HARDENED) + (i AND KEY_HARDENED) = i" for i :: u32
proof -
  have "(i AND NOT KEY_HARDENED) + (i AND KEY_HARDENED) = (i AND NOT KEY_HARDENED) OR (i AND KEY_HARDENED)"
    by (rule disjunctive_add) (auto simp: bit_and_iff bit_not_iff)
  also have "\<dots> = i" by (rule bit_word_eqI) (auto simp: bit_and_iff bit_or_iff bit_not_iff)
  finally show ?thesis .
qed

lemma decEncode_chars: "0 \<le> n \<Longrightarrow> decEncode n \<noteq> [] \<and> list_all isDigit (decEncode n)"
  using decDigits_digits by (simp add: decEncode_def)

lemma isDigit_low: "isDigit c \<Longrightarrow> c < 0x80 \<and> lowerByte c = c \<and> c \<noteq> 0x68 \<and> c \<noteq> 0x2f"
  by (auto simp: isDigit_def lowerByte_def word_less_nat_alt word_le_nat_alt)

lemma showNode_chars: "showNode i \<noteq> [] \<and> list_all (\<lambda>c. c < 0x80 \<and> lowerByte c = c \<and> c \<noteq> 0x2f) (showNode i)"
  using decEncode_chars [OF low_bits_bound(1), of i] isDigit_low
  by (auto simp: showNode_def list_all_iff) (simp_all add: lowerByte_def)

lemma parseNode_showNode: "parseNode (showNode i) = Inr i"
proof -
  let ?d = "decEncode (uint (i AND NOT KEY_HARDENED))"
  have p: "parseIntBits 32 ?d = (uint (i AND NOT KEY_HARDENED), True)"
    by (rule parseIntBits_decEncode) (rule order_trans [OF _ low_bits_bound(1)], simp, use low_bits_bound(2) [of i] in simp, simp)
  have f: "filter (\<lambda>c. c \<noteq> 0x68) ?d = ?d"
    using decEncode_chars [OF low_bits_bound(1), of i] isDigit_low by (auto simp: filter_id_conv list_all_iff)
  have s: "(i AND NOT KEY_HARDENED) + (if i AND KEY_HARDENED \<noteq> 0 then KEY_HARDENED else 0) = i"
    using split_index [of i] by (subst high_bit [symmetric])
  show ?thesis
  proof (cases "i AND KEY_HARDENED = 0")
    case True
    then have "i AND NOT KEY_HARDENED = i" using s by simp
    with f p True show ?thesis by (simp add: parseNode_def showNode_def)
  next
    case False
    with s show ?thesis by (simp add: parseNode_def showNode_def f p)
  qed
qed

lemma showPath_split: "showPath (i # path) = 0x6d # 0x2f # joinWith 0x2f (map showNode (i # path))"
proof -
  have "concat (map (\<lambda>i. 0x2f # showNode i) (i # path)) = 0x2f # joinWith 0x2f (map showNode (i # path))"
    by (induction path arbitrary: i) simp_all
  then show ?thesis by (simp add: showPath_def)
qed

lemma ToLower_showPath: "ToLower U (showPath path) = showPath path"
proof -
  have "list_all (\<lambda>c. c < 0x80 \<and> lowerByte c = c) (showPath path)"
    using showNode_chars by (auto simp: showPath_def list_all_iff lowerByte_def)
  then show ?thesis by (auto simp: ToLower_def list_all_iff intro: map_idI)
qed

lemma collect_map_ok: "(\<And>x. x \<in> set xs \<Longrightarrow> f (g x) = Inr x) \<Longrightarrow> collect f (map g xs) = Inr xs"
  by (induction xs) simp_all

lemma parse_showPath: "parseDerivationPath U (showPath path) = Inr path"
proof (cases path)
  case Nil
  then show ?thesis by (simp add: parseDerivationPath_def ToLower_def showPath_def lowerByte_def go_index_def)
next
  case (Cons i js)
  let ?j = "joinWith 0x2f (map showNode path)"
  have sp: "showPath path = 0x6d # 0x2f # ?j" using showPath_split Cons by simp
  have "?j \<noteq> []" using showNode_chars Cons by (cases js) simp_all
  then have len: "\<not> length (showPath path) < 3" by (cases ?j) (simp_all add: sp)
  have "\<forall>x\<in>set (map showNode path). 0x2f \<notin> set x" using showNode_chars by (fastforce simp: list_all_iff)
  then have "splitOn 0x2f ?j = map showNode path" using Cons by (intro splitOn_joinWith) simp_all
  then have "collect parseNode (splitOn 0x2f (drop 2 (showPath path))) = Inr path"
    by (simp add: sp collect_map_ok parseNode_showNode)
  then show ?thesis using len ToLower_showPath [of U path] by (simp add: parseDerivationPath_def go_index_def sp)
qed

section \<open>Valid keys\<close>

text \<open>The extended keys the standard admits: a public key is a compressed point, a private key a scalar whose point is not at infinity,
  and a master key has no parent.\<close>

definition valid_key :: "crypto \<Rightarrow> ExtendedKey \<Rightarrow> bool" where
  "valid_key C k \<longleftrightarrow>
     (ek_Version k \<in> {VersionMainnetPublic, VersionTestnetPublic} \<and> ek_Key k ! 0 \<in> {2, 3} \<and> PointDeserialize C (ek_Key k)
      \<or> ek_Version k \<in> {VersionMainnetPrivate, VersionTestnetPrivate} \<and> ek_Key k ! 0 = 0 \<and> ek_Key k \<noteq> replicate 33 0
        \<and> BasePointMul C (drop 1 (ek_Key k)) \<noteq> None)
     \<and> (ek_Depth k = 0 \<longrightarrow> ek_Fingerprint k = replicate 4 0 \<and> ek_ChildNum k = replicate 4 0)"

lemma versions_differ:
  "VersionMainnetPublic \<noteq> VersionMainnetPrivate" "VersionMainnetPublic \<noteq> VersionTestnetPrivate"
  "VersionTestnetPublic \<noteq> VersionMainnetPrivate" "VersionTestnetPublic \<noteq> VersionTestnetPrivate"
  by (simp_all add: VersionMainnetPublic_def VersionMainnetPrivate_def VersionTestnetPublic_def VersionTestnetPrivate_def)

lemma four_zeros: "replicate 4 (0 :: byte) = [0, 0, 0, 0]"
  by (simp add: numeral_eq_Suc)

lemma ExtendedDecode_ok_iff: "ExtendedDecode C s = Inr k \<longleftrightarrow> ExtendedDecodeUnchecked s = Inr k \<and> valid_key C k"
proof (cases "CheckDecode s")
  case (Inr data)
  show ?thesis
  proof (cases "length data = 78")
    case True
    let ?r = "\<lparr>ek_Version = take 4 data, ek_Depth = data ! 4, ek_Fingerprint = take 4 (drop 5 data),
      ek_ChildNum = take 4 (drop 9 data), ek_Chaincode = take 32 (drop 13 data), ek_Key = take 33 (drop 45 data)\<rparr>"
    have u: "ExtendedDecodeUnchecked s = Inr k \<longleftrightarrow> k = ?r" using Inr True by (auto simp: ExtendedDecodeUnchecked_def)
    have nz: "ek_Key ?r \<noteq> replicate 33 0" if "ek_Key ?r ! 0 \<noteq> 0" using that by (metis nth_replicate zero_less_numeral)
    have "ExtendedDecode C s = Inr k \<longleftrightarrow> k = ?r \<and> valid_key C ?r"
      unfolding ExtendedDecode_def valid_key_def four_zeros Inr sum.case Let_def
      using versions_differ nz True by (auto simp: rbind_ok_iff compressedFromBasePointMul_def split: option.splits if_splits)
    with u show ?thesis by blast
  qed (simp add: ExtendedDecode_def ExtendedDecodeUnchecked_def Inr)
qed (simp add: ExtendedDecode_def ExtendedDecodeUnchecked_def)

section \<open>From a seed\<close>

lemma DeriveXprv_loop_append:
  "DeriveXprv_loop C par kc (p @ q) = rbind (DeriveXprv_loop C par kc p) (\<lambda>(par', kc'). DeriveXprv_loop C par' kc' q)"
proof (induction p arbitrary: par kc)
  case (Cons i p)
  show ?case
    by (cases "if i AND KEY_HARDENED \<noteq> 0 then deriveHardenedPrivFromPriv C kc i else deriveUnhardenedPrivFromPriv C kc i")
      (simp_all add: Cons)
qed simp

lemma DeriveXprv_loop_parent: "q \<noteq> [] \<Longrightarrow> DeriveXprv_loop C par kc q = DeriveXprv_loop C par' kc q"
  by (cases q) simp_all

lemma DeriveXprv_okE:
  assumes "DeriveXprv C k p = Inr c" "p \<noteq> []"
  obtains par kc pp where "DeriveXprv_loop C (replicate 64 0) (drop 1 (ek_Key k) @ ek_Chaincode k) p = Inr (par, kc)"
    "pubFromPriv C par = Inr pp"
    "c = \<lparr>ek_Version = VersionMainnetPrivate, ek_Depth = of_nat (length p) + ek_Depth k, ek_Fingerprint = take 4 (hash160 C (take 33 pp)),
      ek_ChildNum = serializeUint32 (last p), ek_Chaincode = drop 32 kc, ek_Key = 0 # take 32 kc\<rparr>"
  using assms by (auto simp: DeriveXprv_def rbind_ok_iff)

text \<open>A path in two parts.\<close>

lemma DeriveXprv_append:
  assumes "crypto_ok C" "wf_ExtendedKey k" "DeriveXprv C k p = Inr c" "q \<noteq> []"
  shows "DeriveXprv C k (p @ q) = DeriveXprv C c q"
proof (cases "p = []")
  case False
  let ?kc = "drop 1 (ek_Key k) @ ek_Chaincode k"
  from DeriveXprv_okE [OF assms(3) False] obtain par kc pp where l: "DeriveXprv_loop C (replicate 64 0) ?kc p = Inr (par, kc)"
      and c: "c = \<lparr>ek_Version = VersionMainnetPrivate, ek_Depth = of_nat (length p) + ek_Depth k,
        ek_Fingerprint = take 4 (hash160 C (take 33 pp)), ek_ChildNum = serializeUint32 (last p),
        ek_Chaincode = drop 32 kc, ek_Key = 0 # take 32 kc\<rparr>" by metis
  have "DeriveXprv_loop C (replicate 64 0) ?kc (p @ q) = DeriveXprv_loop C (replicate 64 0) (drop 1 (ek_Key c) @ ek_Chaincode c) q"
    using DeriveXprv_loop_parent [OF assms(4), of C par kc "replicate 64 0"] by (simp add: DeriveXprv_loop_append l [simplified] c)
  with assms(4) show ?thesis by (simp add: DeriveXprv_def c add_ac)
qed (use assms(3) in \<open>simp add: DeriveXprv_def\<close>)

lemma wf_rootKey: "crypto_ok C \<Longrightarrow> wf_ExtendedKey (rootKey C seed)"
  by (simp add: rootKey_def Let_def wf_ExtendedKey_def crypto_ok_def VersionMainnetPrivate_def)

lemma wf_DeriveXprv:
  assumes "crypto_ok C" "wf_ExtendedKey k" "DeriveXprv C k p = Inr c"
  shows "wf_ExtendedKey c"
proof (cases "p = []")
  case False
  from DeriveXprv_okE [OF assms(3) False] obtain par kc pp where
      l: "DeriveXprv_loop C (replicate 64 0) (drop 1 (ek_Key k) @ ek_Chaincode k) p = Inr (par, kc)"
      and c: "c = \<lparr>ek_Version = VersionMainnetPrivate, ek_Depth = of_nat (length p) + ek_Depth k,
        ek_Fingerprint = take 4 (hash160 C (take 33 pp)), ek_ChildNum = serializeUint32 (last p),
        ek_Chaincode = drop 32 kc, ek_Key = 0 # take 32 kc\<rparr>" by metis
  have "length (drop 1 (ek_Key k) @ ek_Chaincode k) = 64" using assms(2) by (simp add: wf_ExtendedKey_def)
  from length_DeriveXprv_loop [OF assms(1) this l] show ?thesis
    by (simp add: c wf_ExtendedKey_def VersionMainnetPrivate_def length_hash160 [OF assms(1)])
qed (use assms in \<open>simp add: DeriveXprv_def\<close>)

lemma wf_XpubFromXprv:
  assumes "crypto_ok C" "wf_ExtendedKey k" "XpubFromXprv C k = Inr x"
  shows "wf_ExtendedKey x"
  using assms by (auto simp: XpubFromXprv_def rbind_ok_iff pubFromPriv_def wf_ExtendedKey_def crypto_ok_def
      VersionMainnetPublic_def VersionTestnetPublic_def split: if_splits)

lemma ExtendedDecode_Encode: "wf_ExtendedKey k \<Longrightarrow> ExtendedDecode C (ExtendedEncode k) = Inr x \<Longrightarrow> x = k"
  by (simp add: ExtendedDecode_ok_iff Extended_roundtrip)

lemma DeriveSeedStr_showPath:
  assumes "DeriveSeedStr C U seed (showPath p) = Inr (xpub, xprv)"
  obtains c X where "DeriveXprv C (rootKey C seed) p = Inr c" "XpubFromXprv C c = Inr X" "xpub = ExtendedEncode X" "xprv = ExtendedEncode c"
  using assms by (auto simp: DeriveSeedStr_def DeriveSeed_def rbind_ok_iff parse_showPath)

text \<open>The retry never happens: no step returns \<open>errOverflow\<close>.\<close>

lemma no_overflow:
  "deriveUnhardenedPrivFromPriv C kc i \<noteq> Inl (Err ''overflow'')" "deriveHardenedPrivFromPriv C kc i \<noteq> Inl (Err ''overflow'')"
  by (auto simp: deriveUnhardenedPrivFromPriv_def deriveHardenedPrivFromPriv_def compressedFromBasePointMul_def finalizeDerivePriv_def Let_def
      split: option.splits)

lemma derivePrivNode_steps:
  "0 < fuel \<Longrightarrow> derivePrivNode C fuel kc i =
     Some (if i AND KEY_HARDENED = 0 then deriveUnhardenedPrivFromPriv C kc i else deriveHardenedPrivFromPriv C kc i)"
  using no_overflow [of C kc i] by (cases fuel) (auto split: sum.splits)

lemma derivePrivFromPriv_loop:
  "0 < fuel \<Longrightarrow> derivePrivFromPriv C fuel kc path = Some (rbind (DeriveXprv_loop C par kc path) (\<lambda>(_, kc'). Inr kc'))"
proof (induction path arbitrary: par kc)
  case (Cons i path)
  let ?r = "if i AND KEY_HARDENED = 0 then deriveUnhardenedPrivFromPriv C kc i else deriveHardenedPrivFromPriv C kc i"
  have r: "(if i AND KEY_HARDENED \<noteq> 0 then deriveHardenedPrivFromPriv C kc i else deriveUnhardenedPrivFromPriv C kc i) = ?r" by simp
  show ?case
    using Cons by (cases ?r) (simp_all only: derivePrivFromPriv.simps DeriveXprv_loop.simps derivePrivNode_steps r option.case sum.case rbind_simps)
qed simp

section \<open>What the text operations accept\<close>

text \<open>A negative index is accepted and wraps around: a hardened step written with it is not hardened. The character after \<open>m\<close> is not
  looked at, and the mark of a hardened step may stand anywhere in its number.\<close>

lemma parse_oddities:
  "parseDerivationPath U (ascii ''m/-1h'') = Inr [0x7fffffff]"
  "parseDerivationPath U (ascii ''mx0'') = Inr [0]"
  "parseDerivationPath U (ascii ''m/1h2'') = Inr [KEY_HARDENED + 12]"
  by code_simp+

text \<open>Without a step the derived public key is all zeros instead of the key itself.\<close>

lemma DeriveXpub_empty:
  "DeriveXpub C k [] = Inr \<lparr>ek_Version = VersionMainnetPublic, ek_Depth = ek_Depth k, ek_Fingerprint = replicate 4 0,
     ek_ChildNum = replicate 4 0, ek_Chaincode = replicate 32 0, ek_Key = replicate 33 0\<rparr>"
  by (simp add: DeriveXpub_def)

text \<open>A key of the test network is derived as one of the main network.\<close>

lemma derived_versions:
  "DeriveXprv C k p = Inr c \<Longrightarrow> p \<noteq> [] \<Longrightarrow> ek_Version c = VersionMainnetPrivate"
  "DeriveXpub C k p = Inr x \<Longrightarrow> ek_Version x = VersionMainnetPublic"
  by (auto simp: DeriveXprv_def DeriveXpub_def rbind_ok_iff)

section \<open>A sample seed\<close>

lemma xor_loop: "\<exists>r. DeriveXprv_loop xor_crypto par kc p = Inr r"
proof (induction p arbitrary: par kc)
  case (Cons i p)
  have "\<exists>r. (if i AND KEY_HARDENED \<noteq> 0 then deriveHardenedPrivFromPriv xor_crypto kc i else deriveUnhardenedPrivFromPriv xor_crypto kc i) = Inr r"
    by (auto simp: deriveHardenedPrivFromPriv_def deriveUnhardenedPrivFromPriv_def finalizeDerivePriv_def Let_def xor_crypto_def
        compressedFromBasePointMul_def)
  with Cons show ?case by (auto simp del: if_split)
qed simp

lemma xor_DeriveXprv: "\<exists>c. DeriveXprv xor_crypto k p = Inr c"
  using xor_loop [of "replicate 64 0" "drop 1 (ek_Key k) @ ek_Chaincode k" p]
  by (auto simp: DeriveXprv_def pubFromPriv_def compressedFromBasePointMul_def xor_crypto_def)

lemma xor_XpubFromXprv: "ek_Version k = VersionMainnetPrivate \<Longrightarrow> \<exists>x. XpubFromXprv xor_crypto k = Inr x"
  by (simp add: XpubFromXprv_def pubFromPriv_def compressedFromBasePointMul_def xor_crypto_def)

lemma xor_DeriveXpub: "length (ek_Key k) = 33 \<Longrightarrow> list_all unhardened p \<Longrightarrow> \<exists>x. DeriveXpub xor_crypto k p = Inr x"
proof -
  have step: "\<exists>r. DeriveXpub_loop xor_crypto par ch kc p = Inr r" if "list_all unhardened p" "33 \<le> length kc" for par ch kc
    using that
  proof (induction p arbitrary: par ch kc)
    case (Cons i p)
    have "\<exists>r. deriveUnhardenedPubFromPub xor_crypto kc i = Inr r"
      using Cons.prems(2) by (simp add: derivePub_ok_iff Let_def) (simp add: xor_crypto_def)
    then obtain r where r: "deriveUnhardenedPubFromPub xor_crypto kc i = Inr r" "length r = 65"
      using length_derivePub [OF xor_crypto_ok] by blast
    have "\<exists>x. DeriveXpub_loop xor_crypto ch r r p = Inr x" by (rule Cons.IH) (use Cons.prems r in simp_all)
    moreover have "i AND KEY_HARDENED = 0" using Cons.prems(1) by (simp add: unhardened_def)
    ultimately show ?case using r(1) by simp
  qed simp
  assume "length (ek_Key k) = 33" "list_all unhardened p"
  with step [of "ek_Key k @ ek_Chaincode k" "replicate 65 0" "replicate 65 0"] show ?thesis by (auto simp: DeriveXpub_def)
qed

abbreviation (input) "sample_root \<equiv> rootKey xor_crypto [1, 2, 3]"

lemma sample_account_scalar:
  "(case DeriveXprv_loop xor_crypto (replicate 64 0) (drop 1 (ek_Key sample_root) @ ek_Chaincode sample_root) [KEY_HARDENED] of
      Inl e \<Rightarrow> False | Inr (par, kc) \<Rightarrow> take 32 kc \<noteq> replicate 32 0)"
  by code_simp

lemma sample_account:
  assumes "DeriveXprv xor_crypto sample_root [KEY_HARDENED] = Inr c" "XpubFromXprv xor_crypto c = Inr X"
  shows "valid_key xor_crypto c" "valid_key xor_crypto X"
proof -
  obtain par kc pp where l: "DeriveXprv_loop xor_crypto (replicate 64 0) (drop 1 (ek_Key sample_root) @ ek_Chaincode sample_root) [KEY_HARDENED] = Inr (par, kc)"
      and c: "c = \<lparr>ek_Version = VersionMainnetPrivate, ek_Depth = of_nat (length [KEY_HARDENED]) + ek_Depth sample_root,
        ek_Fingerprint = take 4 (hash160 xor_crypto (take 33 pp)), ek_ChildNum = serializeUint32 (last [KEY_HARDENED]),
        ek_Chaincode = drop 32 kc, ek_Key = 0 # take 32 kc\<rparr>"
    using DeriveXprv_okE [OF assms(1)] by blast
  have nz: "take 32 kc \<noteq> replicate 32 0" using sample_account_scalar l by simp
  have r: "replicate 33 (0 :: byte) = 0 # replicate 32 0" by (simp add: numeral_eq_Suc)
  show "valid_key xor_crypto c" using nz by (simp add: valid_key_def c rootKey_def Let_def xor_crypto_def r)
  have wf: "wf_ExtendedKey X"
    using wf_DeriveXprv [OF xor_crypto_ok wf_rootKey [OF xor_crypto_ok] assms(1)] wf_XpubFromXprv [OF xor_crypto_ok _ assms(2)] by blast
  show "valid_key xor_crypto X"
    using assms(2) by (auto simp: valid_key_def c XpubFromXprv_def pubFromPriv_def compressedFromBasePointMul_def rbind_ok_iff rootKey_def Let_def
        xor_crypto_def r)
qed

section \<open>Properties\<close>

text \<open>C34. Paths are read as they are printed: every list of indexes, hardened or not, written as \<open>m/84h/0h/1\<close>, is what
  \<open>parseDerivationPath\<close> returns for it.\<close>

theorem path_roundtrip: "parseDerivationPath U (showPath path) = Inr path"
  by (rule parse_showPath)


text \<open>C32. The account keys printed for a path have the addresses of the seed. For every second part \<open>q\<close> that is not empty,
  hardened or not, the derivation of the printed private key along \<open>q\<close> prints the private key that the seed has at the whole
  path, whenever that printed key passes \<open>ExtendedDecode\<close>. For the printed public key the same holds of every derivation
  that returns, if \<open>q\<close> has no hardened step and at least two steps; for one step the parent fingerprint differs
  (\<open>bip32.go\<close>, line 153).\<close>

theorem account_key_of_seed:
  assumes "crypto_ok C" "curve_ok C" "q \<noteq> []"
    and "DeriveSeedStr C U seed (showPath p) = Inr (xpub, xprv)" "DeriveSeedStr C U seed (showPath (p @ q)) = Inr (xpub', xprv')"
  shows "DeriveXprvStr C U xprv (showPath q) = rbind (ExtendedDecode C xprv) (\<lambda>_. Inr xprv')
    \<and> (list_all unhardened q \<and> 1 < length q \<and> DeriveXpubStr C U xpub (showPath q) = Inr x \<longrightarrow> x = xpub')"
proof -
  obtain c X where c: "DeriveXprv C (rootKey C seed) p = Inr c" "XpubFromXprv C c = Inr X" "xpub = ExtendedEncode X" "xprv = ExtendedEncode c"
    by (rule DeriveSeedStr_showPath [OF assms(4)])
  obtain c' Y where c': "DeriveXprv C (rootKey C seed) (p @ q) = Inr c'" "XpubFromXprv C c' = Inr Y" "xpub' = ExtendedEncode Y" "xprv' = ExtendedEncode c'"
    by (rule DeriveSeedStr_showPath [OF assms(5)])
  have wf: "wf_ExtendedKey c" "wf_ExtendedKey X"
    using wf_DeriveXprv [OF assms(1) wf_rootKey [OF assms(1)] c(1)] wf_XpubFromXprv [OF assms(1) _ c(2)] by blast+
  have cq: "DeriveXprv C c q = Inr c'"
    using DeriveXprv_append [OF assms(1) wf_rootKey [OF assms(1)] c(1) assms(3)] c'(1) by simp
  have "DeriveXprvStr C U xprv (showPath q) = rbind (ExtendedDecode C xprv) (\<lambda>_. Inr xprv')"
  proof (cases "ExtendedDecode C xprv")
    case (Inr k)
    then have "k = c" using ExtendedDecode_Encode [OF wf(1)] c(4) by blast
    with Inr show ?thesis by (simp add: DeriveXprvStr_def parse_showPath cq c'(4))
  qed (simp add: DeriveXprvStr_def parse_showPath)
  moreover have "x = xpub'" if u: "list_all unhardened q" "1 < length q" "DeriveXpubStr C U xpub (showPath q) = Inr x"
  proof -
    obtain Z where Z: "DeriveXpub C X q = Inr Z" "x = ExtendedEncode Z"
      using u(3) wf(2) by (auto simp: DeriveXpubStr_def rbind_ok_iff parse_showPath c(3) dest!: ExtendedDecode_Encode)
    have "Z = Y" using derive_agree [OF assms(1,2) wf(1) assms(3) u(1) cq c(2) c'(2) Z(1)] u(2) by blast
    then show ?thesis using Z(2) c'(3) by simp
  qed
  ultimately show ?thesis by blast
qed

text \<open>On the stand-in curve: an account key at \<open>m/0h\<close>, its private half followed along the hardened step \<open>1h\<close> and along \<open>0/5\<close>,
  its public half along \<open>0/5\<close>.\<close>

theorem account_key_of_seed_witness:
  "\<exists>xpub xprv x y y'. DeriveSeedStr xor_crypto id [1, 2, 3] (showPath [KEY_HARDENED]) = Inr (xpub, xprv)
     \<and> DeriveXpubStr xor_crypto id xpub (showPath [0, 5]) = Inr x \<and> DeriveXprvStr xor_crypto id xprv (showPath [0, 5]) = Inr y
     \<and> DeriveSeedStr xor_crypto id [1, 2, 3] (showPath ([KEY_HARDENED] @ [0, 5])) = Inr (x, y)
     \<and> DeriveXprvStr xor_crypto id xprv (showPath [KEY_HARDENED + 1]) = Inr y'
     \<and> rbind (DeriveSeedStr xor_crypto id [1, 2, 3] (showPath ([KEY_HARDENED] @ [KEY_HARDENED + 1]))) (\<lambda>r. Inr (snd r)) = Inr y'"
proof -
  have u: "list_all unhardened [0, 5]" by (simp add: unhardened_def KEY_HARDENED_def)
  obtain c where c: "DeriveXprv xor_crypto sample_root [KEY_HARDENED] = Inr c" using xor_DeriveXprv by blast
  then obtain X where X: "XpubFromXprv xor_crypto c = Inr X" using xor_XpubFromXprv derived_versions(1) by blast
  have wf: "wf_ExtendedKey c" "wf_ExtendedKey X"
    using wf_DeriveXprv [OF xor_crypto_ok wf_rootKey [OF xor_crypto_ok] c] wf_XpubFromXprv [OF xor_crypto_ok _ X] by blast+
  note k = wf [THEN Extended_roundtrip] sample_account [OF c X]
  have s: "DeriveSeedStr xor_crypto id [1, 2, 3] (showPath [KEY_HARDENED]) = Inr (ExtendedEncode X, ExtendedEncode c)"
    using c X by (simp add: DeriveSeedStr_def DeriveSeed_def parse_showPath)
  have seed: "\<exists>x y. DeriveSeedStr xor_crypto id [1, 2, 3] (showPath ([KEY_HARDENED] @ q)) = Inr (x, y)" for q
  proof -
    obtain d where d: "DeriveXprv xor_crypto sample_root ([KEY_HARDENED] @ q) = Inr d" using xor_DeriveXprv by blast
    have "ek_Version d = VersionMainnetPrivate" by (rule derived_versions(1) [OF d]) simp
    then obtain Y where "XpubFromXprv xor_crypto d = Inr Y" using xor_XpubFromXprv by blast
    with d show ?thesis by (simp only: DeriveSeedStr_def DeriveSeed_def parse_showPath rbind_simps prod.case) blast
  qed
  have dec: "ExtendedDecode xor_crypto (ExtendedEncode c) = Inr c" using k by (simp add: ExtendedDecode_ok_iff)
  obtain x y where s1: "DeriveSeedStr xor_crypto id [1, 2, 3] (showPath ([KEY_HARDENED] @ [0, 5])) = Inr (x, y)" using seed by blast
  obtain x' y' where s2: "DeriveSeedStr xor_crypto id [1, 2, 3] (showPath ([KEY_HARDENED] @ [KEY_HARDENED + 1])) = Inr (x', y')"
    using seed by blast
  obtain Z where Z: "DeriveXpub xor_crypto X [0, 5] = Inr Z" using xor_DeriveXpub [OF _ u] wf(2) by (auto simp: wf_ExtendedKey_def)
  have pub: "DeriveXpubStr xor_crypto id (ExtendedEncode X) (showPath [0, 5]) = Inr (ExtendedEncode Z)"
    using k Z by (simp add: DeriveXpubStr_def parse_showPath rbind_ok_iff ExtendedDecode_ok_iff)
  note t = account_key_of_seed [OF xor_crypto_ok xor_curve_ok _ s]
  have "DeriveXprvStr xor_crypto id (ExtendedEncode c) (showPath [0, 5]) = Inr y \<and> ExtendedEncode Z = x"
    using t [OF _ s1, of "ExtendedEncode Z"] u pub by (simp add: dec)
  moreover have "DeriveXprvStr xor_crypto id (ExtendedEncode c) (showPath [KEY_HARDENED + 1]) = Inr y'"
    using t [OF _ s2] by (simp add: dec)
  ultimately show ?thesis using s s1 s2 pub by auto
qed

end
