(* ===== verification/Shutdown.thy ===== *)
theory Shutdown
  imports Prelude
begin

text \<open>
  The end of the process: the goroutine of \<open>main.run\<close> from the moment the wallet manager exists (\<open>electrum.ListenAndServe\<close>,
  \<open>Server.Wait\<close>, \<open>Server.Close\<close>, the deferred \<open>W.Close\<close>), the accept loop of the server, and the goroutine that \<open>walletmanager.New\<close>
  starts, as an interleaving of atomic steps. Contexts and channels that are only ever closed are booleans; a \<open>select\<close> with several
  cases that are ready may take any of them.

  Shown: after a signal the process always ends, whatever the other goroutines do; and it never waits for them, because both
  \<open>Close\<close> methods are called with the context that the signal has cancelled.
\<close>

section \<open>State\<close>

datatype main_pc =
    AtListen                      \<comment> \<open>before \<open>jsonrpc.NewServer\<close>\<close>
  | AtWait                        \<comment> \<open>\<open>srv.Wait(ctx)\<close>\<close>
  | AtServerClose                 \<comment> \<open>the \<open>select\<close> of \<open>srv.Close(ctx)\<close>\<close>
  | AtDefer "unit result"         \<comment> \<open>before the deferred \<open>w.Close(ctx)\<close>\<close>
  | AtWClose "unit result"        \<comment> \<open>its \<open>select\<close>\<close>
  | Exited "unit result"

datatype wallet_pc = WInit | WIdle | WRound | WDone   \<comment> \<open>first round, waiting for the ticker, in a round, \<open>done\<close> closed\<close>

datatype accept_pc = SNone | SAccept | SDone         \<comment> \<open>not started, in the accept loop, \<open>done\<close> closed\<close>

record proc =
  pr_signal :: bool                \<comment> \<open>the context of \<open>signal.NotifyContext\<close> is cancelled\<close>
  pr_main :: main_pc
  pr_server :: accept_pc
  pr_sctx :: bool                  \<comment> \<open>\<open>s.cancel\<close> has been called\<close>
  pr_wallet :: wallet_pc
  pr_wctx :: bool                  \<comment> \<open>\<open>w.cancel\<close> has been called\<close>
  pr_init :: bool                  \<comment> \<open>\<open>initCompleted\<close> is closed\<close>

definition started_proc :: proc where
  "started_proc = \<lparr>pr_signal = False, pr_main = AtListen, pr_server = SNone, pr_sctx = False, pr_wallet = WInit,
     pr_wctx = False, pr_init = False\<rparr>"

section \<open>Steps\<close>

text \<open>A \<open>select\<close> between a channel \<open>done\<close> and the end of a context.\<close>

inductive waits :: "bool \<Rightarrow> bool \<Rightarrow> error \<Rightarrow> unit result \<Rightarrow> bool" where
  is_done: "waits True ctx e (Inr ())"
| timed_out: "waits done True e (Inl e)"

text \<open>\<open>W.WaitInit\<close> of a caller with its own context.\<close>

definition WaitInit :: "proc \<Rightarrow> bool \<Rightarrow> unit result \<Rightarrow> bool" where
  "WaitInit s ctx r = waits (pr_init s) ctx (Err ''timed out while initializing'') r"

text \<open>\<open>Server.Wait\<close>; \<open>Server.Close\<close> and \<open>W.Close\<close>, which cancel a context first and then wait.\<close>

definition Server_Wait :: "proc \<Rightarrow> bool" where
  "Server_Wait s \<longleftrightarrow> pr_server s = SDone \<or> pr_signal s"

definition Server_Close :: "proc \<Rightarrow> unit result \<Rightarrow> bool" where
  "Server_Close s r = waits (pr_server s = SDone) (pr_signal s) (Err ''context canceled'') r"

definition W_Close :: "proc \<Rightarrow> unit result \<Rightarrow> bool" where
  "W_Close s r = waits (pr_wallet s = WDone) (pr_signal s) (Err ''timed out while closing'') r"

text \<open>\<open>ListenAndServe\<close> and what follows it in \<open>main.run\<close>. The result of \<open>W.Close\<close> is not looked at.\<close>

inductive main_step :: "proc \<Rightarrow> proc \<Rightarrow> bool" where
  NewServer_ok: "pr_main s = AtListen \<Longrightarrow> main_step s (s\<lparr>pr_main := AtWait, pr_server := SAccept\<rparr>)"
| NewServer_err: "pr_main s = AtListen \<Longrightarrow> main_step s (s\<lparr>pr_main := AtDefer (Inl e)\<rparr>)"
| Wait_returns: "pr_main s = AtWait \<Longrightarrow> Server_Wait s \<Longrightarrow> main_step s (s\<lparr>pr_main := AtServerClose, pr_sctx := True\<rparr>)"
| Close_returns: "pr_main s = AtServerClose \<Longrightarrow> Server_Close s r \<Longrightarrow> main_step s (s\<lparr>pr_main := AtDefer r\<rparr>)"
| W_cancels: "pr_main s = AtDefer r \<Longrightarrow> main_step s (s\<lparr>pr_main := AtWClose r, pr_wctx := True\<rparr>)"
| W_Close_returns: "pr_main s = AtWClose r \<Longrightarrow> W_Close s q \<Longrightarrow> main_step s (s\<lparr>pr_main := Exited r\<rparr>)"

text \<open>The accept loop tests the context after \<open>Accept\<close> has returned; the loop of the wallet manager takes the ticker or the end of its context.\<close>

inductive other_step :: "proc \<Rightarrow> proc \<Rightarrow> bool" where
  signalled: "other_step s (s\<lparr>pr_signal := True\<rparr>)"
| accept_ends: "pr_server s = SAccept \<Longrightarrow> pr_sctx s \<or> pr_signal s \<Longrightarrow> other_step s (s\<lparr>pr_server := SDone\<rparr>)"
| first_round: "pr_wallet s = WInit \<Longrightarrow> other_step s (s\<lparr>pr_wallet := WIdle, pr_init := True\<rparr>)"
| tick: "pr_wallet s = WIdle \<Longrightarrow> other_step s (s\<lparr>pr_wallet := WRound\<rparr>)"
| round_done: "pr_wallet s = WRound \<Longrightarrow> other_step s (s\<lparr>pr_wallet := WIdle\<rparr>)"
| round_fails: "pr_wallet s \<in> {WInit, WRound} \<Longrightarrow> other_step s (s\<lparr>pr_wallet := WDone\<rparr>)"
| run_ends: "pr_wallet s = WIdle \<Longrightarrow> pr_wctx s \<or> pr_signal s \<Longrightarrow> other_step s (s\<lparr>pr_wallet := WDone\<rparr>)"

inductive proc_reach :: "proc \<Rightarrow> bool" where
  begin_proc: "proc_reach started_proc"
| main: "proc_reach s \<Longrightarrow> main_step s s' \<Longrightarrow> proc_reach s'"
| other: "proc_reach s \<Longrightarrow> other_step s s' \<Longrightarrow> pr_main s \<notin> range Exited \<Longrightarrow> proc_reach s'"

inductive_cases main_stepE: "main_step s s'"
inductive_cases other_stepE: "other_step s s'"

section \<open>Invariants\<close>

text \<open>Once clients are served, the process leaves \<open>Wait\<close> only after a signal: nothing else ends the accept loop.\<close>

definition served :: "proc \<Rightarrow> bool" where
  "served s \<longleftrightarrow> pr_server s \<noteq> SNone"

definition proc_inv :: "proc \<Rightarrow> bool" where
  "proc_inv s \<longleftrightarrow> (pr_main s = AtListen \<longrightarrow> \<not> served s \<and> \<not> pr_sctx s) \<and> (pr_main s = AtWait \<longrightarrow> served s \<and> \<not> pr_sctx s)
     \<and> (served s \<and> pr_main s \<noteq> AtWait \<longrightarrow> pr_signal s) \<and> (pr_server s = SDone \<longrightarrow> pr_signal s)
     \<and> (pr_sctx s \<longrightarrow> pr_signal s)
     \<and> ((\<exists>r. pr_main s = Exited r) \<longrightarrow> pr_wctx s \<and> (pr_wallet s = WDone \<or> pr_signal s) \<and> (served s \<longrightarrow> pr_sctx s))
     \<and> ((\<exists>r. pr_main s = AtDefer r \<or> pr_main s = AtWClose r) \<and> served s \<longrightarrow> pr_sctx s) \<and> (pr_main s = AtServerClose \<longrightarrow> pr_sctx s \<and> served s)
     \<and> ((\<exists>r. pr_main s = AtWClose r) \<longrightarrow> pr_wctx s) \<and> (pr_init s \<longrightarrow> pr_wallet s \<noteq> WInit)"

lemma proc_reach_inv: "proc_reach s \<Longrightarrow> proc_inv s"
proof (induction rule: proc_reach.induct)
  case begin_proc
  show ?case by (simp add: proc_inv_def started_proc_def served_def)
next
  case (main s s')
  from main.hyps(2) main.IH show ?case
    by (cases rule: main_step.cases) (auto simp: proc_inv_def served_def Server_Wait_def Server_Close_def W_Close_def elim: waits.cases)
next
  case (other s s')
  from other.hyps(2,3) other.IH show ?case
    by (cases rule: other_step.cases) (auto simp: proc_inv_def served_def)
qed

text \<open>The first round has ended without an error when \<open>WaitInit\<close> returns nil.\<close>

lemma WaitInit_ok: "proc_reach s \<Longrightarrow> WaitInit s False r \<Longrightarrow> r = Inr () \<and> pr_wallet s \<noteq> WInit"
  using proc_reach_inv [of s] by (simp add: WaitInit_def proc_inv_def waits.simps)

section \<open>The end\<close>

text \<open>What is left of a process that has been signalled: its own steps only.\<close>

abbreviation main_steps :: "proc \<Rightarrow> proc \<Rightarrow> bool" where
  "main_steps \<equiv> main_step\<^sup>*\<^sup>*"

lemma defer_exits:
  assumes "pr_signal s" "pr_main s = AtDefer r"
  shows "\<exists>s'. main_steps s s' \<and> pr_main s' = Exited r \<and> pr_server s' = pr_server s \<and> pr_wallet s' = pr_wallet s"
proof -
  let ?t = "s\<lparr>pr_main := AtWClose r, pr_wctx := True\<rparr>"
  have "main_step s ?t" by (rule W_cancels [OF assms(2)])
  moreover have "main_step ?t (?t\<lparr>pr_main := Exited r\<rparr>)"
    by (rule W_Close_returns [where q = "Inl (Err ''timed out while closing'')"]) (simp_all add: W_Close_def assms(1) timed_out)
  ultimately have "main_steps s (?t\<lparr>pr_main := Exited r\<rparr>)" by (metis converse_rtranclp_into_rtranclp r_into_rtranclp)
  then show ?thesis by (intro exI [of _ "?t\<lparr>pr_main := Exited r\<rparr>"]) simp
qed

lemma signalled_exits:
  assumes "pr_signal s" "pr_main s = AtWait"
  shows "\<exists>s'. main_steps s s' \<and> pr_main s' = Exited (Inl (Err ''context canceled'')) \<and> pr_server s' = pr_server s \<and> pr_wallet s' = pr_wallet s"
proof -
  let ?t = "s\<lparr>pr_main := AtServerClose, pr_sctx := True\<rparr>" and ?r = "Inl (Err ''context canceled'') :: unit result"
  have a: "main_step s ?t" by (rule Wait_returns [OF assms(2)]) (simp add: Server_Wait_def assms(1))
  have b: "main_step ?t (?t\<lparr>pr_main := AtDefer ?r\<rparr>)"
    by (rule Close_returns) (simp_all add: Server_Close_def assms(1) timed_out)
  obtain s' where "main_steps (?t\<lparr>pr_main := AtDefer ?r\<rparr>) s'" "pr_main s' = Exited ?r" "pr_server s' = pr_server s" "pr_wallet s' = pr_wallet s"
    using defer_exits [of "?t\<lparr>pr_main := AtDefer ?r\<rparr>" ?r] assms(1) by auto
  with a b show ?thesis by (meson converse_rtranclp_into_rtranclp)
qed

section \<open>Properties\<close>

text \<open>C27. A signal ends the process, and nothing is waited for: while clients are served, the process can leave \<open>Wait\<close> only after a
  signal, and from then on its own steps lead to the end whatever state the accept loop and the wallet manager are in, with the
  error of the cancelled context and without either of them having moved, although \<open>Close\<close> is there to wait for them.\<close>

theorem signal_ends_process:
  assumes "proc_reach s" "pr_server s \<noteq> SNone"
  shows "(pr_main s \<noteq> AtWait \<longrightarrow> pr_signal s)
    \<and> (pr_signal s \<and> pr_main s = AtWait \<longrightarrow> (\<exists>s'. main_steps s s' \<and> pr_main s' = Exited (Inl (Err ''context canceled''))
        \<and> pr_server s' = pr_server s \<and> pr_wallet s' = pr_wallet s))"
  using proc_reach_inv [OF assms(1)] signalled_exits [of s] assms(2) by (simp add: proc_inv_def served_def)

theorem signal_ends_process_witness:
  "\<exists>s s'. proc_reach s \<and> pr_wallet s = WRound \<and> pr_server s = SAccept \<and> main_steps s s'
     \<and> pr_main s' = Exited (Inl (Err ''context canceled'')) \<and> pr_server s' = SAccept \<and> pr_wallet s' = WRound"
proof -
  let ?a = "started_proc\<lparr>pr_main := AtWait, pr_server := SAccept\<rparr>"
  let ?b = "?a\<lparr>pr_wallet := WIdle, pr_init := True\<rparr>"
  let ?c = "?b\<lparr>pr_wallet := WRound\<rparr>"
  let ?d = "?c\<lparr>pr_signal := True\<rparr>"
  have "proc_reach ?a" by (rule main [OF begin_proc NewServer_ok]) (simp add: started_proc_def)
  then have "proc_reach ?b" by (rule other [OF _ first_round]) (simp_all add: started_proc_def image_iff)
  then have "proc_reach ?c" by (rule other [OF _ tick]) (simp_all add: image_iff)
  then have d: "proc_reach ?d" by (rule other [OF _ signalled]) (simp add: image_iff)
  from signal_ends_process [OF d] obtain s' where "main_steps ?d s'" "pr_main s' = Exited (Inl (Err ''context canceled''))"
      "pr_server s' = SAccept" "pr_wallet s' = WRound" by (auto simp: image_iff)
  with d show ?thesis by (intro exI [of _ ?d] exI [of _ s']) simp
qed

end
