(* ===== verification/Spec2Isabelle.thy ===== *)
theory Spec2Isabelle
  imports RpcClient Layers Bip32Text Shutdown
begin

text \<open>
  A verification of \<open>eps-go\<close>, an Electrum personal server: a process that follows a Bitcoin node, keeps the histories and the
  unspent outputs of the scripts of some wallets in a database, and serves them to Electrum clients by JSON-RPC.

  The program and the theories that model it. A definition has the name of the Go function it models where HOL allows it; its state
  is passed explicitly, an error is a value (\<open>Inl\<close> of the type \<open>error\<close>) and a panic is the error \<open>ErrPanic\<close>.

  \<^item> Foundations: \<open>Prelude\<close> (results, outcomes with a state, index expressions of Go, lists as tables), \<open>Sha256\<close> (SHA-256).
    What a digest binds is stated as an equivalence: equal digests mean equal data or a collision of the two strings that were
    hashed, which the statement names (\<open>collides\<close>).
  \<^item> \<open>bitcoin/types.go\<close>: \<open>Codec\<close> (integers and compact sizes as bytes), \<open>BitcoinTypes\<close> (transactions, headers, blocks).
    Round trips of every format, and what a transaction identifier binds (\<open>Txid_binds\<close>). A count
    that no slice can hold is a panic (\<open>makeSlice\<close>), which one request of a client can bring about (\<open>broadcast_ends_process\<close>).
  \<^item> \<open>bitcoin/types.go\<close> and \<open>bitcoin/client.go\<close>, the protocol of the node: \<open>NodeMessages\<close> (the envelope with its checksum and
    the payloads), \<open>NodeClient\<close> (handshake, reader, writer, \<open>mux\<close>, and the callers of \<open>GetHeaders\<close>, \<open>GetBlock\<close> and \<open>BroadcastWTX\<close> as
    an interleaving of steps), \<open>NodeProperties\<close> (what calls return comes from the stream; what is sent; how \<open>mux\<close> is blocked for ever).
  \<^item> \<open>bitcoin/bip32\<close>, \<open>bitcoin/base58\<close>, \<open>bitcoin/scriptpubkey\<close>: \<open>Bip32\<close>, \<open>Base58\<close>, \<open>ScriptPubkey\<close>. The curve and the hashes other
    than SHA-256 are the parameter \<open>crypto\<close> with their documented laws (\<open>crypto_ok\<close>, \<open>curve_ok\<close>). \<open>Bip32Text\<close> adds the operations on
    text: paths are read back as printed, the checked decoder accepts exactly the texts of valid keys, each in its one Base58Check
    form, and the account keys printed from a seed derive the keys of the seed.
  \<^item> \<open>walletmanager/walletmanager.go\<close>, Merkle trees: \<open>Merkle\<close>. Proofs made verify, and what two proofs
    accepted for one root hash is the same or collides.
  \<^item> \<open>walletmanager/repository.go\<close>: \<open>Repository\<close>, \<open>RepositoryFacts\<close>. The tables of the schema are lists of rows; each method is the
    function its SQL statement computes, with the uniqueness constraints, and the cache of unspent outputs beside the table.
  \<^item> \<open>walletmanager.go\<close>, set-up of wallets and the index of scripts: \<open>Wallet\<close>. The invariant \<open>spk_inv\<close>: the index holds exactly the
    scripts derived so far.
  \<^item> \<open>walletmanager.go\<close>, queries, subscriptions, \<open>processBlock\<close>: \<open>WalletManager\<close>; facts in \<open>BlockProcessing\<close> (an abstract ledger
    and the simulation) and \<open>BlockProgress\<close> (no error and no panic; histories; notifications).
  \<^item> \<open>walletmanager.go\<close>, synchronisation and reorganisations: \<open>Sync\<close>; facts in \<open>SyncFacts\<close>, \<open>SyncRuns\<close>, \<open>Service\<close>, \<open>Rollback\<close>,
    \<open>Reorg\<close> and \<open>SyncProperties\<close>. The node is the parameter \<open>node\<close>: what it answers to each call and when the context is cancelled.
    \<open>NodeProperties.peer\<close> is its instance by the model of the node client, and \<open>stream_to_chain\<close> the composition;
    \<open>Restarts\<close> adds \<open>New\<close> and the lives of the process over one database, each ended between two rounds or killed in one
    (\<open>program_chain\<close>); \<open>Persistence\<close> shows that a new life continues every wallet from its stored row, which
    between rounds and at every commit inside one is where the last life was (\<open>restart_resumes\<close>). \<open>SyncLedger\<close> and \<open>Layers\<close> compose blocks to pages, pages and
    reorganisations to rounds and rounds to the service: whenever clients are served, the unspent outputs are what one run of the
    ledger over the present chain makes of none (\<open>served_ledger\<close>).
  \<^item> \<open>jsonrpc/types.go\<close> and the bytes of messages: \<open>Json\<close>, \<open>JsonFacts\<close> (\<open>encoding/json\<close> at the level of bytes), \<open>Jsonrpc\<close>.
  \<^item> \<open>electrum/\<close>: \<open>Handlers\<close> and \<open>HandlerFacts\<close> (all methods of the protocol and the closures that handlers register),
    \<open>Clients\<close> and \<open>ClientProperties\<close> (rounds of synchronisation interleaved with requests and departures of connections).
  \<^item> \<open>jsonrpc/server.go\<close>: \<open>Server\<close> and \<open>ServerProperties\<close> (the goroutines of the server as an interleaving of steps;
    \<open>block_notifies_clients\<close> follows a block to the channel of a connection, which holds one notification and drops the next).
  \<^item> \<open>jsonrpc/client.go\<close>: \<open>JsonWire\<close> (what an encoder writes is what a decoder reads, up to compacted raw fields, for streams of
    messages), \<open>RpcClient\<close> (the goroutines of the client and its callers; the client and the server connected, \<open>rpc_end_to_end\<close>).
  \<^item> \<open>config.go\<close>, \<open>db.go\<close>, \<open>cmd/eps-go/main.go\<close>: \<open>Startup\<close> (the wallet lines of the
    environment in all their documented forms, \<open>getWallets_loads\<close>); from \<open>ListenAndServe\<close> to the end of the process: \<open>Shutdown\<close>.

  How the parts interact. \<open>Startup.run\<close> reads the wallets, opens the database and calls \<open>Wallet.New\<close>. \<open>Sync.syncRound\<close> is one turn
  of the loop of the wallet manager; it calls \<open>processBlock\<close> inside \<open>sqlExecute\<close>, and the callbacks that it reaches are recorded
  in order in the field \<open>sent\<close>. \<open>Handlers.OnRequest\<close> reads the same state under the lock, and a request is one atomic step. (The two
  handlers that read and then subscribe take the lock twice in the code, and a round may run in between; no statement depends on it.)
  \<open>Clients.system_step\<close> composes the two and is shown to refine \<open>Sync.service_step\<close>; \<open>Server.server_step\<close> adds the goroutines,
  channels and the delivery of the recorded callbacks by \<open>Notify\<close>. \<open>Shutdown\<close> abstracts all of them to when they end.

  Bounds and fuel. Loops that may run forever (\<open>syncHeaders\<close>, \<open>syncWallets\<close>, \<open>merkleRoot\<close>, \<open>derivePrivFromPriv\<close>) take fuel and return \<open>None\<close> when it is used up;
  that they return is proved with fuel that suffices (\<open>syncHeaders_catches_up\<close>, \<open>syncWallets_terminates\<close>, \<open>merkleRoot_returns_iff\<close>, \<open>derivePrivFromPriv_loop\<close>),
  and where they do not return that is proved too (\<open>syncWallets_negative_height_hangs\<close>). Machine integers are words where the
  code's arithmetic can wrap (indexes of derivation, amounts, connection numbers); heights, positions and lengths, which are Go \<open>int\<close>,
  are integers and stay far below \<open>2\<^sup>6\<^sup>3\<close>. Goroutines are interleaved in steps of which a schedule may take any, without fairness: what
  never happens is proved of every schedule, and that something can happen by a run.

  Not modelled: the SQL engine (its statements are), TLS and sockets, memory that runs out although the address space would do, the parser of the settings file and the directories of
  the platform (parameters), logging and the estimate of the remaining time that is only logged, the pool of buffers, the \<open>String\<close>
  methods of messages, which only logs use, and \<open>testutil\<close>, which holds helpers of tests.
\<close>

end
